(* ===== verification/Avid_Prelude.thy ===== *)
theory Avid_Prelude
  imports Main "HOL-Library.AList"
begin

section \<open>Shared vocabulary of the development\<close>

text \<open>
  Python values as the kernel of the program uses them, Python's \<open>str\<close> and \<open>repr\<close> of such
  values, insertion-ordered dictionaries, and the few facts on lists and lookups that several
  components share.

  Text is modelled over \<open>char\<close>, that is over the code points U+0000 to U+00FF; floats are not
  modelled. A dictionary is an association list in insertion order: \<open>map_of\<close> is \<open>d.get\<close>,
  \<open>AList.update\<close> is \<open>d[k] = v\<close> (an existing key keeps its place, a new one goes to the end)
  and \<open>AList.delete\<close> is \<open>d.pop(k, None)\<close>.
\<close>

named_theorems wf_intros \<open>preservation of the components' invariants\<close>
named_theorems run_simps \<open>evaluation of the components' operations\<close>

subsection \<open>Python values\<close>

datatype pyval =
    PNone
  | PBool bool
  | PInt int
  | PStr string
  | PList "pyval list"
  | PDict "(string \<times> pyval) list"

type_synonym pydict = "(string \<times> pyval) list"

text \<open>\<open>d.get(k)\<close>: a missing key reads as \<open>None\<close>.\<close>

definition dget :: "pydict \<Rightarrow> string \<Rightarrow> pyval" where
  "dget d k = (case map_of d k of None \<Rightarrow> PNone | Some v \<Rightarrow> v)"

text \<open>
  \<open>bool(v)\<close>; and \<open>isinstance(v, int)\<close> with the value it then compares as: \<open>bool\<close> is a subclass
  of \<open>int\<close>, so \<open>True\<close> passes the test and is equal to 1.
\<close>

fun truthy :: "pyval \<Rightarrow> bool" where
  "truthy PNone = False"
| "truthy (PBool b) = b"
| "truthy (PInt i) = (i \<noteq> 0)"
| "truthy (PStr s) = (s \<noteq> [])"
| "truthy (PList xs) = (xs \<noteq> [])"
| "truthy (PDict d) = (d \<noteq> [])"

fun as_int :: "pyval \<Rightarrow> int option" where
  "as_int (PInt i) = Some i"
| "as_int (PBool b) = Some (if b then 1 else 0)"
| "as_int _ = None"

fun as_str :: "pyval \<Rightarrow> string option" where
  "as_str (PStr s) = Some s"
| "as_str _ = None"

fun as_dict :: "pyval \<Rightarrow> pydict option" where
  "as_dict (PDict d) = Some d"
| "as_dict _ = None"

fun as_list :: "pyval \<Rightarrow> pyval list option" where
  "as_list (PList xs) = Some xs"
| "as_list _ = None"

lemma as_str_Some [simp]: "as_str v = Some s \<longleftrightarrow> v = PStr s"
  by (cases v) auto

lemma as_dict_Some [simp]: "as_dict v = Some d \<longleftrightarrow> v = PDict d"
  by (cases v) auto

lemma as_list_Some [simp]: "as_list v = Some xs \<longleftrightarrow> v = PList xs"
  by (cases v) auto

subsection \<open>Text\<close>

text \<open>
  \<open>str.split()\<close> and \<open>str.strip()\<close> without arguments cut at white space: in Latin-1 the code
  points 9 to 13, 28 to 32, 133 and 160.
\<close>

definition is_space :: "char \<Rightarrow> bool" where
  "is_space c = (let n = (of_char c :: nat) in
     (9 \<le> n \<and> n \<le> 13) \<or> (28 \<le> n \<and> n \<le> 32) \<or> n = 133 \<or> n = 160)"

fun split_words :: "string \<Rightarrow> string \<Rightarrow> string list" where
  "split_words acc [] = (if acc = [] then [] else [rev acc])"
| "split_words acc (c # cs) =
     (if is_space c then (if acc = [] then split_words [] cs else rev acc # split_words [] cs)
      else split_words (c # acc) cs)"

definition py_split :: "string \<Rightarrow> string list" where "py_split s = split_words [] s"

definition py_strip :: "string \<Rightarrow> string" where
  "py_strip s = rev (dropWhile is_space (rev (dropWhile is_space s)))"

text \<open>\<open>s.lower()\<close> of one Latin-1 character, \<open>s.startswith(p)\<close> and \<open>p in s\<close>.\<close>

definition lower_char :: "char \<Rightarrow> char" where
  "lower_char c =
     (let n = (of_char c :: nat)
      in if (65 \<le> n \<and> n \<le> 90) \<or> (192 \<le> n \<and> n \<le> 222 \<and> n \<noteq> 215) then char_of (n + 32) else c)"

definition has_prefix :: "string \<Rightarrow> string \<Rightarrow> bool" where
  "has_prefix p s \<longleftrightarrow> take (length p) s = p"

fun has_part :: "string \<Rightarrow> string \<Rightarrow> bool" where
  "has_part p [] = has_prefix p []"
| "has_part p (c # cs) = (has_prefix p (c # cs) \<or> has_part p cs)"

abbreviation LF :: char where "LF \<equiv> CHR 0x0A"

subsection \<open>Decimal numbers, str and repr\<close>

definition digit_char :: "nat \<Rightarrow> char" where
  "digit_char d = (char_of (48 + d) :: char)"

fun show_nat :: "nat \<Rightarrow> string" where
  "show_nat n = (if n < 10 then [digit_char n] else show_nat (n div 10) @ [digit_char (n mod 10)])"

declare show_nat.simps [simp del]

definition show_int :: "int \<Rightarrow> string" where
  "show_int i = (if i < 0 then CHR ''-'' # show_nat (nat (- i)) else show_nat (nat i))"

definition hex_char :: "nat \<Rightarrow> char" where
  "hex_char d = (if d < 10 then char_of (48 + d) else char_of (87 + d))"

fun join_with :: "string \<Rightarrow> string list \<Rightarrow> string" where
  "join_with sep [] = []"
| "join_with sep [x] = x"
| "join_with sep (x # y # ys) = x @ sep @ join_with sep (y # ys)"

text \<open>
  \<open>repr\<close> of a string takes double quotes only when the text has a single quote and no double one,
  and escapes what is not printable in Latin-1.
\<close>

definition repr_char :: "char \<Rightarrow> char \<Rightarrow> string" where
  "repr_char q c =
     (let n = (of_char c :: nat) in
      if c = q \<or> n = 92 then [CHR 0x5C, c]
      else if n = 10 then [CHR 0x5C, CHR ''n'']
      else if n = 13 then [CHR 0x5C, CHR ''r'']
      else if n = 9 then [CHR 0x5C, CHR ''t'']
      else if n < 32 \<or> (127 \<le> n \<and> n < 161) \<or> n = 173
        then [CHR 0x5C, CHR ''x'', hex_char (n div 16), hex_char (n mod 16)]
      else [c])"

definition repr_str :: "string \<Rightarrow> string" where
  "repr_str s =
     (let q = (if CHR 0x27 \<in> set s \<and> CHR 0x22 \<notin> set s
               then CHR 0x22 else CHR 0x27)
      in q # concat (map (repr_char q) s) @ [q])"

fun py_repr :: "pyval \<Rightarrow> string" where
  "py_repr PNone = ''None''"
| "py_repr (PBool b) = (if b then ''True'' else ''False'')"
| "py_repr (PInt i) = show_int i"
| "py_repr (PStr s) = repr_str s"
| "py_repr (PList xs) = ''['' @ join_with '', '' (map py_repr xs) @ '']''"
| "py_repr (PDict d) =
     ''{'' @ join_with '', '' (map (\<lambda>kv. repr_str (fst kv) @ '': '' @ py_repr (snd kv)) d) @ ''}''"

definition py_str :: "pyval \<Rightarrow> string" where
  "py_str v = (case v of PStr s \<Rightarrow> s | _ \<Rightarrow> py_repr v)"

lemma py_str_PStr [simp]: "py_str (PStr s) = s"
  by (simp add: py_str_def)

subsection \<open>The tool calls of a message\<close>

text \<open>Iterating a value: \<open>None\<close> is the \<open>TypeError\<close> of a value that is not iterable.\<close>

fun iter_of :: "pyval \<Rightarrow> pyval list option" where
  "iter_of (PList xs) = Some xs"
| "iter_of (PStr s) = Some (map (\<lambda>c. PStr [c]) s)"
| "iter_of (PDict d) = Some (map (\<lambda>kv. PStr (fst kv)) d)"
| "iter_of _ = None"

definition calls_of :: "pydict \<Rightarrow> pyval list option" where
  "calls_of m = (let v = dget m ''tool_calls'' in if truthy v then iter_of v else Some [])"

text \<open>
  \<open>str(call.get("id"))\<close> for every call; \<open>None\<close> is the exception of a call that is no object.
\<close>

definition call_ids :: "pydict \<Rightarrow> string list option" where
  "call_ids m =
     (case calls_of m of
        None \<Rightarrow> None
      | Some calls \<Rightarrow>
          those (map (\<lambda>c. case c of PDict d \<Rightarrow> Some (py_str (dget d ''id'')) | _ \<Rightarrow> None) calls))"

subsection \<open>Insertion-ordered dictionaries and lookups\<close>

lemma dget_update [simp]: "dget (AList.update k v d) k' = (if k = k' then v else dget d k')"
  by (simp add: dget_def update_conv')

lemma map_of_update_simp [simp]:
  "map_of (AList.update k v d) k' = (if k = k' then Some v else map_of d k')"
  by (simp add: update_conv')

lemma map_of_delete_simp [simp]:
  "map_of (AList.delete k d) k' = (if k = k' then None else map_of d k')"
  by (simp add: delete_conv')

lemma dget_Cons [simp]: "dget ((k', v) # d) k = (if k = k' then v else dget d k)"
  by (simp add: dget_def)

lemma dget_Nil [simp]: "dget [] k = PNone"
  by (simp add: dget_def)

subsection \<open>Results\<close>

lemma map_sum_Inl [simp]: "map_sum f g r = Inl e \<longleftrightarrow> (\<exists>e'. r = Inl e' \<and> e = f e')"
  by (cases r) auto

lemma map_sum_Inr [simp]: "map_sum f g r = Inr x \<longleftrightarrow> (\<exists>x'. r = Inr x' \<and> x = g x')"
  by (cases r) auto

subsection \<open>Lists\<close>

lemma take_filter_prefix:
  "take n (filter P xs) = filter P xs \<or> length (take n (filter P xs)) = n"
  by (cases "length (filter P xs) \<le> n") auto

lemma sorted_wrt_snoc_iff:
  "sorted_wrt R (xs @ [x]) \<longleftrightarrow> sorted_wrt R xs \<and> (\<forall>y\<in>set xs. R y x)"
  by (simp add: sorted_wrt_append)

end
