(* ===== verification/Session_Types.thy ===== *)
theory Session_Types
  imports Avid_Prelude
begin

section \<open>Session data structures\<close>

text \<open>
  The records and unions of \<open>avid/session/types.py\<close>, the value addresses of
  \<open>avid/session/values.py\<close> and the exception classes of \<open>avid/session/errors.py\<close>. An
  exception is a value of \<open>session_error\<close>; where one class is raised for several causes, the
  wording of its message is a datatype of causes.
\<close>

subsection \<open>Entries, writes, committed writes\<close>

definition MESSAGE_ENTRY :: string where "MESSAGE_ENTRY = ''message''"
definition NOTICE_ENTRY :: string where "NOTICE_ENTRY = ''notice''"
definition ERROR_ENTRY :: string where "ERROR_ENTRY = ''error''"
definition STORAGE_VERSION :: int where "STORAGE_VERSION = 1"

lemma entry_types_distinct [simp]:
  "MESSAGE_ENTRY \<noteq> NOTICE_ENTRY" "NOTICE_ENTRY \<noteq> MESSAGE_ENTRY"
  "ERROR_ENTRY \<noteq> MESSAGE_ENTRY" "ERROR_ENTRY \<noteq> NOTICE_ENTRY"
  by (simp_all add: MESSAGE_ENTRY_def NOTICE_ENTRY_def ERROR_ENTRY_def)

record entry =
  e_id :: string
  e_parent_id :: "string option"
  e_seq :: int
  e_timestamp :: int
  e_type :: string
  e_message :: "pydict option"

record new_entry =
  ne_id :: string
  ne_parent_id :: "string option"
  ne_type :: string
  ne_message :: "pydict option"

datatype session_write =
    EntryWrite new_entry
  | ValueSetWrite string string pyval
  | ValueDeleteWrite string string

datatype committed_write =
    CommittedEntry int int new_entry
  | CommittedValueSet int string string pyval
  | CommittedValueDelete int string string

fun cw_seq :: "committed_write \<Rightarrow> int" where
  "cw_seq (CommittedEntry seq _ _) = seq"
| "cw_seq (CommittedValueSet seq _ _ _) = seq"
| "cw_seq (CommittedValueDelete seq _ _) = seq"

record stored_value =
  sv_namespace :: string
  sv_key :: string
  sv_value :: pyval
  sv_seq :: int

subsection \<open>Queries and results\<close>

text \<open>\<open>desc\<close>/\<open>asc\<close> and \<open>newestFirst\<close>/\<open>oldestFirst\<close> are the two values of each order type.\<close>

datatype scan_order = Asc | Desc
datatype branch_order = NewestFirst | OldestFirst

record entry_query =
  eq_type :: "string option"
  eq_order :: scan_order
  eq_limit :: "int option"
  eq_cursor_seq :: "int option"

record branch_scan =
  bs_start :: "string option"
  bs_type :: "string option"
  bs_order :: branch_order
  bs_limit :: "int option"
  bs_cursor_seq :: "int option"

definition default_entry_query :: entry_query where
  "default_entry_query =
     \<lparr>eq_type = None, eq_order = Desc, eq_limit = None, eq_cursor_seq = None\<rparr>"

definition default_branch_scan :: branch_scan where
  "default_branch_scan =
     \<lparr>bs_start = None, bs_type = None, bs_order = NewestFirst, bs_limit = None,
      bs_cursor_seq = None\<rparr>"

record commit_result =
  cr_first_seq :: int
  cr_seqs :: "int list"
  cr_timestamp :: int
  cr_message_count :: nat

record prepared_commit =
  pc_writes :: "committed_write list"
  pc_first_seq :: int
  pc_seqs :: "int list"
  pc_timestamp :: int

record session_metadata =
  md_id :: string
  md_created_at :: int
  md_storage_version :: int
  md_parent_session_id :: "string option"
  md_workspace :: "string option"

subsection \<open>Exceptions\<close>

datatype invariant_cause =
    SeqNotMonotonic int int
  | DuplicateEntryId string
  | MissingParent string
  | BadHighWater int
  | ScanWithoutStart
  | UnknownStart string
  | BrokenChain string string
  | UnknownBranch string

datatype message_cause =
    MessageNotDict
  | BadRole
  | ToolWithoutCallId
  | CallWithoutId
  | BadContent
  | NotSerialisable

datatype storage_cause =
    HeaderNotJson | HeaderNotObject | HeaderBadKind | HeaderBadVersion | HeaderNoId
  | HeaderBadStorageVersion | HeaderBadCreatedAt | HeaderBadParent | HeaderBadNextSeq
  | HeaderBadWorkspace | HeaderMissing
  | WriteNotObject | WriteBadSeq | EntryNoId | EntryBadParent | EntryNoType | EntryBadTimestamp
  | EntryBadMessage | ValueBadNamespace | ValueBadKey | ValueBadOp | WriteBadKind
  | TransactionNotJson | TransactionEmpty
  | BadLine nat
  | WriteFailed | WriteShort | FsyncFailed | CannotEncode
  | Unreadable | LockUnavailable | PublishFailed | ForeignWorkspace | IdMismatch | UnknownStorageVersion

datatype session_error =
    SessionMisuse
  | SessionNotFoundError string
  | SessionExistsError string
  | SessionAlreadyOpenError string
  | SessionClosedError
  | SessionBusyError
  | SessionLockedError string
  | SessionInvariantError invariant_cause
  | SessionStorageError storage_cause
  | SessionInvalidIdError string
  | SessionInvalidBranchError string
  | SessionBranchExistsError string
  | SessionUnknownTargetError string
  | SessionInvalidMessageError message_cause
  | PyTypeError

subsection \<open>Value addresses\<close>

type_synonym value_address = "string \<times> string"

definition SESSION_NAME_NS :: string where "SESSION_NAME_NS = ''avid.session.name''"
definition ENTRY_LABEL_NS :: string where "ENTRY_LABEL_NS = ''avid.entry.label''"
definition BRANCH_TIP_NS :: string where "BRANCH_TIP_NS = ''avid.branch.tip''"
definition USAGE_NS :: string where "USAGE_NS = ''avid.usage''"
definition COMPACTION_NS :: string where "COMPACTION_NS = ''avid.compaction''"
definition PLAN_NS :: string where "PLAN_NS = ''avid.plan''"
definition DEFAULT_BRANCH :: string where "DEFAULT_BRANCH = ''main''"

lemmas namespace_defs =
  SESSION_NAME_NS_def ENTRY_LABEL_NS_def BRANCH_TIP_NS_def USAGE_NS_def COMPACTION_NS_def
  PLAN_NS_def

definition session_name :: value_address where "session_name = (SESSION_NAME_NS, '''')"
definition entry_label :: "string \<Rightarrow> value_address" where "entry_label i = (ENTRY_LABEL_NS, i)"
definition branch_tip :: "string \<Rightarrow> value_address" where "branch_tip b = (BRANCH_TIP_NS, b)"
definition branch_usage :: "string \<Rightarrow> value_address" where "branch_usage b = (USAGE_NS, b)"
definition branch_compaction :: "string \<Rightarrow> value_address" where
  "branch_compaction b = (COMPACTION_NS, b)"
definition branch_plan :: "string \<Rightarrow> value_address" where "branch_plan b = (PLAN_NS, b)"

definition set_value :: "value_address \<Rightarrow> pyval \<Rightarrow> session_write" where
  "set_value a v = ValueSetWrite (fst a) (snd a) v"

definition delete_value :: "value_address \<Rightarrow> session_write" where
  "delete_value a = ValueDeleteWrite (fst a) (snd a)"

lemmas address_defs =
  session_name_def entry_label_def branch_tip_def branch_usage_def branch_compaction_def
  branch_plan_def

text \<open>The addresses of different kinds never meet, and within a kind the key decides.\<close>

lemma address_eq [simp]:
  "branch_tip a = branch_tip b \<longleftrightarrow> a = b"
  "branch_usage a = branch_usage b \<longleftrightarrow> a = b"
  "branch_compaction a = branch_compaction b \<longleftrightarrow> a = b"
  "branch_plan a = branch_plan b \<longleftrightarrow> a = b"
  "entry_label a = entry_label b \<longleftrightarrow> a = b"
  by (simp_all add: address_defs)

lemma address_neq [simp]:
  "branch_tip a \<noteq> branch_usage b" "branch_tip a \<noteq> branch_compaction b"
  "branch_tip a \<noteq> branch_plan b" "branch_tip a \<noteq> entry_label c" "branch_tip a \<noteq> session_name"
  "branch_usage a \<noteq> branch_tip b" "branch_compaction a \<noteq> branch_tip b"
  "branch_plan a \<noteq> branch_tip b" "entry_label c \<noteq> branch_tip a" "session_name \<noteq> branch_tip a"
  "branch_compaction a \<noteq> branch_plan b" "branch_plan a \<noteq> branch_compaction b"
  "branch_usage a \<noteq> branch_plan b" "branch_plan a \<noteq> branch_usage b"
  "branch_usage a \<noteq> branch_compaction b" "branch_compaction a \<noteq> branch_usage b"
  by (simp_all add: address_defs namespace_defs)

end
