(* ===== verification/Session_State.thy ===== *)
theory Session_State
  imports Session_Types
begin

section \<open>Materialised session state\<close>

text \<open>
  The class \<open>SessionState\<close> of \<open>avid/session/state.py\<close>: entries, values and stats in memory.
  \<open>_entries\<close> is only looked up, so it is a map; \<open>_by_seq\<close> is a list in commit order;
  \<open>_values\<close> is an insertion-ordered dictionary. The deep copies of the read path are the
  identity here, since values are immutable. The branch scan follows parent pointers in a
  \<open>while\<close> loop; it is a \<open>partial_function\<close>, whose \<open>None\<close> is a walk that never returns.
\<close>

record session_state =
  st_entries :: "string \<Rightarrow> entry option"
  st_by_seq :: "entry list"
  st_values :: "((string \<times> string) \<times> stored_value) list"
  st_message_count :: nat
  st_next_seq :: int

definition init_state :: "int \<Rightarrow> session_state" where
  "init_state next_seq =
     \<lparr>st_entries = (\<lambda>_. None), st_by_seq = [], st_values = [], st_message_count = 0,
      st_next_seq = next_seq\<rparr>"

subsection \<open>Write path: prepare, validate, apply\<close>

fun assign_seqs :: "int \<Rightarrow> int \<Rightarrow> session_write list \<Rightarrow> committed_write list" where
  "assign_seqs seq ts [] = []"
| "assign_seqs seq ts (EntryWrite e # ws) = CommittedEntry seq ts e # assign_seqs (seq + 1) ts ws"
| "assign_seqs seq ts (ValueSetWrite ns k v # ws) =
     CommittedValueSet seq ns k v # assign_seqs (seq + 1) ts ws"
| "assign_seqs seq ts (ValueDeleteWrite ns k # ws) =
     CommittedValueDelete seq ns k # assign_seqs (seq + 1) ts ws"

fun validate_writes ::
  "(string \<Rightarrow> entry option) \<Rightarrow> int \<Rightarrow> string list \<Rightarrow> committed_write list \<Rightarrow> session_error option"
where
  "validate_writes es prev seen [] = None"
| "validate_writes es prev seen (w # ws) =
     (if cw_seq w \<le> prev then Some (SessionInvariantError (SeqNotMonotonic (cw_seq w) prev))
      else case w of
        CommittedEntry seq ts e \<Rightarrow>
          (if es (ne_id e) \<noteq> None \<or> ne_id e \<in> set seen
             then Some (SessionInvariantError (DuplicateEntryId (ne_id e)))
           else case ne_parent_id e of
             None \<Rightarrow> validate_writes es (cw_seq w) (ne_id e # seen) ws
           | Some p \<Rightarrow>
               (if es p = None \<and> p \<notin> set seen
                then Some (SessionInvariantError (MissingParent p))
                else validate_writes es (cw_seq w) (ne_id e # seen) ws))
      | _ \<Rightarrow> validate_writes es (cw_seq w) seen ws)"

definition validate_state :: "session_state \<Rightarrow> committed_write list \<Rightarrow> session_error option" where
  "validate_state st ws = validate_writes (st_entries st) (st_next_seq st - 1) [] ws"

definition prepare_commit ::
  "session_state \<Rightarrow> session_write list \<Rightarrow> int \<Rightarrow> session_error + prepared_commit" where
  "prepare_commit st ws ts =
     (let committed = assign_seqs (st_next_seq st) ts ws in
      case validate_state st committed of
        Some e \<Rightarrow> Inl e
      | None \<Rightarrow> Inr \<lparr>pc_writes = committed, pc_first_seq = st_next_seq st,
                      pc_seqs = map cw_seq committed, pc_timestamp = ts\<rparr>)"

definition entry_of :: "int \<Rightarrow> int \<Rightarrow> new_entry \<Rightarrow> entry" where
  "entry_of seq ts e =
     \<lparr>e_id = ne_id e, e_parent_id = ne_parent_id e, e_seq = seq, e_timestamp = ts,
      e_type = ne_type e, e_message = ne_message e\<rparr>"

fun apply_write :: "committed_write \<Rightarrow> session_state \<Rightarrow> session_state" where
  "apply_write (CommittedEntry seq ts ne) st =
     (let e = entry_of seq ts ne in
      st\<lparr>st_entries := (st_entries st)(e_id e \<mapsto> e),
         st_by_seq := st_by_seq st @ [e],
         st_message_count := st_message_count st + (if e_type e = MESSAGE_ENTRY then 1 else 0),
         st_next_seq := seq + 1\<rparr>)"
| "apply_write (CommittedValueSet seq ns k v) st =
     st\<lparr>st_values := AList.update (ns, k)
           \<lparr>sv_namespace = ns, sv_key = k, sv_value = v, sv_seq = seq\<rparr> (st_values st),
        st_next_seq := seq + 1\<rparr>"
| "apply_write (CommittedValueDelete seq ns k) st =
     st\<lparr>st_values := AList.delete (ns, k) (st_values st), st_next_seq := seq + 1\<rparr>"

definition apply_writes :: "committed_write list \<Rightarrow> session_state \<Rightarrow> session_state" where
  "apply_writes ws st = fold apply_write ws st"

definition advance_next_seq :: "int \<Rightarrow> session_state \<Rightarrow> session_error + session_state" where
  "advance_next_seq n st =
     (if n < 1 then Inl (SessionInvariantError (BadHighWater n))
      else Inr (st\<lparr>st_next_seq := max (st_next_seq st) n\<rparr>))"

subsection \<open>Read path\<close>

definition get_entries :: "session_state \<Rightarrow> string list \<Rightarrow> (string \<times> entry) list" where
  "get_entries st ids =
     fold (\<lambda>i found. case st_entries st i of None \<Rightarrow> found | Some e \<Rightarrow> AList.update i e found)
       ids []"

definition get_value :: "session_state \<Rightarrow> value_address \<Rightarrow> stored_value option" where
  "get_value st a = map_of (st_values st) a"

definition values_in :: "session_state \<Rightarrow> string \<Rightarrow> stored_value list" where
  "values_in st ns =
     sort_key sv_seq (filter (\<lambda>v. sv_namespace v = ns) (map snd (st_values st)))"

definition branch_match :: "entry \<Rightarrow> branch_scan \<Rightarrow> bool" where
  "branch_match e q =
     (if (case bs_type q of None \<Rightarrow> False | Some t \<Rightarrow> e_type e \<noteq> t) then False
      else case bs_cursor_seq q of
        None \<Rightarrow> True
      | Some c \<Rightarrow> (if bs_order q = OldestFirst then e_seq e > c else e_seq e < c))"

partial_function (option) branch_walk ::
  "session_state \<Rightarrow> branch_scan \<Rightarrow> entry \<Rightarrow> entry list \<Rightarrow> (session_error + entry list) option"
where
  "branch_walk st q cursor path =
     (let hit = branch_match cursor q;
          path' = (if hit then path @ [cursor] else path)
      in if hit \<and> bs_order q \<noteq> OldestFirst \<and>
            (case bs_limit q of None \<Rightarrow> False | Some n \<Rightarrow> int (length path') \<ge> max 0 n)
         then Some (Inr path')
         else case e_parent_id cursor of
           None \<Rightarrow> Some (Inr path')
         | Some p \<Rightarrow>
             (case st_entries st p of
                None \<Rightarrow> Some (Inl (SessionInvariantError (BrokenChain (e_id cursor) p)))
              | Some parent \<Rightarrow> branch_walk st q parent path'))"

declare branch_walk.simps [code]

definition page_of :: "int option \<Rightarrow> 'a list \<Rightarrow> 'a list" where
  "page_of limit xs = (case limit of None \<Rightarrow> xs | Some n \<Rightarrow> take (nat (max 0 n)) xs)"

definition scan_branch ::
  "session_state \<Rightarrow> branch_scan \<Rightarrow> (session_error + entry list) option" where
  "scan_branch st q =
     (case bs_start q of
        None \<Rightarrow> Some (Inl (SessionInvariantError ScanWithoutStart))
      | Some s \<Rightarrow>
          (case st_entries st s of
             None \<Rightarrow> Some (Inl (SessionInvariantError (UnknownStart s)))
           | Some start \<Rightarrow>
               (case branch_walk st q start [] of
                  None \<Rightarrow> None
                | Some (Inl e) \<Rightarrow> Some (Inl e)
                | Some (Inr path) \<Rightarrow>
                    (let filtered = (if bs_order q \<noteq> OldestFirst then path
                                     else filter (\<lambda>e. branch_match e q) (rev path))
                     in Some (Inr (page_of (bs_limit q) filtered))))))"

fun entry_walk :: "entry_query \<Rightarrow> entry list \<Rightarrow> entry list \<Rightarrow> entry list" where
  "entry_walk q [] found = found"
| "entry_walk q (e # es) found =
     (if (case eq_type q of None \<Rightarrow> False | Some t \<Rightarrow> e_type e \<noteq> t) then entry_walk q es found
      else if (case eq_cursor_seq q of
                 None \<Rightarrow> False
               | Some c \<Rightarrow> (eq_order q = Desc \<and> e_seq e \<ge> c) \<or> (eq_order q \<noteq> Desc \<and> e_seq e \<le> c))
      then entry_walk q es found
      else if (case eq_limit q of
                 None \<Rightarrow> False | Some n \<Rightarrow> int (length (found @ [e])) \<ge> max 0 n)
      then found @ [e]
      else entry_walk q es (found @ [e]))"

definition scan_entries :: "session_state \<Rightarrow> entry_query \<Rightarrow> entry list" where
  "scan_entries st q =
     entry_walk q (if eq_order q = Desc then rev (st_by_seq st) else st_by_seq st) []"


subsection \<open>The invariant of a state\<close>

definition entries_wf :: "session_state \<Rightarrow> bool" where
  "entries_wf st \<longleftrightarrow>
     sorted_wrt (<) (map e_seq (st_by_seq st)) \<and>
     (\<forall>i e. st_entries st i = Some e \<longleftrightarrow> e \<in> set (st_by_seq st) \<and> e_id e = i) \<and>
     (\<forall>e\<in>set (st_by_seq st). e_seq e < st_next_seq st) \<and>
     (\<forall>e\<in>set (st_by_seq st). \<forall>p. e_parent_id e = Some p \<longrightarrow>
        (\<exists>q. st_entries st p = Some q \<and> e_seq q < e_seq e)) \<and>
     st_message_count st = length (filter (\<lambda>e. e_type e = MESSAGE_ENTRY) (st_by_seq st))"

definition values_wf :: "session_state \<Rightarrow> bool" where
  "values_wf st \<longleftrightarrow>
     distinct (map fst (st_values st)) \<and>
     (\<forall>(a, v)\<in>set (st_values st). a = (sv_namespace v, sv_key v) \<and> sv_seq v < st_next_seq st) \<and>
     distinct (map (sv_seq \<circ> snd) (st_values st))"

definition state_wf :: "session_state \<Rightarrow> bool" where
  "state_wf st \<longleftrightarrow> entries_wf st \<and> values_wf st"

lemma state_wf_init [simp, wf_intros]: "state_wf (init_state n)"
  by (simp add: state_wf_def entries_wf_def values_wf_def init_state_def)

lemma entries_wf_lookup:
  "\<lbrakk>entries_wf st; st_entries st i = Some e\<rbrakk> \<Longrightarrow> e_id e = i \<and> e \<in> set (st_by_seq st)"
  by (auto simp: entries_wf_def)

lemma entries_wf_parent:
  "\<lbrakk>entries_wf st; st_entries st i = Some e; e_parent_id e = Some p\<rbrakk>
    \<Longrightarrow> \<exists>q. st_entries st p = Some q \<and> e_seq q < e_seq e"
  unfolding entries_wf_def by blast

text \<open>Whether a batch is valid depends on the ids known so far, not on where they are known from.\<close>

lemma validate_writes_cong:
  assumes "dom es \<union> set seen = dom es' \<union> set seen'"
  shows "validate_writes es prev seen ws = None \<longleftrightarrow> validate_writes es' prev seen' ws = None"
  using assms
proof (induction ws arbitrary: prev seen seen')
  case Nil
  then show ?case by simp
next
  case (Cons w ws)
  have known: "(es i = None \<and> i \<notin> set seen) = (es' i = None \<and> i \<notin> set seen')" for i
    using Cons.prems by blast
  have step: "dom es \<union> set (i # seen) = dom es' \<union> set (i # seen')" for i
    using Cons.prems by auto
  show ?case
  proof (cases w)
    case (CommittedEntry seq ts e)
    have IH: "validate_writes es p (i # seen) ws = None \<longleftrightarrow>
              validate_writes es' p (i # seen') ws = None" for p i
      by (rule Cons.IH [OF step])
    show ?thesis
      using CommittedEntry known [of "ne_id e"] known [of "the (ne_parent_id e)"] IH
      by (auto split: option.splits)
  qed (use Cons.IH [OF Cons.prems] in auto)
qed

lemma apply_writes_Nil [simp]: "apply_writes [] st = st"
  by (simp add: apply_writes_def)

lemma apply_writes_Cons [simp]: "apply_writes (w # ws) st = apply_writes ws (apply_write w st)"
  by (simp add: apply_writes_def)

lemma apply_writes_append [simp]:
  "apply_writes (ws @ vs) st = apply_writes vs (apply_writes ws st)"
  by (simp add: apply_writes_def)

lemma validate_state_Nil [simp]: "validate_state st [] = None"
  by (simp add: validate_state_def)

text \<open>A valid batch is one valid write, then a batch that is valid in the state it leaves.\<close>

lemma validate_state_Cons:
  "validate_state st (w # ws) = None \<longleftrightarrow>
     validate_state st [w] = None \<and> validate_state (apply_write w st) ws = None"
proof (cases w)
  case (CommittedEntry seq ts e)
  let ?e = "entry_of seq ts e"
  have "validate_writes (st_entries st) seq [ne_id e] ws = None \<longleftrightarrow>
        validate_writes ((st_entries st)(ne_id e \<mapsto> ?e)) seq [] ws = None"
    by (rule validate_writes_cong) auto
  then show ?thesis
    using CommittedEntry
    by (auto simp: validate_state_def Let_def entry_of_def split: option.splits)
qed (auto simp: validate_state_def)

lemma validate_state_append:
  "validate_state st (ws @ vs) = None \<longleftrightarrow>
     validate_state st ws = None \<and> validate_state (apply_writes ws st) vs = None"
proof (induction ws arbitrary: st)
  case (Cons w ws)
  then show ?case
    by (metis append_Cons apply_writes_Cons validate_state_Cons)
qed simp

lemma entries_wf_apply_entry:
  assumes wf: "entries_wf st" and new: "st_entries st (ne_id ne) = None"
    and seq: "st_next_seq st \<le> seq"
    and par: "\<And>p. ne_parent_id ne = Some p \<Longrightarrow> st_entries st p \<noteq> None"
  shows "entries_wf (apply_write (CommittedEntry seq ts ne) st)"
proof -
  let ?e = "entry_of seq ts ne"
  let ?st = "apply_write (CommittedEntry seq ts ne) st"
  have below: "\<forall>x\<in>set (st_by_seq st). e_seq x < seq"
    using wf seq by (auto simp: entries_wf_def)
  have look: "\<forall>i x. st_entries st i = Some x \<longleftrightarrow> x \<in> set (st_by_seq st) \<and> e_id x = i"
    using wf by (simp add: entries_wf_def)
  have fresh: "\<forall>x\<in>set (st_by_seq st). e_id x \<noteq> ne_id ne"
    using look new by (metis option.distinct(1))
  have "sorted_wrt (<) (map e_seq (st_by_seq ?st))"
    using wf below by (auto simp: entries_wf_def sorted_wrt_append entry_of_def Let_def)
  moreover have "\<forall>i x. st_entries ?st i = Some x \<longleftrightarrow> x \<in> set (st_by_seq ?st) \<and> e_id x = i"
    using look fresh by (auto simp: entry_of_def Let_def)
  moreover have "\<forall>x\<in>set (st_by_seq ?st). e_seq x < st_next_seq ?st"
    using below by (auto simp: entry_of_def Let_def)
  moreover have "\<forall>x\<in>set (st_by_seq ?st). \<forall>p. e_parent_id x = Some p \<longrightarrow>
      (\<exists>q. st_entries ?st p = Some q \<and> e_seq q < e_seq x)"
  proof (intro ballI allI impI)
    fix x p
    assume x: "x \<in> set (st_by_seq ?st)" and p: "e_parent_id x = Some p"
    have old: "\<exists>q. st_entries st p = Some q \<and> e_seq q < e_seq x"
    proof (cases "x = ?e")
      case True
      with p par obtain q where q: "st_entries st p = Some q" by (auto simp: entry_of_def)
      then have "q \<in> set (st_by_seq st)" using look by blast
      with q below True show ?thesis by (auto simp: entry_of_def)
    next
      case False
      with x have "x \<in> set (st_by_seq st)" by (auto simp: Let_def)
      then show ?thesis using wf p by (auto simp: entries_wf_def)
    qed
    moreover have "p \<noteq> ne_id ne" using old new by auto
    ultimately show "\<exists>q. st_entries ?st p = Some q \<and> e_seq q < e_seq x"
      by (simp add: entry_of_def Let_def)
  qed
  moreover have
    "st_message_count ?st = length (filter (\<lambda>x. e_type x = MESSAGE_ENTRY) (st_by_seq ?st))"
    using wf by (simp add: entries_wf_def Let_def)
  ultimately show ?thesis unfolding entries_wf_def by blast
qed

lemma entries_wf_frame:
  assumes "entries_wf st" and "st_entries st' = st_entries st" and "st_by_seq st' = st_by_seq st"
    and "st_message_count st' = st_message_count st" and "st_next_seq st \<le> st_next_seq st'"
  shows "entries_wf st'"
  using assms unfolding entries_wf_def by fastforce

lemma values_wf_frame:
  assumes "values_wf st" and "st_values st' = st_values st" and "st_next_seq st \<le> st_next_seq st'"
  shows "values_wf st'"
  using assms unfolding values_wf_def by fastforce

lemma values_wf_remove:
  assumes "values_wf st" and "st_next_seq st \<le> n"
  shows "values_wf (st\<lparr>st_values := AList.delete a (st_values st), st_next_seq := n\<rparr>)"
proof -
  have "distinct (map (sv_seq \<circ> snd) (AList.delete a (st_values st)))"
    using assms by (auto simp: values_wf_def AList.delete_eq distinct_map_filter)
  moreover have "distinct (map fst (AList.delete a (st_values st)))"
    using assms by (simp add: values_wf_def distinct_delete)
  ultimately show ?thesis
    using assms by (fastforce simp: values_wf_def AList.delete_eq)
qed

lemma update_seqs:
  assumes "distinct (map (g \<circ> snd) xs)" and "\<forall>x\<in>set xs. g (snd x) \<noteq> g v"
  shows "distinct (map (g \<circ> snd) (AList.update a v xs)) \<and>
         set (AList.update a v xs) \<subseteq> insert (a, v) (set xs)"
  using assms by (induction xs) (auto split: if_splits)

lemma values_wf_set:
  assumes wf: "values_wf st" and seq: "st_next_seq st \<le> seq"
  shows "values_wf (apply_write (CommittedValueSet seq ns k v) st)"
proof -
  let ?v = "\<lparr>sv_namespace = ns, sv_key = k, sv_value = v, sv_seq = seq\<rparr>"
  have "\<forall>x\<in>set (st_values st). sv_seq (snd x) \<noteq> sv_seq ?v"
    using wf seq by (fastforce simp: values_wf_def)
  then have up: "distinct (map (sv_seq \<circ> snd) (AList.update (ns, k) ?v (st_values st)))"
      "set (AList.update (ns, k) ?v (st_values st)) \<subseteq> insert ((ns, k), ?v) (set (st_values st))"
    using wf update_seqs [of sv_seq "st_values st" ?v "(ns, k)"] by (auto simp: values_wf_def)
  have dist: "distinct (map fst (AList.update (ns, k) ?v (st_values st)))"
    using wf by (simp add: values_wf_def distinct_update)
  have "\<forall>x\<in>set (AList.update (ns, k) ?v (st_values st)).
          fst x = (sv_namespace (snd x), sv_key (snd x)) \<and> sv_seq (snd x) < seq + 1"
  proof
    fix x assume "x \<in> set (AList.update (ns, k) ?v (st_values st))"
    with up(2) consider "x = ((ns, k), ?v)" | "x \<in> set (st_values st)" by blast
    then show "fst x = (sv_namespace (snd x), sv_key (snd x)) \<and> sv_seq (snd x) < seq + 1"
      using wf seq by cases (auto simp: values_wf_def)
  qed
  then show ?thesis using up(1) dist by (auto simp: values_wf_def)
qed

text \<open>One valid write keeps the invariant; so does a valid batch.\<close>

lemma validate_state_single:
  "validate_state st [CommittedEntry seq ts e] = None \<longleftrightarrow>
     st_next_seq st \<le> seq \<and> st_entries st (ne_id e) = None \<and>
     (\<forall>p. ne_parent_id e = Some p \<longrightarrow> st_entries st p \<noteq> None)"
  "validate_state st [CommittedValueSet seq ns k v] = None \<longleftrightarrow> st_next_seq st \<le> seq"
  "validate_state st [CommittedValueDelete seq ns k] = None \<longleftrightarrow> st_next_seq st \<le> seq"
  by (auto simp: validate_state_def split: option.split)

lemma apply_write_next_seq [simp]: "st_next_seq (apply_write w st) = cw_seq w + 1"
  by (cases w) (simp_all add: Let_def)

lemma state_wf_apply_write:
  assumes wf: "state_wf st" and ok: "validate_state st [w] = None"
  shows "state_wf (apply_write w st)"
proof (cases w)
  case (CommittedEntry s ts e)
  with ok have ok': "st_next_seq st \<le> s" "st_entries st (ne_id e) = None"
      "\<And>p. ne_parent_id e = Some p \<Longrightarrow> st_entries st p \<noteq> None"
    by (simp_all only: validate_state_single) blast
  have "entries_wf (apply_write w st)"
    unfolding CommittedEntry
    by (rule entries_wf_apply_entry) (use wf ok' in \<open>simp_all add: state_wf_def\<close>)
  moreover have "values_wf (apply_write w st)"
    by (rule values_wf_frame [of st]) (use wf ok' CommittedEntry in \<open>simp_all add: state_wf_def Let_def\<close>)
  ultimately show ?thesis by (simp add: state_wf_def)
next
  case (CommittedValueSet s ns k v)
  with ok have seq: "st_next_seq st \<le> s" by (simp only: validate_state_single)
  have "entries_wf (apply_write w st)"
    by (rule entries_wf_frame [of st]) (use wf seq CommittedValueSet in \<open>simp_all add: state_wf_def\<close>)
  then show ?thesis
    using wf values_wf_set [OF _ seq, of ns k v] CommittedValueSet by (simp add: state_wf_def)
next
  case (CommittedValueDelete s ns k)
  with ok have seq: "st_next_seq st \<le> s" by (simp only: validate_state_single)
  have "entries_wf (apply_write w st)"
    by (rule entries_wf_frame [of st])
       (use wf seq CommittedValueDelete in \<open>simp_all add: state_wf_def\<close>)
  then show ?thesis
    using wf seq values_wf_remove [of st "s + 1" "(ns, k)"] CommittedValueDelete
    by (simp add: state_wf_def)
qed

lemma state_wf_apply_writes [wf_intros]:
  "\<lbrakk>state_wf st; validate_state st ws = None\<rbrakk> \<Longrightarrow> state_wf (apply_writes ws st)"
proof (induction ws arbitrary: st)
  case (Cons w ws)
  have ok: "validate_state st [w] = None" "validate_state (apply_write w st) ws = None"
    using Cons.prems(2) unfolding validate_state_Cons [of st w ws] by simp_all
  have "state_wf (apply_write w st)"
    using state_wf_apply_write [OF Cons.prems(1) ok(1)] by simp
  then show ?case using Cons.IH ok(2) by simp
qed simp

lemma state_wf_advance [wf_intros]:
  "\<lbrakk>state_wf st; advance_next_seq n st = Inr st'\<rbrakk> \<Longrightarrow> state_wf st'"
  unfolding state_wf_def advance_next_seq_def
  by (auto split: if_splits intro: entries_wf_frame [of st] values_wf_frame [of st])


subsection \<open>Sequence numbers of a prepared commit\<close>

lemma seq_range_Suc:
  "map (\<lambda>i. n + int i) [0..<Suc k] = n # map (\<lambda>i. n + 1 + int i) [0..<k]"
  by (simp add: upt_conv_Cons map_Suc_upt [symmetric] comp_def del: upt_Suc)

lemma assign_seqs_seq [simp]: "map cw_seq (assign_seqs n ts ws) = map (\<lambda>i. n + int i) [0..<length ws]"
  by (induction n ts ws rule: assign_seqs.induct) (simp_all add: seq_range_Suc del: upt_Suc)

lemma length_assign_seqs [simp]: "length (assign_seqs n ts ws) = length ws"
  by (induction n ts ws rule: assign_seqs.induct) simp_all

lemma prepare_commit_Inr:
  "prepare_commit st ws ts = Inr p \<longleftrightarrow>
     validate_state st (assign_seqs (st_next_seq st) ts ws) = None \<and>
     p = \<lparr>pc_writes = assign_seqs (st_next_seq st) ts ws, pc_first_seq = st_next_seq st,
          pc_seqs = map (\<lambda>i. st_next_seq st + int i) [0..<length ws], pc_timestamp = ts\<rparr>"
  by (auto simp: prepare_commit_def Let_def split: option.splits)

lemma apply_assigned_next_seq:
  "st_next_seq (apply_writes (assign_seqs (st_next_seq st) ts ws) st) = st_next_seq st + int (length ws)"
proof (induction ws arbitrary: st)
  case (Cons w ws)
  let ?c = "hd (assign_seqs (st_next_seq st) ts (w # ws))"
  have c: "assign_seqs (st_next_seq st) ts (w # ws) = ?c # assign_seqs (st_next_seq st + 1) ts ws"
    and n: "cw_seq ?c = st_next_seq st"
    by (cases w; simp)+
  have "st_next_seq (apply_write ?c st) = st_next_seq st + 1" using n by simp
  then have "st_next_seq (apply_writes (assign_seqs (st_next_seq st + 1) ts ws) (apply_write ?c st))
      = st_next_seq st + 1 + int (length ws)"
    using Cons.IH [of "apply_write ?c st"] by simp
  then show ?case by (subst c) simp
qed simp

subsection \<open>Chains: the specification of a branch scan\<close>

inductive chain :: "session_state \<Rightarrow> string \<Rightarrow> entry list \<Rightarrow> bool" for st where
  chain_root: "\<lbrakk>st_entries st i = Some e; e_parent_id e = None\<rbrakk> \<Longrightarrow> chain st i [e]"
| chain_step: "\<lbrakk>st_entries st i = Some e; e_parent_id e = Some p; chain st p es\<rbrakk>
    \<Longrightarrow> chain st i (e # es)"

inductive_cases chain_Cons_E: "chain st i (e # es)"
inductive_simps chain_Nil_simp [simp]: "chain st i []"

lemma chain_unique: "chain st i xs \<Longrightarrow> chain st i ys \<Longrightarrow> xs = ys"
proof (induction arbitrary: ys rule: chain.induct)
  case (chain_root i e)
  from chain_root(3,1,2) show ?case by cases auto
next
  case (chain_step i e p es)
  from chain_step(5,1,2,4) show ?case by cases auto
qed

lemma chain_exists:
  assumes "entries_wf st" and "st_entries st i = Some e"
  shows "\<exists>es. chain st i es"
  using assms(2)
proof (induction "nat (e_seq e - Min (e_seq ` set (st_by_seq st)))" arbitrary: i e rule: less_induct)
  case less
  let ?m = "Min (e_seq ` set (st_by_seq st))"
  show ?case
  proof (cases "e_parent_id e")
    case None
    then show ?thesis using less.prems by (blast intro: chain_root)
  next
    case (Some p)
    then obtain q where q: "st_entries st p = Some q" "e_seq q < e_seq e"
      using entries_wf_parent [OF assms(1) less.prems] by blast
    have "?m \<le> e_seq q"
      using entries_wf_lookup [OF assms(1) q(1)] by simp
    with q(2) have "nat (e_seq q - ?m) < nat (e_seq e - ?m)" by simp
    then obtain es where "chain st p es" using less.hyps q(1) by blast
    then show ?thesis using less.prems Some by (blast intro: chain_step)
  qed
qed

lemma chain_Cons_hd: "chain st i es \<Longrightarrow> \<exists>e rest. es = e # rest \<and> st_entries st i = Some e"
  by (erule chain.cases) auto

lemma chain_sorted:
  assumes "entries_wf st" and "chain st i es"
  shows "sorted_wrt (\<lambda>a b. e_seq b < e_seq a) es"
  using assms(2)
proof (induction rule: chain.induct)
  case (chain_root i e)
  then show ?case by simp
next
  case (chain_step i e p es)
  obtain q rest where es: "es = q # rest" "st_entries st p = Some q"
    using chain_Cons_hd [OF chain_step(3)] by blast
  have "e_seq q < e_seq e"
    using entries_wf_parent [OF assms(1) chain_step(1,2)] es(2) by auto
  with chain_step.IH es(1) show ?case by fastforce
qed

subsection \<open>The walk computes the specification\<close>

definition page_full :: "branch_scan \<Rightarrow> entry list \<Rightarrow> bool" where
  "page_full q path \<longleftrightarrow> bs_order q \<noteq> OldestFirst \<and>
     (case bs_limit q of None \<Rightarrow> False | Some n \<Rightarrow> int (length path) \<ge> max 0 n)"

fun walk_result :: "branch_scan \<Rightarrow> entry list \<Rightarrow> entry list \<Rightarrow> entry list" where
  "walk_result q path [] = path"
| "walk_result q path (e # es) =
     (let path' = (if branch_match e q then path @ [e] else path)
      in if branch_match e q \<and> page_full q path' then path' else walk_result q path' es)"

lemma branch_walk_chain:
  assumes "chain st i es" and "st_entries st i = Some e"
  shows "branch_walk st q e path = Some (Inr (walk_result q path es))"
  using assms
proof (induction arbitrary: e path rule: chain.induct)
  case (chain_root i x)
  then show ?case by (subst branch_walk.simps) (auto simp: Let_def page_full_def)
next
  case (chain_step i x p es)
  obtain y rest where es: "es = y # rest" "st_entries st p = Some y"
    using chain_Cons_hd [OF chain_step(3)] by blast
  have x: "e = x" using chain_step.prems chain_step.hyps(1) by simp
  note IH = chain_step.IH [OF es(2)]
  show ?case
    unfolding x using chain_step.hyps(2) es(2) IH
    by (subst branch_walk.simps) (auto simp: Let_def page_full_def)
qed

lemma walk_result_oldest:
  "bs_order q = OldestFirst \<Longrightarrow> walk_result q path es = path @ filter (\<lambda>e. branch_match e q) es"
  by (induction es arbitrary: path) (auto simp: Let_def page_full_def)

lemma page_full_append:
  "page_full q path \<Longrightarrow> page_of (bs_limit q) (path @ xs) = page_of (bs_limit q) path"
  by (auto simp: page_full_def page_of_def split: option.splits)

lemma walk_result_newest:
  "page_of (bs_limit q) (walk_result q path es) =
     page_of (bs_limit q) (path @ filter (\<lambda>e. branch_match e q) es)"
proof (induction es arbitrary: path)
  case (Cons e es)
  show ?case
    using Cons.IH [of path] Cons.IH [of "path @ [e]"]
      page_full_append [of q "path @ [e]" "filter (\<lambda>e. branch_match e q) es"]
    by (simp add: Let_def)
qed simp

lemma page_of_full_walk:
  "page_of (bs_limit q) (walk_result q [] es) =
     page_of (bs_limit q) (filter (\<lambda>e. branch_match e q) es)"
  by (simp add: walk_result_newest)

text \<open>What a branch scan returns: the matching part of the chain, in order, cut to the limit.\<close>

definition branch_page :: "branch_scan \<Rightarrow> entry list \<Rightarrow> entry list" where
  "branch_page q es =
     page_of (bs_limit q)
       (filter (\<lambda>e. branch_match e q) (if bs_order q = OldestFirst then rev es else es))"

lemma scan_branch_chain:
  assumes "chain st s es" and "bs_start q = Some s"
  shows "scan_branch st q = Some (Inr (branch_page q es))"
proof -
  obtain e rest where e: "st_entries st s = Some e" using chain_Cons_hd [OF assms(1)] by blast
  show ?thesis
    using assms(2) e branch_walk_chain [OF assms(1) e, of q "[]"] page_of_full_walk [of q es]
    by (simp add: scan_branch_def branch_page_def walk_result_oldest rev_filter Let_def)
qed

subsection \<open>The global scan\<close>

definition entry_match :: "entry_query \<Rightarrow> entry \<Rightarrow> bool" where
  "entry_match q e \<longleftrightarrow>
     (case eq_type q of None \<Rightarrow> True | Some t \<Rightarrow> e_type e = t) \<and>
     (case eq_cursor_seq q of None \<Rightarrow> True
      | Some c \<Rightarrow> (if eq_order q = Desc then e_seq e < c else e_seq e > c))"

text \<open>The loop tests the limit after it has appended, so a limit of zero still yields one entry.\<close>

definition entry_page :: "entry_query \<Rightarrow> 'a list \<Rightarrow> 'a list" where
  "entry_page q xs = (case eq_limit q of None \<Rightarrow> xs | Some n \<Rightarrow> take (nat (max 1 n)) xs)"

lemma entry_walk_eq:
  assumes "\<forall>n. eq_limit q = Some n \<longrightarrow> int (length found) < max 1 n"
  shows "entry_walk q es found = entry_page q (found @ filter (entry_match q) es)"
  using assms
proof (induction es arbitrary: found)
  case Nil
  then show ?case by (auto simp: entry_page_def split: option.splits)
next
  case (Cons e es)
  show ?case
  proof (cases "entry_match q e")
    case False
    then have "entry_walk q (e # es) found = entry_walk q es found"
      by (auto simp: entry_match_def split: option.splits if_splits)
    with False Cons show ?thesis by simp
  next
    case True
    then have step: "entry_walk q (e # es) found =
        (if (case eq_limit q of None \<Rightarrow> False | Some n \<Rightarrow> int (length (found @ [e])) \<ge> max 0 n)
         then found @ [e] else entry_walk q es (found @ [e]))"
      by (auto simp: entry_match_def split: option.splits if_splits)
    show ?thesis
    proof (cases "eq_limit q")
      case None
      with step True Cons.IH [of "found @ [e]"] show ?thesis by simp
    next
      case (Some m)
      show ?thesis
      proof (cases "int (length (found @ [e])) \<ge> max 0 m")
        case stop: True
        have "nat (max 1 m) = length (found @ [e])"
          using stop Cons.prems Some by auto
        then show ?thesis using step stop True Some by (simp add: entry_page_def)
      next
        case False
        with step True Some Cons.IH [of "found @ [e]"] show ?thesis by simp
      qed
    qed
  qed
qed

lemma scan_entries_eq:
  "scan_entries st q = entry_page q (filter (entry_match q)
     (if eq_order q = Desc then rev (st_by_seq st) else st_by_seq st))"
  using entry_walk_eq [of q "[]"] by (simp add: scan_entries_def less_max_iff_disj)

subsection \<open>Values\<close>

lemma get_value_apply [simp]:
  "get_value (apply_write (CommittedEntry seq ts e) st) a = get_value st a"
  "get_value (apply_write (CommittedValueSet seq ns k v) st) a =
     (if a = (ns, k) then Some \<lparr>sv_namespace = ns, sv_key = k, sv_value = v, sv_seq = seq\<rparr>
      else get_value st a)"
  "get_value (apply_write (CommittedValueDelete seq ns k) st) a =
     (if a = (ns, k) then None else get_value st a)"
  by (auto simp: get_value_def Let_def)

lemma values_in_wf:
  assumes "values_wf st"
  shows "set (values_in st ns) = {v. sv_namespace v = ns \<and> get_value st (ns, sv_key v) = Some v}"
    and "sorted_wrt (<) (map sv_seq (values_in st ns))"
proof -
  have d: "distinct (map fst (st_values st))"
    and k: "\<forall>(a, v)\<in>set (st_values st). a = (sv_namespace v, sv_key v)"
    and s: "distinct (map (sv_seq \<circ> snd) (st_values st))"
    using assms by (auto simp: values_wf_def)
  show "set (values_in st ns) = {v. sv_namespace v = ns \<and> get_value st (ns, sv_key v) = Some v}"
    using d k by (force simp: values_in_def get_value_def map_of_eq_Some_iff)
  have "distinct (map sv_seq (filter (\<lambda>v. sv_namespace v = ns) (map snd (st_values st))))"
    using s by (intro distinct_map_filter) simp
  then have "distinct (map sv_seq (values_in st ns))"
    unfolding values_in_def by (simp add: distinct_map)
  then show "sorted_wrt (<) (map sv_seq (values_in st ns))"
    by (simp add: values_in_def strict_sorted_iff)
qed

subsection \<open>Properties\<close>

text \<open>A small state for evaluations: two messages in a chain and the tip of \<open>main\<close>.\<close>

definition sample_entry :: "string \<Rightarrow> string option \<Rightarrow> new_entry" where
  "sample_entry i parent =
     \<lparr>ne_id = i, ne_parent_id = parent, ne_type = MESSAGE_ENTRY, ne_message = Some []\<rparr>"

definition sample_writes :: "session_write list" where
  "sample_writes = [EntryWrite (sample_entry ''a'' None), EntryWrite (sample_entry ''b'' (Some ''a'')),
     set_value (branch_tip DEFAULT_BRANCH) (PStr ''b'')]"

definition sample_state :: session_state where
  "sample_state = apply_writes (assign_seqs 1 0 sample_writes) (init_state 1)"

lemma sample_state_wf: "state_wf sample_state"
  unfolding sample_state_def by (rule state_wf_apply_writes) (simp, code_simp)

text \<open>
  C14. A batch that is accepted keeps the state's invariant: sequence numbers strictly increase,
  ids are unique, every parent is an earlier entry, the message count is right. It gets consecutive
  numbers from the high-water mark on, which then stands just after them.
\<close>

theorem commit_keeps_invariant:
  assumes "state_wf st" and "prepare_commit st ws ts = Inr p"
  shows "state_wf (apply_writes (pc_writes p) st) \<and>
    map cw_seq (pc_writes p) = map (\<lambda>i. st_next_seq st + int i) [0..<length ws] \<and>
    st_next_seq (apply_writes (pc_writes p) st) = st_next_seq st + int (length ws)"
  using assms apply_assigned_next_seq [of st ts ws]
  by (auto simp: prepare_commit_Inr intro: state_wf_apply_writes)

theorem commit_keeps_invariant_witness:
  "state_wf (apply_writes (assign_seqs 1 0 sample_writes) (init_state 1)) \<and>
   st_next_seq (apply_writes (assign_seqs 1 0 sample_writes) (init_state 1)) = 4"
proof -
  have "prepare_commit (init_state 1) sample_writes 0 = Inr
      \<lparr>pc_writes = assign_seqs 1 0 sample_writes, pc_first_seq = 1, pc_seqs = [1, 2, 3],
       pc_timestamp = 0\<rparr>"
    by code_simp
  from commit_keeps_invariant [OF state_wf_init this] show ?thesis
    by (simp add: init_state_def sample_writes_def)
qed

text \<open>
  C35. In a state that satisfies the invariant, scanning back from any stored entry returns, for
  every query: the walk along the parents always ends, and yields the page the query describes of
  the one chain from that entry to its root.
\<close>

theorem branch_scan_returns:
  assumes "state_wf st" and "st_entries st s \<noteq> None"
  shows "\<exists>es. chain st s es \<and>
    (\<forall>q. bs_start q = Some s \<longrightarrow> scan_branch st q = Some (Inr (branch_page q es)))"
proof -
  obtain e where "st_entries st s = Some e" using assms(2) by auto
  then obtain es where "chain st s es"
    using chain_exists assms(1) unfolding state_wf_def by metis
  then show ?thesis using scan_branch_chain by blast
qed

theorem branch_scan_returns_witness:
  "\<exists>es. chain sample_state ''b'' es \<and>
     scan_branch sample_state (default_branch_scan\<lparr>bs_start := Some ''b'', bs_limit := Some 1\<rparr>) =
       Some (Inr (branch_page (default_branch_scan\<lparr>bs_start := Some ''b'', bs_limit := Some 1\<rparr>) es))"
proof -
  have "st_entries sample_state ''b'' \<noteq> None" by code_simp
  from branch_scan_returns [OF sample_state_wf this] show ?thesis by auto
qed

text \<open>
  The global scan returns the entries that match the query, in the order asked for, cut to the
  limit; but a limit of zero or less still yields one entry, unlike a branch scan's.
\<close>

theorem entry_scan_page:
  "scan_entries st q =
     (case eq_limit q of None \<Rightarrow> (\<lambda>xs. xs) | Some n \<Rightarrow> take (nat (max 1 n)))
       (filter (entry_match q) (if eq_order q = Desc then rev (st_by_seq st) else st_by_seq st))"
  by (auto simp: scan_entries_eq entry_page_def split: option.splits)

end
