(* ===== verification/Session_Line.thy ===== *)
theory Session_Line
  imports Session_Types
begin

section \<open>The mutation line\<close>

text \<open>
  The class \<open>MutationLine\<close> of \<open>avid/session/mutation.py\<close>: a gate that one mutation job holds at a
  time, as a state machine over threads (numbered by \<open>nat\<close>). Each operation is what one thread
  does while it holds the condition's lock. A thread that has to wait is in \<open>ln_asleep\<close> until
  \<open>notify_all\<close> moves it to \<open>ln_awake\<close>, from where it takes the lock again and re-tests, at a time
  of the scheduler's choosing. A grant (\<open>SessionMutation\<close>) is the right a thread has between
  entering and \<open>end\<close>; the second half of the theory runs the gate together with the grants.
\<close>

subsection \<open>The operations\<close>

record line =
  ln_owner :: "nat option"
  ln_sealed :: bool
  ln_asleep :: "nat list"
  ln_awake :: "nat list"

definition new_line :: line where
  "new_line = \<lparr>ln_owner = None, ln_sealed = False, ln_asleep = [], ln_awake = []\<rparr>"

datatype acquire_result = Entered line | Sleeps line | Refused session_error

definition notify_all :: "line \<Rightarrow> line" where
  "notify_all l = l\<lparr>ln_awake := ln_awake l @ ln_asleep l, ln_asleep := []\<rparr>"

text \<open>\<open>acquire\<close> up to its first wait, and the iteration of its loop after a wake-up.\<close>

definition acquire_line :: "nat \<Rightarrow> line \<Rightarrow> acquire_result" where
  "acquire_line me l =
     (if ln_sealed l then Refused SessionClosedError
      else if ln_owner l = Some me then Refused SessionBusyError
      else if ln_owner l \<noteq> None then Sleeps (l\<lparr>ln_asleep := ln_asleep l @ [me]\<rparr>)
      else Entered (l\<lparr>ln_owner := Some me\<rparr>))"

definition resume_acquire :: "nat \<Rightarrow> line \<Rightarrow> acquire_result" where
  "resume_acquire me l =
     (if ln_sealed l then Refused SessionClosedError
      else if ln_owner l \<noteq> None then Sleeps (l\<lparr>ln_asleep := ln_asleep l @ [me]\<rparr>)
      else Entered (l\<lparr>ln_owner := Some me\<rparr>))"

definition release_line :: "line \<Rightarrow> line" where
  "release_line l = notify_all (l\<lparr>ln_owner := None\<rparr>)"

definition held_by :: "nat \<Rightarrow> line \<Rightarrow> bool" where
  "held_by me l \<longleftrightarrow> ln_owner l = Some me"

definition seal_line :: "line \<Rightarrow> line" where
  "seal_line l = notify_all (l\<lparr>ln_sealed := True\<rparr>)"

text \<open>\<open>wait_idle\<close> returns in exactly the states where it finds no owner.\<close>

definition idle :: "line \<Rightarrow> bool" where
  "idle l \<longleftrightarrow> ln_owner l = None"

lemmas line_defs =
  acquire_line_def resume_acquire_def release_line_def seal_line_def notify_all_def idle_def

subsection \<open>Threads, grants and the gate\<close>

record line_system =
  ls_line :: line
  ls_grants :: "nat list"

definition start_system :: line_system where
  "start_system = \<lparr>ls_line = new_line, ls_grants = []\<rparr>"

datatype line_event =
    Enter nat
  | Sleep nat
  | Refuse nat session_error
  | Leave nat
  | Seal

definition blocked :: "line_system \<Rightarrow> nat \<Rightarrow> bool" where
  "blocked s t \<longleftrightarrow> t \<in> set (ln_asleep (ls_line s)) \<union> set (ln_awake (ls_line s))"

definition wake :: "nat \<Rightarrow> line \<Rightarrow> line" where
  "wake t l = l\<lparr>ln_awake := removeAll t (ln_awake l)\<rparr>"

inductive line_step :: "line_system \<Rightarrow> line_event \<Rightarrow> line_system \<Rightarrow> bool" where
  acquire_enter: "\<lbrakk>\<not> blocked s t; acquire_line t (ls_line s) = Entered l\<rbrakk>
    \<Longrightarrow> line_step s (Enter t) (s\<lparr>ls_line := l, ls_grants := t # ls_grants s\<rparr>)"
| acquire_sleep: "\<lbrakk>\<not> blocked s t; acquire_line t (ls_line s) = Sleeps l\<rbrakk>
    \<Longrightarrow> line_step s (Sleep t) (s\<lparr>ls_line := l\<rparr>)"
| acquire_refuse: "\<lbrakk>\<not> blocked s t; acquire_line t (ls_line s) = Refused e\<rbrakk>
    \<Longrightarrow> line_step s (Refuse t e) s"
| resume_enter: "\<lbrakk>t \<in> set (ln_awake (ls_line s)); resume_acquire t (wake t (ls_line s)) = Entered l\<rbrakk>
    \<Longrightarrow> line_step s (Enter t) (s\<lparr>ls_line := l, ls_grants := t # ls_grants s\<rparr>)"
| resume_sleep: "\<lbrakk>t \<in> set (ln_awake (ls_line s)); resume_acquire t (wake t (ls_line s)) = Sleeps l\<rbrakk>
    \<Longrightarrow> line_step s (Sleep t) (s\<lparr>ls_line := l\<rparr>)"
| resume_refuse: "\<lbrakk>t \<in> set (ln_awake (ls_line s)); resume_acquire t (wake t (ls_line s)) = Refused e\<rbrakk>
    \<Longrightarrow> line_step s (Refuse t e) (s\<lparr>ls_line := wake t (ls_line s)\<rparr>)"
| leave: "t \<in> set (ls_grants s)
    \<Longrightarrow> line_step s (Leave t)
          (s\<lparr>ls_line := release_line (ls_line s), ls_grants := remove1 t (ls_grants s)\<rparr>)"
| seal: "line_step s Seal (s\<lparr>ls_line := seal_line (ls_line s)\<rparr>)"

inductive line_run :: "line_system \<Rightarrow> line_event list \<Rightarrow> line_system \<Rightarrow> bool" where
  run_nil: "line_run s [] s"
| run_snoc: "\<lbrakk>line_run s evs t; line_step t ev u\<rbrakk> \<Longrightarrow> line_run s (evs @ [ev]) u"

inductive_cases Enter_step: "line_step s (Enter t) s'"
inductive_simps line_run_Nil [simp]: "line_run s [] t"

definition line_inv :: "line_system \<Rightarrow> bool" where
  "line_inv s \<longleftrightarrow>
     ls_grants s = (case ln_owner (ls_line s) of None \<Rightarrow> [] | Some t \<Rightarrow> [t]) \<and>
     (ln_owner (ls_line s) = None \<longrightarrow> ln_asleep (ls_line s) = []) \<and>
     (\<forall>t. ln_owner (ls_line s) = Some t \<longrightarrow> \<not> blocked s t)"

lemma line_inv_start: "line_inv start_system"
  by (simp add: line_inv_def start_system_def new_line_def)

lemma line_step_inv [wf_intros]: "\<lbrakk>line_step s ev s'; line_inv s\<rbrakk> \<Longrightarrow> line_inv s'"
  by (induction rule: line_step.induct)
     (auto simp: line_inv_def line_defs blocked_def wake_def split: if_splits option.splits)

lemma line_run_inv: "\<lbrakk>line_run s evs s'; line_inv s\<rbrakk> \<Longrightarrow> line_inv s'"
  by (induction rule: line_run.induct) (auto intro: line_step_inv)

text \<open>Once sealed, always sealed; and a sealed gate lets nobody in.\<close>

lemma line_step_sealed:
  "\<lbrakk>line_step s ev s'; ln_sealed (ls_line s)\<rbrakk> \<Longrightarrow> ln_sealed (ls_line s') \<and> (\<forall>t. ev \<noteq> Enter t)"
  by (induction rule: line_step.induct) (auto simp: line_defs wake_def split: if_splits)

lemma line_run_sealed:
  assumes "line_run s evs s'" and "ln_sealed (ls_line s)" and "ls_grants s = []"
  shows "ln_sealed (ls_line s') \<and> ls_grants s' = [] \<and> (\<forall>t. Enter t \<notin> set evs)"
  using assms
proof (induction rule: line_run.induct)
  case (run_snoc s evs t ev u)
  then have t: "ln_sealed (ls_line t)" "ls_grants t = []" "\<forall>x. Enter x \<notin> set evs" by auto
  have "ls_grants u = []"
    using run_snoc.hyps(2) t(1,2)
    by (cases rule: line_step.cases) (auto simp: line_defs wake_def split: if_splits)
  then show ?case using line_step_sealed [OF run_snoc.hyps(2) t(1)] t(3) by auto
qed simp

subsection \<open>Properties\<close>

text \<open>
  C4. However threads arrive, wake up, are refused and leave: at most one thread holds a grant, it is
  the one the gate names as owner, and when nobody holds it nobody is left sleeping, so a waiting
  thread is always awake to take a free gate (no lost wake-up).
\<close>

theorem mutual_exclusion:
  assumes "line_run start_system evs s"
  shows "ls_grants s = (case ln_owner (ls_line s) of None \<Rightarrow> [] | Some t \<Rightarrow> [t]) \<and>
    length (ls_grants s) \<le> 1 \<and> (ls_grants s = [] \<longrightarrow> ln_asleep (ls_line s) = [])"
  using line_run_inv [OF assms line_inv_start] by (auto simp: line_inv_def split: option.splits)

lemma first_enters: "line_run start_system [Enter 1]
    \<lparr>ls_line = \<lparr>ln_owner = Some 1, ln_sealed = False, ln_asleep = [], ln_awake = []\<rparr>, ls_grants = [1]\<rparr>"
  using run_snoc [OF run_nil acquire_enter [of start_system 1 "new_line\<lparr>ln_owner := Some 1\<rparr>"]]
  by (simp add: start_system_def new_line_def acquire_line_def blocked_def)

theorem mutual_exclusion_witness:
  "\<exists>s. line_run start_system [Enter 1] s \<and> length (ls_grants s) \<le> 1"
  using first_enters mutual_exclusion [OF first_enters] by blast

text \<open>
  The gate is not first come, first served: a thread that arrives after the release can take it
  before a thread that has been waiting since earlier.
\<close>

theorem late_thread_can_overtake:
  "\<exists>s. line_run start_system [Enter 1, Sleep 2, Leave 1, Enter 3] s \<and> ls_grants s = [3] \<and>
     blocked s 2"
proof -
  let ?l = "\<lambda>t zs ws. \<lparr>ln_owner = t, ln_sealed = False, ln_asleep = zs, ln_awake = ws\<rparr>"
  have "line_run start_system ([Enter 1] @ [Sleep 2]) \<lparr>ls_line = ?l (Some 1) [2] [], ls_grants = [1]\<rparr>"
    using run_snoc [OF first_enters acquire_sleep [of _ 2 "?l (Some 1) [2] []"]]
    by (simp add: blocked_def acquire_line_def)
  then have "line_run start_system (([Enter 1] @ [Sleep 2]) @ [Leave 1])
      \<lparr>ls_line = ?l None [] [2], ls_grants = []\<rparr>"
    using run_snoc [OF _ leave [of 1]] by (fastforce simp: line_defs)
  then have "line_run start_system ((([Enter 1] @ [Sleep 2]) @ [Leave 1]) @ [Enter 3])
      \<lparr>ls_line = ?l (Some 3) [] [2], ls_grants = [3]\<rparr>"
    using run_snoc [OF _ acquire_enter [of _ 3 "?l (Some 3) [] [2]"]]
    by (fastforce simp: blocked_def acquire_line_def)
  then show ?thesis by (intro exI) (auto simp: blocked_def)
qed

text \<open>
  After the gate has been sealed and found idle, which is what \<open>close\<close> waits for, no thread is
  ever let in again, whoever was still waiting.
\<close>

theorem sealed_gate_admits_nobody:
  assumes "line_run start_system evs s" and "ln_sealed (ls_line s)" and "idle (ls_line s)"
    and "line_run s later s'"
  shows "ls_grants s' = [] \<and> (\<forall>t. Enter t \<notin> set later)"
proof -
  have "ls_grants s = []"
    using line_run_inv [OF assms(1) line_inv_start] assms(3) by (simp add: line_inv_def idle_def)
  from line_run_sealed [OF assms(4,2) this] show ?thesis by blast
qed

theorem sealed_gate_admits_nobody_witness:
  "\<exists>s'. line_run (start_system\<lparr>ls_line := seal_line new_line\<rparr>) [Refuse 1 SessionClosedError] s' \<and>
     ls_grants s' = []"
proof -
  let ?s = "start_system\<lparr>ls_line := seal_line new_line\<rparr>"
  have s: "ln_sealed (ls_line ?s)" "idle (ls_line ?s)" "\<not> blocked ?s 1"
    by (simp_all add: seal_line_def notify_all_def new_line_def idle_def blocked_def)
  have "line_run start_system ([] @ [Seal]) (start_system\<lparr>ls_line := seal_line (ls_line start_system)\<rparr>)"
    by (rule run_snoc [OF run_nil seal])
  then have before: "line_run start_system [Seal] ?s" by (simp add: start_system_def)
  have "line_run ?s ([] @ [Refuse 1 SessionClosedError]) ?s"
    by (rule run_snoc [OF run_nil acquire_refuse [OF s(3)]]) (use s in \<open>simp add: acquire_line_def\<close>)
  then have r: "line_run ?s [Refuse 1 SessionClosedError] ?s" by simp
  from sealed_gate_admits_nobody [OF before s(1,2) r] r show ?thesis by blast
qed

end
