(* ===== verification/Attachments.thy ===== *)
theory Attachments
  imports Avid_Prelude
begin

section \<open>Image parts in message content\<close>

text \<open>
  The module \<open>avid/attachments.py\<close>: recognising an image by its magic bytes, collecting parts,
  and the gate \<open>check_content\<close> every stored message passes. Bytes are \<open>char\<close> lists (one \<open>char\<close>
  per byte). \<open>base64.b64encode\<close> and \<open>base64.b64decode(validate=True)\<close> of the standard library
  are modelled for what the module uses of them. Refusals keep the cause and the numbers of the
  message, not its wording; where the wording is part of a result, the Chinese words are replaced
  by placeholders with the same number of characters.
\<close>

subsection \<open>Base64\<close>

definition b64_char :: "nat \<Rightarrow> char" where
  "b64_char n =
     (if n < 26 then char_of (65 + n) else if n < 52 then char_of (71 + n)
      else if n < 62 then char_of (n - 4) else if n = 62 then CHR ''+'' else CHR ''/'')"

definition b64_val :: "char \<Rightarrow> nat option" where
  "b64_val c =
     (let n = (of_char c :: nat) in
      if 65 \<le> n \<and> n \<le> 90 then Some (n - 65) else if 97 \<le> n \<and> n \<le> 122 then Some (n - 71)
      else if 48 \<le> n \<and> n \<le> 57 then Some (n + 4) else if n = 43 then Some 62
      else if n = 47 then Some 63 else None)"

fun b64encode :: "string \<Rightarrow> string" where
  "b64encode [] = []"
| "b64encode [a] =
     (let n = of_char a * 65536 in
      [b64_char (n div 262144), b64_char (n div 4096 mod 64), CHR ''='', CHR ''=''])"
| "b64encode [a, b] =
     (let n = of_char a * 65536 + of_char b * 256 in
      [b64_char (n div 262144), b64_char (n div 4096 mod 64), b64_char (n div 64 mod 64),
       CHR ''=''])"
| "b64encode (a # b # c # rest) =
     (let n = of_char a * 65536 + of_char b * 256 + of_char c in
      b64_char (n div 262144) # b64_char (n div 4096 mod 64) # b64_char (n div 64 mod 64)
      # b64_char (n mod 64) # b64encode rest)"

text \<open>
  The strict decoder: groups of four characters of the alphabet, of which the last may end in one
  or two pad characters; anything else raises (\<open>None\<close>).
\<close>

fun b64decode :: "string \<Rightarrow> string option" where
  "b64decode [] = Some []"
| "b64decode (p # q # r # s # rest) =
     (case (b64_val p, b64_val q) of
        (Some x, Some y) \<Rightarrow>
          (if r = CHR ''='' then
             (if s = CHR ''='' \<and> rest = []
              then Some [char_of ((x * 262144 + y * 4096) div 65536)] else None)
           else case b64_val r of
             None \<Rightarrow> None
           | Some z \<Rightarrow>
               (if s = CHR ''='' then
                  (if rest = [] then
                     (let n = x * 262144 + y * 4096 + z * 64
                      in Some [char_of (n div 65536), char_of (n div 256 mod 256)])
                   else None)
                else case b64_val s of
                  None \<Rightarrow> None
                | Some w \<Rightarrow>
                    (let n = x * 262144 + y * 4096 + z * 64 + w in
                     map_option (\<lambda>out. char_of (n div 65536) # char_of (n div 256 mod 256)
                                       # char_of (n mod 256) # out) (b64decode rest))))
      | _ \<Rightarrow> None)"
| "b64decode _ = None"

lemma b64_char_code:
  "n < 64 \<Longrightarrow> (of_char (b64_char n) :: nat) =
     (if n < 26 then 65 + n else if n < 52 then 71 + n else if n < 62 then n - 4
      else if n = 62 then 43 else 47)"
  by (auto simp: b64_char_def)

lemma b64_val_char [simp]: "n < 64 \<Longrightarrow> b64_val (b64_char n) = Some n"
  by (simp add: b64_val_def b64_char_code Let_def) presburger

lemma b64_char_not_pad [simp]:
  assumes "n < 64" shows "b64_char n \<noteq> CHR ''=''"
proof
  assume "b64_char n = CHR ''=''"
  then have "(of_char (b64_char n) :: nat) = 61" by simp
  with assms show False by (simp add: b64_char_code split: if_splits)
qed

lemma of_char_less [simp]: "(of_char c :: nat) < 256"
  using nat_of_char_less_256 .

lemma sextets:
  fixes n :: nat
  assumes "n < 16777216"
  shows "n div 262144 < 64"
    and "n div 262144 * 262144 + n div 4096 mod 64 * 4096 + n div 64 mod 64 * 64 + n mod 64 = n"
proof -
  show "n div 262144 < 64" using assms by (simp add: div_less_iff_less_mult)
  have "n = n div 64 * 64 + n mod 64" "n div 64 = n div 4096 * 64 + n div 64 mod 64"
      "n div 4096 = n div 262144 * 64 + n div 4096 mod 64"
    using div_mult2_eq [of n 64 64] div_mult2_eq [of n 4096 64] by simp_all
  then show "n div 262144 * 262144 + n div 4096 mod 64 * 4096 + n div 64 mod 64 * 64 + n mod 64 = n"
    by linarith
qed

lemma b64decode_four:
  assumes "n < 16777216"
  shows "b64decode (b64_char (n div 262144) # b64_char (n div 4096 mod 64)
           # b64_char (n div 64 mod 64) # b64_char (n mod 64) # rest) =
         map_option (\<lambda>out. char_of (n div 65536) # char_of (n div 256 mod 256)
           # char_of (n mod 256) # out) (b64decode rest)"
  using sextets [OF assms] by (simp add: Let_def)

lemma b64decode_three:
  assumes "n < 16777216" and "n mod 64 = 0"
  shows "b64decode [b64_char (n div 262144), b64_char (n div 4096 mod 64),
           b64_char (n div 64 mod 64), CHR ''=''] =
         Some [char_of (n div 65536), char_of (n div 256 mod 256)]"
  using sextets [OF assms(1)] assms(2) by (simp add: Let_def)

lemma b64decode_two:
  assumes "n < 16777216" and "n mod 64 = 0" and "n div 64 mod 64 = 0"
  shows "b64decode [b64_char (n div 262144), b64_char (n div 4096 mod 64), CHR ''='', CHR ''=''] =
         Some [char_of (n div 65536)]"
  using sextets [OF assms(1)] assms(2,3) by (simp add: Let_def)

lemma byte_triple:
  fixes a b c :: nat
  assumes "a < 256" "b < 256" "c < 256"
  shows "a * 65536 + b * 256 + c < 16777216" "(a * 65536 + b * 256 + c) div 65536 = a"
    "(a * 65536 + b * 256 + c) div 256 mod 256 = b" "(a * 65536 + b * 256 + c) mod 256 = c"
proof -
  have e: "a * 65536 + b * 256 + c = (a * 256 + b) * 256 + c" by simp
  show "a * 65536 + b * 256 + c < 16777216" using assms by linarith
  have d: "(a * 65536 + b * 256 + c) div 256 = a * 256 + b"
    unfolding e using assms(3) by simp
  show "(a * 65536 + b * 256 + c) mod 256 = c"
    unfolding e using assms(3) by (simp only: mod_mult_self3 mod_less)
  show "(a * 65536 + b * 256 + c) div 256 mod 256 = b" unfolding d using assms(2) by simp
  have "(a * 65536 + b * 256 + c) div 65536 = (a * 65536 + b * 256 + c) div 256 div 256"
    by (simp add: div_mult2_eq [symmetric])
  then show "(a * 65536 + b * 256 + c) div 65536 = a" unfolding d using assms(2) by simp
qed

lemma b64_roundtrip: "b64decode (b64encode bs) = Some bs"
proof (induction bs rule: b64encode.induct)
  case (2 a)
  define n :: nat where "n = of_char a * 65536"
  have "n < 16777216" "n mod 64 = 0" "n div 64 mod 64 = 0" "n div 65536 = of_char a"
    using byte_triple [of "of_char a" 0 0] by (simp_all add: n_def)
  then show ?case unfolding b64encode.simps Let_def n_def [symmetric]
    by (simp only: b64decode_two) simp
next
  case (3 a b)
  define n :: nat where "n = of_char a * 65536 + of_char b * 256"
  have "n mod 64 = 0" unfolding n_def by presburger
  moreover have "n < 16777216" "n div 65536 = of_char a" "n div 256 mod 256 = of_char b"
    using byte_triple [of "of_char a" "of_char b" 0] by (simp_all only: n_def of_char_less) simp_all
  ultimately show ?case unfolding b64encode.simps Let_def n_def [symmetric]
    by (simp only: b64decode_three) simp
next
  case (4 a b c rest)
  define n :: nat where "n = of_char a * 65536 + of_char b * 256 + of_char c"
  have "n < 16777216" "n div 65536 = of_char a" "n div 256 mod 256 = of_char b"
      "n mod 256 = of_char c"
    using byte_triple [of "of_char a" "of_char b" "of_char c"]
    by (simp_all only: n_def of_char_less)
  then show ?case unfolding b64encode.simps Let_def n_def [symmetric]
    by (simp only: b64decode_four 4) simp
qed simp


subsection \<open>Constants and small helpers\<close>

definition ALLOWED_MIMES :: "string list" where
  "ALLOWED_MIMES = [''image/png'', ''image/jpeg'', ''image/webp'', ''image/gif'']"

definition MAX_IMAGE_BYTES :: nat where "MAX_IMAGE_BYTES = 8 * 1024 * 1024"
definition MAX_IMAGES_PER_MESSAGE :: nat where "MAX_IMAGES_PER_MESSAGE = 8"
definition MAX_TOTAL_BYTES :: nat where "MAX_TOTAL_BYTES = 16 * 1024 * 1024"
definition MAX_NAME_CHARS :: nat where "MAX_NAME_CHARS = 200"
definition IMAGE_CHAR_COST :: nat where "IMAGE_CHAR_COST = 6000"

definition bytes_of :: "nat list \<Rightarrow> string" where "bytes_of = map char_of"

fun starts_with :: "'a list \<Rightarrow> 'a list \<Rightarrow> bool" where
  "starts_with [] xs = True"
| "starts_with (p # ps) [] = False"
| "starts_with (p # ps) (x # xs) = (p = x \<and> starts_with ps xs)"

definition sniff_mime :: "string \<Rightarrow> string option" where
  "sniff_mime data =
     (if starts_with (bytes_of [137, 80, 78, 71, 13, 10, 26, 10]) data then Some ''image/png''
      else if starts_with (bytes_of [255, 216, 255]) data then Some ''image/jpeg''
      else if starts_with ''GIF87a'' data \<or> starts_with ''GIF89a'' data then Some ''image/gif''
      else if take 4 data = ''RIFF'' \<and> take 4 (drop 8 data) = ''WEBP'' then Some ''image/webp''
      else None)"

text \<open>\<open>_CONTROL_CHARS\<close> replaces the code points 0 to 31 and 127 by a space.\<close>

definition blank_control :: "char \<Rightarrow> char" where
  "blank_control c = (let n = (of_char c :: nat) in if n < 32 \<or> n = 127 then CHR '' '' else c)"

definition clean_name :: "pyval \<Rightarrow> string option" where
  "clean_name name =
     (case name of
        PStr s \<Rightarrow>
          (let collapsed = py_strip (take MAX_NAME_CHARS
                             (join_with '' '' (py_split (map blank_control s))))
           in if collapsed = [] then None else Some collapsed)
      | _ \<Rightarrow> None)"

definition is_image_part :: "pyval \<Rightarrow> bool" where
  "is_image_part part =
     (case part of PDict d \<Rightarrow> dget d ''type'' = PStr ''image'' | _ \<Rightarrow> False)"

definition image_bytes :: "pyval \<Rightarrow> string option" where
  "image_bytes part =
     (if \<not> is_image_part part then None
      else case part of
        PDict d \<Rightarrow> (case dget d ''data'' of PStr s \<Rightarrow> b64decode s | _ \<Rightarrow> None)
      | _ \<Rightarrow> None)"

subsection \<open>Building content\<close>

datatype attachment_error =
    ImageTooLarge nat
  | UnknownImageType
  | TooManyImages nat
  | EmptyImage nat
  | ImagesTotalTooLarge nat nat
  | MissingData nat
  | BrokenBase64 nat

definition image_part :: "string \<Rightarrow> pyval \<Rightarrow> attachment_error + pydict" where
  "image_part data name =
     (if length data > MAX_IMAGE_BYTES then Inl (ImageTooLarge (length data))
      else case sniff_mime data of
        None \<Rightarrow> Inl UnknownImageType
      | Some mime \<Rightarrow>
          (let part = [(''type'', PStr ''image''), (''mime'', PStr mime),
                       (''bytes'', PInt (int (length data))), (''data'', PStr (b64encode data))]
           in Inr (case clean_name name of None \<Rightarrow> part
                   | Some cleaned \<Rightarrow> AList.update ''name'' (PStr cleaned) part)))"

definition decode_data :: "pyval \<Rightarrow> nat \<Rightarrow> attachment_error + string" where
  "decode_data v index =
     (case v of
        PStr s \<Rightarrow> (case b64decode (concat (py_split s)) of
                     None \<Rightarrow> Inl (BrokenBase64 index) | Some raw \<Rightarrow> Inr raw)
      | _ \<Rightarrow> Inl (MissingData index))"

fun collect_images ::
  "nat \<Rightarrow> nat \<Rightarrow> pydict list \<Rightarrow> pyval list \<Rightarrow> attachment_error + pyval list" where
  "collect_images index tot [] parts = Inr parts"
| "collect_images index tot (item # items) parts =
     (case decode_data (dget item ''data'') index of
        Inl e \<Rightarrow> Inl e
      | Inr raw \<Rightarrow>
          (if raw = [] then Inl (EmptyImage index)
           else if tot + length raw > MAX_TOTAL_BYTES
             then Inl (ImagesTotalTooLarge index (tot + length raw))
           else case image_part raw (dget item ''name'') of
               Inl e \<Rightarrow> Inl e
             | Inr part \<Rightarrow>
                 collect_images (Suc index) (tot + length raw) items (parts @ [PDict part])))"

definition build_user_content :: "string \<Rightarrow> pydict list \<Rightarrow> attachment_error + pyval" where
  "build_user_content text images =
     (if images = [] then Inr (PStr text)
      else if length images > MAX_IMAGES_PER_MESSAGE then Inl (TooManyImages (length images))
      else map_sum id PList
        (collect_images 1 0 images
          (if py_strip text = [] then [] else [PDict [(''type'', PStr ''text''), (''text'', PStr text)]])))"

subsection \<open>The gate before disk\<close>

datatype content_problem =
    NotTextOrParts
  | NoParts
  | PartNotObject nat
  | TextMissing nat
  | KindUnknown nat
  | MimeUnknown nat
  | Base64Broken nat
  | SizeMismatch nat
  | PartTooLarge nat
  | TooMany nat
  | TotalTooLarge

text \<open>\<open>claimed != len(raw)\<close> compares a Python value with an integer.\<close>

definition check_image :: "pydict \<Rightarrow> nat \<Rightarrow> content_problem option" where
  "check_image part index =
     (if dget part ''mime'' \<notin> PStr ` set ALLOWED_MIMES then Some (MimeUnknown index)
      else case image_bytes (PDict part) of
        None \<Rightarrow> Some (Base64Broken index)
      | Some raw \<Rightarrow>
          (let claimed = dget part ''bytes'' in
           if claimed \<noteq> PNone \<and> as_int claimed \<noteq> Some (int (length raw))
             then Some (SizeMismatch index)
           else if length raw > MAX_IMAGE_BYTES then Some (PartTooLarge index)
           else None))"

text \<open>
  The loop over the parts, with the number of images and the sum of their claimed sizes.
  \<open>int(part.get("bytes") or 0)\<close> is reached only after \<open>_check_image\<close> accepted the part, so the
  claim is absent or an integer.
\<close>

fun check_parts :: "nat \<Rightarrow> nat \<Rightarrow> int \<Rightarrow> pyval list \<Rightarrow> content_problem option" where
  "check_parts index images tot [] =
     (if images > MAX_IMAGES_PER_MESSAGE then Some (TooMany images)
      else if tot > int MAX_TOTAL_BYTES then Some TotalTooLarge
      else None)"
| "check_parts index images tot (part # rest) =
     (case part of
        PDict d \<Rightarrow>
          (if dget d ''type'' = PStr ''image'' then
             (case check_image d index of
                Some problem \<Rightarrow> Some problem
              | None \<Rightarrow> check_parts (Suc index) (Suc images)
                          (tot + (case as_int (dget d ''bytes'') of None \<Rightarrow> 0 | Some n \<Rightarrow> n)) rest)
           else if dget d ''type'' = PStr ''text'' then
             (if as_str (dget d ''text'') = None then Some (TextMissing index)
              else check_parts (Suc index) images tot rest)
           else if as_str (dget d ''text'') \<noteq> None then check_parts (Suc index) images tot rest
           else Some (KindUnknown index))
      | _ \<Rightarrow> Some (PartNotObject index))"

definition check_content :: "pyval \<Rightarrow> content_problem option" where
  "check_content content =
     (case content of
        PNone \<Rightarrow> None
      | PStr s \<Rightarrow> None
      | PList parts \<Rightarrow> (if parts = [] then Some NoParts else check_parts 1 0 0 parts)
      | _ \<Rightarrow> Some NotTextOrParts)"

subsection \<open>Reading content\<close>

text \<open>
  \<open>human_bytes\<close>: \<open>f"{size / (1024 * 1024):.1f}"\<close> is the quotient, exact in a float, rounded to one
  decimal with ties to even. The word that opens an image marker is the placeholder \<open>TP\<close>.
\<close>

definition human_bytes :: "int \<Rightarrow> string" where
  "human_bytes n =
     (if n < 1024 then show_int n @ ''B''
      else if n < 1048576 then show_int (n div 1024) @ ''KB''
      else let q = n * 10 div 1048576; r = n * 10 mod 1048576;
               t = (if 2 * r > 1048576 \<or> (2 * r = 1048576 \<and> odd q) then q + 1 else q)
           in show_int (t div 10) @ ''.'' @ show_int (t mod 10) @ ''MB'')"

definition image_marker :: "pydict \<Rightarrow> string" where
  "image_marker part =
     (let name = (case dget part ''name'' of PStr s \<Rightarrow> (if s = [] then [] else [s]) | _ \<Rightarrow> []);
          mime = (case dget part ''mime'' of PStr s \<Rightarrow> (if s = [] then [] else [s]) | _ \<Rightarrow> []);
          sz = (case dget part ''bytes'' of
                    PInt n \<Rightarrow> [human_bytes n]
                  | PBool b \<Rightarrow> [py_str (PBool b) @ ''B'']
                  | _ \<Rightarrow> [])
      in ''['' @ join_with '' '' ([''TP''] @ name @ mime @ sz) @ '']'')"

fun part_text :: "pyval \<Rightarrow> string list" where
  "part_text (PDict d) =
     (if is_image_part (PDict d) then [image_marker d]
      else case dget d ''text'' of PStr s \<Rightarrow> (if s = [] then [] else [s]) | _ \<Rightarrow> [])"
| "part_text _ = []"

definition render_content_text :: "pyval \<Rightarrow> string" where
  "render_content_text content =
     (case content of
        PNone \<Rightarrow> []
      | PStr s \<Rightarrow> s
      | PList parts \<Rightarrow> join_with [CHR 0x0A] (concat (map part_text parts))
      | _ \<Rightarrow> [])"

fun part_chars :: "pyval \<Rightarrow> nat" where
  "part_chars (PDict d) =
     (if is_image_part (PDict d) then IMAGE_CHAR_COST
      else case dget d ''text'' of PStr s \<Rightarrow> length s | _ \<Rightarrow> 0)"
| "part_chars _ = 0"

definition content_chars :: "pyval \<Rightarrow> nat" where
  "content_chars content =
     (case content of PStr s \<Rightarrow> length s | PList parts \<Rightarrow> sum_list (map part_chars parts) | _ \<Rightarrow> 0)"

definition image_count :: "pyval \<Rightarrow> nat" where
  "image_count content =
     (case content of PList parts \<Rightarrow> length (filter is_image_part parts) | _ \<Rightarrow> 0)"

definition ref_of :: "pydict \<Rightarrow> nat \<Rightarrow> pydict" where
  "ref_of part index =
     (let ref = [(''type'', PStr ''image''), (''mime'', dget part ''mime''),
                 (''bytes'', dget part ''bytes''), (''index'', PInt (int index))]
      in case dget part ''name'' of
           PStr name \<Rightarrow> (if name = [] then ref else AList.update ''name'' (PStr name) ref)
         | _ \<Rightarrow> ref)"

definition strip_part :: "nat \<times> pyval \<Rightarrow> pyval" where
  "strip_part ip =
     (case snd ip of
        PDict d \<Rightarrow> (if is_image_part (PDict d) then PDict (ref_of d (fst ip)) else PDict d)
      | v \<Rightarrow> v)"

definition strip_message_bytes :: "pydict \<Rightarrow> pydict" where
  "strip_message_bytes message =
     (case dget message ''content'' of
        PList parts \<Rightarrow>
          (if \<exists>part\<in>set parts. is_image_part part
           then AList.update ''content'' (PList (map strip_part (enumerate 0 parts))) message
           else message)
      | _ \<Rightarrow> message)"

subsection \<open>What is built passes the gate\<close>

lemma sniff_mime_allowed: "sniff_mime data = Some mime \<Longrightarrow> mime \<in> set ALLOWED_MIMES"
  by (auto simp: sniff_mime_def ALLOWED_MIMES_def split: if_splits)

lemma image_part_fields:
  assumes "image_part data name = Inr part"
  shows "dget part ''type'' = PStr ''image''" "dget part ''bytes'' = PInt (int (length data))"
    "dget part ''data'' = PStr (b64encode data)" "length data \<le> MAX_IMAGE_BYTES"
    "\<exists>mime\<in>set ALLOWED_MIMES. dget part ''mime'' = PStr mime"
  using assms sniff_mime_allowed [of data]
  by (auto simp: image_part_def Let_def split: if_splits option.splits)

lemma check_image_built:
  assumes "image_part data name = Inr part"
  shows "check_image part index = None"
  using image_part_fields [OF assms]
  by (auto simp: check_image_def image_bytes_def is_image_part_def b64_roundtrip)

lemma check_parts_skip_text:
  "check_parts index images tot (PDict [(''type'', PStr ''text''), (''text'', PStr s)] # rest) =
     check_parts (Suc index) images tot rest"
  by simp

lemma check_parts_image:
  assumes "image_part data name = Inr part"
  shows "check_parts index images tot (PDict part # rest) =
         check_parts (Suc index) (Suc images) (tot + int (length data)) rest"
  using image_part_fields [OF assms] check_image_built [OF assms] by simp

text \<open>
  The parts collected so far pass the gate's loop, leaving it the count and the sum the
  collector has: what comes after them decides.
\<close>

definition passes :: "pyval list \<Rightarrow> nat \<Rightarrow> nat \<Rightarrow> bool" where
  "passes parts images tot \<longleftrightarrow>
     (\<forall>index im t rest. check_parts index im t (parts @ rest) =
        check_parts (index + length parts) (im + images) (t + int tot) rest)"

lemma passes_snoc:
  assumes "passes parts images tot" and "image_part data name = Inr part"
  shows "passes (parts @ [PDict part]) (Suc images) (tot + length data)"
  using assms(1) check_parts_image [OF assms(2)]
  by (simp add: passes_def add.assoc)

lemma collect_images_passes:
  assumes "collect_images index tot items parts = Inr out"
    and "passes parts images tot" and "tot \<le> MAX_TOTAL_BYTES"
  shows "\<exists>tot'. passes out (images + length items) tot' \<and> tot' \<le> MAX_TOTAL_BYTES \<and>
           length out = length parts + length items"
  using assms
proof (induction index tot items parts arbitrary: images rule: collect_images.induct)
  case (2 index tot item items parts)
  obtain raw where raw: "decode_data (dget item ''data'') index = Inr raw"
    using "2.prems"(1) by (auto split: sum.splits)
  have small: "raw \<noteq> []" "tot + length raw \<le> MAX_TOTAL_BYTES"
    using "2.prems"(1) raw by (auto split: if_splits)
  obtain part where part: "image_part raw (dget item ''name'') = Inr part"
    using "2.prems"(1) raw small by (auto split: sum.splits if_splits)
  have rec: "collect_images (Suc index) (tot + length raw) items (parts @ [PDict part]) = Inr out"
    using "2.prems"(1) raw small part by simp
  have "\<exists>tot'. passes out (Suc images + length items) tot' \<and> tot' \<le> MAX_TOTAL_BYTES \<and>
          length out = length (parts @ [PDict part]) + length items"
    using "2.IH" [OF raw small(1) _ part rec passes_snoc [OF "2.prems"(2) part] small(2)] small(2)
    by (simp add: not_less)
  then show ?case by simp
qed auto

lemma build_user_content_checked:
  assumes "build_user_content text images = Inr content"
  shows "check_content content = None"
proof (cases "images = []")
  case True
  with assms show ?thesis by (auto simp: build_user_content_def check_content_def)
next
  case False
  let ?start = "if py_strip text = [] then []
                else [PDict [(''type'', PStr ''text''), (''text'', PStr text)]]"
  have few: "length images \<le> MAX_IMAGES_PER_MESSAGE"
    using assms False by (auto simp: build_user_content_def split: if_splits)
  obtain parts where out: "collect_images 1 0 images ?start = Inr parts" and c: "content = PList parts"
    using assms False few
    by (cases "collect_images 1 0 images ?start") (auto simp: build_user_content_def split: if_splits)
  have start: "passes ?start 0 0" by (simp add: passes_def)
  obtain tot where tot: "passes parts (length images) tot" "tot \<le> MAX_TOTAL_BYTES"
      and len: "length parts = length ?start + length images"
    using collect_images_passes [OF out start] by auto
  have "check_parts 1 0 0 (parts @ []) = check_parts (1 + length parts) (length images) (int tot) []"
    using tot(1) unfolding passes_def by (metis add_0)
  then show ?thesis
    using few tot(2) len False c by (auto simp: check_content_def)
qed

subsection \<open>Properties\<close>

text \<open>
  Content built from a text and uploaded images always passes the gate that messages pass before
  they are stored: allowed type, readable base64, stated size equal to the decoded size, and all
  three limits.
\<close>

theorem built_content_is_accepted:
  assumes "build_user_content text images = Inr content"
  shows "check_content content = None"
  by (rule build_user_content_checked [OF assms])

definition sample_image :: pydict where
  "sample_image = [(''data'', PStr ''R0lG ODlh''), (''name'', PStr '' a.gif '')]"

definition sample_part :: pydict where
  "sample_part = [(''type'', PStr ''image''), (''mime'', PStr ''image/gif''), (''bytes'', PInt 6),
     (''data'', PStr ''R0lGODlh''), (''name'', PStr ''a.gif'')]"

lemma sample_chars:
  "char_of (82::nat) = CHR ''R''" "char_of (48::nat) = CHR ''0''" "char_of (108::nat) = CHR ''l''"
  "char_of (71::nat) = CHR ''G''" "char_of (79::nat) = CHR ''O''" "char_of (68::nat) = CHR ''D''"
  "char_of (104::nat) = CHR ''h''"
  by (simp_all add: char_of_def bit_iff_odd)

lemma sample_encoded: "b64encode ''GIF89a'' = ''R0lGODlh''"
  by (simp add: b64_char_def Let_def sample_chars)

lemma sample_decodes: "decode_data (PStr ''R0lG ODlh'') 1 = Inr ''GIF89a''"
proof -
  have "concat (py_split ''R0lG ODlh'') = ''R0lGODlh''"
    by (simp add: py_split_def is_space_def)
  then show ?thesis
    using b64_roundtrip [of "''GIF89a''"] unfolding sample_encoded
    by (simp only: decode_data_def pyval.case option.case)
qed

lemma sample_part_built: "image_part ''GIF89a'' (PStr '' a.gif '') = Inr sample_part"
proof -
  have "sniff_mime ''GIF89a'' = Some ''image/gif''"
    by (simp add: sniff_mime_def bytes_of_def)
  moreover have "clean_name (PStr '' a.gif '') = Some ''a.gif''"
    by (simp add: clean_name_def py_split_def py_strip_def is_space_def blank_control_def
        MAX_NAME_CHARS_def)
  ultimately show ?thesis using sample_encoded
    by (simp add: image_part_def MAX_IMAGE_BYTES_def sample_part_def)
qed

theorem built_content_is_accepted_witness:
  "check_content (PList [PDict [(''type'', PStr ''text''), (''text'', PStr ''look'')], PDict sample_part])
     = None"
proof -
  have "build_user_content ''look'' [sample_image] =
      Inr (PList [PDict [(''type'', PStr ''text''), (''text'', PStr ''look'')], PDict sample_part])"
    using sample_decodes sample_part_built
    by (simp add: build_user_content_def sample_image_def MAX_IMAGES_PER_MESSAGE_def
        MAX_TOTAL_BYTES_def py_strip_def is_space_def)
  from built_content_is_accepted [OF this] show ?thesis .
qed

end
