(* ===== verification/Session_Handle.thy ===== *)
theory Session_Handle
  imports Session_State Session_Line Attachments
begin

section \<open>The session handle\<close>

text \<open>
  The module \<open>avid/session/session.py\<close>: message validation, the exclusive mutation grant, the
  branch views and the open handle. The handle works over any storage: the protocol \<open>Storage\<close> of
  \<open>types.py\<close> is a record of operations, passed to every operation of the handle, and the locale
  \<open>session_storage\<close> states what the handle relies on. Ids and the clock, which come from outside,
  are arguments (\<open>fresh\<close>, \<open>now\<close>), as is the calling thread (\<open>me\<close>).

  An operation that may have to wait at the mutation line returns an \<open>outcome\<close>: \<open>Blocked\<close> is a
  call that is still waiting.
\<close>

datatype 'a outcome = Returned 'a | Raised session_error | Blocked

subsection \<open>The storage protocol\<close>

record 's storage_ops =
  so_commit :: "int \<Rightarrow> session_write list \<Rightarrow> 's \<Rightarrow> (session_error + commit_result) \<times> 's"
  so_get_entries :: "string list \<Rightarrow> 's \<Rightarrow> session_error + (string \<times> entry) list"
  so_get_value :: "value_address \<Rightarrow> 's \<Rightarrow> session_error + stored_value option"
  so_scan_values :: "string \<Rightarrow> 's \<Rightarrow> session_error + stored_value list"
  so_scan_branch :: "branch_scan \<Rightarrow> 's \<Rightarrow> (session_error + entry list) option"
  so_scan_entries :: "entry_query \<Rightarrow> 's \<Rightarrow> session_error + entry list"
  so_get_stats :: "'s \<Rightarrow> session_error + nat"
  so_close :: "'s \<Rightarrow> 's"

subsection \<open>Message validation\<close>

definition ALLOWED_ROLES :: "string list" where
  "ALLOWED_ROLES = [''user'', ''assistant'', ''tool'']"

definition good_call :: "pyval \<Rightarrow> bool" where
  "good_call call = (case call of PDict d \<Rightarrow> as_str (dget d ''id'') \<noteq> None | _ \<Rightarrow> False)"

definition validate_message :: "pyval \<Rightarrow> session_error option" where
  "validate_message message =
     (case message of
        PDict m \<Rightarrow>
          (if dget m ''role'' \<notin> PStr ` set ALLOWED_ROLES then Some (SessionInvalidMessageError BadRole)
           else if dget m ''role'' = PStr ''tool'' \<and> as_str (dget m ''tool_call_id'') = None
             then Some (SessionInvalidMessageError ToolWithoutCallId)
           else case (if dget m ''role'' = PStr ''assistant'' then calls_of m else Some []) of
               None \<Rightarrow> Some PyTypeError
             | Some calls \<Rightarrow>
                 (if \<exists>call\<in>set calls. \<not> good_call call
                    then Some (SessionInvalidMessageError CallWithoutId)
                  else if check_content (dget m ''content'') \<noteq> None
                    then Some (SessionInvalidMessageError BadContent)
                  else None))
      | _ \<Rightarrow> Some (SessionInvalidMessageError MessageNotDict))"

subsection \<open>The mutation grant\<close>

record 's mutation =
  mu_storage :: 's
  mu_active :: bool
  mu_committed :: bool

definition mutation_commit ::
  "'s storage_ops \<Rightarrow> int \<Rightarrow> session_write list \<Rightarrow> 's mutation \<Rightarrow>
   (session_error + commit_result) \<times> 's mutation" where
  "mutation_commit ops now ws m =
     (if \<not> mu_active m then (Inl SessionMisuse, m)
      else if mu_committed m then (Inl SessionMisuse, m)
      else let (r, s) = so_commit ops now ws (mu_storage m)
           in (r, m\<lparr>mu_storage := s, mu_committed := True\<rparr>))"

definition mutation_get_entries ::
  "'s storage_ops \<Rightarrow> string list \<Rightarrow> 's mutation \<Rightarrow> session_error + (string \<times> entry) list" where
  "mutation_get_entries ops ids m =
     (if \<not> mu_active m then Inl SessionMisuse else so_get_entries ops ids (mu_storage m))"

definition mutation_get_value ::
  "'s storage_ops \<Rightarrow> value_address \<Rightarrow> 's mutation \<Rightarrow> session_error + stored_value option" where
  "mutation_get_value ops a m =
     (if \<not> mu_active m then Inl SessionMisuse else so_get_value ops a (mu_storage m))"

definition mutation_scan_branch ::
  "'s storage_ops \<Rightarrow> branch_scan \<Rightarrow> 's mutation \<Rightarrow> (session_error + entry list) option" where
  "mutation_scan_branch ops q m =
     (if \<not> mu_active m then Some (Inl SessionMisuse) else so_scan_branch ops q (mu_storage m))"

definition mutation_end :: "line \<Rightarrow> 's mutation \<Rightarrow> line \<times> 's mutation" where
  "mutation_end l m = (if \<not> mu_active m then (l, m) else (release_line l, m\<lparr>mu_active := False\<rparr>))"

subsection \<open>The handle and its reads\<close>

datatype handle_state = HOpen | HClosing | HClosed

record 's handle =
  h_meta :: session_metadata
  h_storage :: 's
  h_line :: line
  h_close_storage :: bool
  h_branches :: "string list"
  h_state :: handle_state

definition open_handle :: "session_metadata \<Rightarrow> 's \<Rightarrow> bool \<Rightarrow> 's handle" where
  "open_handle md s close_storage =
     \<lparr>h_meta = md, h_storage = s, h_line = new_line, h_close_storage = close_storage,
      h_branches = [], h_state = HOpen\<rparr>"

definition assert_open :: "'s handle \<Rightarrow> session_error option" where
  "assert_open h = (if h_state h \<noteq> HOpen then Some SessionClosedError else None)"

definition when_open :: "'s handle \<Rightarrow> (session_error + 'a) \<Rightarrow> session_error + 'a" where
  "when_open h r = (case assert_open h of Some e \<Rightarrow> Inl e | None \<Rightarrow> r)"

definition handle_get_entries ::
  "'s storage_ops \<Rightarrow> string list \<Rightarrow> 's handle \<Rightarrow> session_error + (string \<times> entry) list" where
  "handle_get_entries ops ids h = when_open h (so_get_entries ops ids (h_storage h))"

definition handle_get_entry ::
  "'s storage_ops \<Rightarrow> string \<Rightarrow> 's handle \<Rightarrow> session_error + entry option" where
  "handle_get_entry ops i h = map_sum id (\<lambda>found. map_of found i) (handle_get_entries ops [i] h)"

definition handle_get_value ::
  "'s storage_ops \<Rightarrow> value_address \<Rightarrow> 's handle \<Rightarrow> session_error + stored_value option" where
  "handle_get_value ops a h = when_open h (so_get_value ops a (h_storage h))"

definition handle_scan_values ::
  "'s storage_ops \<Rightarrow> string \<Rightarrow> 's handle \<Rightarrow> session_error + stored_value list" where
  "handle_scan_values ops ns h = when_open h (so_scan_values ops ns (h_storage h))"

definition handle_scan_branch ::
  "'s storage_ops \<Rightarrow> branch_scan \<Rightarrow> 's handle \<Rightarrow> (session_error + entry list) option" where
  "handle_scan_branch ops q h =
     (case assert_open h of Some e \<Rightarrow> Some (Inl e) | None \<Rightarrow> so_scan_branch ops q (h_storage h))"

definition handle_find_entries ::
  "'s storage_ops \<Rightarrow> entry_query \<Rightarrow> 's handle \<Rightarrow> session_error + entry list" where
  "handle_find_entries ops q h = when_open h (so_scan_entries ops q (h_storage h))"

definition clamp_one :: "int option \<Rightarrow> int option" where
  "clamp_one limit = Some (case limit of None \<Rightarrow> 1 | Some n \<Rightarrow> min n 1)"

definition first_of :: "'a list \<Rightarrow> 'a option" where
  "first_of xs = (case xs of [] \<Rightarrow> None | x # _ \<Rightarrow> Some x)"

definition handle_find_entry ::
  "'s storage_ops \<Rightarrow> entry_query \<Rightarrow> 's handle \<Rightarrow> session_error + entry option" where
  "handle_find_entry ops q h =
     map_sum id first_of (handle_find_entries ops (q\<lparr>eq_limit := clamp_one (eq_limit q)\<rparr>) h)"

definition handle_get_name :: "'s storage_ops \<Rightarrow> 's handle \<Rightarrow> session_error + pyval option" where
  "handle_get_name ops h = map_sum id (map_option sv_value) (handle_get_value ops session_name h)"

definition handle_get_label ::
  "'s storage_ops \<Rightarrow> string \<Rightarrow> 's handle \<Rightarrow> session_error + pyval option" where
  "handle_get_label ops i h = map_sum id (map_option sv_value) (handle_get_value ops (entry_label i) h)"

definition handle_get_stats :: "'s storage_ops \<Rightarrow> 's handle \<Rightarrow> session_error + nat" where
  "handle_get_stats ops h = when_open h (so_get_stats ops (h_storage h))"

subsection \<open>Writes\<close>

definition begin_mutation :: "nat \<Rightarrow> 's handle \<Rightarrow> 's mutation outcome \<times> 's handle" where
  "begin_mutation me h =
     (case assert_open h of
        Some e \<Rightarrow> (Raised e, h)
      | None \<Rightarrow>
          (case acquire_line me (h_line h) of
             Refused e \<Rightarrow> (Raised e, h)
           | Sleeps l \<Rightarrow> (Blocked, h\<lparr>h_line := l\<rparr>)
           | Entered l \<Rightarrow>
               (Returned \<lparr>mu_storage = h_storage h, mu_active = True, mu_committed = False\<rparr>,
                h\<lparr>h_line := l\<rparr>)))"

definition mutate ::
  "nat \<Rightarrow> ('s mutation \<Rightarrow> (session_error + 'a) \<times> 's mutation) \<Rightarrow> 's handle \<Rightarrow> 'a outcome \<times> 's handle"
where
  "mutate me callback h =
     (case begin_mutation me h of
        (Raised e, h') \<Rightarrow> (Raised e, h')
      | (Blocked, h') \<Rightarrow> (Blocked, h')
      | (Returned m, h') \<Rightarrow>
          (let (r, m') = callback m;
               (l, m'') = mutation_end (h_line h') m'
           in ((case r of Inl e \<Rightarrow> Raised e | Inr x \<Rightarrow> Returned x),
               h'\<lparr>h_line := l, h_storage := mu_storage m''\<rparr>)))"

definition handle_set_value ::
  "'s storage_ops \<Rightarrow> nat \<Rightarrow> int \<Rightarrow> value_address \<Rightarrow> pyval \<Rightarrow> 's handle \<Rightarrow>
   commit_result outcome \<times> 's handle" where
  "handle_set_value ops me now a v h = mutate me (mutation_commit ops now [set_value a v]) h"

definition handle_delete_value ::
  "'s storage_ops \<Rightarrow> nat \<Rightarrow> int \<Rightarrow> value_address \<Rightarrow> 's handle \<Rightarrow> commit_result outcome \<times> 's handle"
where
  "handle_delete_value ops me now a h = mutate me (mutation_commit ops now [delete_value a]) h"

definition handle_set_name ::
  "'s storage_ops \<Rightarrow> nat \<Rightarrow> int \<Rightarrow> string option \<Rightarrow> 's handle \<Rightarrow> commit_result outcome \<times> 's handle"
where
  "handle_set_name ops me now name h =
     (case name of
        None \<Rightarrow> handle_delete_value ops me now session_name h
      | Some n \<Rightarrow> handle_set_value ops me now session_name (PStr n) h)"

definition handle_set_label ::
  "'s storage_ops \<Rightarrow> nat \<Rightarrow> int \<Rightarrow> string \<Rightarrow> string option \<Rightarrow> 's handle \<Rightarrow>
   commit_result outcome \<times> 's handle" where
  "handle_set_label ops me now i label h =
     (case label of
        None \<Rightarrow> handle_delete_value ops me now (entry_label i) h
      | Some l \<Rightarrow> handle_set_value ops me now (entry_label i) (PStr l) h)"

subsection \<open>Branches\<close>

definition assert_valid_branch :: "string \<Rightarrow> session_error option" where
  "assert_valid_branch name =
     (if name = [] then Some (SessionInvalidBranchError name)
      else if CHR 0x00 \<in> set name then Some (SessionInvalidBranchError name)
      else None)"

definition branch_object :: "string \<Rightarrow> 's handle \<Rightarrow> 's handle" where
  "branch_object name h =
     (if name \<in> set (h_branches h) then h else h\<lparr>h_branches := h_branches h @ [name]\<rparr>)"

definition branch_names :: "'s storage_ops \<Rightarrow> 's handle \<Rightarrow> session_error + string list" where
  "branch_names ops h =
     map_sum id (\<lambda>found. DEFAULT_BRANCH # filter (\<lambda>n. n \<noteq> DEFAULT_BRANCH) (map sv_key found))
       (handle_scan_values ops BRANCH_TIP_NS h)"

text \<open>A branch view is its name; \<open>None\<close> is an unknown branch.\<close>

definition handle_branch ::
  "'s storage_ops \<Rightarrow> string \<Rightarrow> 's handle \<Rightarrow> (session_error + string option) \<times> 's handle" where
  "handle_branch ops name h =
     (case assert_open h of
        Some e \<Rightarrow> (Inl e, h)
      | None \<Rightarrow>
          (case assert_valid_branch name of
             Some e \<Rightarrow> (Inl e, h)
           | None \<Rightarrow>
               (case so_get_value ops (branch_tip name) (h_storage h) of
                  Inl e \<Rightarrow> (Inl e, h)
                | Inr stored \<Rightarrow>
                    (if stored = None \<and> name \<noteq> DEFAULT_BRANCH then (Inr None, h)
                     else (Inr (Some name), branch_object name h)))))"

definition create_branch_job ::
  "'s storage_ops \<Rightarrow> int \<Rightarrow> string \<Rightarrow> string option \<Rightarrow> 's mutation \<Rightarrow>
   (session_error + unit) \<times> 's mutation" where
  "create_branch_job ops now name at m =
     (case mutation_get_value ops (branch_tip name) m of
        Inl e \<Rightarrow> (Inl e, m)
      | Inr (Some _) \<Rightarrow> (Inl (SessionBranchExistsError name), m)
      | Inr None \<Rightarrow>
          (case (case at of None \<Rightarrow> Inr True
                 | Some i \<Rightarrow> map_sum id (\<lambda>found. map_of found i \<noteq> None)
                               (mutation_get_entries ops [i] m)) of
             Inl e \<Rightarrow> (Inl e, m)
           | Inr known \<Rightarrow>
               (if \<not> known then (Inl (SessionUnknownTargetError (the at)), m)
                else let (r, m') = mutation_commit ops now
                       [set_value (branch_tip name) (case at of None \<Rightarrow> PNone | Some i \<Rightarrow> PStr i)] m
                     in (map_sum id (\<lambda>_. ()) r, m'))))"

definition create_branch ::
  "'s storage_ops \<Rightarrow> nat \<Rightarrow> int \<Rightarrow> string \<Rightarrow> string option \<Rightarrow> 's handle \<Rightarrow>
   string outcome \<times> 's handle" where
  "create_branch ops me now name at h =
     (case assert_open h of
        Some e \<Rightarrow> (Raised e, h)
      | None \<Rightarrow>
          (case assert_valid_branch name of
             Some e \<Rightarrow> (Raised e, h)
           | None \<Rightarrow>
               (case mutate me (create_branch_job ops now name at) h of
                  (Returned _, h') \<Rightarrow> (Returned name, branch_object name h')
                | (Raised e, h') \<Rightarrow> (Raised e, h')
                | (Blocked, h') \<Rightarrow> (Blocked, h'))))"

text \<open>
  The parent of an appended entry is the tip's value. The tip of a branch is \<open>None\<close> or an id; a
  value of any other kind names no entry, so the commit's validation refuses it.
\<close>

definition tip_id :: "pyval \<Rightarrow> session_error + string option" where
  "tip_id v =
     (case v of
        PNone \<Rightarrow> Inr None
      | PStr i \<Rightarrow> Inr (Some i)
      | _ \<Rightarrow> Inl (SessionInvariantError (MissingParent (py_str v))))"

definition append_job ::
  "'s storage_ops \<Rightarrow> int \<Rightarrow> string \<Rightarrow> string \<Rightarrow> pydict \<Rightarrow> string \<Rightarrow> 's mutation \<Rightarrow>
   (session_error + unit) \<times> 's mutation" where
  "append_job ops now fresh branch message entry_type m =
     (case mutation_get_value ops (branch_tip branch) m of
        Inl e \<Rightarrow> (Inl e, m)
      | Inr tip \<Rightarrow>
          (if tip = None \<and> branch \<noteq> DEFAULT_BRANCH
           then (Inl (SessionInvariantError (UnknownBranch branch)), m)
           else case (case tip of None \<Rightarrow> Inr None | Some stored \<Rightarrow> tip_id (sv_value stored)) of
               Inl e \<Rightarrow> (Inl e, m\<lparr>mu_committed := True\<rparr>)
             | Inr parent \<Rightarrow>
                 (let (r, m') = mutation_commit ops now
                    [EntryWrite \<lparr>ne_id = fresh, ne_parent_id = parent, ne_type = entry_type,
                                 ne_message = Some message\<rparr>,
                     set_value (branch_tip branch) (PStr fresh)] m
                  in (map_sum id (\<lambda>_. ()) r, m'))))"

definition append_message ::
  "'s storage_ops \<Rightarrow> nat \<Rightarrow> int \<Rightarrow> string \<Rightarrow> string \<Rightarrow> pydict \<Rightarrow> string \<Rightarrow> 's handle \<Rightarrow>
   string outcome \<times> 's handle" where
  "append_message ops me now fresh branch message entry_type h =
     (case assert_open h of
        Some e \<Rightarrow> (Raised e, h)
      | None \<Rightarrow>
          (case validate_message (PDict message) of
             Some e \<Rightarrow> (Raised e, h)
           | None \<Rightarrow>
               (case mutate me (append_job ops now fresh branch message entry_type) h of
                  (Returned _, h') \<Rightarrow> (Returned fresh, h')
                | (Raised e, h') \<Rightarrow> (Raised e, h')
                | (Blocked, h') \<Rightarrow> (Blocked, h'))))"

definition get_tip_id ::
  "'s storage_ops \<Rightarrow> string \<Rightarrow> 's handle \<Rightarrow> session_error + pyval" where
  "get_tip_id ops name h =
     (case assert_valid_branch name of
        Some e \<Rightarrow> Inl e
      | None \<Rightarrow> map_sum id (\<lambda>stored. case stored of None \<Rightarrow> PNone | Some v \<Rightarrow> sv_value v)
                  (so_get_value ops (branch_tip name) (h_storage h)))"

definition branch_find_entries ::
  "'s storage_ops \<Rightarrow> string \<Rightarrow> branch_scan \<Rightarrow> 's handle \<Rightarrow> (session_error + entry list) option" where
  "branch_find_entries ops name q h =
     (case (case bs_start q of Some s \<Rightarrow> Inr (PStr s) | None \<Rightarrow> get_tip_id ops name h) of
        Inl e \<Rightarrow> Some (Inl e)
      | Inr PNone \<Rightarrow> Some (Inr [])
      | Inr (PStr s) \<Rightarrow> handle_scan_branch ops (q\<lparr>bs_start := Some s\<rparr>) h
      | Inr v \<Rightarrow> Some (when_open h (Inl (SessionInvariantError (UnknownStart (py_str v))))))"

definition branch_find_entry ::
  "'s storage_ops \<Rightarrow> string \<Rightarrow> branch_scan \<Rightarrow> 's handle \<Rightarrow> (session_error + entry option) option" where
  "branch_find_entry ops name q h =
     map_option (map_sum id first_of)
       (branch_find_entries ops name (q\<lparr>bs_limit := clamp_one (bs_limit q)\<rparr>) h)"

subsection \<open>Closing\<close>

text \<open>
  \<open>close\<close> seals the line and waits for the running job. With a job running in another thread it is
  \<open>Blocked\<close> in \<open>wait_idle\<close>, the handle already refusing work; a second closer then waits for
  the first at \<open>_close_lock\<close>; \<open>finish_close\<close> is what follows the wait. The hook run by \<open>on_close\<close> belongs to the repository.
\<close>

definition finish_close :: "'s storage_ops \<Rightarrow> 's handle \<Rightarrow> 's handle" where
  "finish_close ops h =
     h\<lparr>h_storage := (if h_close_storage h then so_close ops (h_storage h) else h_storage h),
       h_state := HClosed\<rparr>"

definition handle_close :: "'s storage_ops \<Rightarrow> nat \<Rightarrow> 's handle \<Rightarrow> unit outcome \<times> 's handle" where
  "handle_close ops me h =
     (if h_state h = HClosing then (Blocked, h)
      else if h_state h \<noteq> HOpen then (Returned (), h)
      else if held_by me (h_line h) then (Raised SessionBusyError, h)
      else let h' = h\<lparr>h_state := HClosing, h_line := seal_line (h_line h)\<rparr>
           in if idle (h_line h') then (Returned (), finish_close ops h') else (Blocked, h'))"


subsection \<open>Branch logs: what a branch is, abstractly\<close>

definition branch_log :: "session_state \<Rightarrow> string \<Rightarrow> entry list \<Rightarrow> bool" where
  "branch_log st b es \<longleftrightarrow>
     (case map_option sv_value (get_value st (branch_tip b)) of
        None \<Rightarrow> es = []
      | Some PNone \<Rightarrow> es = []
      | Some (PStr i) \<Rightarrow> chain st i (rev es)
      | Some _ \<Rightarrow> False)"

definition tips_wf :: "session_state \<Rightarrow> bool" where
  "tips_wf st \<longleftrightarrow>
     (\<forall>b v. get_value st (branch_tip b) = Some v \<longrightarrow>
        sv_value v = PNone \<or> (\<exists>i e. sv_value v = PStr i \<and> st_entries st i = Some e))"

lemma branch_log_exists:
  assumes "state_wf st" and "tips_wf st"
  shows "\<exists>es. branch_log st b es"
proof (cases "get_value st (branch_tip b)")
  case None
  then show ?thesis by (auto simp: branch_log_def)
next
  case (Some v)
  with assms(2) consider "sv_value v = PNone"
    | i e where "sv_value v = PStr i" "st_entries st i = Some e"
    unfolding tips_wf_def by blast
  then show ?thesis
  proof cases
    case 1
    with Some show ?thesis by (auto simp: branch_log_def)
  next
    case 2
    then obtain es where "chain st i es"
      using chain_exists [of st i e] assms(1) by (auto simp: state_wf_def)
    with Some 2 have "branch_log st b (rev es)" by (simp add: branch_log_def)
    then show ?thesis by blast
  qed
qed

lemma branch_log_unique: "\<lbrakk>branch_log st b es; branch_log st b es'\<rbrakk> \<Longrightarrow> es = es'"
  unfolding branch_log_def
  by (auto split: option.splits pyval.splits dest: chain_unique)

text \<open>Entries are only ever added, so chains stay what they are.\<close>

lemma chain_mono:
  assumes "chain st i es" and "\<And>j e. st_entries st j = Some e \<Longrightarrow> st_entries st' j = Some e"
  shows "chain st' i es"
  using assms(1) by (induction rule: chain.induct) (auto intro: chain.intros assms(2))

definition append_writes :: "session_state \<Rightarrow> int \<Rightarrow> string \<Rightarrow> new_entry \<Rightarrow> committed_write list" where
  "append_writes st now b ne =
     assign_seqs (st_next_seq st) now [EntryWrite ne, set_value (branch_tip b) (PStr (ne_id ne))]"

lemma append_writes_state:
  "st_entries (apply_writes (append_writes st now b ne) st) =
     (st_entries st)(ne_id ne \<mapsto> entry_of (st_next_seq st) now ne)"
  "get_value (apply_writes (append_writes st now b ne) st) a =
     (if a = branch_tip b
      then Some \<lparr>sv_namespace = BRANCH_TIP_NS, sv_key = b, sv_value = PStr (ne_id ne),
                 sv_seq = st_next_seq st + 1\<rparr>
      else get_value st a)"
  by (auto simp: append_writes_def set_value_def branch_tip_def get_value_def Let_def entry_of_def)

lemma append_log_same:
  assumes log: "branch_log st b es" and fresh: "st_entries st (ne_id ne) = None"
    and par: "ne_parent_id ne = (case es of [] \<Rightarrow> None | _ \<Rightarrow> Some (e_id (last es)))"
    and wf: "entries_wf st"
  shows "branch_log (apply_writes (append_writes st now b ne) st) b
           (es @ [entry_of (st_next_seq st) now ne])"
proof -
  let ?st = "apply_writes (append_writes st now b ne) st"
  let ?e = "entry_of (st_next_seq st) now ne"
  have self: "st_entries ?st (ne_id ne) = Some ?e" by (simp add: append_writes_state)
  have grow: "\<And>j x. st_entries st j = Some x \<Longrightarrow> st_entries ?st j = Some x"
    using fresh by (auto simp: append_writes_state)
  have "chain ?st (ne_id ne) (?e # rev es)"
  proof (cases "es = []")
    case True
    then show ?thesis using self par by (auto intro: chain_root simp: entry_of_def)
  next
    case False
    then obtain i where i: "chain st i (rev es)"
      using log by (auto simp: branch_log_def split: option.splits pyval.splits)
    then have "e_id (last es) = i"
      using chain_Cons_hd [OF i] entries_wf_lookup [OF wf] False
      by (cases es rule: rev_cases) auto
    moreover have "ne_parent_id ne = Some (e_id (last es))"
      using par False by (cases es) auto
    ultimately show ?thesis
      using self chain_mono [OF i grow] by (auto intro: chain_step simp: entry_of_def)
  qed
  then show ?thesis by (simp add: branch_log_def append_writes_state)
qed

lemma append_log_other:
  assumes "branch_log st b' es" and "b' \<noteq> b" and "st_entries st (ne_id ne) = None"
  shows "branch_log (apply_writes (append_writes st now b ne) st) b' es"
proof -
  have grow: "\<And>j x. st_entries st j = Some x \<Longrightarrow>
      st_entries (apply_writes (append_writes st now b ne) st) j = Some x"
    using assms(3) by (auto simp: append_writes_state)
  show ?thesis
    using assms(1,2) chain_mono [OF _ grow]
    by (auto simp: branch_log_def append_writes_state split: option.splits pyval.splits)
qed

lemma append_tips_wf:
  assumes "tips_wf st" and "st_entries st (ne_id ne) = None"
  shows "tips_wf (apply_writes (append_writes st now b ne) st)"
proof -
  have "sv_value v = PNone \<or> (\<exists>i e. sv_value v = PStr i \<and>
          st_entries (apply_writes (append_writes st now b ne) st) i = Some e)"
    if v: "get_value (apply_writes (append_writes st now b ne) st) (branch_tip c) = Some v" for c v
  proof (cases "c = b")
    case True
    with v show ?thesis by (auto simp: append_writes_state)
  next
    case False
    with v have "get_value st (branch_tip c) = Some v" by (simp add: append_writes_state)
    then have "sv_value v = PNone \<or> (\<exists>i e. sv_value v = PStr i \<and> st_entries st i = Some e)"
      using assms(1) unfolding tips_wf_def by blast
    then show ?thesis using assms(2) by (auto simp: append_writes_state)
  qed
  then show ?thesis unfolding tips_wf_def by blast
qed

lemma branch_log_last:
  assumes "branch_log st b es" and "entries_wf st"
    and "tip_id (case get_value st (branch_tip b) of None \<Rightarrow> PNone | Some v \<Rightarrow> sv_value v) = Inr p"
  shows "p = (case es of [] \<Rightarrow> None | _ \<Rightarrow> Some (e_id (last es)))"
proof (cases "es = []")
  case True
  then show ?thesis
    using assms(1,3)
    by (auto simp: branch_log_def tip_id_def split: option.splits pyval.splits)
next
  case False
  then obtain i v where i: "chain st i (rev es)" "get_value st (branch_tip b) = Some v"
      "sv_value v = PStr i"
    using assms(1) by (auto simp: branch_log_def split: option.splits pyval.splits)
  then have "e_id (last es) = i"
    using chain_Cons_hd [OF i(1)] entries_wf_lookup [OF assms(2)] False
    by (cases es rule: rev_cases) auto
  then show ?thesis using i assms(3) False by (cases es) (auto simp: tip_id_def)
qed

subsection \<open>What the handle relies on\<close>

text \<open>
  The contract of a storage, over the state it stands for: reads answer from that state, a commit
  either takes the whole batch as \<open>prepare_commit\<close> numbers it or changes nothing, a closed storage
  answers nothing.
\<close>

locale session_storage =
  fixes ops :: "'s storage_ops"
    and abs :: "'s \<Rightarrow> session_state"
    and is_open :: "'s \<Rightarrow> bool"
    and inv :: "'s \<Rightarrow> bool"
  assumes inv_wf: "inv s \<Longrightarrow> state_wf (abs s)"
    and read_value: "is_open s \<Longrightarrow> so_get_value ops a s = Inr (get_value (abs s) a)"
    and read_entries: "is_open s \<Longrightarrow> so_get_entries ops ids s = Inr (get_entries (abs s) ids)"
    and read_values: "is_open s \<Longrightarrow> so_scan_values ops ns s = Inr (values_in (abs s) ns)"
    and read_branch: "is_open s \<Longrightarrow> so_scan_branch ops q s = scan_branch (abs s) q"
    and read_scan: "is_open s \<Longrightarrow> so_scan_entries ops eq s = Inr (scan_entries (abs s) eq)"
    and read_stats: "is_open s \<Longrightarrow> so_get_stats ops s = Inr (st_message_count (abs s))"
    and commit_done: "\<lbrakk>inv s; so_commit ops now ws s = (Inr r, s')\<rbrakk> \<Longrightarrow>
          is_open s \<and> is_open s' \<and> inv s' \<and>
          (\<exists>p. prepare_commit (abs s) ws now = Inr p \<and>
             abs s' = apply_writes (pc_writes p) (abs s) \<and>
             r = \<lparr>cr_first_seq = pc_first_seq p, cr_seqs = pc_seqs p, cr_timestamp = now,
                  cr_message_count = st_message_count (abs s')\<rparr>)"
    and commit_failed: "\<lbrakk>inv s; so_commit ops now ws s = (Inl e, s')\<rbrakk> \<Longrightarrow>
          abs s' = abs s \<and> inv s' \<and> (is_open s' \<longleftrightarrow> is_open s)"
    and closed_value: "\<not> is_open s \<Longrightarrow> so_get_value ops a s = Inl SessionClosedError"
    and close_keeps: "abs (so_close ops s) = abs s"
    and close_closes: "\<not> is_open (so_close ops s)"

begin

definition handle_wf :: "'s handle \<Rightarrow> bool" where
  "handle_wf h \<longleftrightarrow> inv (h_storage h) \<and> tips_wf (abs (h_storage h))"

abbreviation view :: "'s handle \<Rightarrow> session_state" where
  "view h \<equiv> abs (h_storage h)"

lemma mutate_Returned:
  assumes "mutate me cb h = (Returned x, h')"
  obtains m where "h_state h = HOpen" "h_state h' = HOpen"
    "cb \<lparr>mu_storage = h_storage h, mu_active = True, mu_committed = False\<rparr> = (Inr x, m)"
    "h_storage h' = mu_storage m"
proof -
  obtain r m where "cb \<lparr>mu_storage = h_storage h, mu_active = True, mu_committed = False\<rparr> = (r, m)"
    by fastforce
  with assms that show ?thesis
    by (auto simp: mutate_def begin_mutation_def mutation_end_def assert_open_def
        split: option.splits acquire_result.splits sum.splits if_splits)
qed

lemma mutate_failed:
  assumes "mutate me cb h = (r, h')" and "\<And>x. r \<noteq> Returned x"
  shows "h_storage h' = h_storage h \<or>
    (\<exists>e m. cb \<lparr>mu_storage = h_storage h, mu_active = True, mu_committed = False\<rparr> = (Inl e, m) \<and>
       h_storage h' = mu_storage m)"
proof -
  obtain q m where "cb \<lparr>mu_storage = h_storage h, mu_active = True, mu_committed = False\<rparr> = (q, m)"
    by fastforce
  with assms show ?thesis
    by (auto simp: mutate_def begin_mutation_def mutation_end_def assert_open_def
        split: option.splits acquire_result.splits sum.splits if_splits)
qed

lemma append_job_done:
  assumes "append_job ops now fresh b msg ty \<lparr>mu_storage = s, mu_active = True, mu_committed = False\<rparr>
             = (Inr x, m)"
    and "inv s"
  obtains parent where
    "tip_id (case get_value (abs s) (branch_tip b) of None \<Rightarrow> PNone | Some v \<Rightarrow> sv_value v) = Inr parent"
    "prepare_commit (abs s)
       [EntryWrite \<lparr>ne_id = fresh, ne_parent_id = parent, ne_type = ty, ne_message = Some msg\<rparr>,
        set_value (branch_tip b) (PStr fresh)] now \<noteq> Inl e"
    "st_entries (abs s) fresh = None"
    "abs (mu_storage m) = apply_writes (append_writes (abs s) now b
       \<lparr>ne_id = fresh, ne_parent_id = parent, ne_type = ty, ne_message = Some msg\<rparr>) (abs s)"
    "inv (mu_storage m)"
proof -
  have op: "is_open s"
    using assms(1) closed_value [of s "branch_tip b"]
    by (auto simp: append_job_def mutation_get_value_def split: sum.splits)
  note rv = read_value [OF op, of "branch_tip b"]
  let ?tip = "case get_value (abs s) (branch_tip b) of None \<Rightarrow> PNone | Some v \<Rightarrow> sv_value v"
  obtain parent where tip: "tip_id ?tip = Inr parent"
    using assms(1) rv
    by (auto simp: append_job_def mutation_get_value_def tip_id_def
        split: option.splits sum.splits if_splits pyval.splits)
  let ?ne = "\<lparr>ne_id = fresh, ne_parent_id = parent, ne_type = ty, ne_message = Some msg\<rparr>"
  let ?ws = "[EntryWrite ?ne, set_value (branch_tip b) (PStr fresh)]"
  have tip': "(case get_value (abs s) (branch_tip b) of None \<Rightarrow> Inr None
                | Some stored \<Rightarrow> tip_id (sv_value stored)) = Inr parent"
    using tip by (auto simp: tip_id_def split: option.splits)
  obtain q s' where q: "so_commit ops now ?ws s = (q, s')" by fastforce
  obtain r where c: "so_commit ops now ?ws s = (Inr r, s')" "mu_storage m = s'"
    using assms(1) rv tip' q
    by (cases q) (auto simp: append_job_def mutation_get_value_def mutation_commit_def
        split: if_splits)
  from commit_done [OF assms(2) c(1)] obtain p where
      p: "prepare_commit (abs s) ?ws now = Inr p" "abs s' = apply_writes (pc_writes p) (abs s)"
         "inv s'" by blast
  have "st_entries (abs s) fresh = None"
    using p(1) by (auto simp: prepare_commit_Inr validate_state_def split: if_splits)
  moreover have "abs s' = apply_writes (append_writes (abs s) now b ?ne) (abs s)"
    using p by (simp add: prepare_commit_Inr append_writes_def)
  ultimately show ?thesis using that [OF tip] p c by simp
qed

text \<open>Appending to a branch adds one entry at the end of its log and touches no other log.\<close>

lemma append_message_log:
  assumes "append_message ops me now fresh b msg ty h = (Returned i, h')" and "handle_wf h"
    and "branch_log (view h) b es"
  shows "i = fresh \<and> handle_wf h' \<and>
    (\<exists>e. branch_log (view h') b (es @ [e]) \<and> e_id e = fresh \<and> e_type e = ty \<and>
         e_message e = Some msg \<and> e_timestamp e = now \<and> e_seq e = st_next_seq (view h)) \<and>
    (\<forall>b' es'. b' \<noteq> b \<longrightarrow> branch_log (view h) b' es' \<longrightarrow> branch_log (view h') b' es')"
proof -
  have inv: "inv (h_storage h)" and tips: "tips_wf (view h)"
    using assms(2) by (auto simp: handle_wf_def)
  have wf: "entries_wf (view h)" using inv_wf [OF inv] by (simp add: state_wf_def)
  obtain x where i: "i = fresh" and mut: "mutate me (append_job ops now fresh b msg ty) h = (Returned x, h')"
    using assms(1)
    by (auto simp: append_message_def split: option.splits prod.splits outcome.splits)
  obtain m where m: "append_job ops now fresh b msg ty
      \<lparr>mu_storage = h_storage h, mu_active = True, mu_committed = False\<rparr> = (Inr x, m)"
      "h_storage h' = mu_storage m"
    using mutate_Returned [OF mut] by blast
  obtain parent where parent:
      "tip_id (case get_value (view h) (branch_tip b) of None \<Rightarrow> PNone | Some v \<Rightarrow> sv_value v) = Inr parent"
      and fresh: "st_entries (view h) fresh = None"
      and view': "view h' = apply_writes (append_writes (view h) now b
         \<lparr>ne_id = fresh, ne_parent_id = parent, ne_type = ty, ne_message = Some msg\<rparr>) (view h)"
      and inv': "inv (h_storage h')"
    using append_job_done [OF m(1) inv] m(2) by metis
  let ?ne = "\<lparr>ne_id = fresh, ne_parent_id = parent, ne_type = ty, ne_message = Some msg\<rparr>"
  have "branch_log (view h') b (es @ [entry_of (st_next_seq (view h)) now ?ne])"
    unfolding view'
    by (rule append_log_same [OF assms(3) _ _ wf])
       (use fresh branch_log_last [OF assms(3) wf parent] in simp_all)
  moreover have "handle_wf h'"
    using inv' append_tips_wf [OF tips, of ?ne] fresh view' by (simp add: handle_wf_def)
  moreover have "\<forall>b' es'. b' \<noteq> b \<longrightarrow> branch_log (view h) b' es' \<longrightarrow> branch_log (view h') b' es'"
    using append_log_other [of "view h" _ _ b ?ne now] fresh view' by simp
  ultimately show ?thesis using i by (auto simp: entry_of_def)
qed

lemma append_message_failed:
  assumes "append_message ops me now fresh b msg ty h = (r, h')" and "\<And>i. r \<noteq> Returned i"
    and "handle_wf h"
  shows "view h' = view h"
proof -
  let ?job = "append_job ops now fresh b msg ty"
  have job: "abs (mu_storage m) = abs s"
    if "?job \<lparr>mu_storage = s, mu_active = True, mu_committed = False\<rparr> = (Inl e, m)" "inv s" for s e m
    using that commit_failed [of s now]
    by (auto simp: append_job_def mutation_get_value_def mutation_commit_def
        split: sum.splits option.splits if_splits prod.splits)
  from assms(1,2) consider "h' = h" | r' where "mutate me ?job h = (r', h')" "\<And>x. r' \<noteq> Returned x"
    by (auto simp: append_message_def split: option.splits prod.splits outcome.splits)
  then show ?thesis
  proof cases
    case 2
    then show ?thesis
      using mutate_failed [OF 2] job assms(3) by (auto simp: handle_wf_def)
  qed simp
qed

end

subsection \<open>Properties\<close>

text \<open>
  A grant commits at most once, over any storage: whatever the first commit did, a second one is
  refused and reaches neither the storage nor the grant, and after \<open>end\<close> every operation is refused.
\<close>

theorem one_commit_per_grant:
  "mutation_commit ops now2 ws2 (snd (mutation_commit ops now ws m)) =
     (Inl SessionMisuse, snd (mutation_commit ops now ws m)) \<and>
   mutation_commit ops now2 ws2 (snd (mutation_end l m)) = (Inl SessionMisuse, snd (mutation_end l m)) \<and>
   mutation_get_value ops a (snd (mutation_end l m)) = Inl SessionMisuse \<and>
   mutation_scan_branch ops q (snd (mutation_end l m)) = Some (Inl SessionMisuse)"
proof -
  obtain r s where c: "so_commit ops now ws (mu_storage m) = (r, s)" by fastforce
  show ?thesis
    by (auto simp: mutation_commit_def mutation_get_value_def mutation_scan_branch_def
        mutation_end_def c)
qed

text \<open>
  Once \<open>close\<close> has returned, the handle is closed for good: the storage has been closed if the
  handle owns it, and appending, reading a value and taking a grant all raise the closed error and
  change nothing.
\<close>

theorem close_is_final:
  assumes "handle_close ops me h = (Returned (), h')"
  shows "h_state h' = HClosed \<and>
    (h_state h = HOpen \<longrightarrow> h_close_storage h \<longrightarrow> h_storage h' = so_close ops (h_storage h)) \<and>
    append_message ops you now fresh b msg ty h' = (Raised SessionClosedError, h') \<and>
    begin_mutation you h' = (Raised SessionClosedError, h') \<and>
    handle_get_value ops a h' = Inl SessionClosedError \<and>
    handle_close ops you h' = (Returned (), h')"
proof -
  have "h_state h' = HClosed"
    using assms
    by (cases "h_state h") (auto simp: handle_close_def finish_close_def Let_def split: if_splits)
  moreover have "h_state h = HOpen \<longrightarrow> h_close_storage h \<longrightarrow> h_storage h' = so_close ops (h_storage h)"
    using assms by (auto simp: handle_close_def finish_close_def Let_def split: if_splits)
  ultimately show ?thesis
    by (simp add: append_message_def begin_mutation_def handle_get_value_def when_open_def
        assert_open_def handle_close_def)
qed

definition sample_metadata :: session_metadata where
  "sample_metadata = \<lparr>md_id = ''s'', md_created_at = 5, md_storage_version = STORAGE_VERSION,
     md_parent_session_id = None, md_workspace = None\<rparr>"

definition no_ops :: "unit storage_ops" where
  "no_ops = \<lparr>so_commit = (\<lambda>_ _ s. (Inl SessionClosedError, s)), so_get_entries = (\<lambda>_ _. Inr []),
     so_get_value = (\<lambda>_ _. Inr None), so_scan_values = (\<lambda>_ _. Inr []),
     so_scan_branch = (\<lambda>_ _. Some (Inr [])), so_scan_entries = (\<lambda>_ _. Inr []),
     so_get_stats = (\<lambda>_. Inr 0), so_close = (\<lambda>s. s)\<rparr>"

theorem close_is_final_witness:
  "handle_get_value no_ops session_name (snd (handle_close no_ops 1 (open_handle sample_metadata () True)))
     = Inl SessionClosedError"
proof -
  have "handle_close no_ops 1 (open_handle sample_metadata () True) =
      (Returned (), finish_close no_ops ((open_handle sample_metadata () True)
         \<lparr>h_state := HClosing, h_line := seal_line new_line\<rparr>))"
    by (simp add: handle_close_def open_handle_def held_by_def new_line_def seal_line_def
        notify_all_def idle_def Let_def)
  note c = this
  from close_is_final [OF c, of 2 0 "''i''" "''main''" "[]" MESSAGE_ENTRY session_name] c
  show ?thesis by simp
qed

end
