(* ===== verification/Session_Memory.thy ===== *)
theory Session_Memory
  imports Session_Handle "HOL-Library.List_Lexorder" "HOL-Library.Char_ord"
    "HOL-Library.Product_Lexorder"
begin

section \<open>The in-process backend\<close>

text \<open>
  The module \<open>avid/session/memory.py\<close>, with \<open>validate_session_id\<close> of \<open>ids.py\<close>: one
  \<open>SessionState\<close> as the storage, and the repository that creates, opens, lists and deletes
  sessions. A handle and the repository share the storage object: a record of the repository keeps
  the storage, a handle is opened on it, and \<open>repo_store\<close> is the record seeing what the handle did.
\<close>

subsection \<open>The storage\<close>

record mem_storage =
  ms_state :: session_state
  ms_closed :: bool

definition new_mem_storage :: mem_storage where
  "new_mem_storage = \<lparr>ms_state = init_state 1, ms_closed = False\<rparr>"

definition mem_when_open :: "mem_storage \<Rightarrow> 'a \<Rightarrow> session_error + 'a" where
  "mem_when_open s x = (if ms_closed s then Inl SessionClosedError else Inr x)"

definition mem_commit ::
  "int \<Rightarrow> session_write list \<Rightarrow> mem_storage \<Rightarrow> (session_error + commit_result) \<times> mem_storage" where
  "mem_commit now ws s =
     (if ms_closed s then (Inl SessionClosedError, s)
      else case prepare_commit (ms_state s) ws now of
        Inl e \<Rightarrow> (Inl e, s)
      | Inr p \<Rightarrow>
          (let st = apply_writes (pc_writes p) (ms_state s)
           in (Inr \<lparr>cr_first_seq = pc_first_seq p, cr_seqs = pc_seqs p,
                    cr_timestamp = pc_timestamp p, cr_message_count = st_message_count st\<rparr>,
               s\<lparr>ms_state := st\<rparr>)))"

definition memory_ops :: "mem_storage storage_ops" where
  "memory_ops =
     \<lparr>so_commit = mem_commit,
      so_get_entries = (\<lambda>ids s. mem_when_open s (get_entries (ms_state s) ids)),
      so_get_value = (\<lambda>a s. mem_when_open s (get_value (ms_state s) a)),
      so_scan_values = (\<lambda>ns s. mem_when_open s (values_in (ms_state s) ns)),
      so_scan_branch = (\<lambda>q s. if ms_closed s then Some (Inl SessionClosedError)
                                 else scan_branch (ms_state s) q),
      so_scan_entries = (\<lambda>q s. mem_when_open s (scan_entries (ms_state s) q)),
      so_get_stats = (\<lambda>s. mem_when_open s (st_message_count (ms_state s))),
      so_close = (\<lambda>s. s\<lparr>ms_closed := True\<rparr>)\<rparr>"

interpretation mem: session_storage memory_ops ms_state "\<lambda>s. \<not> ms_closed s" "\<lambda>s. state_wf (ms_state s)"
proof unfold_locales
  fix now ws r s s'
  assume wf: "state_wf (ms_state s)" and c: "so_commit memory_ops now ws s = (Inr r, s')"
  then obtain p where p: "prepare_commit (ms_state s) ws now = Inr p" "\<not> ms_closed s"
      "s' = s\<lparr>ms_state := apply_writes (pc_writes p) (ms_state s)\<rparr>"
      "r = \<lparr>cr_first_seq = pc_first_seq p, cr_seqs = pc_seqs p, cr_timestamp = now,
            cr_message_count = st_message_count (ms_state s')\<rparr>"
    by (auto simp: memory_ops_def mem_commit_def Let_def prepare_commit_Inr split: sum.splits if_splits)
  then have "state_wf (ms_state s')"
    using wf by (auto simp: prepare_commit_Inr intro: state_wf_apply_writes)
  with p show "\<not> ms_closed s \<and> \<not> ms_closed s' \<and> state_wf (ms_state s') \<and>
      (\<exists>p. prepare_commit (ms_state s) ws now = Inr p \<and>
         ms_state s' = apply_writes (pc_writes p) (ms_state s) \<and>
         r = \<lparr>cr_first_seq = pc_first_seq p, cr_seqs = pc_seqs p, cr_timestamp = now,
              cr_message_count = st_message_count (ms_state s')\<rparr>)"
    by auto
qed (auto simp: memory_ops_def mem_when_open_def mem_commit_def Let_def split: sum.splits if_splits)

subsection \<open>Session ids\<close>

definition MAX_ID_LENGTH :: nat where "MAX_ID_LENGTH = 200"

definition validate_session_id :: "pyval \<Rightarrow> session_error + string" where
  "validate_session_id v =
     (case v of
        PStr i \<Rightarrow>
          (if py_strip i = [] then Inl (SessionInvalidIdError (py_str v))
           else if length i > MAX_ID_LENGTH then Inl (SessionInvalidIdError (py_str v))
           else if \<exists>c\<in>{CHR ''/'', CHR 0x5C, CHR 0x00}. c \<in> set i
             then Inl (SessionInvalidIdError (py_str v))
           else Inr i)
      | _ \<Rightarrow> Inl (SessionInvalidIdError (py_str v)))"

subsection \<open>The repository\<close>

record mem_record =
  mr_meta :: session_metadata
  mr_storage :: mem_storage
  mr_open :: bool

record mem_repo =
  rp_workspace :: "string option"
  rp_sessions :: "(string \<times> mem_record) list"
  rp_pending :: "string list"
  rp_closed :: bool

definition new_mem_repo :: "string option \<Rightarrow> mem_repo" where
  "new_mem_repo ws =
     \<lparr>rp_workspace = ws, rp_sessions = [], rp_pending = [], rp_closed = False\<rparr>"

definition repo_reserve :: "string \<Rightarrow> mem_repo \<Rightarrow> session_error + mem_repo" where
  "repo_reserve i r =
     (if map_of (rp_sessions r) i \<noteq> None \<or> i \<in> set (rp_pending r) then Inl (SessionExistsError i)
      else Inr (r\<lparr>rp_pending := i # rp_pending r\<rparr>))"

definition named :: "string option \<Rightarrow> bool" where
  "named ws \<longleftrightarrow> ws \<noteq> None \<and> ws \<noteq> Some []"

definition assert_owned :: "session_metadata \<Rightarrow> mem_repo \<Rightarrow> session_error option" where
  "assert_owned md r =
     (if named (rp_workspace r) \<and> named (md_workspace md) \<and> md_workspace md \<noteq> rp_workspace r
      then Some (SessionStorageError ForeignWorkspace) else None)"

definition repo_create ::
  "string option \<Rightarrow> string option \<Rightarrow> string option \<Rightarrow> string \<Rightarrow> int \<Rightarrow> mem_repo \<Rightarrow>
   (session_error + mem_storage handle) \<times> mem_repo" where
  "repo_create i parent ws fresh now r =
     (if rp_closed r then (Inl SessionClosedError, r)
      else case validate_session_id (PStr (case i of None \<Rightarrow> fresh | Some x \<Rightarrow> x)) of
        Inl e \<Rightarrow> (Inl e, r)
      | Inr sid \<Rightarrow>
          (case repo_reserve sid r of
             Inl e \<Rightarrow> (Inl e, r)
           | Inr r' \<Rightarrow>
               (let md = \<lparr>md_id = sid, md_created_at = now, md_storage_version = STORAGE_VERSION,
                          md_parent_session_id = parent,
                          md_workspace = (if ws = None then rp_workspace r else ws)\<rparr>;
                    rec = \<lparr>mr_meta = md, mr_storage = new_mem_storage, mr_open = True\<rparr>
                in (Inr (open_handle md new_mem_storage False),
                    r'\<lparr>rp_sessions := AList.update sid rec (rp_sessions r'),
                       rp_pending := removeAll sid (rp_pending r')\<rparr>))))"

definition repo_open ::
  "session_metadata \<Rightarrow> mem_repo \<Rightarrow> (session_error + mem_storage handle) \<times> mem_repo" where
  "repo_open md r =
     (if rp_closed r then (Inl SessionClosedError, r)
      else case assert_owned md r of
        Some e \<Rightarrow> (Inl e, r)
      | None \<Rightarrow>
          (case map_of (rp_sessions r) (md_id md) of
             None \<Rightarrow> (Inl (SessionNotFoundError (md_id md)), r)
           | Some rec \<Rightarrow>
               (if mr_open rec then (Inl (SessionAlreadyOpenError (md_id md)), r)
                else (Inr (open_handle (mr_meta rec) (mr_storage rec) False),
                      r\<lparr>rp_sessions := AList.update (md_id md) (rec\<lparr>mr_open := True\<rparr>)
                           (rp_sessions r)\<rparr>))))"

definition repo_store :: "mem_storage handle \<Rightarrow> mem_repo \<Rightarrow> mem_repo" where
  "repo_store h r =
     (case map_of (rp_sessions r) (md_id (h_meta h)) of
        None \<Rightarrow> r
      | Some rec \<Rightarrow> r\<lparr>rp_sessions := AList.update (md_id (h_meta h))
                       (rec\<lparr>mr_storage := h_storage h\<rparr>) (rp_sessions r)\<rparr>)"

text \<open>\<open>on_close\<close>: the record of the session is marked as no longer open.\<close>

definition repo_forget :: "string \<Rightarrow> mem_repo \<Rightarrow> mem_repo" where
  "repo_forget i r =
     (case map_of (rp_sessions r) i of
        None \<Rightarrow> r
      | Some rec \<Rightarrow>
          r\<lparr>rp_sessions := AList.update i (rec\<lparr>mr_open := False\<rparr>) (rp_sessions r)\<rparr>)"

definition repo_list :: "mem_repo \<Rightarrow> session_error + session_metadata list" where
  "repo_list r =
     (if rp_closed r then Inl SessionClosedError
      else Inr (sort_key (\<lambda>md. (- md_created_at md, md_id md))
                 (map (\<lambda>kv. mr_meta (snd kv)) (rp_sessions r))))"

definition repo_delete :: "session_metadata \<Rightarrow> mem_repo \<Rightarrow> (session_error + unit) \<times> mem_repo" where
  "repo_delete md r =
     (if rp_closed r then (Inl SessionClosedError, r)
      else case assert_owned md r of
        Some e \<Rightarrow> (Inl e, r)
      | None \<Rightarrow>
          (case map_of (rp_sessions r) (md_id md) of
             None \<Rightarrow> (Inl (SessionNotFoundError (md_id md)), r)
           | Some rec \<Rightarrow>
               (if mr_open rec then (Inl (SessionAlreadyOpenError (md_id md)), r)
                else (Inr (), r\<lparr>rp_sessions := AList.delete (md_id md) (rp_sessions r)\<rparr>))))"

definition repo_close :: "mem_repo \<Rightarrow> mem_repo" where
  "repo_close r =
     r\<lparr>rp_closed := True,
       rp_sessions := map (\<lambda>(i, rec). (i, if mr_open rec
         then rec\<lparr>mr_storage := (mr_storage rec)\<lparr>ms_closed := True\<rparr>, mr_open := False\<rparr>
         else rec)) (rp_sessions r)\<rparr>"

subsection \<open>Lemmas\<close>

definition repo_wf :: "mem_repo \<Rightarrow> bool" where
  "repo_wf r \<longleftrightarrow> distinct (map fst (rp_sessions r)) \<and> rp_pending r = [] \<and>
     (\<forall>(i, rec)\<in>set (rp_sessions r). md_id (mr_meta rec) = i \<and> state_wf (ms_state (mr_storage rec)))"

lemma repo_wf_new [wf_intros]: "repo_wf (new_mem_repo ws)"
  by (simp add: repo_wf_def new_mem_repo_def)

lemma set_update_subset: "set (AList.update k v xs) \<subseteq> insert (k, v) (set xs)"
  by (induction xs) auto

lemma repo_wf_update:
  assumes "repo_wf r" and "md_id (mr_meta rec) = i" and "state_wf (ms_state (mr_storage rec))"
    and "rp_sessions r' = AList.update i rec (rp_sessions r)" and "rp_pending r' = []"
  shows "repo_wf r'"
  using assms set_update_subset [of i rec "rp_sessions r"]
  by (auto simp: repo_wf_def distinct_update)

lemma repo_wf_lookup:
  assumes "repo_wf r" and "map_of (rp_sessions r) i = Some rec"
  shows "md_id (mr_meta rec) = i \<and> state_wf (ms_state (mr_storage rec))"
proof -
  have "(i, rec) \<in> set (rp_sessions r)" using assms(2) by (rule map_of_SomeD)
  with assms(1) show ?thesis unfolding repo_wf_def by blast
qed

lemma repo_create_cases:
  assumes "repo_create i parent ws fresh now r = (res, r')"
  obtains e where "res = Inl e" "r' = r"
  | sid md where "\<not> rp_closed r"
      "validate_session_id (PStr (case i of None \<Rightarrow> fresh | Some x \<Rightarrow> x)) = Inr sid"
      "map_of (rp_sessions r) sid = None" "md_id md = sid" "md_parent_session_id md = parent"
      "md_created_at md = now" "md_workspace md = (if ws = None then rp_workspace r else ws)"
      "res = Inr (open_handle md new_mem_storage False)"
      "rp_sessions r' = AList.update sid
         \<lparr>mr_meta = md, mr_storage = new_mem_storage, mr_open = True\<rparr> (rp_sessions r)"
      "rp_pending r' = removeAll sid (rp_pending r)" "rp_closed r' = rp_closed r"
proof (cases "rp_closed r")
  case True
  with assms that(1) show ?thesis by (auto simp: repo_create_def)
next
  case op: False
  show ?thesis
  proof (cases "validate_session_id (PStr (case i of None \<Rightarrow> fresh | Some x \<Rightarrow> x))")
    case (Inl e)
    with assms op that(1) show ?thesis by (auto simp: repo_create_def)
  next
    case valid: (Inr sid)
    show ?thesis
    proof (cases "map_of (rp_sessions r) sid \<noteq> None \<or> sid \<in> set (rp_pending r)")
      case True
      with assms op valid that(1) show ?thesis by (auto simp: repo_create_def repo_reserve_def)
    next
      case False
      let ?md = "\<lparr>md_id = sid, md_created_at = now, md_storage_version = STORAGE_VERSION,
                   md_parent_session_id = parent,
                   md_workspace = (if ws = None then rp_workspace r else ws)\<rparr>"
      from False have free: "map_of (rp_sessions r) sid = None" "sid \<notin> set (rp_pending r)" by simp_all
      have "(res, r') = (Inr (open_handle ?md new_mem_storage False),
        r\<lparr>rp_pending := removeAll sid (rp_pending r),
          rp_sessions := AList.update sid
            \<lparr>mr_meta = ?md, mr_storage = new_mem_storage, mr_open = True\<rparr> (rp_sessions r)\<rparr>)"
        using assms op valid free by (simp add: repo_create_def repo_reserve_def Let_def)
      then show ?thesis
        by (intro that(2) [OF op valid free(1), where md = ?md]) simp_all
    qed
  qed
qed

lemma repo_wf_create [wf_intros]:
  assumes "repo_create i parent ws fresh now r = (res, r')" and "repo_wf r"
  shows "repo_wf r'"
  using assms(1)
proof (cases rule: repo_create_cases)
  case (2 sid md)
  then show ?thesis
    using assms(2)
    by (intro repo_wf_update [OF assms(2)]) (auto simp: new_mem_storage_def repo_wf_def)
qed (use assms in simp)

lemma repo_wf_open [wf_intros]:
  assumes "repo_open md r = (res, r')" and "repo_wf r"
  shows "repo_wf r'"
proof (cases "r' = r")
  case False
  then obtain rec where rec: "map_of (rp_sessions r) (md_id md) = Some rec"
      "r' = r\<lparr>rp_sessions := AList.update (md_id md) (rec\<lparr>mr_open := True\<rparr>) (rp_sessions r)\<rparr>"
    using assms(1) by (auto simp: repo_open_def split: if_splits option.splits)
  then show ?thesis
    using repo_wf_lookup [OF assms(2) rec(1)] assms(2)
    by (intro repo_wf_update [OF assms(2)]) (auto simp: repo_wf_def)
qed (use assms in simp)

lemma repo_wf_delete [wf_intros]:
  "\<lbrakk>repo_delete md r = (res, r'); repo_wf r\<rbrakk> \<Longrightarrow> repo_wf r'"
  by (auto simp: repo_delete_def repo_wf_def distinct_map_filter AList.delete_eq
      split: if_splits option.splits)

end
