(* ===== verification/Json_Text.thy ===== *)
theory Json_Text
  imports Avid_Prelude
begin

section \<open>JSON text\<close>

text \<open>
  What the program uses of the standard library's \<open>json\<close>: \<open>json.dumps(v, ensure_ascii=False)\<close> with
  its default separators, and \<open>json.loads\<close>. Text is over U+0000 to U+00FF and numbers are
  integers: a \<open>\uXXXX\<close> escape beyond that range and a number with a fraction or an exponent are
  outside the model, and the reader returns \<open>None\<close> on them as it does on malformed text. The fuel
  of the reader is the length of the text, which is enough because every call consumes a character.
\<close>

subsection \<open>Writing\<close>

definition esc_char :: "char \<Rightarrow> string" where
  "esc_char c =
     (let n = (of_char c :: nat); bs = CHR 0x5C in
      if n = 34 \<or> n = 92 then [bs, c]
      else if n = 10 then [bs, CHR ''n''] else if n = 13 then [bs, CHR ''r'']
      else if n = 9 then [bs, CHR ''t''] else if n = 12 then [bs, CHR ''f'']
      else if n = 8 then [bs, CHR ''b'']
      else if n < 32 then [bs, CHR ''u'', CHR ''0'', CHR ''0'', hex_char (n div 16), hex_char (n mod 16)]
      else [c])"

definition dumps_str :: "string \<Rightarrow> string" where
  "dumps_str s = CHR 0x22 # concat (map esc_char s) @ [CHR 0x22]"

fun dumps :: "pyval \<Rightarrow> string" where
  "dumps PNone = ''null''"
| "dumps (PBool b) = (if b then ''true'' else ''false'')"
| "dumps (PInt i) = show_int i"
| "dumps (PStr s) = dumps_str s"
| "dumps (PList xs) = ''['' @ join_with '', '' (map dumps xs) @ '']''"
| "dumps (PDict d) =
     ''{'' @ join_with '', '' (map (\<lambda>kv. dumps_str (fst kv) @ '': '' @ dumps (snd kv)) d) @ ''}''"

subsection \<open>Reading\<close>

definition is_ws :: "char \<Rightarrow> bool" where
  "is_ws c = (let n = (of_char c :: nat) in n = 32 \<or> n = 9 \<or> n = 10 \<or> n = 13)"

definition skip_ws :: "string \<Rightarrow> string" where "skip_ws s = dropWhile is_ws s"

definition is_digit :: "char \<Rightarrow> bool" where
  "is_digit c = (let n = (of_char c :: nat) in 48 \<le> n \<and> n \<le> 57)"

definition digit_val :: "char \<Rightarrow> nat" where "digit_val c = of_char c - 48"

definition hex_val :: "char \<Rightarrow> nat option" where
  "hex_val c = (let n = (of_char c :: nat) in
     if 48 \<le> n \<and> n \<le> 57 then Some (n - 48) else if 97 \<le> n \<and> n \<le> 102 then Some (n - 87)
     else if 65 \<le> n \<and> n \<le> 70 then Some (n - 55) else None)"

definition unescape :: "char \<Rightarrow> char option" where
  "unescape c = (let n = (of_char c :: nat) in
     if n = 34 \<or> n = 92 \<or> n = 47 then Some c
     else if n = 98 then Some (CHR 0x08) else if n = 102 then Some (CHR 0x0C)
     else if n = 110 then Some (CHR 0x0A) else if n = 114 then Some (CHR 0x0D)
     else if n = 116 then Some (CHR 0x09) else None)"

fun hex4 :: "char list \<Rightarrow> nat option" where
  "hex4 [a, b, c, d] =
     (case (hex_val a, hex_val b, hex_val c, hex_val d) of
        (Some w, Some x, Some y, Some z) \<Rightarrow> Some (((w * 16 + x) * 16 + y) * 16 + z)
      | _ \<Rightarrow> None)"
| "hex4 _ = None"

text \<open>The body of a string literal, after its opening quote.\<close>

function scan_string :: "string \<Rightarrow> (string \<times> string) option" where
  "scan_string s =
     (case s of
        [] \<Rightarrow> None
      | c # cs \<Rightarrow>
          (if c = CHR 0x22 then Some ([], cs)
           else if c = CHR 0x5C then
             (case cs of
                [] \<Rightarrow> None
              | e # es \<Rightarrow>
                  (if e = CHR ''u'' then
                     (case hex4 (take 4 es) of
                        None \<Rightarrow> None
                      | Some n \<Rightarrow>
                          (if n < 256
                           then map_option (\<lambda>(str, r). (char_of n # str, r)) (scan_string (drop 4 es))
                           else None))
                   else (case unescape e of
                           None \<Rightarrow> None
                         | Some x \<Rightarrow> map_option (\<lambda>(str, r). (x # str, r)) (scan_string es))))
           else if (of_char c :: nat) < 32 then None
           else map_option (\<lambda>(str, r). (c # str, r)) (scan_string cs)))"
  by pat_completeness auto
termination
  by (relation "measure length") auto

declare scan_string.simps [simp del]

definition number_value :: "string \<Rightarrow> nat" where
  "number_value ds = foldl (\<lambda>n d. 10 * n + digit_val d) 0 ds"

text \<open>The natural part of a number: a zero, or digits that do not start with one.\<close>

definition scan_nat :: "string \<Rightarrow> (nat \<times> string) option" where
  "scan_nat s =
     (case s of
        [] \<Rightarrow> None
      | c # cs \<Rightarrow>
          (if \<not> is_digit c then None
           else if c = CHR ''0'' then Some (0, cs)
           else Some (number_value (takeWhile is_digit s), dropWhile is_digit s)))"

definition float_tail :: "string \<Rightarrow> bool" where
  "float_tail s =
     (case s of
        [] \<Rightarrow> False
      | c # cs \<Rightarrow>
          (c = CHR ''.'' \<and> (case cs of d # _ \<Rightarrow> is_digit d | [] \<Rightarrow> False)) \<or>
          ((c = CHR ''e'' \<or> c = CHR ''E'') \<and>
           (case cs of
              d # ds \<Rightarrow> is_digit d \<or>
                ((d = CHR ''+'' \<or> d = CHR ''-'') \<and> (case ds of x # _ \<Rightarrow> is_digit x | [] \<Rightarrow> False))
            | [] \<Rightarrow> False)))"

definition expect :: "char \<Rightarrow> string \<Rightarrow> string option" where
  "expect x s = (case s of [] \<Rightarrow> None | c # cs \<Rightarrow> if c = x then Some cs else None)"

definition signed_value :: "bool \<Rightarrow> string \<Rightarrow> (pyval \<times> string) option" where
  "signed_value neg t =
     (case scan_nat t of
        None \<Rightarrow> None
      | Some (n, r) \<Rightarrow>
          (if float_tail r then None else Some (PInt (if neg then - int n else int n), r)))"

definition scan_number :: "string \<Rightarrow> (pyval \<times> string) option" where
  "scan_number s =
     (case expect (CHR ''-'') s of Some t \<Rightarrow> signed_value True t | None \<Rightarrow> signed_value False s)"

fun strip_word :: "string \<Rightarrow> string \<Rightarrow> string option" where
  "strip_word [] s = Some s"
| "strip_word (w # ws) [] = None"
| "strip_word (w # ws) (c # cs) = (if w = c then strip_word ws cs else None)"

definition of_pairs :: "(string \<times> pyval) list \<Rightarrow> pydict" where
  "of_pairs kvs = fold (\<lambda>kv d. AList.update (fst kv) (snd kv) d) kvs []"

definition scan_word :: "string \<Rightarrow> (pyval \<times> string) option" where
  "scan_word s =
     (case strip_word ''null'' s of
        Some r \<Rightarrow> Some (PNone, r)
      | None \<Rightarrow>
          (case strip_word ''true'' s of
             Some r \<Rightarrow> Some (PBool True, r)
           | None \<Rightarrow>
               (case strip_word ''false'' s of
                  Some r \<Rightarrow> Some (PBool False, r)
                | None \<Rightarrow> scan_number s)))"

fun scan_value :: "nat \<Rightarrow> string \<Rightarrow> (pyval \<times> string) option"
  and scan_items :: "nat \<Rightarrow> string \<Rightarrow> (pyval list \<times> string) option"
  and scan_pairs :: "nat \<Rightarrow> string \<Rightarrow> ((string \<times> pyval) list \<times> string) option" where
  "scan_value 0 s = None"
| "scan_value (Suc fuel) s =
     (case s of
        [] \<Rightarrow> None
      | c # cs \<Rightarrow>
          (if c = CHR 0x22 then map_option (\<lambda>(str, r). (PStr str, r)) (scan_string cs)
           else if c = CHR ''['' then
             (case expect (CHR '']'') (skip_ws cs) of
                Some r \<Rightarrow> Some (PList [], r)
              | None \<Rightarrow> map_option (\<lambda>(xs, r). (PList xs, r)) (scan_items fuel (skip_ws cs)))
           else if c = CHR ''{'' then
             (case expect (CHR ''}'') (skip_ws cs) of
                Some r \<Rightarrow> Some (PDict [], r)
              | None \<Rightarrow>
                  map_option (\<lambda>(kvs, r). (PDict (of_pairs kvs), r)) (scan_pairs fuel (skip_ws cs)))
           else scan_word s))"
| "scan_items 0 s = None"
| "scan_items (Suc fuel) s =
     (case scan_value fuel s of
        None \<Rightarrow> None
      | Some (v, r) \<Rightarrow>
          (case expect (CHR '']'') (skip_ws r) of
             Some t \<Rightarrow> Some ([v], t)
           | None \<Rightarrow>
               (case expect (CHR '','') (skip_ws r) of
                  Some t \<Rightarrow> map_option (\<lambda>(vs, u). (v # vs, u)) (scan_items fuel (skip_ws t))
                | None \<Rightarrow> None)))"
| "scan_pairs 0 s = None"
| "scan_pairs (Suc fuel) s =
     (case expect (CHR 0x22) s of
        None \<Rightarrow> None
      | Some cs \<Rightarrow>
          (case scan_string cs of
             None \<Rightarrow> None
           | Some (k, r) \<Rightarrow>
               (case expect (CHR '':'') (skip_ws r) of
                  None \<Rightarrow> None
                | Some t \<Rightarrow>
                    (case scan_value fuel (skip_ws t) of
                       None \<Rightarrow> None
                     | Some (v, u) \<Rightarrow>
                         (case expect (CHR ''}'') (skip_ws u) of
                            Some w \<Rightarrow> Some ([(k, v)], w)
                          | None \<Rightarrow>
                              (case expect (CHR '','') (skip_ws u) of
                                 Some w \<Rightarrow>
                                   map_option (\<lambda>(kvs, x). ((k, v) # kvs, x))
                                     (scan_pairs fuel (skip_ws w))
                               | None \<Rightarrow> None))))))"

definition loads :: "string \<Rightarrow> pyval option" where
  "loads s =
     (case scan_value (Suc (length s)) (skip_ws s) of
        None \<Rightarrow> None
      | Some (v, r) \<Rightarrow> (if skip_ws r = [] then Some v else None))"


subsection \<open>Numbers\<close>

lemma is_digit_char [simp]: "d < 10 \<Longrightarrow> is_digit (digit_char d)"
  by (simp add: is_digit_def digit_char_def)

lemma digit_val_char [simp]: "d < 10 \<Longrightarrow> digit_val (digit_char d) = d"
  by (simp add: digit_val_def digit_char_def)

lemma show_nat_digits: "\<forall>c\<in>set (show_nat n). is_digit c"
proof (induction n rule: show_nat.induct)
  case (1 n)
  then show ?case by (subst show_nat.simps) auto
qed

lemma show_nat_nonempty [simp]: "show_nat n \<noteq> []"
  by (subst show_nat.simps) simp

lemma number_value_snoc [simp]: "number_value (ds @ [d]) = 10 * number_value ds + digit_val d"
  by (simp add: number_value_def)

lemma number_value_show: "number_value (show_nat n) = n"
proof (induction n rule: show_nat.induct)
  case (1 n)
  then show ?case
    by (subst show_nat.simps) (simp add: number_value_def [of "[_]"])
qed

lemma char_of_lits [simp]:
  "char_of (48::nat) = CHR ''0''" "char_of (10::nat) = CHR 0x0A" "char_of (13::nat) = CHR 0x0D"
  "char_of (9::nat) = CHR 0x09" "char_of (12::nat) = CHR 0x0C" "char_of (8::nat) = CHR 0x08"
  using char_of_char [of "CHR ''0''"] char_of_char [of "CHR 0x0A"] char_of_char [of "CHR 0x0D"]
    char_of_char [of "CHR 0x09"] char_of_char [of "CHR 0x0C"] char_of_char [of "CHR 0x08"]
  by simp_all

lemma digit_char_zero: "d < 10 \<Longrightarrow> digit_char d = CHR ''0'' \<longleftrightarrow> d = 0"
proof
  assume d: "d < 10" and e: "digit_char d = CHR ''0''"
  have "(of_char (digit_char d) :: nat) = 48" unfolding e by simp
  with d show "d = 0" by (simp add: digit_char_def)
qed (simp add: digit_char_def)

lemma hd_show_nat: "hd (show_nat n) = CHR ''0'' \<longleftrightarrow> n = 0"
proof (induction n rule: show_nat.induct)
  case (1 n)
  then show ?case
    by (subst show_nat.simps) (auto simp: hd_append digit_char_zero)
qed

definition number_end :: "string \<Rightarrow> bool" where
  "number_end s \<longleftrightarrow> (case s of [] \<Rightarrow> True
     | c # _ \<Rightarrow> \<not> is_digit c \<and> c \<noteq> CHR ''.'' \<and> c \<noteq> CHR ''e'' \<and> c \<noteq> CHR ''E'')"

lemma number_end_float: "number_end s \<Longrightarrow> \<not> float_tail s"
  by (auto simp: number_end_def float_tail_def split: list.splits)

lemma scan_nat_show:
  assumes "number_end rest"
  shows "scan_nat (show_nat n @ rest) = Some (n, rest)"
proof (cases "n = 0")
  case True
  then show ?thesis by (subst True, subst show_nat.simps) (simp add: scan_nat_def digit_char_def is_digit_def)
next
  case False
  obtain c cs where s: "show_nat n = c # cs" by (cases "show_nat n") auto
  have tw: "takeWhile is_digit (show_nat n @ rest) = show_nat n"
      "dropWhile is_digit (show_nat n @ rest) = rest"
    using show_nat_digits [of n] assms
    by (auto simp: takeWhile_append dropWhile_append number_end_def split: list.splits)
  have "is_digit c" "c \<noteq> CHR ''0''"
    using show_nat_digits [of n] hd_show_nat [of n] False s by auto
  then show ?thesis using tw s by (simp add: scan_nat_def number_value_show [of n, unfolded s])
qed

lemma show_nat_not_minus: "show_nat n \<noteq> CHR ''-'' # cs"
  using show_nat_digits [of n] by (auto simp: is_digit_def)

lemma signed_value_show:
  "number_end rest \<Longrightarrow> signed_value neg (show_nat n @ rest) =
     Some (PInt (if neg then - int n else int n), rest)"
  by (simp add: signed_value_def scan_nat_show number_end_float)

lemma scan_number_show:
  assumes "number_end rest"
  shows "scan_number (show_int i @ rest) = Some (PInt i, rest)"
proof (cases "i < 0")
  case True
  then show ?thesis
    using signed_value_show [OF assms, of True "nat (- i)"]
    by (simp add: scan_number_def show_int_def expect_def)
next
  case False
  obtain c cs where s: "show_nat (nat i) = c # cs" by (cases "show_nat (nat i)") auto
  then have "c \<noteq> CHR ''-''" using show_nat_not_minus by blast
  then show ?thesis
    using signed_value_show [OF assms, of False "nat i"] False s
    by (simp add: scan_number_def show_int_def expect_def)
qed


subsection \<open>Strings\<close>

lemma char_codes:
  "c = char_of (k::nat) \<longleftrightarrow> (of_char c :: nat) = k mod 256"
  by (metis char_of_char of_char_of of_char_mod_256)

lemma hex_val_char: "d < 16 \<Longrightarrow> hex_val (hex_char d) = Some d"
  by (auto simp: hex_val_def hex_char_def Let_def)

lemma scan_string_plain:
  "\<lbrakk>32 \<le> (of_char c :: nat); (of_char c :: nat) \<noteq> 34; (of_char c :: nat) \<noteq> 92\<rbrakk> \<Longrightarrow>
     scan_string (c # cs) = map_option (\<lambda>(str, r). (c # str, r)) (scan_string cs)"
  by (subst scan_string.simps) auto

lemma scan_string_escape:
  "\<lbrakk>unescape e = Some x; e \<noteq> CHR ''u''\<rbrakk> \<Longrightarrow>
     scan_string (CHR 0x5C # e # es) = map_option (\<lambda>(str, r). (x # str, r)) (scan_string es)"
  by (subst scan_string.simps) (simp add: char_codes)

lemma scan_string_unicode:
  assumes "n < 256"
  shows "scan_string (CHR 0x5C # CHR ''u'' # CHR ''0'' # CHR ''0'' # hex_char (n div 16)
           # hex_char (n mod 16) # es) =
         map_option (\<lambda>(str, r). (char_of n # str, r)) (scan_string es)"
proof -
  have "hex_val (hex_char (n div 16)) = Some (n div 16)"
      "hex_val (hex_char (n mod 16)) = Some (n mod 16)"
    using assms by (simp_all add: hex_val_char)
  moreover have "hex_val (CHR ''0'') = Some 0" by (simp add: hex_val_def)
  ultimately have "hex4 [CHR ''0'', CHR ''0'', hex_char (n div 16), hex_char (n mod 16)] = Some n"
    by simp
  then show ?thesis using assms by (subst scan_string.simps) (simp add: char_codes)
qed

lemma scan_string_esc:
  "scan_string (esc_char c @ rest) = map_option (\<lambda>(str, r). (c # str, r)) (scan_string rest)"
proof -
  let ?n = "of_char c :: nat"
  have quoted: "unescape c = Some c \<and> c \<noteq> CHR ''u''" if "?n = 34 \<or> ?n = 92"
    using that by (auto simp: unescape_def)
  have c: "c = char_of ?n" by simp
  consider "?n = 34 \<or> ?n = 92" | "?n = 10" | "?n = 13" | "?n = 9" | "?n = 12" | "?n = 8"
    | "?n < 32" "?n \<notin> {10, 13, 9, 12, 8}" | "32 \<le> ?n" "?n \<noteq> 34" "?n \<noteq> 92"
    by fastforce
  then show ?thesis
  proof cases
    case 1
    with quoted show ?thesis by (auto simp: esc_char_def Let_def scan_string_escape)
  next
    case 7
    then have "esc_char c = [CHR 0x5C, CHR ''u'', CHR ''0'', CHR ''0'',
        hex_char (?n div 16), hex_char (?n mod 16)]"
      by (simp add: esc_char_def Let_def)
    then show ?thesis using scan_string_unicode [of ?n rest] by simp
  next
    case 8
    then show ?thesis by (simp add: esc_char_def Let_def scan_string_plain)
  qed (use c in \<open>simp_all add: esc_char_def Let_def scan_string_escape unescape_def\<close>)
qed

lemma scan_string_body:
  "scan_string (concat (map esc_char s) @ CHR 0x22 # rest) = Some (s, rest)"
proof (induction s)
  case Nil
  then show ?case by (subst scan_string.simps) simp
next
  case (Cons c cs)
  then show ?case by (simp add: scan_string_esc)
qed

subsection \<open>The round trip\<close>

fun json_wf :: "pyval \<Rightarrow> bool" where
  "json_wf (PList xs) = (\<forall>x\<in>set xs. json_wf x)"
| "json_wf (PDict d) = (distinct (map fst d) \<and> (\<forall>kv\<in>set d. json_wf (snd kv)))"
| "json_wf _ = True"

lemma of_pairs_distinct:
  assumes "distinct (map fst kvs)"
  shows "of_pairs kvs = kvs"
proof -
  have up: "AList.update k v d = d @ [(k, v)]" if "k \<notin> fst ` set d" for k v and d :: pydict
    using that by (induction d) auto
  have "fold (\<lambda>kv d. AList.update (fst kv) (snd kv) d) kvs d = d @ kvs"
    if "distinct (map fst kvs)" "fst ` set kvs \<inter> fst ` set d = {}" for d :: pydict
    using that by (induction kvs arbitrary: d) (auto simp: up)
  from this [OF assms, of "[]"] show ?thesis by (simp add: of_pairs_def)
qed

definition value_start :: "char \<Rightarrow> bool" where
  "value_start c \<longleftrightarrow> \<not> is_ws c \<and> c \<noteq> CHR '']'' \<and> c \<noteq> CHR ''}'' \<and> c \<noteq> CHR '',''"

lemma dumps_start: "\<exists>c cs. dumps v = c # cs \<and> value_start c"
proof (cases v)
  case (PInt i)
  obtain d ds where s: "show_nat (nat i) = d # ds" by (cases "show_nat (nat i)") auto
  then have "is_digit d" using show_nat_digits [of "nat i"] by auto
  then have "value_start d" by (auto simp: value_start_def is_ws_def is_digit_def Let_def)
  then show ?thesis
    using PInt s by (cases "i < 0") (auto simp: show_int_def value_start_def is_ws_def)
qed (auto simp: value_start_def is_ws_def dumps_str_def char_codes)

lemma skip_ws_start [simp]: "value_start c \<Longrightarrow> skip_ws (c # cs) = c # cs"
  by (simp add: value_start_def skip_ws_def)

lemma skip_ws_space [simp]: "skip_ws (CHR '' '' # cs) = skip_ws cs"
  by (simp add: skip_ws_def is_ws_def)

lemma skip_ws_punct [simp]:
  "skip_ws (CHR '']'' # cs) = CHR '']'' # cs" "skip_ws (CHR ''}'' # cs) = CHR ''}'' # cs"
  "skip_ws (CHR '','' # cs) = CHR '','' # cs" "skip_ws (CHR '':'' # cs) = CHR '':'' # cs"
  by (simp_all add: skip_ws_def is_ws_def)

lemma skip_ws_dumps [simp]: "skip_ws (dumps v @ rest) = dumps v @ rest"
  using dumps_start [of v] by auto

lemma skip_ws_dumps_str [simp]: "skip_ws (dumps_str s @ rest) = dumps_str s @ rest"
  by (simp add: dumps_str_def skip_ws_def is_ws_def)

lemma expect_dumps [simp]:
  "expect (CHR '']'') (dumps v @ rest) = None" "expect (CHR ''}'') (dumps_str s @ rest) = None"
  using dumps_start [of v] by (auto simp: expect_def value_start_def dumps_str_def char_codes)

lemma number_end_punct [simp]:
  "number_end (CHR '']'' # cs)" "number_end (CHR ''}'' # cs)" "number_end (CHR '','' # cs)"
  "number_end []"
  by (simp_all add: number_end_def is_digit_def)

definition reads_back :: "pyval \<Rightarrow> bool" where
  "reads_back v \<longleftrightarrow> (\<forall>n rest. length (dumps v) \<le> n \<longrightarrow> number_end rest \<longrightarrow>
     scan_value n (dumps v @ rest) = Some (v, rest))"

abbreviation pair_text :: "string \<times> pyval \<Rightarrow> string" where
  "pair_text kv \<equiv> dumps_str (fst kv) @ '': '' @ dumps (snd kv)"

lemma scan_items_read:
  assumes "\<forall>x\<in>set xs. reads_back x" and "xs \<noteq> []"
    and "length (join_with '', '' (map dumps xs)) < n"
  shows "scan_items n (join_with '', '' (map dumps xs) @ CHR '']'' # rest) = Some (xs, rest)"
  using assms
proof (induction xs arbitrary: n)
  case (Cons x xs)
  then obtain m where n: "n = Suc m" by (cases n) auto
  show ?case
  proof (cases xs)
    case Nil
    then have "scan_value m (dumps x @ CHR '']'' # rest) = Some (x, CHR '']'' # rest)"
      using Cons.prems n by (auto simp: reads_back_def)
    then show ?thesis using Nil n by (simp add: expect_def)
  next
    case (Cons y ys)
    let ?tail = "join_with '', '' (map dumps xs) @ CHR '']'' # rest"
    have "scan_value m (dumps x @ CHR '','' # CHR '' '' # ?tail) = Some (x, CHR '','' # CHR '' '' # ?tail)"
      using Cons.prems n Cons by (auto simp: reads_back_def)
    moreover have "scan_items m ?tail = Some (xs, rest)"
      using Cons.prems n Cons by (intro Cons.IH) auto
    moreover have "skip_ws ?tail = ?tail"
      using Cons by (cases ys) simp_all
    ultimately show ?thesis using n Cons by (simp add: expect_def)
  qed
qed simp

lemma scan_pairs_read:
  assumes "\<forall>kv\<in>set kvs. reads_back (snd kv)" and "kvs \<noteq> []"
    and "length (join_with '', '' (map pair_text kvs)) < n"
  shows "scan_pairs n (join_with '', '' (map pair_text kvs) @ CHR ''}'' # rest) = Some (kvs, rest)"
  using assms
proof (induction kvs arbitrary: n)
  case (Cons kv kvs)
  then obtain m where n: "n = Suc m" by (cases n) auto
  obtain k v where kv: "kv = (k, v)" by (cases kv)
  have key: "expect (CHR 0x22) (dumps_str k @ t) = Some (concat (map esc_char k) @ CHR 0x22 # t)"
    for t by (simp add: dumps_str_def expect_def)
  show ?case
  proof (cases kvs)
    case Nil
    then have "scan_value m (dumps v @ CHR ''}'' # rest) = Some (v, CHR ''}'' # rest)"
      using Cons.prems n kv by (auto simp: reads_back_def)
    then show ?thesis using Nil n kv key by (simp add: scan_string_body) (simp add: expect_def)
  next
    case (Cons p ps)
    let ?tail = "join_with '', '' (map pair_text kvs) @ CHR ''}'' # rest"
    have "scan_value m (dumps v @ CHR '','' # CHR '' '' # ?tail) = Some (v, CHR '','' # CHR '' '' # ?tail)"
      using Cons.prems n Cons kv by (auto simp: reads_back_def)
    moreover have "scan_pairs m ?tail = Some (kvs, rest)"
      using Cons.prems n Cons kv by (intro Cons.IH) auto
    moreover have "skip_ws ?tail = ?tail"
      using Cons by (cases ps) simp_all
    ultimately show ?thesis using n Cons kv key by (simp add: scan_string_body) (simp add: expect_def)
  qed
qed simp

lemma reads_back_all: "json_wf v \<Longrightarrow> reads_back v"
proof (induction v)
  case (PInt i)
  obtain c cs where s: "show_int i = c # cs \<and> (is_digit c \<or> c = CHR ''-'')"
  proof (cases "i < 0")
    case False
    obtain d ds where "show_nat (nat i) = d # ds" by (cases "show_nat (nat i)") auto
    then show ?thesis using show_nat_digits [of "nat i"] False that by (auto simp: show_int_def)
  qed (simp add: show_int_def that)
  then have c: "c \<noteq> CHR 0x22" "c \<noteq> CHR ''[''" "c \<noteq> CHR ''{''" "c \<noteq> CHR ''n''"
      "c \<noteq> CHR ''t''" "c \<noteq> CHR ''f''"
    by (auto simp: is_digit_def char_codes)
  show ?case
  proof (unfold reads_back_def, intro allI impI)
    fix n rest assume "length (dumps (PInt i)) \<le> n" "number_end rest"
    then show "scan_value n (dumps (PInt i) @ rest) = Some (PInt i, rest)"
      using s c scan_number_show [of rest i] by (cases n) (auto simp: scan_word_def)
  qed
next
  case (PStr s)
  show ?case
  proof (unfold reads_back_def, intro allI impI)
    fix n rest assume "length (dumps (PStr s)) \<le> n" "number_end rest"
    then show "scan_value n (dumps (PStr s) @ rest) = Some (PStr s, rest)"
      by (cases n) (auto simp: dumps_str_def scan_string_body)
  qed
next
  case (PList xs)
  show ?case
  proof (unfold reads_back_def, intro allI impI)
    fix n rest assume n: "length (dumps (PList xs)) \<le> n" and "number_end rest"
    then obtain m where m: "n = Suc m" by (cases n) auto
    have xs: "\<forall>x\<in>set xs. reads_back x" using PList by auto
    show "scan_value n (dumps (PList xs) @ rest) = Some (PList xs, rest)"
    proof (cases xs)
      case Nil
      then show ?thesis using m by (simp add: char_codes) (simp add: expect_def)
    next
      case (Cons y ys)
      let ?body = "join_with '', '' (map dumps xs)"
      have "scan_items m (?body @ CHR '']'' # rest) = Some (xs, rest)"
        using n m Cons by (intro scan_items_read [OF xs]) auto
      moreover have "skip_ws (?body @ CHR '']'' # rest) = ?body @ CHR '']'' # rest"
          "expect (CHR '']'') (?body @ CHR '']'' # rest) = None"
        using Cons by (cases ys; simp)+
      ultimately show ?thesis using m by (simp add: char_codes)
    qed
  qed
next
  case (PDict d)
  show ?case
  proof (unfold reads_back_def, intro allI impI)
    fix n rest assume n: "length (dumps (PDict d)) \<le> n" and "number_end rest"
    then obtain m where m: "n = Suc m" by (cases n) auto
    have kvs: "\<forall>kv\<in>set d. reads_back (snd kv)"
      using PDict by (auto simp: snds.simps)
    have dist: "of_pairs d = d" using PDict.prems by (intro of_pairs_distinct) simp
    show "scan_value n (dumps (PDict d) @ rest) = Some (PDict d, rest)"
    proof (cases d)
      case Nil
      then show ?thesis using m by (simp add: char_codes) (simp add: expect_def)
    next
      case (Cons y ys)
      let ?body = "join_with '', '' (map pair_text d)"
      have "scan_pairs m (?body @ CHR ''}'' # rest) = Some (d, rest)"
        using n m Cons by (intro scan_pairs_read [OF kvs]) auto
      moreover have "skip_ws (?body @ CHR ''}'' # rest) = ?body @ CHR ''}'' # rest"
          "expect (CHR ''}'') (?body @ CHR ''}'' # rest) = None"
        using Cons by (cases ys; simp)+
      ultimately show ?thesis using m dist by (simp add: char_codes)
    qed
  qed
next
  case PNone
  show ?case
  proof (unfold reads_back_def, intro allI impI)
    fix n and rest :: string assume "length (dumps PNone) \<le> n"
    then show "scan_value n (dumps PNone @ rest) = Some (PNone, rest)"
      by (cases n) (simp_all add: scan_word_def)
  qed
next
  case (PBool b)
  show ?case
  proof (unfold reads_back_def, intro allI impI)
    fix n and rest :: string assume "length (dumps (PBool b)) \<le> n"
    then show "scan_value n (dumps (PBool b) @ rest) = Some (PBool b, rest)"
      by (cases n; cases b) (simp_all add: scan_word_def)
  qed
qed

theorem json_roundtrip:
  assumes "json_wf v"
  shows "loads (dumps v) = Some v"
proof -
  have "scan_value (Suc (length (dumps v))) (dumps v @ []) = Some (v, [])"
    using reads_back_all [OF assms] unfolding reads_back_def by (meson le_SucI number_end_punct(4) order_refl)
  then show ?thesis using skip_ws_dumps [of v "[]"] by (simp add: loads_def) (simp add: skip_ws_def)
qed

subsection \<open>One line per value\<close>

definition printable :: "string \<Rightarrow> bool" where
  "printable s \<longleftrightarrow> (\<forall>c\<in>set s. 32 \<le> (of_char c :: nat))"

lemma printable_append [simp]: "printable (a @ b) \<longleftrightarrow> printable a \<and> printable b"
  by (auto simp: printable_def)

lemma printable_Cons [simp]: "printable (c # s) \<longleftrightarrow> 32 \<le> (of_char c :: nat) \<and> printable s"
  by (simp add: printable_def)

lemma printable_Nil [simp]: "printable []"
  by (simp add: printable_def)

lemma hex_char_printable: "d < 16 \<Longrightarrow> 32 \<le> (of_char (hex_char d) :: nat)"
  by (auto simp: hex_char_def)

lemma printable_esc [simp]: "printable (esc_char c)"
  by (auto simp: esc_char_def Let_def hex_char_printable)

lemma printable_dumps_str [simp]: "printable (dumps_str s)"
  by (induction s) (simp_all add: dumps_str_def)

lemma printable_join:
  "\<lbrakk>printable sep; \<forall>x\<in>set xs. printable x\<rbrakk> \<Longrightarrow> printable (join_with sep xs)"
  by (induction sep xs rule: join_with.induct) auto

lemma printable_show_nat [simp]: "printable (show_nat n)"
  using show_nat_digits [of n] by (auto simp: printable_def is_digit_def Let_def)

lemma printable_dumps: "printable (dumps v)"
proof (induction v)
  case (PInt i)
  then show ?case by (simp add: show_int_def)
next
  case (PList xs)
  then have "printable (join_with '', '' (map dumps xs))" by (intro printable_join) auto
  then show ?case by simp
next
  case (PDict d)
  then have "printable (join_with '', '' (map pair_text d))"
    by (intro printable_join) (auto simp: snds.simps)
  then show ?case by simp
qed simp_all

lemma dumps_no_newline: "CHR 0x0A \<notin> set (dumps v)"
  using printable_dumps [of v] by (auto simp: printable_def)

end
