(* ===== verification/Agent_Transcript.thy ===== *)
theory Agent_Transcript
  imports Attachments Json_Text
begin

section \<open>The transcript\<close>

text \<open>
  The module \<open>avid/agent/transcript.py\<close>: the owner of the message list of a run, which guards that
  every tool call of an assistant message is answered before anything else is said. Messages are
  dictionaries; \<open>None\<close> is the Python exception of a message whose \<open>tool_calls\<close> is no list of
  objects. The set of expected call ids is a duplicate-free list, since its size is reported.
\<close>

subsection \<open>Structure\<close>

definition is_tool :: "pydict \<Rightarrow> bool" where
  "is_tool m \<longleftrightarrow> dget m ''role'' = PStr ''tool''"

definition result_id :: "pydict \<Rightarrow> string" where
  "result_id m = py_str (dget m ''tool_call_id'')"

datatype transcript_problem =
    OrphanResult nat string
  | UnansweredBefore nat nat
  | UnansweredAtEnd nat

definition expect_ids :: "string list \<Rightarrow> string list" where
  "expect_ids ids = fold List.insert ids []"

fun check_from ::
  "nat \<Rightarrow> string list \<Rightarrow> pydict list \<Rightarrow> transcript_problem list option" where
  "check_from index expected [] =
     Some (if expected \<noteq> [] then [UnansweredAtEnd (length expected)] else [])"
| "check_from index expected (m # ms) =
     (if is_tool m then
        (if result_id m \<notin> set expected
         then map_option ((#) (OrphanResult index (result_id m))) (check_from (Suc index) expected ms)
         else check_from (Suc index) (removeAll (result_id m) expected) ms)
      else case call_ids m of
        None \<Rightarrow> None
      | Some ids \<Rightarrow>
          map_option ((@) (if expected \<noteq> [] then [UnansweredBefore index (length expected)] else []))
            (check_from (Suc index) (expect_ids ids) ms))"

definition validate_transcript :: "pydict list \<Rightarrow> transcript_problem list option" where
  "validate_transcript ms = check_from 0 [] ms"

definition well_formed :: "pydict list \<Rightarrow> bool" where
  "well_formed ms \<longleftrightarrow> validate_transcript ms = Some []"

subsection \<open>Costs\<close>

definition text_of :: "pyval \<Rightarrow> string" where
  "text_of v =
     (case v of
        PNone \<Rightarrow> []
      | PStr s \<Rightarrow> s
      | PList xs \<Rightarrow> render_content_text v
      | _ \<Rightarrow> dumps v)"

definition MESSAGE_OVERHEAD :: int where "MESSAGE_OVERHEAD = 16"

definition message_chars :: "pydict \<Rightarrow> int" where
  "message_chars m =
     (let content = dget m ''content'';
          body = (case content of PList _ \<Rightarrow> content_chars content | _ \<Rightarrow> length (text_of content));
          calls = dget m ''tool_calls''
      in int body + MESSAGE_OVERHEAD + (if truthy calls then int (length (dumps calls)) else 0))"

definition estimate_chars :: "pydict list \<Rightarrow> int" where
  "estimate_chars ms = sum_list (map message_chars ms)"

definition tool_cost :: "pydict \<Rightarrow> int" where
  "tool_cost m = (if is_tool m then int (length (text_of (dget m ''content''))) else 0)"

subsection \<open>The class\<close>

record transcript =
  tr_messages :: "pydict list"
  tr_chars :: int
  tr_tool_chars :: int

datatype transcript_error = BadStructure "transcript_problem list" | BadIndex | BadMessage

definition recompute_costs :: "transcript \<Rightarrow> transcript" where
  "recompute_costs t =
     t\<lparr>tr_chars := estimate_chars (tr_messages t),
       tr_tool_chars := sum_list (map tool_cost (tr_messages t))\<rparr>"

definition track :: "int \<Rightarrow> pydict \<Rightarrow> transcript \<Rightarrow> transcript" where
  "track sign m t =
     t\<lparr>tr_chars := tr_chars t + sign * message_chars m,
       tr_tool_chars := tr_tool_chars t + sign * tool_cost m\<rparr>"

definition accept :: "pydict list \<Rightarrow> transcript_error option" where
  "accept candidate =
     (case validate_transcript candidate of
        None \<Rightarrow> Some BadMessage
      | Some [] \<Rightarrow> None
      | Some problems \<Rightarrow> Some (BadStructure problems))"

definition new_transcript :: "pydict list \<Rightarrow> transcript_error + transcript" where
  "new_transcript ms =
     (case accept ms of
        Some e \<Rightarrow> Inl e
      | None \<Rightarrow> Inr (recompute_costs \<lparr>tr_messages = ms, tr_chars = 0, tr_tool_chars = 0\<rparr>))"

definition text_at :: "transcript \<Rightarrow> nat \<Rightarrow> string" where
  "text_at t i = text_of (dget (tr_messages t ! i) ''content'')"

definition last_user_index :: "transcript \<Rightarrow> nat option" where
  "last_user_index t =
     (case filter (\<lambda>i. dget (tr_messages t ! i) ''role'' = PStr ''user'')
             (rev [0..<length (tr_messages t)]) of
        [] \<Rightarrow> None | i # _ \<Rightarrow> Some i)"

definition is_safe_boundary :: "transcript \<Rightarrow> nat \<Rightarrow> bool" where
  "is_safe_boundary t i =
     (if i = 0 \<or> i \<ge> length (tr_messages t) then True
      else if is_tool (tr_messages t ! i) then False
      else \<not> truthy (dget (tr_messages t ! (i - 1)) ''tool_calls''))"

definition tr_append :: "pydict \<Rightarrow> transcript \<Rightarrow> transcript" where
  "tr_append m t = track 1 m (t\<lparr>tr_messages := tr_messages t @ [m]\<rparr>)"

definition append_many :: "pydict list \<Rightarrow> transcript \<Rightarrow> transcript" where
  "append_many ms t = fold (track 1) ms (t\<lparr>tr_messages := tr_messages t @ ms\<rparr>)"

definition set_content :: "int \<Rightarrow> string \<Rightarrow> transcript \<Rightarrow> transcript_error + transcript" where
  "set_content index content t =
     (if \<not> (0 \<le> index \<and> index < int (length (tr_messages t))) then Inl BadIndex
      else let i = nat index; m = tr_messages t ! i;
               m' = AList.update ''content'' (PStr content) m
           in Inr (track 1 m' ((track (- 1) m t)\<lparr>tr_messages := (tr_messages t)[i := m']\<rparr>)))"

definition replace_all :: "pydict list \<Rightarrow> transcript \<Rightarrow> transcript_error + transcript" where
  "replace_all ms t =
     (case accept ms of
        Some e \<Rightarrow> Inl e
      | None \<Rightarrow> Inr (recompute_costs (t\<lparr>tr_messages := ms\<rparr>)))"

definition splice :: "int \<Rightarrow> int \<Rightarrow> pydict list \<Rightarrow> transcript \<Rightarrow> transcript_error + transcript" where
  "splice start stop replacement t =
     (if \<not> (0 \<le> start \<and> start \<le> stop \<and> stop \<le> int (length (tr_messages t))) then Inl BadIndex
      else let candidate = take (nat start) (tr_messages t) @ replacement
                             @ drop (nat stop) (tr_messages t)
           in case accept candidate of
                Some e \<Rightarrow> Inl e
              | None \<Rightarrow> Inr (recompute_costs (t\<lparr>tr_messages := candidate\<rparr>)))"

subsection \<open>Lemmas on structure\<close>

text \<open>
  What is left of the expected ids after a stretch of messages, if nothing in it is a violation;
  the structural check is this scan.
\<close>

fun run_from :: "string list \<Rightarrow> pydict list \<Rightarrow> string list option" where
  "run_from expected [] = Some expected"
| "run_from expected (m # ms) =
     (if is_tool m then
        (if result_id m \<in> set expected then run_from (removeAll (result_id m) expected) ms else None)
      else if expected \<noteq> [] then None
      else case call_ids m of None \<Rightarrow> None | Some ids \<Rightarrow> run_from (expect_ids ids) ms)"

lemma check_from_clean: "check_from index expected ms = Some [] \<longleftrightarrow> run_from expected ms = Some []"
  by (induction index expected ms rule: check_from.induct) (auto split: option.splits)

lemma well_formed_iff: "well_formed ms \<longleftrightarrow> run_from [] ms = Some []"
  by (simp add: well_formed_def validate_transcript_def check_from_clean)

lemma accept_None: "accept ms = None \<longleftrightarrow> well_formed ms"
  by (auto simp: accept_def well_formed_def split: option.splits list.splits)

lemma run_from_append:
  "run_from expected (xs @ ys) =
     (case run_from expected xs of None \<Rightarrow> None | Some e \<Rightarrow> run_from e ys)"
  by (induction expected xs rule: run_from.induct) (auto split: option.splits)

lemma well_formed_append: "\<lbrakk>well_formed xs; well_formed ys\<rbrakk> \<Longrightarrow> well_formed (xs @ ys)"
  by (simp add: well_formed_iff run_from_append)

lemma well_formed_split:
  assumes "well_formed (xs @ m # ys)" and "\<not> is_tool m"
  shows "well_formed xs" and "well_formed (m # ys)"
proof -
  obtain e where e: "run_from [] xs = Some e" "run_from e (m # ys) = Some []"
    using assms(1) by (auto simp: well_formed_iff run_from_append split: option.splits)
  with assms(2) have "e = []" by (auto split: if_splits)
  with e show "well_formed xs" "well_formed (m # ys)" by (simp_all add: well_formed_iff)
qed

lemma set_expect_ids [simp]: "set (expect_ids ids) = set ids"
proof -
  have "set (fold List.insert ids acc) = set ids \<union> set acc" for acc :: "string list"
    by (induction ids arbitrary: acc) auto
  then show ?thesis by (simp add: expect_ids_def)
qed

lemma expect_ids_Nil [simp]: "expect_ids ids = [] \<longleftrightarrow> ids = []"
  by (metis set_expect_ids set_empty)

text \<open>A message that makes no calls and is no result leaves a complete transcript complete.\<close>

lemma well_formed_plain: "\<lbrakk>\<not> is_tool m; call_ids m = Some []\<rbrakk> \<Longrightarrow> well_formed [m]"
  by (simp add: well_formed_iff expect_ids_def)

subsection \<open>Lemmas on costs\<close>

definition costs_ok :: "transcript \<Rightarrow> bool" where
  "costs_ok t \<longleftrightarrow> tr_chars t = estimate_chars (tr_messages t) \<and>
     tr_tool_chars t = sum_list (map tool_cost (tr_messages t))"

lemma costs_ok_recompute [simp, wf_intros]: "costs_ok (recompute_costs t)"
  by (simp add: costs_ok_def recompute_costs_def)

lemma messages_recompute [simp]: "tr_messages (recompute_costs t) = tr_messages t"
  by (simp add: recompute_costs_def)

lemma track_simps [simp]:
  "tr_messages (track s m t) = tr_messages t"
  "tr_chars (track s m t) = tr_chars t + s * message_chars m"
  "tr_tool_chars (track s m t) = tr_tool_chars t + s * tool_cost m"
  by (simp_all add: track_def)

lemma costs_ok_append [wf_intros]: "costs_ok t \<Longrightarrow> costs_ok (tr_append m t)"
  by (simp add: costs_ok_def tr_append_def estimate_chars_def)

lemma fold_track:
  "tr_messages (fold (track 1) ms t) = tr_messages t"
  "tr_chars (fold (track 1) ms t) = tr_chars t + estimate_chars ms"
  "tr_tool_chars (fold (track 1) ms t) = tr_tool_chars t + sum_list (map tool_cost ms)"
  by (induction ms arbitrary: t) (simp_all add: estimate_chars_def)

lemma costs_ok_append_many [wf_intros]: "costs_ok t \<Longrightarrow> costs_ok (append_many ms t)"
  by (simp add: costs_ok_def append_many_def fold_track estimate_chars_def)

lemma sum_list_map_update:
  fixes f :: "'a \<Rightarrow> int"
  assumes "i < length xs"
  shows "sum_list (map f (xs[i := x])) = sum_list (map f xs) - f (xs ! i) + f x"
  using assms by (induction xs arbitrary: i) (auto split: nat.splits)

lemma costs_ok_set_content [wf_intros]:
  assumes "costs_ok t" and "set_content index content t = Inr t'"
  shows "costs_ok t'"
proof -
  from assms(2) have i: "nat index < length (tr_messages t)"
    by (auto simp: set_content_def split: if_splits)
  let ?m' = "AList.update ''content'' (PStr content) (tr_messages t ! nat index)"
  from assms(2) have t': "t' = track 1 ?m' ((track (- 1) (tr_messages t ! nat index) t)
      \<lparr>tr_messages := (tr_messages t)[nat index := ?m']\<rparr>)"
    by (auto simp: set_content_def Let_def split: if_splits)
  show ?thesis
    using assms(1) sum_list_map_update [OF i, of message_chars ?m']
      sum_list_map_update [OF i, of tool_cost ?m']
    unfolding t' by (simp add: costs_ok_def estimate_chars_def)
qed

lemma set_content_structure:
  assumes "set_content index content t = Inr t'" and "well_formed (tr_messages t)"
  shows "well_formed (tr_messages t')"
proof -
  let ?i = "nat index"
  have same: "is_tool (AList.update ''content'' v m) = is_tool m"
      "result_id (AList.update ''content'' v m) = result_id m"
      "call_ids (AList.update ''content'' v m) = call_ids m" for v m
    by (simp_all add: is_tool_def result_id_def call_ids_def calls_of_def)
  have upd: "run_from e (xs[i := AList.update ''content'' v (xs ! i)]) = run_from e xs"
    if "i < length xs" for e xs i v
    using that
  proof (induction e xs arbitrary: i rule: run_from.induct)
    case (2 e m ms)
    then show ?case by (cases i) (auto simp: same split: option.splits)
  qed simp
  show ?thesis
    using assms upd [of ?i "tr_messages t" "[]" "PStr content"]
    by (auto simp: set_content_def Let_def well_formed_iff split: if_splits)
qed

text \<open>A safe boundary cuts a complete transcript into two complete ones.\<close>

lemma safe_boundary_split:
  assumes "well_formed (tr_messages t)" and "is_safe_boundary t i"
  shows "well_formed (take i (tr_messages t))" and "well_formed (drop i (tr_messages t))"
proof -
  have "well_formed (take i (tr_messages t)) \<and> well_formed (drop i (tr_messages t))"
  proof (cases "i = 0 \<or> i \<ge> length (tr_messages t)")
    case True
    then show ?thesis using assms(1) by (auto simp: well_formed_iff)
  next
    case False
    then have m: "\<not> is_tool (tr_messages t ! i)" and len: "i < length (tr_messages t)"
      using assms(2) by (auto simp: is_safe_boundary_def split: if_splits)
    have "tr_messages t = take i (tr_messages t) @ tr_messages t ! i # drop (Suc i) (tr_messages t)"
      using len by (rule id_take_nth_drop)
    with assms(1) m show ?thesis
      using well_formed_split [of "take i (tr_messages t)" "tr_messages t ! i"
          "drop (Suc i) (tr_messages t)"] Cons_nth_drop_Suc [OF len] by simp
  qed
  then show "well_formed (take i (tr_messages t))" and "well_formed (drop i (tr_messages t))"
    by simp_all
qed

subsection \<open>Properties\<close>

definition user_says :: "string \<Rightarrow> pydict" where
  "user_says s = [(''role'', PStr ''user''), (''content'', PStr s)]"

definition calls_tool :: "string \<Rightarrow> pydict" where
  "calls_tool i = [(''role'', PStr ''assistant''), (''content'', PStr ''''),
     (''tool_calls'', PList [PDict [(''id'', PStr i)]])]"

definition tool_result :: "string \<Rightarrow> string \<Rightarrow> pydict" where
  "tool_result i s = [(''role'', PStr ''tool''), (''tool_call_id'', PStr i), (''content'', PStr s)]"

definition sample_messages :: "pydict list" where
  "sample_messages = [user_says ''hi'', calls_tool ''c'', tool_result ''c'' ''ok'', user_says ''go'']"

definition sample_transcript :: transcript where
  "sample_transcript = recompute_costs \<lparr>tr_messages = sample_messages, tr_chars = 0, tr_tool_chars = 0\<rparr>"

lemma sample_transcript_wf: "well_formed (tr_messages sample_transcript)"
  by code_simp

text \<open>
  The incremental character totals of a transcript never drift: after appending, appending many,
  replacing the content of one message, replacing everything or splicing, they equal the totals
  computed afresh from the messages.
\<close>

theorem transcript_costs_exact:
  assumes "costs_ok t"
  shows "costs_ok (tr_append m t) \<and> costs_ok (append_many ms t) \<and>
    (\<forall>t'\<in>{t'. set_content i c t = Inr t' \<or> replace_all ms t = Inr t' \<or> splice a b ms t = Inr t'}.
       costs_ok t')"
  using assms
  by (auto intro: wf_intros simp: replace_all_def splice_def Let_def split: if_splits option.splits)

theorem transcript_costs_exact_witness:
  "costs_ok (tr_append (user_says ''more'') sample_transcript)"
  using transcript_costs_exact [of sample_transcript "user_says ''more''"]
  by (simp add: sample_transcript_def)

text \<open>
  C32. Editing is all or nothing: \<open>splice\<close> either refuses, or cuts in exactly the replacement and the
  result is complete; replacing the content of a message keeps a complete transcript complete; and a
  safe boundary cuts one into two complete ones.
\<close>

theorem transcript_edits_keep_structure:
  assumes "well_formed (tr_messages t)"
  shows "(\<forall>t'. splice a b ms t = Inr t' \<longrightarrow> well_formed (tr_messages t') \<and>
            tr_messages t' = take (nat a) (tr_messages t) @ ms @ drop (nat b) (tr_messages t)) \<and>
    (\<forall>t'. set_content i c t = Inr t' \<longrightarrow> well_formed (tr_messages t')) \<and>
    (\<forall>k. is_safe_boundary t k \<longrightarrow>
       well_formed (take k (tr_messages t)) \<and> well_formed (drop k (tr_messages t)))"
  using assms set_content_structure safe_boundary_split
  by (auto simp: splice_def Let_def accept_None split: if_splits option.splits)

theorem transcript_edits_keep_structure_witness:
  "well_formed (take 3 (tr_messages sample_transcript)) \<and>
   well_formed (drop 3 (tr_messages sample_transcript))"
proof -
  have "is_safe_boundary sample_transcript 3" by code_simp
  with transcript_edits_keep_structure [OF sample_transcript_wf] show ?thesis by blast
qed

end
