(* ===== verification/Session_Projection.thy ===== *)
theory Session_Projection
  imports Session_Memory Agent_Transcript
begin

section \<open>From the entry chain to messages\<close>

text \<open>
  The module \<open>avid/session/projection.py\<close>: reading a branch back as the input of a model call.
  \<open>None\<close> is the exception of a message whose \<open>tool_calls\<close> is no list of objects. The set of
  pending ids is a list that is only tested for membership and emptiness. The wording of the
  synthesised result is a placeholder.
\<close>

subsection \<open>Repair\<close>

definition CUT_OFF_RESULT :: string where
  "CUT_OFF_RESULT = ''(result not recorded: outcome unknown)''"

definition cut_off :: "string \<Rightarrow> pydict" where
  "cut_off call_id =
     [(''role'', PStr ''tool''), (''tool_call_id'', PStr call_id), (''content'', PStr CUT_OFF_RESULT)]"

text \<open>\<open>list(dict.fromkeys(ids))\<close>: the first occurrence of each id.\<close>

fun from_keys :: "string list \<Rightarrow> string list \<Rightarrow> string list" where
  "from_keys seen [] = []"
| "from_keys seen (i # ids) =
     (if i \<in> set seen then from_keys seen ids else i # from_keys (i # seen) ids)"

definition fill_missing :: "string list \<Rightarrow> string list \<Rightarrow> pydict list" where
  "fill_missing call_order pending = map cut_off (filter (\<lambda>i. i \<in> set pending) call_order)"

fun repair_from ::
  "pydict list \<Rightarrow> string list \<Rightarrow> string list \<Rightarrow> pydict list \<Rightarrow> pydict list option" where
  "repair_from kept pending call_order [] =
     Some (if pending \<noteq> [] then kept @ fill_missing call_order pending else kept)"
| "repair_from kept pending call_order (m # ms) =
     (if is_tool m then
        (if result_id m \<notin> set pending then repair_from kept pending call_order ms
         else repair_from (kept @ [m]) (removeAll (result_id m) pending) call_order ms)
      else
        (let (kept', order') = (if pending \<noteq> [] then (kept @ fill_missing call_order pending, [])
                                else (kept, call_order))
         in case call_ids m of
              None \<Rightarrow> None
            | Some [] \<Rightarrow> repair_from (kept' @ [m]) [] order' ms
            | Some ids \<Rightarrow> repair_from (kept' @ [m]) ids (from_keys [] ids) ms))"

definition repair_incomplete_batches :: "pydict list \<Rightarrow> pydict list option" where
  "repair_incomplete_batches ms = repair_from [] [] [] ms"

subsection \<open>Projection\<close>

definition TRANSCRIPT_TYPES :: "string list" where
  "TRANSCRIPT_TYPES = [MESSAGE_ENTRY, NOTICE_ENTRY]"

fun transcript_of :: "entry list \<Rightarrow> pydict list" where
  "transcript_of [] = []"
| "transcript_of (e # es) =
     (case e_message e of
        Some m \<Rightarrow> (if e_type e \<in> set TRANSCRIPT_TYPES then m # transcript_of es else transcript_of es)
      | None \<Rightarrow> transcript_of es)"

definition entries_to_messages :: "entry list \<Rightarrow> pydict list option" where
  "entries_to_messages es = repair_incomplete_batches (transcript_of es)"

text \<open>
  \<open>int(v or 0)\<close>; \<open>None\<close> is the \<open>TypeError\<close> or \<open>ValueError\<close> the caller catches. \<open>int(s)\<close> takes
  white space around the number, one sign, and single underscores between digits.
\<close>

fun digits_of :: "string \<Rightarrow> string option" where
  "digits_of [] = None"
| "digits_of [c] = (if is_digit c then Some [c] else None)"
| "digits_of (c # d # ds) =
     (if \<not> is_digit c then None
      else if d = CHR ''_'' then map_option ((#) c) (digits_of ds)
      else map_option ((#) c) (digits_of (d # ds)))"

definition int_of_str :: "string \<Rightarrow> int option" where
  "int_of_str s =
     (let t = py_strip s in
      case expect (CHR ''-'') t of
        Some u \<Rightarrow> map_option (\<lambda>ds. - int (number_value ds)) (digits_of u)
      | None \<Rightarrow>
          map_option (\<lambda>ds. int (number_value ds))
            (digits_of (case expect (CHR ''+'') t of Some u \<Rightarrow> u | None \<Rightarrow> t)))"

definition int_or_zero :: "pyval \<Rightarrow> int option" where
  "int_or_zero v =
     (if \<not> truthy v then Some 0
      else case v of
        PStr s \<Rightarrow> int_of_str s
      | _ \<Rightarrow> as_int v)"

definition last_n :: "int \<Rightarrow> 'a list \<Rightarrow> 'a list" where
  "last_n keep xs = (if keep > 0 then drop (length xs - nat keep) xs else [])"

definition project_with_compaction :: "pydict \<Rightarrow> entry list \<Rightarrow> pydict list option" where
  "project_with_compaction record es =
     (case (int_or_zero (dget record ''through_seq''), int_or_zero (dget record ''keep'')) of
        (Some through, Some keep) \<Rightarrow>
          (case dget record ''summary'' of
             PDict summary \<Rightarrow>
               (if through \<le> 0 then entries_to_messages es
                else
                  (let covered = filter (\<lambda>e. e_seq e \<le> through) es;
                       rest = filter (\<lambda>e. e_seq e > through) es
                   in if covered = [] then entries_to_messages es
                      else repair_incomplete_batches
                             ([summary] @ last_n keep (transcript_of covered) @ transcript_of rest)))
           | _ \<Rightarrow> entries_to_messages es)
      | _ \<Rightarrow> entries_to_messages es)"

text \<open>
  \<open>messages_for_branch\<close> over a handle. The first component is the result: the outer \<open>None\<close> is a
  scan that does not return, the inner one the exception of the repair.
\<close>

definition messages_for_branch ::
  "'s storage_ops \<Rightarrow> string \<Rightarrow> 's handle \<Rightarrow> (session_error + pydict list option) option" where
  "messages_for_branch ops branch h =
     (case handle_branch ops branch h of
        (Inl e, _) \<Rightarrow> Some (Inl e)
      | (Inr None, _) \<Rightarrow> Some (Inr (Some []))
      | (Inr (Some name), h') \<Rightarrow>
          (case branch_find_entries ops name (default_branch_scan\<lparr>bs_order := OldestFirst\<rparr>) h' of
             None \<Rightarrow> None
           | Some (Inl e) \<Rightarrow> Some (Inl e)
           | Some (Inr es) \<Rightarrow>
               (case handle_get_value ops (branch_compaction branch) h' of
                  Inl e \<Rightarrow> Some (Inl e)
                | Inr stored \<Rightarrow>
                    (case map_option sv_value stored of
                       Some (PDict record) \<Rightarrow> Some (Inr (project_with_compaction record es))
                     | _ \<Rightarrow> Some (Inr (entries_to_messages es))))))"

subsection \<open>Repair yields complete transcripts\<close>

lemma set_from_keys: "set (from_keys seen ids) = set ids - set seen"
  by (induction seen ids rule: from_keys.induct) auto

lemma distinct_from_keys: "distinct (from_keys seen ids)"
  by (induction seen ids rule: from_keys.induct) (auto simp: set_from_keys)

lemma cut_off_simps [simp]: "is_tool (cut_off i)" "result_id (cut_off i) = i"
  by (simp_all add: is_tool_def result_id_def cut_off_def)

lemma run_from_set_cong:
  "set e = set e' \<Longrightarrow> (run_from e ms = Some []) = (run_from e' ms = Some [])"
proof (induction e ms arbitrary: e' rule: run_from.induct)
  case (2 e m ms)
  show ?case
  proof (cases "is_tool m")
    case True
    then show ?thesis using 2 by (cases "result_id m \<in> set e") simp_all
  next
    case False
    with 2 show ?thesis by (cases "e = []") auto
  qed
qed auto

text \<open>Results synthesised for every pending id, each once, settle all that is pending.\<close>

lemma run_from_cut_offs:
  "\<lbrakk>distinct ids; set ids = set e\<rbrakk> \<Longrightarrow> run_from e (map cut_off ids) = Some []"
proof (induction ids arbitrary: e)
  case (Cons i ids)
  then have "run_from (removeAll i e) (map cut_off ids) = Some []" by (intro Cons.IH) auto
  then show ?case using Cons.prems by auto
qed simp

lemma run_from_fill:
  assumes "distinct order" and "set pending \<subseteq> set order" and "set e = set pending"
  shows "run_from e (fill_missing order pending) = Some []"
  unfolding fill_missing_def using assms by (intro run_from_cut_offs) auto

definition repair_inv :: "pydict list \<Rightarrow> string list \<Rightarrow> string list \<Rightarrow> bool" where
  "repair_inv kept pending order \<longleftrightarrow>
     distinct order \<and> set pending \<subseteq> set order \<and>
     (\<exists>e. run_from [] kept = Some e \<and> set e = set pending)"

lemma repair_inv_closed:
  assumes "repair_inv kept pending order"
  shows "well_formed (if pending \<noteq> [] then kept @ fill_missing order pending else kept)"
  using assms run_from_fill [of order pending]
  by (auto simp: repair_inv_def well_formed_iff run_from_append)

lemma run_from_message:
  assumes "well_formed kept" and "\<not> is_tool m" and "call_ids m = Some ids"
  shows "run_from [] (kept @ [m]) = Some (expect_ids ids)"
  using assms by (simp add: well_formed_iff run_from_append)

lemma repair_from_well_formed:
  "\<lbrakk>repair_from kept pending order ms = Some out; repair_inv kept pending order\<rbrakk>
    \<Longrightarrow> well_formed out"
proof (induction kept pending order ms rule: repair_from.induct)
  case (1 kept pending order)
  then show ?case using repair_inv_closed by auto
next
  case (2 kept pending order m ms)
  show ?case
  proof (cases "is_tool m")
    case True
    show ?thesis
    proof (cases "result_id m \<in> set pending")
      case hit: True
      from "2.prems"(2) obtain e where e: "run_from [] kept = Some e" "set e = set pending"
        by (auto simp: repair_inv_def)
      then have "repair_inv (kept @ [m]) (removeAll (result_id m) pending) order"
        using "2.prems"(2) True hit by (auto simp: repair_inv_def run_from_append)
      then show ?thesis using 2 True hit by simp
    next
      case False
      then show ?thesis using 2 True by simp
    qed
  next
    case False
    let ?kept = "if pending \<noteq> [] then kept @ fill_missing order pending else kept"
    let ?order = "if pending \<noteq> [] then [] else order"
    have wf: "well_formed ?kept" by (rule repair_inv_closed [OF "2.prems"(2)])
    have parts: "(if pending \<noteq> [] then (kept @ fill_missing order pending, []) else (kept, order))
        = (?kept, ?order)" by simp
    obtain ids where ids: "call_ids m = Some ids"
      using "2.prems"(1) False by (cases "call_ids m") (simp_all add: parts)
    note run = run_from_message [OF wf False ids]
    show ?thesis
    proof (cases ids)
      case Nil
      have "repair_inv (?kept @ [m]) [] ?order"
        using run Nil "2.prems"(2) by (simp add: repair_inv_def expect_ids_def)
      then show ?thesis
        using "2.IH"(3) [OF False parts [symmetric] refl ids] "2.prems"(1) False ids Nil parts
        by (simp add: Let_def)
    next
      case (Cons i rest)
      have "repair_inv (?kept @ [m]) ids (from_keys [] ids)"
        using run by (simp add: repair_inv_def distinct_from_keys set_from_keys)
      then show ?thesis
        using "2.IH"(4) [OF False parts [symmetric] refl ids] "2.prems"(1) False ids Cons parts
        by (simp add: Let_def)
    qed
  qed
qed

lemma repair_well_formed:
  assumes "repair_incomplete_batches ms = Some out"
  shows "well_formed out"
  using assms unfolding repair_incomplete_batches_def
  by (rule repair_from_well_formed) (simp add: repair_inv_def)


subsection \<open>Repair leaves complete transcripts alone\<close>

lemma repair_from_identity:
  assumes "run_from e ms = Some []" and "set e = set pending" and "e = [] \<longleftrightarrow> pending = []"
  shows "repair_from kept pending order ms = Some (kept @ ms)"
  using assms
proof (induction e ms arbitrary: kept pending order rule: run_from.induct)
  case (1 e)
  then show ?case by simp
next
  case (2 e m ms)
  show ?case
  proof (cases "is_tool m")
    case True
    then have hit: "result_id m \<in> set e" "run_from (removeAll (result_id m) e) ms = Some []"
      using "2.prems"(1) by (auto split: if_splits)
    have sets: "set (removeAll (result_id m) e) = set (removeAll (result_id m) pending)"
      using "2.prems"(2) by simp
    then have nil: "removeAll (result_id m) e = [] \<longleftrightarrow> removeAll (result_id m) pending = []"
      by (metis set_empty)
    show ?thesis
      using "2.IH"(1) [OF True hit(1) hit(2) sets nil] True hit(1) "2.prems"(2) by simp
  next
    case False
    then have e: "e = []" "pending = []" using "2.prems" by (auto split: if_splits)
    obtain ids where ids: "call_ids m = Some ids" "run_from (expect_ids ids) ms = Some []"
      using "2.prems"(1) False e by (auto split: option.splits)
    have IH: "repair_from kept' ids order' ms = Some (kept' @ ms)" for kept' order'
      using "2.IH"(2) [OF False _ ids(1) ids(2), of ids kept' order'] e by simp
    show ?thesis
      using False e ids IH [of "kept @ [m]" order] IH [of "kept @ [m]" "from_keys [] ids"]
      by (cases ids) (simp_all add: Let_def)
  qed
qed

lemma repair_identity: "well_formed ms \<Longrightarrow> repair_incomplete_batches ms = Some ms"
  using repair_from_identity [of "[]" ms "[]" "[]" "[]"]
  by (simp add: well_formed_iff repair_incomplete_batches_def)

subsection \<open>Repair drops and invents only results\<close>

lemma filter_cut_offs [simp]: "filter (\<lambda>m. \<not> is_tool m) (fill_missing order pending) = []"
  by (simp add: fill_missing_def filter_empty_conv)

lemma repair_from_speech:
  "repair_from kept pending order ms = Some out \<Longrightarrow>
     filter (\<lambda>m. \<not> is_tool m) out = filter (\<lambda>m. \<not> is_tool m) (kept @ ms)"
proof (induction kept pending order ms rule: repair_from.induct)
  case (2 kept pending order m ms)
  then show ?case
    by (cases "is_tool m"; cases "call_ids m"; cases "pending = []"; cases "the (call_ids m)")
       (auto simp: Let_def split: if_splits)
qed auto

lemma repair_from_returns:
  "(repair_from kept pending order ms \<noteq> None) \<longleftrightarrow>
     (\<forall>m\<in>set ms. is_tool m \<or> call_ids m \<noteq> None)"
proof (induction kept pending order ms rule: repair_from.induct)
  case (2 kept pending order m ms)
  then show ?case
    by (cases "is_tool m"; cases "call_ids m"; cases "pending = []"; cases "the (call_ids m)")
       (auto simp: Let_def split: if_splits)
qed auto

lemma those_map_Some: "(\<forall>x\<in>set xs. f x \<noteq> None) \<Longrightarrow> those (map f xs) \<noteq> None"
  by (induction xs) auto

text \<open>A message the session layer accepted can be projected, if only assistants make calls.\<close>

lemma validated_projects:
  assumes "validate_message (PDict m) = None"
    and "dget m ''role'' \<noteq> PStr ''assistant'' \<Longrightarrow> \<not> truthy (dget m ''tool_calls'')"
  shows "call_ids m \<noteq> None"
proof (cases "dget m ''role'' = PStr ''assistant''")
  case True
  then obtain calls where c: "calls_of m = Some calls" "\<forall>call\<in>set calls. good_call call"
    using assms(1) by (auto simp: validate_message_def split: if_splits option.splits)
  then show ?thesis
    unfolding call_ids_def c(1) option.case
    by (intro those_map_Some) (auto simp: good_call_def split: pyval.splits)
next
  case False
  then show ?thesis using assms(2) by (simp add: call_ids_def calls_of_def)
qed

lemma project_well_formed:
  assumes "project_with_compaction record es = Some out"
  shows "well_formed out"
  using assms
  by (auto simp: project_with_compaction_def entries_to_messages_def Let_def
      split: option.splits pyval.splits if_splits intro: repair_well_formed)

lemma messages_for_branch_well_formed:
  assumes "messages_for_branch ops b h = Some (Inr (Some out))"
  shows "well_formed out"
  using assms
  by (auto simp: messages_for_branch_def entries_to_messages_def well_formed_iff
      split: option.splits sum.splits pyval.splits prod.splits
      intro: repair_well_formed [unfolded well_formed_iff]
             project_well_formed [unfolded well_formed_iff])

subsection \<open>Properties\<close>

text \<open>
  C5. Repairing a message list makes it complete, every call answered before anything else is said:
  it keeps all messages but results, in their order, changes nothing in a list that was complete, and
  repairing once is enough.
\<close>

theorem repair_completes:
  assumes "repair_incomplete_batches ms = Some out"
  shows "well_formed out \<and>
    filter (\<lambda>m. \<not> is_tool m) out = filter (\<lambda>m. \<not> is_tool m) ms \<and>
    (well_formed ms \<longrightarrow> out = ms) \<and> repair_incomplete_batches out = Some out"
  using assms repair_well_formed [OF assms] repair_identity repair_from_speech [of "[]" "[]" "[]" ms out]
  by (auto simp: repair_incomplete_batches_def)

theorem repair_completes_witness:
  "well_formed [user_says ''hi'', calls_tool ''c'', cut_off ''c'', user_says ''go'']"
proof -
  have "repair_incomplete_batches [user_says ''hi'', calls_tool ''c'', user_says ''go''] =
      Some [user_says ''hi'', calls_tool ''c'', cut_off ''c'', user_says ''go'']" by code_simp
  from repair_completes [OF this] show ?thesis by blast
qed

text \<open>
  Whatever a branch holds, compacted or not, and over any storage: the messages read back as the
  input of the next model call are a complete transcript.
\<close>

theorem branch_messages_complete:
  assumes "messages_for_branch ops b h = Some (Inr (Some out))"
  shows "well_formed out"
  by (rule messages_for_branch_well_formed [OF assms])

definition sample_session :: "mem_storage handle" where
  "sample_session = snd (append_message memory_ops 1 9 ''i1'' DEFAULT_BRANCH (calls_tool ''c'') MESSAGE_ENTRY
     (open_handle sample_metadata new_mem_storage False))"

theorem branch_messages_complete_witness:
  "well_formed [calls_tool ''c'', cut_off ''c'']"
proof -
  have "messages_for_branch memory_ops DEFAULT_BRANCH sample_session =
      Some (Inr (Some [calls_tool ''c'', cut_off ''c'']))" by code_simp
  from branch_messages_complete [OF this] show ?thesis .
qed

text \<open>
  A message with malformed tool calls passes the session layer if its role is not \<open>assistant\<close>,
  and from then on its branch cannot be read back at all.
\<close>

theorem stored_message_blocks_projection:
  "\<exists>m. validate_message (PDict m) = None \<and> repair_incomplete_batches [m] = None"
  by (intro exI [of _ "[(''role'', PStr ''user''), (''content'', PStr ''x''),
      (''tool_calls'', PList [PInt 1])]"]) code_simp

end
