(* ===== verification/Providers_Usage.thy ===== *)
theory Providers_Usage
  imports Session_Projection
begin

section \<open>Usage of one model call\<close>

text \<open>
  The module \<open>avid/providers/usage.py\<close>: one accounting record from the usage object of any provider.
  A float count is not a value of the model. \<open>hit_ratio\<close> is the exact fraction, as numerator and
  denominator; the program rounds it to a float.
\<close>

record usage =
  us_prompt :: int
  us_completion :: int
  us_total :: int
  us_cache_read :: "int option"
  us_cache_write :: "int option"
  us_reasoning :: "int option"

definition usage_int :: "pyval \<Rightarrow> int option" where
  "usage_int v =
     (case v of
        PInt i \<Rightarrow> Some i
      | PStr s \<Rightarrow> (if py_strip s \<noteq> [] then int_of_str (py_strip s) else None)
      | _ \<Rightarrow> None)"

definition nested_int :: "pyval \<Rightarrow> string \<Rightarrow> int option" where
  "nested_int raw key = (case raw of PDict d \<Rightarrow> usage_int (dget d key) | _ \<Rightarrow> None)"

definition usage_payload :: "pyval \<Rightarrow> pydict" where
  "usage_payload data =
     (case data of
        PDict d \<Rightarrow> (case dget d ''usage'' of PDict found \<Rightarrow> found | _ \<Rightarrow> d)
      | _ \<Rightarrow> [])"

text \<open>\<open>x or y\<close> for a count that may be missing: zero counts as missing too.\<close>

definition count_or :: "int option \<Rightarrow> int \<Rightarrow> int" where
  "count_or c y = (case c of None \<Rightarrow> y | Some i \<Rightarrow> if i = 0 then y else i)"

fun first_count :: "int option list \<Rightarrow> int option" where
  "first_count [] = None"
| "first_count (None # cs) = first_count cs"
| "first_count (Some i # cs) = Some i"

definition openai_like :: "pydict \<Rightarrow> usage option" where
  "openai_like payload =
     (case usage_int (dget payload ''prompt_tokens'') of
        None \<Rightarrow> None
      | Some prompt \<Rightarrow>
          (let completion = count_or (usage_int (dget payload ''completion_tokens'')) 0
           in Some
             \<lparr>us_prompt = prompt, us_completion = completion,
              us_total = count_or (usage_int (dget payload ''total_tokens'')) (prompt + completion),
              us_cache_read = first_count
                [nested_int (dget payload ''prompt_tokens_details'') ''cached_tokens'',
                 usage_int (dget payload ''cached_tokens''),
                 usage_int (dget payload ''prompt_cache_hit_tokens'')],
              us_cache_write = None,
              us_reasoning = first_count
                [nested_int (dget payload ''completion_tokens_details'') ''reasoning_tokens'',
                 usage_int (dget payload ''reasoning_tokens'')]\<rparr>))"

definition has_key :: "pydict \<Rightarrow> string \<Rightarrow> bool" where
  "has_key d k \<longleftrightarrow> map_of d k \<noteq> None"

definition responses_like :: "pydict \<Rightarrow> usage option" where
  "responses_like payload =
     (if \<not> has_key payload ''input_tokens_details'' \<and> \<not> has_key payload ''output_tokens_details''
      then None
      else case usage_int (dget payload ''input_tokens'') of
        None \<Rightarrow> None
      | Some inbound \<Rightarrow>
          (let completion = count_or (usage_int (dget payload ''output_tokens'')) 0
           in Some
             \<lparr>us_prompt = inbound, us_completion = completion,
              us_total = count_or (usage_int (dget payload ''total_tokens'')) (inbound + completion),
              us_cache_read = nested_int (dget payload ''input_tokens_details'') ''cached_tokens'',
              us_cache_write = None,
              us_reasoning = nested_int (dget payload ''output_tokens_details'') ''reasoning_tokens''\<rparr>))"

definition anthropic_like :: "pydict \<Rightarrow> usage option" where
  "anthropic_like payload =
     (case usage_int (dget payload ''input_tokens'') of
        None \<Rightarrow> None
      | Some inbound \<Rightarrow>
          (let rd = usage_int (dget payload ''cache_read_input_tokens'');
               wr = usage_int (dget payload ''cache_creation_input_tokens'');
               completion = count_or (usage_int (dget payload ''output_tokens'')) 0;
               prompt = inbound + count_or rd 0 + count_or wr 0
           in Some
             \<lparr>us_prompt = prompt, us_completion = completion, us_total = prompt + completion,
              us_cache_read = rd, us_cache_write = wr, us_reasoning = None\<rparr>))"

definition bare_usage :: "int \<Rightarrow> usage" where
  "bare_usage n =
     \<lparr>us_prompt = 0, us_completion = 0, us_total = n, us_cache_read = None, us_cache_write = None,
      us_reasoning = None\<rparr>"

definition normalize_usage :: "pyval \<Rightarrow> usage" where
  "normalize_usage data =
     (let payload = usage_payload data
      in case openai_like payload of
           Some u \<Rightarrow> u
         | None \<Rightarrow>
             (case responses_like payload of
                Some u \<Rightarrow> u
              | None \<Rightarrow>
                  (case anthropic_like payload of
                     Some u \<Rightarrow> u
                   | None \<Rightarrow> bare_usage (count_or (usage_int (dget payload ''total_tokens'')) 0))))"

definition hit_ratio :: "usage \<Rightarrow> (int \<times> int) option" where
  "hit_ratio u =
     (case us_cache_read u of
        None \<Rightarrow> None
      | Some rd \<Rightarrow>
          (if us_prompt u \<le> 0 then None
           else if us_prompt u \<le> rd then Some (1, 1)
           else Some (rd, us_prompt u)))"

subsection \<open>Facts\<close>

lemma count_or_Some [simp]: "count_or (Some i) 0 = i"
  by (simp add: count_or_def)

lemma count_or_nonneg: "(\<And>i. c = Some i \<Longrightarrow> 0 \<le> i) \<Longrightarrow> 0 \<le> count_or c 0"
  by (simp add: count_or_def split: option.splits)

lemma hit_ratio_at_most_one:
  assumes "hit_ratio u = Some (n, d)"
  shows "n \<le> d \<and> 0 < d"
  using assms by (auto simp: hit_ratio_def split: option.splits if_splits)

lemma hit_ratio_nonneg:
  assumes "hit_ratio u = Some (n, d)" and "us_cache_read u = Some rd" and "0 \<le> rd"
  shows "0 \<le> n"
  using assms by (auto simp: hit_ratio_def split: if_splits)

text \<open>The Anthropic dialect counts a cache hit inside the prompt, so its ratio is never clamped.\<close>

lemma anthropic_read_inside_prompt:
  assumes "anthropic_like payload = Some u" and "us_cache_read u = Some rd"
    and "\<And>k i. usage_int (dget payload k) = Some i \<Longrightarrow> 0 \<le> i"
  shows "rd \<le> us_prompt u \<and> us_total u = us_prompt u + us_completion u"
proof -
  from assms(1) obtain inbound where i: "usage_int (dget payload ''input_tokens'') = Some inbound"
    by (auto simp: anthropic_like_def split: option.splits)
  have "0 \<le> inbound" using assms(3) i .
  moreover have "0 \<le> count_or (usage_int (dget payload ''cache_creation_input_tokens'')) 0"
    by (rule count_or_nonneg) (rule assms(3))
  ultimately show ?thesis
    using assms(1,2) i by (auto simp: anthropic_like_def Let_def)
qed

end
