(* ===== verification/Agent_Todo.thy ===== *)
theory Agent_Todo
  imports Avid_Prelude
begin

section \<open>The plan of a run\<close>

text \<open>
  The class \<open>TodoList\<close> of \<open>avid/agent/todo.py\<close> and the tool \<open>todo_write\<close> of
  \<open>avid/agent/tools/todo.py\<close>. The list is replaced as a whole or not at all; a stored list is
  repaired instead. The sink \<open>on_plan\<close> of the run is the list of plans published so far, or \<open>None\<close>
  for a run without one. Chinese wording is replaced by ASCII wording of the same shape.
\<close>

definition VALID_STATUSES :: "string list" where
  "VALID_STATUSES = [''pending'', ''in_progress'', ''completed'']"

definition marks :: "string \<Rightarrow> string" where
  "marks status =
     (if status = ''completed'' then ''x'' else if status = ''in_progress'' then ''~'' else '' '')"

record todo_item =
  td_content :: string
  td_status :: string

datatype todo_error =
    NotAnArray
  | NotAnObject nat
  | EmptyContent nat
  | BadStatus nat pyval
  | TooManyActive nat

definition active_count :: "todo_item list \<Rightarrow> nat" where
  "active_count items = length (filter (\<lambda>i. td_status i = ''in_progress'') items)"

fun clean_items :: "nat \<Rightarrow> pyval list \<Rightarrow> todo_error + todo_item list" where
  "clean_items index [] = Inr []"
| "clean_items index (item # rest) =
     (case item of
        PDict d \<Rightarrow>
          (case dget d ''content'' of
             PStr content \<Rightarrow>
               (if py_strip content = [] then Inl (EmptyContent index)
                else case dget d ''status'' of
                  PStr status \<Rightarrow>
                    (if status \<notin> set VALID_STATUSES then Inl (BadStatus index (PStr status))
                     else map_sum id ((#) \<lparr>td_content = py_strip content, td_status = status\<rparr>)
                            (clean_items (Suc index) rest))
                | v \<Rightarrow> Inl (BadStatus index v))
           | _ \<Rightarrow> Inl (EmptyContent index))
      | _ \<Rightarrow> Inl (NotAnObject index))"

definition todo_replace :: "pyval \<Rightarrow> todo_item list \<Rightarrow> todo_error option \<times> todo_item list" where
  "todo_replace raw items =
     (case raw of
        PList xs \<Rightarrow>
          (case clean_items 1 xs of
             Inl e \<Rightarrow> (Some e, items)
           | Inr cleaned \<Rightarrow>
               (if active_count cleaned > 1 then (Some (TooManyActive (active_count cleaned)), items)
                else (None, cleaned)))
      | _ \<Rightarrow> (Some NotAnArray, items))"

definition load_item :: "todo_item list \<Rightarrow> pyval \<Rightarrow> todo_item list" where
  "load_item kept item =
     (case item of
        PDict d \<Rightarrow>
          (case (dget d ''content'', dget d ''status'') of
             (PStr content, PStr status) \<Rightarrow>
               (if py_strip content = [] \<or> status \<notin> set VALID_STATUSES then kept
                else kept @
                  [\<lparr>td_content = py_strip content,
                    td_status = (if status = ''in_progress'' \<and> (\<exists>k\<in>set kept. td_status k = ''in_progress'')
                                 then ''pending'' else status)\<rparr>])
           | _ \<Rightarrow> kept)
      | _ \<Rightarrow> kept)"

definition todo_load :: "pyval \<Rightarrow> todo_item list" where
  "todo_load raw = (case raw of PList xs \<Rightarrow> foldl load_item [] xs | _ \<Rightarrow> [])"

definition todo_counts :: "todo_item list \<Rightarrow> (string \<times> nat) list" where
  "todo_counts items = map (\<lambda>s. (s, length (filter (\<lambda>i. td_status i = s) items))) VALID_STATUSES"

definition todo_summary :: "todo_item list \<Rightarrow> string" where
  "todo_summary items = join_with '', '' (map (\<lambda>(s, n). s @ '' '' @ show_nat n) (todo_counts items))"

fun render_from :: "nat \<Rightarrow> todo_item list \<Rightarrow> string list" where
  "render_from n [] = []"
| "render_from n (i # is') =
     (''['' @ marks (td_status i) @ ''] '' @ show_nat n @ ''. '' @ td_content i) # render_from (Suc n) is'"

definition todo_render :: "todo_item list \<Rightarrow> string" where
  "todo_render items = (if items = [] then ''(empty list)'' else join_with [CHR 10] (render_from 1 items))"

subsection \<open>The tool\<close>

definition item_dict :: "todo_item \<Rightarrow> pyval" where
  "item_dict i = PDict [(''content'', PStr (td_content i)), (''status'', PStr (td_status i))]"

definition plan_value :: "todo_item list \<Rightarrow> pyval" where
  "plan_value items = PList (map item_dict items)"

definition publish_plan :: "todo_item list \<Rightarrow> pyval list option \<Rightarrow> pyval list option" where
  "publish_plan items sink = map_option (\<lambda>published. published @ [plan_value items]) sink"

datatype todo_reply =
    Rejected todo_error
  | Cleared
  | Updated nat string string

definition todo_write ::
  "pydict \<Rightarrow> todo_item list \<times> pyval list option \<Rightarrow>
   todo_reply \<times> todo_item list \<times> pyval list option" where
  "todo_write args st =
     (case todo_replace (dget args ''todos'') (fst st) of
        (Some e, items) \<Rightarrow> (Rejected e, items, snd st)
      | (None, items) \<Rightarrow>
          (if items = [] then Cleared
           else Updated (length items) (todo_summary items) (todo_render items),
           items, publish_plan items (snd st)))"

subsection \<open>Facts\<close>

definition plan_ok :: "todo_item list \<Rightarrow> bool" where
  "plan_ok items \<longleftrightarrow>
     active_count items \<le> 1 \<and>
     (\<forall>i\<in>set items. td_status i \<in> set VALID_STATUSES \<and> td_content i \<noteq> [] \<and>
        py_strip (td_content i) = td_content i)"

lemma dropWhile_idem [simp]: "dropWhile P (dropWhile P xs) = dropWhile P xs"
  by (induction xs) auto

lemma dropWhile_rev_dropWhile:
  "dropWhile P (rev (dropWhile P (rev (dropWhile P xs)))) = rev (dropWhile P (rev (dropWhile P xs)))"
proof -
  have "\<exists>zs. dropWhile P xs = rev (dropWhile P (rev (dropWhile P xs))) @ zs"
    using takeWhile_dropWhile_id [of P "rev (dropWhile P xs)"]
    by (metis rev_append rev_rev_ident)
  then obtain zs where zs: "dropWhile P xs = rev (dropWhile P (rev (dropWhile P xs))) @ zs" ..
  show ?thesis
  proof (cases "rev (dropWhile P (rev (dropWhile P xs)))")
    case (Cons y ys)
    then have "dropWhile P xs = y # ys @ zs" using zs by simp
    then have "\<not> P y" by (simp add: dropWhile_eq_Cons_conv)
    then show ?thesis by (simp only: Cons) simp
  qed (simp only: dropWhile.simps)
qed

lemma py_strip_idem [simp]: "py_strip (py_strip s) = py_strip s"
  by (simp add: py_strip_def dropWhile_rev_dropWhile)

lemma clean_items_ok:
  assumes "clean_items n xs = Inr items"
  shows "\<forall>i\<in>set items. td_status i \<in> set VALID_STATUSES \<and> td_content i \<noteq> [] \<and>
    py_strip (td_content i) = td_content i"
  using assms
  by (induction n xs arbitrary: items rule: clean_items.induct)
     (auto split: pyval.splits if_splits)

lemma active_count_snoc:
  "active_count (xs @ [x]) = active_count xs + (if td_status x = ''in_progress'' then 1 else 0)"
  by (simp add: active_count_def)

lemma no_active: "active_count xs = 0 \<longleftrightarrow> (\<forall>k\<in>set xs. td_status k \<noteq> ''in_progress'')"
  by (auto simp: active_count_def filter_empty_conv)

lemma load_item_ok:
  assumes "plan_ok kept"
  shows "plan_ok (load_item kept item)"
proof (cases "\<exists>d c s. item = PDict d \<and> dget d ''content'' = PStr c \<and> dget d ''status'' = PStr s")
  case True
  then obtain d c s where d: "item = PDict d" "dget d ''content'' = PStr c" "dget d ''status'' = PStr s"
    by blast
  show ?thesis
  proof (cases "\<exists>k\<in>set kept. td_status k = ''in_progress''")
    case True
    then show ?thesis using assms d
      by (auto simp: load_item_def plan_ok_def active_count_snoc VALID_STATUSES_def)
  next
    case False
    then have "active_count kept = 0" by (simp add: no_active)
    then show ?thesis using assms d False
      by (auto simp: load_item_def plan_ok_def active_count_snoc)
  qed
qed (use assms in \<open>auto simp: load_item_def split: pyval.splits\<close>)

lemma foldl_load_ok: "plan_ok kept \<Longrightarrow> plan_ok (foldl load_item kept xs)"
  by (induction xs arbitrary: kept) (auto simp: load_item_ok)

lemma todo_load_ok: "plan_ok (todo_load raw)"
proof -
  have "plan_ok []" by (simp add: plan_ok_def active_count_def)
  then show ?thesis by (cases raw) (simp_all add: todo_load_def foldl_load_ok)
qed

lemma todo_replace_ok:
  "todo_replace raw items = (None, items') \<Longrightarrow> plan_ok items'"
  by (auto simp: todo_replace_def plan_ok_def dest!: clean_items_ok split: pyval.splits sum.splits if_splits)

lemma todo_replace_error:
  "todo_replace raw items = (Some e, items') \<Longrightarrow> items' = items"
  by (auto simp: todo_replace_def split: pyval.splits sum.splits if_splits)

text \<open>A stored plan that is valid loads as it was.\<close>

lemma foldl_load_plan:
  assumes "plan_ok (kept @ items)"
  shows "foldl load_item kept (map item_dict items) = kept @ items"
  using assms
proof (induction items arbitrary: kept)
  case (Cons i items)
  have "active_count (kept @ i # items) = active_count kept + active_count (i # items)"
    by (simp add: active_count_def)
  then have one: "td_status i = ''in_progress'' \<Longrightarrow> active_count kept = 0"
    using Cons.prems by (simp add: plan_ok_def active_count_def)
  then have "td_status i = ''in_progress'' \<Longrightarrow> \<not> (\<exists>k\<in>set kept. td_status k = ''in_progress'')"
    by (simp add: no_active)
  then have "load_item kept (item_dict i) = kept @ [i]"
    using Cons.prems by (auto simp: load_item_def item_dict_def plan_ok_def)
  then show ?case using Cons.IH [of "kept @ [i]"] Cons.prems by simp
qed simp

lemma replace_plan: "plan_ok items \<Longrightarrow> todo_replace (plan_value items) old = (None, items)"
proof -
  assume ok: "plan_ok items"
  have "clean_items n (map item_dict items') = Inr items'"
    if "\<forall>i\<in>set items'. td_status i \<in> set VALID_STATUSES \<and> td_content i \<noteq> [] \<and>
          py_strip (td_content i) = td_content i" for n items'
    using that by (induction items' arbitrary: n) (auto simp: item_dict_def)
  then show ?thesis using ok by (simp add: todo_replace_def plan_value_def plan_ok_def)
qed

subsection \<open>Properties\<close>

text \<open>
  The plan of a run is always valid: whatever was stored and whatever the model sends, every
  item has text and one of the three statuses and at most one item is in progress. A rejected update
  changes neither the plan nor what was published; an accepted one is published as it now stands, and
  what was published loads as the same plan.
\<close>

theorem plan_always_valid:
  assumes "plan_ok items" and "todo_write args (items, sink) = (reply, items', sink')"
  shows "plan_ok items' \<and> plan_ok (todo_load raw) \<and> todo_load (plan_value items') = items' \<and>
    (case reply of
       Rejected e \<Rightarrow> items' = items \<and> sink' = sink
     | _ \<Rightarrow> sink' = map_option (\<lambda>published. published @ [plan_value items']) sink)"
proof -
  obtain r new where new: "todo_replace (dget args ''todos'') items = (r, new)" by fastforce
  have ok: "plan_ok items'"
    using assms new todo_replace_ok [of "dget args ''todos''" items new] todo_replace_error [of "dget args ''todos''" items _ new]
    by (cases r) (auto simp: todo_write_def)
  have "todo_load (plan_value items') = items'"
    using foldl_load_plan [of "[]" items'] ok by (simp add: todo_load_def plan_value_def)
  moreover have "case reply of
       Rejected e \<Rightarrow> items' = items \<and> sink' = sink
     | _ \<Rightarrow> sink' = map_option (\<lambda>published. published @ [plan_value items']) sink"
    using assms(2) new todo_replace_error [of "dget args ''todos''" items _ new]
    by (cases r) (auto simp: todo_write_def publish_plan_def split: if_splits)
  ultimately show ?thesis using ok todo_load_ok by blast
qed

definition two_steps :: pydict where
  "two_steps =
     [(''todos'', PList
        [PDict [(''content'', PStr '' read ''), (''status'', PStr ''in_progress'')],
         PDict [(''content'', PStr ''edit''), (''status'', PStr ''pending'')]])]"

theorem plan_always_valid_witness:
  "todo_load (plan_value [\<lparr>td_content = ''read'', td_status = ''in_progress''\<rparr>,
       \<lparr>td_content = ''edit'', td_status = ''pending''\<rparr>]) =
     [\<lparr>td_content = ''read'', td_status = ''in_progress''\<rparr>,
       \<lparr>td_content = ''edit'', td_status = ''pending''\<rparr>] \<and>
   fst (todo_write two_steps ([], Some [])) \<noteq> Cleared"
proof -
  have start: "plan_ok []" by (simp add: plan_ok_def active_count_def)
  have run: "todo_write two_steps ([], Some []) =
     (Updated 2 (todo_summary (fst (snd (todo_write two_steps ([], Some [])))))
        (todo_render (fst (snd (todo_write two_steps ([], Some []))))),
      [\<lparr>td_content = ''read'', td_status = ''in_progress''\<rparr>,
       \<lparr>td_content = ''edit'', td_status = ''pending''\<rparr>],
      Some [plan_value [\<lparr>td_content = ''read'', td_status = ''in_progress''\<rparr>,
       \<lparr>td_content = ''edit'', td_status = ''pending''\<rparr>]])"
    by code_simp
  show ?thesis using plan_always_valid [OF start run] run by (metis todo_reply.distinct(5) fst_conv)
qed

end
