(* ===== verification/Security_Engine.thy ===== *)
theory Security_Engine
  imports Avid_Prelude "HOL-Library.List_Lexorder" "HOL-Library.Char_ord"
    "HOL-Library.Product_Lexorder"
begin

section \<open>The permission decision\<close>

text \<open>
  The module \<open>avid/security/engine.py\<close> and the ledger and facade of \<open>avid/security/permission.py\<close>:
  one verdict for one tool call, from the facts \<open>action.py\<close> has collected about it. An \<open>ask\<close>
  channel is a function that may change the outside world \<open>'e\<close>, which is threaded through. A message
  to the model is the template it is made from with the reason put into it.
\<close>

subsection \<open>Facts and verdicts\<close>

record action =
  ac_tool :: string
  ac_arguments :: pydict
  ac_normalized :: string
  ac_targets :: "string list"
  ac_outside :: "string list"
  ac_outside_writes :: "string list"
  ac_credentials :: "string list"
  ac_risks :: "string list"
  ac_damage :: "string option"
  ac_network :: bool
  ac_network_target :: string
  ac_capabilities :: "string list"
  ac_operations :: "string list"
  ac_workspace_root :: "string option"

definition OPERATION_READ :: string where "OPERATION_READ = ''read''"
definition OPERATION_WRITE :: string where "OPERATION_WRITE = ''write''"
definition MCP_TOOL_PREFIX :: string where "MCP_TOOL_PREFIX = ''mcp__''"

definition is_mcp_tool :: "string \<Rightarrow> bool" where
  "is_mcp_tool name = (take (length MCP_TOOL_PREFIX) name = MCP_TOOL_PREFIX)"

definition KIND_CREDENTIAL :: string where "KIND_CREDENTIAL = ''credential''"
definition KIND_DAMAGE :: string where "KIND_DAMAGE = ''danger''"

datatype verdict = VERDICT_ALLOW | VERDICT_DENY
datatype answerer = AnsweredNobody | AnsweredFull | AnsweredLedger | AnsweredPolicy | AnsweredUser
datatype outcome_type = SAFE_AUTO | NEEDS_APPROVAL | POLICY_DENIED

datatype denial_message =
    NoMessage
  | CredentialMessage string
  | DangerMessage string
  | UnansweredMessage string

record decision =
  dc_verdict :: verdict
  dc_kind :: string
  dc_reason :: string
  dc_message :: denial_message
  dc_key :: "string list option"
  dc_answered_by :: answerer
  dc_grants :: "(string \<times> string) list"

definition dc_allowed :: "decision \<Rightarrow> bool" where
  "dc_allowed d \<longleftrightarrow> dc_verdict d = VERDICT_ALLOW"

definition dc_type :: "decision \<Rightarrow> outcome_type" where
  "dc_type d =
     (if dc_verdict d = VERDICT_ALLOW then SAFE_AUTO
      else if dc_answered_by d = AnsweredUser then NEEDS_APPROVAL
      else POLICY_DENIED)"

subsection \<open>The ledger\<close>

text \<open>The set of keys is a list without repetitions; nothing depends on its order.\<close>

type_synonym ledger = "string list list"

definition ledger_remember :: "string list \<Rightarrow> ledger \<Rightarrow> ledger" where
  "ledger_remember key l = List.insert key l"

definition ledger_knows :: "string list \<Rightarrow> ledger \<Rightarrow> bool" where
  "ledger_knows key l \<longleftrightarrow> key \<in> set l"

definition path_access :: "string list \<Rightarrow> (string \<times> string) option" where
  "path_access key =
     (case key of
        kind # path # rest \<Rightarrow>
          (if kind = ''path'' then Some (path, case rest of [] \<Rightarrow> ''rw'' | access # _ \<Rightarrow> access) else None)
      | _ \<Rightarrow> None)"

definition add_grant :: "string list \<Rightarrow> (string \<times> string) list \<Rightarrow> (string \<times> string) list" where
  "add_grant key found =
     (case path_access key of
        None \<Rightarrow> found
      | Some (path, access) \<Rightarrow>
          (if map_of found path \<noteq> Some ''rw'' then AList.update path access found else found))"

definition path_grants :: "ledger \<Rightarrow> (string \<times> string) list" where
  "path_grants l = sort (fold add_grant l [])"

subsection \<open>The decision\<close>

type_synonym 'e asker = "string \<Rightarrow> pydict \<Rightarrow> string \<Rightarrow> 'e \<Rightarrow> bool \<times> 'e"

definition review_key :: "action \<Rightarrow> string list" where
  "review_key a =
     (if is_mcp_tool (ac_tool a) then [''tool'', ac_tool a]
      else if ac_tool a = ''bash'' \<and> ac_normalized a \<noteq> [] then [''command'', ac_normalized a]
      else case ac_targets a of
        t # _ \<Rightarrow> [''path'', t]
      | [] \<Rightarrow>
          (case dget (ac_arguments a) ''path'' of
             PStr p \<Rightarrow> (if py_strip p \<noteq> [] then [''path'', py_strip p] else [''tool'', ac_tool a])
           | _ \<Rightarrow> [''tool'', ac_tool a]))"

definition access_of :: "action \<Rightarrow> string" where
  "access_of a = (if take 1 (ac_operations a) = [OPERATION_WRITE] then ''rw'' else ''ro'')"

definition allow ::
  "action \<Rightarrow> answerer \<Rightarrow> string \<Rightarrow> string \<Rightarrow> string list option \<Rightarrow> ledger option \<Rightarrow>
   decision \<times> ledger option" where
  "allow a answered_by kind reason key l =
     (let grants = map (\<lambda>t. (t, access_of a)) (ac_outside_writes a)
      in (\<lparr>dc_verdict = VERDICT_ALLOW, dc_kind = kind, dc_reason = reason, dc_message = NoMessage,
           dc_key = key, dc_answered_by = answered_by, dc_grants = grants\<rparr>,
          map_option (fold (\<lambda>(t, access). ledger_remember [''path'', t, access]) grants) l))"

definition deny_decision ::
  "string \<Rightarrow> string \<Rightarrow> denial_message \<Rightarrow> string list option \<Rightarrow> answerer \<Rightarrow> decision" where
  "deny_decision kind reason message key answered_by =
     \<lparr>dc_verdict = VERDICT_DENY, dc_kind = kind, dc_reason = reason, dc_message = message,
      dc_key = key, dc_answered_by = answered_by, dc_grants = []\<rparr>"

definition damage_reason :: "action \<Rightarrow> string option" where
  "damage_reason a = (case ac_damage a of None \<Rightarrow> None | Some r \<Rightarrow> if r = [] then None else Some r)"

definition decide ::
  "bool \<Rightarrow> 'e asker option \<Rightarrow> action \<Rightarrow> ledger option \<Rightarrow> 'e \<Rightarrow> decision \<times> ledger option \<times> 'e" where
  "decide full ask a l e =
     (if ac_credentials a \<noteq> [] then
        (let reason = join_with '', '' (ac_credentials a)
         in (deny_decision KIND_CREDENTIAL reason (CredentialMessage reason) None AnsweredNobody, l, e))
      else
        (let key = review_key a
         in case damage_reason a of
              None \<Rightarrow> (let (d, l') = allow a AnsweredPolicy '''' '''' None l in (d, l', e))
            | Some reason \<Rightarrow>
                (if full then
                   (let (d, l') = allow a AnsweredFull KIND_DAMAGE reason None l in (d, l', e))
                 else if (case l of None \<Rightarrow> False | Some ks \<Rightarrow> ledger_knows key ks) then
                   (let (d, l') = allow a AnsweredLedger KIND_DAMAGE reason (Some key) l in (d, l', e))
                 else case ask of
                   None \<Rightarrow>
                     (deny_decision KIND_DAMAGE reason (UnansweredMessage reason) (Some key) AnsweredPolicy,
                      l, e)
                 | Some f \<Rightarrow>
                     (let (yes, e') = f (ac_tool a) (ac_arguments a) reason e
                      in if yes then
                           (let (d, l') = allow a AnsweredUser KIND_DAMAGE reason (Some key)
                                            (map_option (ledger_remember key) l)
                            in (d, l', e'))
                         else
                           (deny_decision KIND_DAMAGE reason (DangerMessage reason) (Some key) AnsweredUser,
                            l, e')))))"

definition always_allow :: "'e asker" where
  "always_allow name arguments reason e = (True, e)"

text \<open>The facade: the gate on an action already built, its boolean form, and \<open>--yes\<close>.\<close>

definition check_permission ::
  "bool \<Rightarrow> 'e asker option \<Rightarrow> action \<Rightarrow> ledger option \<Rightarrow> 'e \<Rightarrow> bool \<times> ledger option \<times> 'e" where
  "check_permission full ask a l e =
     (let (d, l', e') = decide full ask a l e in (dc_allowed d, l', e'))"

definition auto_approve :: "bool \<Rightarrow> action \<Rightarrow> ledger option \<Rightarrow> 'e \<Rightarrow> bool \<times> ledger option \<times> 'e" where
  "auto_approve full a l e = check_permission full (Some always_allow) a l e"

text \<open>
  \<open>ask_user\<close> on a terminal: two questions, and an answer is yes only if it is \<open>y\<close> or \<open>yes\<close>. The
  lines still to be read are the world; no line left is the end of the input.
\<close>

definition read_yes :: "string list \<Rightarrow> bool \<times> string list" where
  "read_yes input =
     (case input of
        [] \<Rightarrow> (False, [])
      | line # rest \<Rightarrow> (map lower_char (py_strip line) \<in> {''y'', ''yes''}, rest))"

definition ask_user :: "string list asker" where
  "ask_user name arguments reason input =
     (let (first, input') = read_yes input
      in if \<not> first then (False, input') else read_yes input')"

subsection \<open>What is allowed\<close>

lemma allow_allowed [simp]: "dc_verdict (fst (allow a w k r key l)) = VERDICT_ALLOW"
  by (simp add: allow_def Let_def)

lemma deny_denied [simp]: "dc_verdict (deny_decision k r m key w) = VERDICT_DENY"
  by (simp add: deny_decision_def)

lemma set_ledger_remember [simp]: "set (ledger_remember k l) = insert k (set l)"
  by (simp add: ledger_remember_def)

lemma set_fold_remember:
  "set (fold (\<lambda>(t, access). ledger_remember [''path'', t, access]) gs l) =
     set l \<union> (\<lambda>(t, access). [''path'', t, access]) ` set gs"
  by (induction gs arbitrary: l) auto

lemma allow_ledger:
  assumes "snd (allow a w k r key (Some l)) = Some l'"
  shows "set l' = set l \<union> (\<lambda>t. [''path'', t, access_of a]) ` set (ac_outside_writes a)"
proof -
  from assms have l': "l' = fold (\<lambda>(t, access). ledger_remember [''path'', t, access])
      (map (\<lambda>t. (t, access_of a)) (ac_outside_writes a)) l"
    by (simp add: allow_def Let_def)
  show ?thesis unfolding l' set_fold_remember by (simp add: image_image)
qed

lemma decide_allowed_iff:
  "dc_allowed (fst (decide full ask a l e)) \<longleftrightarrow>
     ac_credentials a = [] \<and>
     (damage_reason a = None \<or> full \<or> (\<exists>ks. l = Some ks \<and> ledger_knows (review_key a) ks) \<or>
      (\<exists>f. ask = Some f \<and> fst (f (ac_tool a) (ac_arguments a) (the (damage_reason a)) e)))"
  by (cases "damage_reason a"; cases l; cases ask)
     (auto simp: decide_def Let_def split_beta dc_allowed_def)

lemma decide_denied_keeps:
  assumes "decide full ask a l e = (d, l', e')" and "\<not> dc_allowed d"
  shows "l' = l \<and> dc_grants d = []"
  using assms
  by (cases "damage_reason a"; cases l; cases ask)
     (auto simp: decide_def Let_def split_beta dc_allowed_def deny_decision_def split: if_splits)

lemma decide_shape:
  assumes "decide full ask a (Some l) e = (d, l', e')"
  shows "(\<not> dc_allowed d \<and> l' = Some l) \<or>
    (\<exists>w k r key m. set l \<subseteq> set m \<and> d = fst (allow a w k r key (Some m)) \<and>
       l' = snd (allow a w k r key (Some m)))"
proof (cases "ac_credentials a = [] \<and> dc_allowed d")
  case False
  then show ?thesis
    using assms decide_denied_keeps [OF assms]
    by (cases "dc_allowed d") (auto simp: decide_def Let_def dc_allowed_def)
next
  case True
  have ok: "?thesis" if "d = fst (allow a w k r key (Some m))" "l' = snd (allow a w k r key (Some m))"
      "set l \<subseteq> set m" for w k r key m using that by blast
  show ?thesis
  proof (cases "damage_reason a")
    case None
    then show ?thesis using assms True ok [of AnsweredPolicy "''''" "''''" None l]
      by (simp add: decide_def Let_def split_beta)
  next
    case (Some reason)
    show ?thesis
    proof (cases "full \<or> ledger_knows (review_key a) l")
      case True
      then show ?thesis
        using assms Some \<open>ac_credentials a = [] \<and> dc_allowed d\<close>
          ok [of AnsweredFull KIND_DAMAGE reason None l]
          ok [of AnsweredLedger KIND_DAMAGE reason "Some (review_key a)" l]
        by (cases full) (simp_all add: decide_def Let_def split_beta)
    next
      case False
      then obtain f where "ask = Some f" "fst (f (ac_tool a) (ac_arguments a) reason e)"
        using True assms Some decide_allowed_iff [of full ask a "Some l" e] by auto
      then show ?thesis
        using False assms Some True
          ok [of AnsweredUser KIND_DAMAGE reason "Some (review_key a)" "ledger_remember (review_key a) l"]
        by (auto simp: decide_def Let_def split_beta)
    qed
  qed
qed

lemma decide_ledger_grows:
  assumes "decide full ask a (Some l) e = (d, l', e')"
  shows "\<exists>ks. l' = Some ks \<and> set l \<subseteq> set ks \<and>
    (dc_allowed d \<longrightarrow> (\<forall>t\<in>set (ac_outside_writes a). [''path'', t, access_of a] \<in> set ks))"
  using decide_shape [OF assms]
proof
  assume "\<exists>w k r key m. set l \<subseteq> set m \<and> d = fst (allow a w k r key (Some m)) \<and>
       l' = snd (allow a w k r key (Some m))"
  then obtain w k r key m ks where m: "set l \<subseteq> set m" "l' = Some ks"
      "snd (allow a w k r key (Some m)) = Some ks"
    by (auto simp: allow_def Let_def)
  with allow_ledger [OF m(3)] show ?thesis by auto
qed simp

text \<open>What the user agreed to once is known from then on.\<close>

lemma decide_user_remembers:
  assumes "decide full ask a (Some l) e = (d, Some l', e')" and "dc_answered_by d = AnsweredUser"
    and "dc_allowed d"
  shows "ledger_knows (review_key a) l'"
  using assms allow_ledger [of a AnsweredUser KIND_DAMAGE _ _ "ledger_remember (review_key a) l"]
  by (cases "damage_reason a"; cases ask)
     (auto simp: decide_def Let_def split_beta dc_allowed_def ledger_knows_def allow_def
        set_fold_remember split: if_splits)

subsection \<open>Path grants\<close>

definition access_ok :: "string list \<Rightarrow> bool" where
  "access_ok key = (case path_access key of None \<Rightarrow> True | Some (_, acc) \<Rightarrow> acc \<in> {''ro'', ''rw''})"

lemma add_grant_lookup:
  assumes "access_ok key" and "\<forall>q b. map_of found q = Some b \<longrightarrow> b \<in> {''ro'', ''rw''}"
  shows "map_of (add_grant key found) p = Some ''rw'' \<longleftrightarrow>
           path_access key = Some (p, ''rw'') \<or> map_of found p = Some ''rw''"
    and "map_of (add_grant key found) p \<noteq> None \<longleftrightarrow>
           (\<exists>b. path_access key = Some (p, b)) \<or> map_of found p \<noteq> None"
    and "\<forall>q b. map_of (add_grant key found) q = Some b \<longrightarrow> b \<in> {''ro'', ''rw''}"
  using assms
  by (auto simp: add_grant_def access_ok_def split: option.splits prod.splits if_splits)

lemma fold_grants:
  assumes "\<forall>k\<in>set ks. access_ok k" and "\<forall>q b. map_of found q = Some b \<longrightarrow> b \<in> {''ro'', ''rw''}"
  shows "(map_of (fold add_grant ks found) p = Some ''rw'' \<longleftrightarrow>
           (\<exists>k\<in>set ks. path_access k = Some (p, ''rw'')) \<or> map_of found p = Some ''rw'') \<and>
    (map_of (fold add_grant ks found) p \<noteq> None \<longleftrightarrow>
           (\<exists>k\<in>set ks. \<exists>b. path_access k = Some (p, b)) \<or> map_of found p \<noteq> None) \<and>
    (\<forall>q b. map_of (fold add_grant ks found) q = Some b \<longrightarrow> b \<in> {''ro'', ''rw''})"
  using assms
proof (induction ks arbitrary: found)
  case (Cons k ks)
  then have k: "access_ok k" and ks: "\<forall>k\<in>set ks. access_ok k" by simp_all
  note step = add_grant_lookup [OF k Cons.prems(2)]
  show ?case using Cons.IH [OF ks step(3)] step(1) [of p] step(2) [of p] by auto
qed simp

lemma distinct_add_grant: "distinct (map fst found) \<Longrightarrow> distinct (map fst (add_grant k found))"
  by (auto simp: add_grant_def distinct_update split: option.splits)

lemma distinct_fold_grants: "distinct (map fst found) \<Longrightarrow> distinct (map fst (fold add_grant ks found))"
  by (induction ks arbitrary: found) (auto simp: distinct_add_grant)

lemma path_grants_iff:
  assumes "\<forall>k\<in>set l. access_ok k"
  shows "(p, b) \<in> set (path_grants l) \<longleftrightarrow>
    (if \<exists>k\<in>set l. path_access k = Some (p, ''rw'') then b = ''rw''
     else b = ''ro'' \<and> (\<exists>k\<in>set l. path_access k = Some (p, ''ro'')))"
proof -
  let ?m = "map_of (fold add_grant l [])"
  have "(p, b) \<in> set (path_grants l) \<longleftrightarrow> ?m p = Some b"
    using distinct_fold_grants [of "[]" l] by (simp add: path_grants_def map_of_eq_Some_iff)
  moreover have "?m p = Some ''rw'' \<longleftrightarrow> (\<exists>k\<in>set l. path_access k = Some (p, ''rw''))"
      "?m p \<noteq> None \<longleftrightarrow> (\<exists>k\<in>set l. \<exists>b. path_access k = Some (p, b))"
      "\<forall>b. ?m p = Some b \<longrightarrow> b \<in> {''ro'', ''rw''}"
    using fold_grants [OF assms, of "[]" p] by auto
  moreover have "\<forall>k\<in>set l. \<forall>b. path_access k = Some (p, b) \<longrightarrow> b \<in> {''ro'', ''rw''}"
    using assms by (fastforce simp: access_ok_def)
  ultimately show ?thesis by (cases "?m p") (auto, blast+)
qed

subsection \<open>Properties\<close>

text \<open>
  C7. A call that touches a credential is refused whatever else holds: full access, an earlier
  approval or a user ready to say yes. Nobody is asked and the ledger does not change.
\<close>

theorem credentials_always_denied:
  assumes "ac_credentials a \<noteq> []"
  shows "\<not> dc_allowed (fst (decide full ask a l e)) \<and> dc_type (fst (decide full ask a l e)) = POLICY_DENIED \<and>
    dc_grants (fst (decide full ask a l e)) = [] \<and> snd (decide full ask a l e) = (l, e)"
  using assms by (simp add: decide_def Let_def deny_decision_def dc_allowed_def dc_type_def)

definition plain_action :: "string \<Rightarrow> action" where
  "plain_action tool_name =
     \<lparr>ac_tool = tool_name, ac_arguments = [], ac_normalized = ''x'', ac_targets = [], ac_outside = [],
      ac_outside_writes = [], ac_credentials = [], ac_risks = [], ac_damage = None, ac_network = False,
      ac_network_target = '''', ac_capabilities = [], ac_operations = [], ac_workspace_root = None\<rparr>"

theorem credentials_always_denied_witness:
  "\<not> dc_allowed (fst (decide True (Some always_allow)
     ((plain_action ''bash'')\<lparr>ac_credentials := [''/etc/shadow'']\<rparr>) (Some [[''command'', ''x'']]) ()))"
  by (rule credentials_always_denied [THEN conjunct1]) simp

text \<open>
  What is allowed, exactly: a call without credentials that is harmless, or runs with full
  access, or whose key is in the ledger, or that a reachable user agrees to. A refused call changes
  neither the ledger nor any grant; an allowed one records a grant for each path it writes outside.
\<close>

theorem decision_table:
  "(dc_allowed (fst (decide full ask a (Some l) e)) \<longleftrightarrow>
      ac_credentials a = [] \<and>
      (damage_reason a = None \<or> full \<or> ledger_knows (review_key a) l \<or>
       (\<exists>f. ask = Some f \<and> fst (f (ac_tool a) (ac_arguments a) (the (damage_reason a)) e)))) \<and>
   (case decide full ask a (Some l) e of
      (d, l', e') \<Rightarrow>
        (if dc_allowed d
         then \<exists>ks. l' = Some ks \<and> set l \<union> (\<lambda>t. [''path'', t, access_of a]) ` set (ac_outside_writes a) \<subseteq> set ks
         else l' = Some l \<and> dc_grants d = []))"
proof -
  obtain d l' e' where r: "decide full ask a (Some l) e = (d, l', e')" by (metis prod_cases3)
  show ?thesis
    using decide_allowed_iff [of full ask a "Some l" e] decide_ledger_grows [OF r]
      decide_denied_keeps [OF r] r
    by auto
qed

text \<open>
  The user is asked once: after a dangerous command was confirmed, the same decision later needs
  no channel at all, is answered by the ledger and asks nobody.
\<close>

theorem confirmed_once_known_after:
  assumes "decide full ask a (Some l) e = (d, Some l', e')" and "dc_answered_by d = AnsweredUser"
    and "dc_allowed d" and "review_key b = review_key a" and "damage_reason b \<noteq> None"
    and "ac_credentials b = []"
  shows "dc_allowed (fst (decide False None b (Some l') e2)) \<and>
    dc_answered_by (fst (decide False None b (Some l') e2)) = AnsweredLedger \<and>
    snd (snd (decide False ask2 b (Some l') e2)) = e2"
  using decide_user_remembers [OF assms(1-3)] assms(4-6)
  by (auto simp: decide_def Let_def split_beta allow_def dc_allowed_def)

theorem confirmed_once_known_after_witness:
  "dc_answered_by (fst (decide False None ((plain_action ''bash'')\<lparr>ac_damage := Some ''wipes''\<rparr>)
     (Some [[''command'', ''x'']]) ())) = AnsweredLedger"
proof -
  let ?a = "(plain_action ''bash'')\<lparr>ac_damage := Some ''wipes''\<rparr>"
  have d: "decide False (Some always_allow) ?a (Some []) () =
      (\<lparr>dc_verdict = VERDICT_ALLOW, dc_kind = KIND_DAMAGE, dc_reason = ''wipes'',
        dc_message = NoMessage, dc_key = Some [''command'', ''x''], dc_answered_by = AnsweredUser,
        dc_grants = []\<rparr>, Some [[''command'', ''x'']], ())"
    by code_simp
  from confirmed_once_known_after [OF d, of ?a "()"] show ?thesis
    by (simp add: dc_allowed_def damage_reason_def plain_action_def)
qed

text \<open>
  The paths the sandbox opens are those of the ledger, each once: writable exactly if some
  approval of it was, whatever the order in which the set of approvals is read.
\<close>

theorem sandbox_grants_are_the_ledgers:
  assumes "list_all access_ok l"
  shows "(p, b) \<in> set (path_grants l) \<longleftrightarrow>
    (if (\<exists>k\<in>set l. path_access k = Some (p, ''rw'')) then b = ''rw''
     else b = ''ro'' \<and> (\<exists>k\<in>set l. path_access k = Some (p, ''ro'')))"
  using assms by (intro path_grants_iff) (simp add: list_all_iff)

theorem sandbox_grants_are_the_ledgers_witness:
  "(''/data'', ''rw'') \<in> set (path_grants [[''path'', ''/data'', ''ro''], [''path'', ''/data'', ''rw'']])"
  using sandbox_grants_are_the_ledgers
    [of "[[''path'', ''/data'', ''ro''], [''path'', ''/data'', ''rw'']]" "''/data''" "''rw''"]
  by (simp add: access_ok_def path_access_def)

end
