(* ===== verification/Agent_State.thy ===== *)
theory Agent_State
  imports Providers_Usage Agent_Todo Security_Engine
begin

section \<open>The state of one run\<close>

text \<open>
  The class \<open>RunState\<close> of \<open>avid/agent/state.py\<close>: counters, one-shot flags, the usage ledger and the
  approval ledger of one run. The observer is the list of events it has seen (\<open>None\<close> is a run without
  one), the plan sink the list of published plans. Ratios are exact fractions. The objects that are
  only handed through (skills, MCP, security spec apart from its flag) have no field.
\<close>

definition MAX_CONSECUTIVE_DENIALS :: nat where "MAX_CONSECUTIVE_DENIALS = 5"

datatype run_event =
    ToolCallStarted string pydict nat string nat
  | ToolCallDenied string pydict nat string string string nat
  | ToolCallFinished string pydict nat string string bool nat
  | ContextCompacted string string nat nat
  | StopNudge string
  | RunStatus nat int
  | DecisionAudit string decision

record run_state =
  ru_auto_approve :: bool
  ru_full :: bool
  ru_ledger :: ledger
  ru_observer :: "run_event list option"
  ru_cancelled :: bool
  ru_cancel_reason :: "string option"
  ru_round :: nat
  ru_stop_blocks :: nat
  ru_compacted :: bool
  ru_retried :: bool
  ru_tool_calls :: nat
  ru_denials :: nat
  ru_denial_streak :: nat
  ru_compactions :: nat
  ru_tokens :: int
  ru_child_calls :: nat
  ru_child_tokens :: int
  ru_last_usage :: "usage option"
  ru_context_window :: "int option"
  ru_last_compaction_tokens :: "int option"
  ru_last_compaction_step :: "string option"
  ru_last_compaction_usage :: "usage option"
  ru_last_compaction_path :: "string option"
  ru_last_compaction_attempts :: nat
  ru_compact_pending :: bool
  ru_prompt_parts :: "(int \<times> int \<times> int) option"
  ru_repeat_calls :: "(string \<times> nat) list"
  ru_todo :: "todo_item list"
  ru_on_plan :: "pyval list option"

text \<open>A new run: \<open>for_run\<close> with a stored plan, which is adopted if there is one.\<close>

definition for_run ::
  "bool \<Rightarrow> bool \<Rightarrow> ledger \<Rightarrow> run_event list option \<Rightarrow> int option \<Rightarrow> pyval \<Rightarrow> pyval list option \<Rightarrow> run_state"
where
  "for_run auto full ledger observer window plan sink =
     \<lparr>ru_auto_approve = auto, ru_full = full, ru_ledger = ledger, ru_observer = observer,
      ru_cancelled = False, ru_cancel_reason = None, ru_round = 0, ru_stop_blocks = 0,
      ru_compacted = False, ru_retried = False, ru_tool_calls = 0, ru_denials = 0,
      ru_denial_streak = 0, ru_compactions = 0, ru_tokens = 0, ru_child_calls = 0,
      ru_child_tokens = 0, ru_last_usage = None, ru_context_window = window,
      ru_last_compaction_tokens = None, ru_last_compaction_step = None,
      ru_last_compaction_usage = None, ru_last_compaction_path = None,
      ru_last_compaction_attempts = 0, ru_compact_pending = False, ru_prompt_parts = None,
      ru_repeat_calls = [], ru_todo = (if truthy plan then todo_load plan else []),
      ru_on_plan = sink\<rparr>"

subsection \<open>Operations\<close>

definition emit :: "run_event \<Rightarrow> run_state \<Rightarrow> run_state" where
  "emit ev st = st\<lparr>ru_observer := map_option (\<lambda>seen. seen @ [ev]) (ru_observer st)\<rparr>"

definition or_cancelled :: "string option \<Rightarrow> string" where
  "or_cancelled reason =
     (case reason of None \<Rightarrow> ''cancelled'' | Some r \<Rightarrow> if r = [] then ''cancelled'' else r)"

definition cancel :: "string option \<Rightarrow> run_state \<Rightarrow> run_state" where
  "cancel reason st = st\<lparr>ru_cancelled := True, ru_cancel_reason := Some (or_cancelled reason)\<rparr>"

text \<open>The reason \<open>RunCancelled\<close> is raised with, if it is; \<open>probe\<close> is what \<open>cancel_probe\<close> answers.\<close>

definition check_cancelled :: "string option \<Rightarrow> run_state \<Rightarrow> string option" where
  "check_cancelled probe st =
     (if ru_cancelled st then Some (or_cancelled (ru_cancel_reason st))
      else case probe of None \<Rightarrow> None | Some r \<Rightarrow> if r = [] then None else Some r)"

definition note_tool_call :: "run_state \<Rightarrow> run_state" where
  "note_tool_call st = st\<lparr>ru_tool_calls := ru_tool_calls st + 1\<rparr>"

definition note_denial :: "run_state \<Rightarrow> run_state" where
  "note_denial st =
     st\<lparr>ru_denials := ru_denials st + 1, ru_denial_streak := ru_denial_streak st + 1\<rparr>"

definition note_allowed :: "run_state \<Rightarrow> run_state" where
  "note_allowed st = st\<lparr>ru_denial_streak := 0\<rparr>"

definition note_repeat :: "string \<Rightarrow> run_state \<Rightarrow> nat \<times> run_state" where
  "note_repeat key st =
     (let times = (case map_of (ru_repeat_calls st) key of None \<Rightarrow> 0 | Some n \<Rightarrow> n) + 1
      in (times, st\<lparr>ru_repeat_calls := AList.update key times (ru_repeat_calls st)\<rparr>))"

definition publish_run_plan :: "run_state \<Rightarrow> run_state" where
  "publish_run_plan st = st\<lparr>ru_on_plan := publish_plan (ru_todo st) (ru_on_plan st)\<rparr>"

definition record_run_usage :: "usage \<Rightarrow> run_state \<Rightarrow> run_state" where
  "record_run_usage u st =
     (let st' = st\<lparr>ru_tokens := ru_tokens st + us_total u, ru_last_usage := Some u\<rparr>
      in if ru_compact_pending st
         then st'\<lparr>ru_last_compaction_tokens := Some (us_prompt u), ru_compact_pending := False\<rparr>
         else st')"

definition adopt_child_usage :: "run_state \<Rightarrow> run_state \<Rightarrow> run_state" where
  "adopt_child_usage child st =
     st\<lparr>ru_child_calls := ru_child_calls st + 1,
        ru_child_tokens := ru_child_tokens st + ru_tokens child,
        ru_tokens := ru_tokens st + ru_tokens child\<rparr>"

definition mark_compacted ::
  "string \<Rightarrow> usage option \<Rightarrow> string option \<Rightarrow> nat \<Rightarrow> run_state \<Rightarrow> run_state" where
  "mark_compacted step u path attempts st =
     st\<lparr>ru_compactions := ru_compactions st + 1, ru_last_compaction_step := Some step,
        ru_last_compaction_usage := u, ru_last_compaction_path := path,
        ru_last_compaction_attempts := attempts, ru_compact_pending := True\<rparr>"

definition record_prompt_parts :: "int \<Rightarrow> int \<Rightarrow> int \<Rightarrow> run_state \<Rightarrow> run_state" where
  "record_prompt_parts system tools messages st =
     st\<lparr>ru_prompt_parts := Some (max 0 system, max 0 tools, max 0 messages)\<rparr>"

record run_tally =
  sn_rounds :: nat
  sn_tool_calls :: nat
  sn_denials :: nat
  sn_denial_streak :: nat
  sn_compactions :: nat

definition run_snapshot :: "run_state \<Rightarrow> run_tally" where
  "run_snapshot st =
     \<lparr>sn_rounds = ru_round st, sn_tool_calls = ru_tool_calls st, sn_denials = ru_denials st,
      sn_denial_streak = ru_denial_streak st, sn_compactions = ru_compactions st\<rparr>"

subsection \<open>The usage report\<close>

record context_split =
  cs_system :: int
  cs_tools :: int
  cs_messages :: int

definition split_context :: "int option \<Rightarrow> (int \<times> int \<times> int) option \<Rightarrow> context_split option" where
  "split_context tokens chars =
     (case (tokens, chars) of
        (Some n, Some (system, tools, messages)) \<Rightarrow>
          (let all = system + tools + messages
           in if all \<le> 0 then None
              else (let s = n * system div all; t = n * tools div all
                    in Some \<lparr>cs_system = s, cs_tools = t, cs_messages = n - s - t\<rparr>))
      | _ \<Rightarrow> None)"

record usage_numbers =
  rp_tokens :: "int option"
  rp_window :: "int option"
  rp_utilization :: "(int \<times> int) option"
  rp_parts :: "context_split option"
  rp_read :: "int option"
  rp_write :: "int option"
  rp_hit_ratio :: "(int \<times> int) option"
  rp_compactions :: nat
  rp_compaction_tokens :: "int option"
  rp_compaction_step :: "string option"
  rp_call_path :: "string option"
  rp_call_attempts :: nat
  rp_call_usage :: "usage option"
  rp_child_calls :: nat
  rp_child_tokens :: int

definition reported_usage :: "run_state \<Rightarrow> usage option" where
  "reported_usage st =
     (case ru_last_usage st of
        None \<Rightarrow> None
      | Some u \<Rightarrow> if us_prompt u \<le> 0 \<and> us_total u \<le> 0 then None else Some u)"

definition usage_report :: "run_state \<Rightarrow> usage_numbers" where
  "usage_report st =
     (let u = reported_usage st; prompt = map_option us_prompt u; window = ru_context_window st
      in \<lparr>rp_tokens = prompt, rp_window = window,
          rp_utilization =
            (case (prompt, window) of
               (Some p, Some w) \<Rightarrow> if w \<noteq> 0 then Some (p, w) else None
             | _ \<Rightarrow> None),
          rp_parts = split_context prompt (ru_prompt_parts st),
          rp_read = Option.bind u us_cache_read, rp_write = Option.bind u us_cache_write,
          rp_hit_ratio = Option.bind u hit_ratio,
          rp_compactions = ru_compactions st,
          rp_compaction_tokens = ru_last_compaction_tokens st,
          rp_compaction_step = ru_last_compaction_step st,
          rp_call_path = ru_last_compaction_path st,
          rp_call_attempts = ru_last_compaction_attempts st,
          rp_call_usage = ru_last_compaction_usage st,
          rp_child_calls = ru_child_calls st, rp_child_tokens = ru_child_tokens st\<rparr>)"

subsection \<open>Facts\<close>

lemma div_add_le:
  fixes a b k :: int
  assumes "0 < k"
  shows "a div k + b div k \<le> (a + b) div k"
proof -
  have "0 \<le> (a mod k + b mod k) div k"
    using assms by (simp add: pos_imp_zdiv_nonneg_iff)
  then show ?thesis by (subst div_add1_eq) linarith
qed

lemma split_context_shares:
  assumes "split_context (Some n) (Some (s, t, m)) = Some c" and "0 \<le> n"
    and "0 \<le> s" and "0 \<le> t" and "0 \<le> m"
  shows "cs_system c + cs_tools c + cs_messages c = n \<and>
    0 \<le> cs_system c \<and> 0 \<le> cs_tools c \<and> 0 \<le> cs_messages c"
proof -
  let ?all = "s + t + m"
  have all: "0 < ?all" using assms(1) by (auto simp: split_context_def Let_def split: if_splits)
  have c: "cs_system c = n * s div ?all" "cs_tools c = n * t div ?all"
      "cs_messages c = n - n * s div ?all - n * t div ?all"
    using assms(1) all by (auto simp: split_context_def Let_def)
  have "n * s div ?all + n * t div ?all \<le> (n * s + n * t) div ?all"
    using all by (rule div_add_le)
  also have "\<dots> \<le> (n * ?all) div ?all"
    using assms all by (intro zdiv_mono1) (simp_all add: distrib_left)
  also have "\<dots> = n" using all by simp
  finally have "n * s div ?all + n * t div ?all \<le> n" .
  moreover have "0 \<le> n * s div ?all" "0 \<le> n * t div ?all"
    using assms all by (simp_all add: pos_imp_zdiv_nonneg_iff)
  ultimately show ?thesis using c by simp
qed

text \<open>The streak never exceeds the denials, and a plan stays valid.\<close>

definition run_wf :: "run_state \<Rightarrow> bool" where
  "run_wf st \<longleftrightarrow> ru_denial_streak st \<le> ru_denials st \<and> ru_denials st \<le> ru_tool_calls st \<and>
     plan_ok (ru_todo st)"

lemma for_run_wf: "run_wf (for_run a f l obs w plan sink)"
  by (simp add: run_wf_def for_run_def todo_load_ok) (simp add: plan_ok_def active_count_def)

text \<open>The token ledger under a sequence of reports, in whatever order the threads make them.\<close>

datatype usage_step = OwnCall usage | ChildRun run_state | Compaction string

fun usage_apply :: "usage_step \<Rightarrow> run_state \<Rightarrow> run_state" where
  "usage_apply (OwnCall u) st = record_run_usage u st"
| "usage_apply (ChildRun child) st = adopt_child_usage child st"
| "usage_apply (Compaction step) st = mark_compacted step None None 0 st"

fun own_tokens :: "usage_step \<Rightarrow> int" where
  "own_tokens (OwnCall u) = us_total u"
| "own_tokens _ = 0"

fun child_tokens :: "usage_step \<Rightarrow> int" where
  "child_tokens (ChildRun child) = ru_tokens child"
| "child_tokens _ = 0"

lemma usage_ledger:
  "ru_tokens (fold usage_apply steps st) =
     ru_tokens st + sum_list (map own_tokens steps) + sum_list (map child_tokens steps) \<and>
   ru_child_tokens (fold usage_apply steps st) =
     ru_child_tokens st + sum_list (map child_tokens steps)"
proof (induction steps arbitrary: st)
  case (Cons s steps)
  then show ?case
    by (cases s) (simp_all add: record_run_usage_def adopt_child_usage_def mark_compacted_def Let_def)
qed simp

subsection \<open>Properties\<close>

text \<open>
  The run's accounts add up: the tokens of a run are those of its own calls and of all its child
  runs, whatever the order of the reports; and in the report the three shares of the prompt are not
  negative and sum exactly to the tokens of the prompt.
\<close>

theorem usage_accounts_add_up:
  assumes "ru_prompt_parts st = Some (max 0 a, max 0 b, max 0 c)"
    and "rp_parts (usage_report st) = Some p" and "rp_tokens (usage_report st) = Some n" and "0 \<le> n"
  shows "cs_system p + cs_tools p + cs_messages p = n \<and>
    0 \<le> cs_system p \<and> 0 \<le> cs_tools p \<and> 0 \<le> cs_messages p \<and>
    ru_tokens (fold usage_apply steps st) =
      ru_tokens st + sum_list (map own_tokens steps) + sum_list (map child_tokens steps)"
proof -
  have "split_context (Some n) (Some (max 0 a, max 0 b, max 0 c)) = Some p"
    using assms(1-3) by (auto simp: usage_report_def Let_def)
  then show ?thesis using split_context_shares assms(4) usage_ledger by simp
qed

definition sample_run :: run_state where
  "sample_run =
     record_prompt_parts 10 20 (- 3)
       (record_run_usage
          \<lparr>us_prompt = 100, us_completion = 7, us_total = 107, us_cache_read = Some 30,
           us_cache_write = None, us_reasoning = None\<rparr>
          (for_run False False [] (Some []) (Some 1000) PNone None))"

theorem usage_accounts_add_up_witness:
  "rp_parts (usage_report sample_run) = Some \<lparr>cs_system = 33, cs_tools = 66, cs_messages = 1\<rparr> \<and>
   (33::int) + 66 + 1 = 100 \<and> ru_tokens (fold usage_apply [ChildRun sample_run] sample_run) = 107 + 107"
proof -
  have parts: "ru_prompt_parts sample_run = Some (max 0 10, max 0 20, max 0 (- 3))" by code_simp
  have p: "rp_parts (usage_report sample_run) = Some \<lparr>cs_system = 33, cs_tools = 66, cs_messages = 1\<rparr>"
    by code_simp
  have n: "rp_tokens (usage_report sample_run) = Some 100" by code_simp
  have t: "ru_tokens sample_run = 107" by code_simp
  show ?thesis
    using usage_accounts_add_up [OF parts p n, of "[ChildRun sample_run]"] p t by simp
qed

end
