(* ===== verification/Agent_Guards.thy ===== *)
theory Agent_Guards
  imports Agent_State Json_Text
begin

section \<open>What the loop itself enforces\<close>

text \<open>
  The module \<open>avid/agent/guards.py\<close>: the permission gate of a call, the reminder about repeated calls
  and the budget of one tool result. Building the facts of a call (\<open>brokerize\<close>) and writing a file
  under the workspace (\<open>spill\<close>) are parameters. The masked log lines of \<open>brief\<close> are not modelled, and
  the Chinese wording is replaced by ASCII wording.
\<close>

definition MAX_TOOL_OUTPUT_CHARS :: nat where "MAX_TOOL_OUTPUT_CHARS = 8000"
definition REPEAT_REMIND_AT :: "nat list" where "REPEAT_REMIND_AT = [3, 5]"

record denial =
  dn_kind :: string
  dn_reason :: string
  dn_content :: string

text \<open>The text of a refusal: the templates of the engine with the reason put in.\<close>

definition denial_text :: "denial_message \<Rightarrow> string" where
  "denial_text m =
     (case m of
        NoMessage \<Rightarrow> ''''
      | CredentialMessage r \<Rightarrow> ''Permission denied. Protected host resource ('' @ r @ '')''
      | DangerMessage r \<Rightarrow> ''Permission denied. Destructive command not confirmed ('' @ r @ '')''
      | UnansweredMessage r \<Rightarrow> ''Permission denied. Destructive command, nobody to ask ('' @ r @ '')'')"

definition guard_permission ::
  "(string \<Rightarrow> pydict \<Rightarrow> action) \<Rightarrow> 'e asker option \<Rightarrow> string \<Rightarrow> pydict \<Rightarrow> run_state \<Rightarrow> 'e \<Rightarrow>
   denial option \<times> run_state \<times> 'e" where
  "guard_permission broker ask tool arguments st e =
     (let answerer = (if ru_auto_approve st then Some always_allow else ask);
          (d, ledger, e') = decide (ru_full st) answerer (broker tool arguments) (Some (ru_ledger st)) e;
          st1 = st\<lparr>ru_ledger := (case ledger of None \<Rightarrow> ru_ledger st | Some l \<Rightarrow> l)\<rparr>;
          st2 = emit (DecisionAudit tool d) st1
      in (if dc_allowed d then None
          else Some
            \<lparr>dn_kind = (if dc_kind d = [] then ''user'' else dc_kind d),
             dn_reason = tool @ '': '' @ dc_reason d, dn_content = denial_text (dc_message d)\<rparr>,
          st2, e'))"

text \<open>The key of a repeated call is \<open>json.dumps(arguments, sort_keys=True)\<close>.\<close>

fun sort_keys :: "pyval \<Rightarrow> pyval" where
  "sort_keys (PList xs) = PList (map sort_keys xs)"
| "sort_keys (PDict d) = PDict (sort_key fst (map (\<lambda>(k, v). (k, sort_keys v)) d))"
| "sort_keys v = v"

definition repeat_key :: "string \<Rightarrow> pydict \<Rightarrow> string" where
  "repeat_key tool arguments = tool @ '':'' @ dumps (sort_keys (PDict arguments))"

definition repeat_reminder :: "string \<Rightarrow> nat \<Rightarrow> string" where
  "repeat_reminder tool n =
     [CHR 10, CHR 10] @ ''[repeated call] the same call of '' @ tool @ '' was made '' @ show_nat n @
     '' times''"

definition remind_repeat :: "string \<Rightarrow> pydict \<Rightarrow> string \<Rightarrow> run_state \<Rightarrow> string \<times> run_state" where
  "remind_repeat tool arguments content st =
     (let (n, st') = note_repeat (repeat_key tool arguments) st
      in (if n \<in> set REPEAT_REMIND_AT then content @ repeat_reminder tool n else content, st'))"

definition cut_notice :: "nat \<Rightarrow> string option \<Rightarrow> string" where
  "cut_notice original path =
     (case path of
        Some p \<Rightarrow>
          [CHR 10] @ ''(cut to the context budget, '' @ show_nat original @ '' characters, saved to '' @ p @
          ''; read it back with read_file; head and tail follow)'' @ [CHR 10]
      | None \<Rightarrow>
          [CHR 10] @ ''(cut to the context budget, '' @ show_nat original @ '' characters, limit '' @
          show_nat MAX_TOOL_OUTPUT_CHARS @ '')'')"

definition fit_tool_output ::
  "(string \<Rightarrow> 'e \<Rightarrow> string option \<times> 'e) \<Rightarrow> string \<Rightarrow> 'e \<Rightarrow> string \<times> bool \<times> 'e" where
  "fit_tool_output spill content e =
     (if length content \<le> MAX_TOOL_OUTPUT_CHARS then (content, False, e)
      else
        (let (path, e') = spill content e;
             original = length content;
             notice = cut_notice original path
         in if length notice \<ge> MAX_TOOL_OUTPUT_CHARS
            then (take MAX_TOOL_OUTPUT_CHARS notice, True, e')
            else
              (let keep = MAX_TOOL_OUTPUT_CHARS - length notice; head = keep div 2
               in (take head content @ notice @ drop (original - (keep - head)) content, True, e'))))"

definition summarize_run :: "run_state \<Rightarrow> string" where
  "summarize_run st =
     ''rounds='' @ show_nat (ru_round st) @ '' tool calls='' @ show_nat (ru_tool_calls st) @
     '' denied='' @ show_nat (ru_denials st)"

subsection \<open>Facts\<close>

lemma fit_length:
  "fit_tool_output spill content e = (c, was_cut, e') \<Longrightarrow>
   length c \<le> MAX_TOOL_OUTPUT_CHARS \<and> (was_cut \<longrightarrow> length c = MAX_TOOL_OUTPUT_CHARS) \<and>
   (\<not> was_cut \<longrightarrow> c = content \<and> e' = e)"
proof (cases "length content \<le> MAX_TOOL_OUTPUT_CHARS")
  case False
  assume fit: "fit_tool_output spill content e = (c, was_cut, e')"
  let ?notice = "cut_notice (length content) (fst (spill content e))"
  show ?thesis
  proof (cases "length ?notice \<ge> MAX_TOOL_OUTPUT_CHARS")
    case True
    then show ?thesis using fit False by (auto simp: fit_tool_output_def Let_def case_prod_beta)
  next
    case short: False
    let ?keep = "MAX_TOOL_OUTPUT_CHARS - length ?notice"
    have c: "c = take (?keep div 2) content @ ?notice @ drop (length content - (?keep - ?keep div 2)) content"
        "was_cut"
      using fit by (simp_all only: fit_tool_output_def Let_def case_prod_beta False short if_False prod.inject)
    have "length c = ?keep div 2 + length ?notice + (?keep - ?keep div 2)"
      using False unfolding c by simp
    then show ?thesis using short c(2) by simp
  qed
qed (simp add: fit_tool_output_def)

lemma guard_denies_credentials:
  assumes "ac_credentials (broker tool arguments) \<noteq> []"
  shows "guard_permission broker ask tool arguments st e =
    (Some \<lparr>dn_kind = KIND_CREDENTIAL,
           dn_reason = tool @ '': '' @ join_with '', '' (ac_credentials (broker tool arguments)),
           dn_content = denial_text (CredentialMessage (join_with '', '' (ac_credentials (broker tool arguments))))\<rparr>,
     emit (DecisionAudit tool (deny_decision KIND_CREDENTIAL (join_with '', '' (ac_credentials (broker tool arguments)))
       (CredentialMessage (join_with '', '' (ac_credentials (broker tool arguments)))) None AnsweredNobody)) st, e)"
  using assms
  by (simp add: guard_permission_def decide_def Let_def deny_decision_def dc_allowed_def KIND_CREDENTIAL_def)

end
