(* ===== verification/Agent_Hooks.thy ===== *)
theory Agent_Hooks
  imports Json_Text Security_Engine
begin

section \<open>Hooks\<close>

text \<open>
  The module \<open>avid/agent/hooks.py\<close>: scripts declared by the user that may veto a step of the loop. The
  process a script runs in is a parameter: a function from the script and the payload it is sent to
  what came of the process. Contexts are dictionaries. Timeouts belong to that parameter, and the
  Chinese reasons are replaced by ASCII ones.
\<close>

subsection \<open>Declarations\<close>

datatype hook_event = UserPromptSubmit | PreToolUse | PostToolUse | Stop

definition event_name :: "hook_event \<Rightarrow> string" where
  "event_name ev =
     (case ev of
        UserPromptSubmit \<Rightarrow> ''UserPromptSubmit'' | PreToolUse \<Rightarrow> ''PreToolUse''
      | PostToolUse \<Rightarrow> ''PostToolUse'' | Stop \<Rightarrow> ''Stop'')"

definition EVENTS :: "hook_event list" where
  "EVENTS = [UserPromptSubmit, PreToolUse, PostToolUse, Stop]"

definition EVENT_FIELDS :: "hook_event \<Rightarrow> string list" where
  "EVENT_FIELDS ev =
     (case ev of
        UserPromptSubmit \<Rightarrow>
          [''prompt'', ''messages'', ''workspace_root'', ''permission_mode'', ''tool_names'']
      | PreToolUse \<Rightarrow> [''tool'', ''arguments'', ''round'', ''tool_call_id'', ''workspace_root'']
      | PostToolUse \<Rightarrow>
          [''tool'', ''arguments'', ''round'', ''tool_call_id'', ''content'', ''truncated'',
           ''workspace_root'']
      | Stop \<Rightarrow>
          [''final_text'', ''messages'', ''rounds'', ''tool_calls'', ''denials'', ''denial_streak'',
           ''compactions''])"

record hook_script =
  hs_event :: hook_event
  hs_command :: string
  hs_args :: "string list"
  hs_env :: "(string \<times> string) list"

definition event_of_name :: "string \<Rightarrow> hook_event option" where
  "event_of_name name = find (\<lambda>ev. event_name ev = name) EVENTS"

text \<open>\<open>_script_of\<close>: \<open>str(entry.get(key, ""))\<close> stripped, a bad entry is skipped with a warning.\<close>

definition entry_text :: "pydict \<Rightarrow> string \<Rightarrow> string" where
  "entry_text entry key =
     py_strip (case map_of entry key of None \<Rightarrow> [] | Some v \<Rightarrow> py_str v)"

datatype hook_warning =
    Unparseable
  | NoHookArray
  | EntryNotObject nat
  | BadEvent nat string
  | NoCommand nat

definition script_of :: "nat \<Rightarrow> pydict \<Rightarrow> hook_warning + hook_script" where
  "script_of index entry =
     (case event_of_name (entry_text entry ''event'') of
        None \<Rightarrow> Inl (BadEvent index (entry_text entry ''event''))
      | Some ev \<Rightarrow>
          (if entry_text entry ''command'' = [] then Inl (NoCommand index)
           else Inr
             \<lparr>hs_event = ev, hs_command = entry_text entry ''command'',
              hs_args = (case dget entry ''args'' of PList xs \<Rightarrow> map py_str xs | _ \<Rightarrow> []),
              hs_env = (case dget entry ''env'' of
                          PDict d \<Rightarrow> map (\<lambda>(k, v). (k, py_str v)) d | _ \<Rightarrow> [])\<rparr>))"

fun read_entries :: "nat \<Rightarrow> pyval list \<Rightarrow> hook_script list \<times> hook_warning list" where
  "read_entries index [] = ([], [])"
| "read_entries index (e # es) =
     (let (specs, warnings) = read_entries (Suc index) es
      in case e of
           PDict entry \<Rightarrow>
             (case script_of index entry of
                Inl w \<Rightarrow> (specs, w # warnings)
              | Inr s \<Rightarrow> (s # specs, warnings))
         | _ \<Rightarrow> (specs, EntryNotObject index # warnings))"

text \<open>\<open>read_config\<close>: the outer option is the file, \<open>None\<close> if there is none; the text is its content.\<close>

definition read_config :: "string option \<Rightarrow> hook_script list \<times> hook_warning list" where
  "read_config contents =
     (case contents of
        None \<Rightarrow> ([], [])
      | Some s \<Rightarrow>
          (case loads s of
             None \<Rightarrow> ([], [Unparseable])
           | Some payload \<Rightarrow>
               (case payload of
                  PDict d \<Rightarrow>
                    (case dget d ''hooks'' of
                       PList entries \<Rightarrow> read_entries 1 entries
                     | _ \<Rightarrow> ([], [NoHookArray]))
                | _ \<Rightarrow> ([], [NoHookArray]))))"

subsection \<open>Running one script\<close>

datatype process_result = NotRun | Exited int string string | RunnerRaised

type_synonym 'e runner = "hook_script \<Rightarrow> pydict \<Rightarrow> 'e \<Rightarrow> process_result \<times> 'e"

definition payload_of :: "hook_event \<Rightarrow> pydict \<Rightarrow> pydict" where
  "payload_of ev ctx =
     AList.update ''event'' (PStr (event_name ev))
       (concat (map (\<lambda>name. case map_of ctx name of None \<Rightarrow> [] | Some v \<Rightarrow> [(name, v)])
                  (EVENT_FIELDS ev)))"

definition line_break :: "char \<Rightarrow> bool" where
  "line_break c = (let n = (of_char c :: nat) in (10 \<le> n \<and> n \<le> 13) \<or> (28 \<le> n \<and> n \<le> 30) \<or> n = 133)"

definition last_line :: "string \<Rightarrow> string" where
  "last_line s = rev (takeWhile (\<lambda>c. \<not> line_break c) (rev (py_strip s)))"

definition or_empty :: "pyval \<Rightarrow> string" where
  "or_empty v = (if truthy v then py_str v else [])"

definition SCRIPT_ALLOW :: string where "SCRIPT_ALLOW = ''allow''"
definition SCRIPT_BLOCK :: string where "SCRIPT_BLOCK = ''block''"

text \<open>The verdict: blocked, reason, injected. \<open>None\<close> is an exception that leaves \<open>_run_script\<close>.\<close>

definition run_script :: "process_result \<Rightarrow> (bool \<times> string \<times> string) option" where
  "run_script result =
     (case result of
        RunnerRaised \<Rightarrow> None
      | NotRun \<Rightarrow> Some (True, ''hook could not run'', [])
      | Exited code out err \<Rightarrow>
          (if code \<noteq> 0
           then Some (True, ''hook exit '' @ show_int code @ '': '' @ take 200 (last_line err), [])
           else case loads (if out = [] then ''{}'' else out) of
             None \<Rightarrow> Some (True, ''hook gave no JSON'', [])
           | Some (PDict answer) \<Rightarrow>
               (let decision = map lower_char (py_strip
                      (case map_of answer ''decision'' of None \<Rightarrow> SCRIPT_ALLOW | Some v \<Rightarrow> py_str v))
                in if decision \<noteq> SCRIPT_ALLOW \<and> decision \<noteq> SCRIPT_BLOCK
                   then Some (True, ''hook decision '' @ repr_str decision, [])
                   else Some (decision = SCRIPT_BLOCK,
                              py_strip (or_empty (dget answer ''reason'')),
                              py_strip (or_empty (dget answer ''injected''))))
           | Some _ \<Rightarrow> Some (True, ''hook result is no object'', [])))"

text \<open>\<open>_script_callback\<close>: what the verdict does to the context; the result is whether it blocks.\<close>

definition inject :: "string \<Rightarrow> pydict \<Rightarrow> pydict" where
  "inject s ctx =
     AList.update ''injected''
       (PList ((case dget ctx ''injected'' of PList xs \<Rightarrow> xs | _ \<Rightarrow> []) @ [PStr s])) ctx"

definition apply_verdict ::
  "hook_script \<Rightarrow> bool \<times> string \<times> string \<Rightarrow> pydict \<Rightarrow> bool \<times> pydict" where
  "apply_verdict spec verdict ctx =
     (let (blocked, reason, injected) = verdict;
          c1 = (if injected \<noteq> [] \<and> hs_event spec = UserPromptSubmit then inject injected ctx
                else ctx)
      in if \<not> blocked then (False, c1)
         else
           (let c2 = AList.update ''denied_content'' (PStr reason)
                       (AList.update ''denied_reason''
                          (PStr (if reason \<noteq> [] then reason else hs_command spec @ '' blocked'')) c1)
            in (True,
                if hs_event spec = Stop
                then AList.update ''nudge'' (if reason \<noteq> [] then PStr reason else PNone) c2
                else c2)))"

definition script_callback ::
  "'e runner \<Rightarrow> hook_script \<Rightarrow> pydict \<Rightarrow> 'e \<Rightarrow> bool \<times> pydict \<times> 'e" where
  "script_callback runner spec ctx e =
     (let (result, e') = runner spec (payload_of (hs_event spec) ctx) e
      in case run_script result of
           None \<Rightarrow> (True, ctx, e')
         | Some verdict \<Rightarrow>
             (let (blocked, ctx') = apply_verdict spec verdict ctx
              in (blocked, ctx', e')))"

subsection \<open>The registry\<close>

fun run_callbacks ::
  "'e runner \<Rightarrow> hook_script list \<Rightarrow> bool \<Rightarrow> pydict \<Rightarrow> 'e \<Rightarrow> bool \<times> pydict \<times> 'e" where
  "run_callbacks runner [] blocked ctx e = (blocked, ctx, e)"
| "run_callbacks runner (s # ss) blocked ctx e =
     (let (b, ctx', e') = script_callback runner s ctx e
      in run_callbacks runner ss (blocked \<or> b) ctx' e')"

definition trigger ::
  "'e runner \<Rightarrow> hook_script list \<Rightarrow> hook_event \<Rightarrow> pydict \<Rightarrow> 'e \<Rightarrow> bool \<times> pydict \<times> 'e" where
  "trigger runner registry ev ctx e =
     run_callbacks runner (filter (\<lambda>s. hs_event s = ev) registry) False
       (AList.update ''event'' (PStr (event_name ev)) ctx) e"

subsection \<open>Facts\<close>

text \<open>What it takes for a process to let the step pass.\<close>

definition says_allow :: "process_result \<Rightarrow> bool" where
  "says_allow result \<longleftrightarrow>
     (case result of
        Exited code out err \<Rightarrow>
          code = 0 \<and>
          (case loads (if out = [] then ''{}'' else out) of
             Some (PDict answer) \<Rightarrow>
               (case map_of answer ''decision'' of
                  None \<Rightarrow> True
                | Some v \<Rightarrow> map lower_char (py_strip (py_str v)) = ''allow'')
           | _ \<Rightarrow> False)
      | _ \<Rightarrow> False)"

lemma lower_allow: "map lower_char (py_strip SCRIPT_ALLOW) = SCRIPT_ALLOW"
  by code_simp

lemma fst_apply_verdict [simp]: "fst (apply_verdict s v c) = fst v"
  by (simp add: apply_verdict_def Let_def case_prod_beta)

lemma callback_blocks:
  "fst (script_callback runner s ctx e) \<longleftrightarrow>
     \<not> says_allow (fst (runner s (payload_of (hs_event s) ctx) e))"
proof -
  have different: "SCRIPT_ALLOW \<noteq> SCRIPT_BLOCK" by (simp add: SCRIPT_ALLOW_def SCRIPT_BLOCK_def)
  have verdict: "(case run_script r of None \<Rightarrow> True | Some v \<Rightarrow> fst v) \<longleftrightarrow> \<not> says_allow r" for r
    using different lower_allow
    by (cases r)
       (auto simp: run_script_def says_allow_def Let_def SCRIPT_ALLOW_def [symmetric]
         split: option.splits pyval.splits)
  show ?thesis
    using verdict [of "fst (runner s (payload_of (hs_event s) ctx) e)"]
    by (auto simp: script_callback_def Let_def case_prod_beta split: option.splits)
qed

text \<open>The processes a trigger runs, in order: every script of the event, whatever the others said.\<close>

fun processes ::
  "'e runner \<Rightarrow> hook_script list \<Rightarrow> pydict \<Rightarrow> 'e \<Rightarrow> process_result list" where
  "processes runner [] ctx e = []"
| "processes runner (s # ss) ctx e =
     fst (runner s (payload_of (hs_event s) ctx) e) #
     (let (b, ctx', e') = script_callback runner s ctx e
      in processes runner ss ctx' e')"

lemma length_processes [simp]: "length (processes runner ss ctx e) = length ss"
  by (induction ss arbitrary: ctx e) (auto simp: Let_def case_prod_beta)

lemma run_callbacks_blocks:
  "fst (run_callbacks runner ss blocked ctx e) \<longleftrightarrow>
     blocked \<or> \<not> list_all says_allow (processes runner ss ctx e)"
proof (induction ss arbitrary: blocked ctx e)
  case (Cons s ss)
  then show ?case using callback_blocks [of runner s ctx e]
    by (auto simp: Let_def case_prod_beta)
qed simp

subsection \<open>Properties\<close>

text \<open>
  C27. Hooks fail closed: a step passes exactly if every script declared for its event, all of which are
  run, ended with exit code 0 and answered a JSON object that decides \<open>allow\<close> or says nothing; a script
  that cannot run, raises, exits with an error or answers anything else blocks it.
\<close>

theorem hooks_fail_closed:
  "(fst (trigger runner registry ev ctx e) \<longleftrightarrow>
     \<not> list_all says_allow
        (processes runner (filter (\<lambda>s. hs_event s = ev) registry)
           (AList.update ''event'' (PStr (event_name ev)) ctx) e)) \<and>
   length (processes runner (filter (\<lambda>s. hs_event s = ev) registry)
             (AList.update ''event'' (PStr (event_name ev)) ctx) e) =
     length (filter (\<lambda>s. hs_event s = ev) registry)"
  by (simp add: trigger_def run_callbacks_blocks)

end
