(* ===== verification/Agent_Validate.thy ===== *)
theory Agent_Validate
  imports Avid_Prelude "HOL-Library.List_Lexorder" "HOL-Library.Char_ord"
begin

section \<open>Checking tool arguments against the schema\<close>

text \<open>
  The module \<open>avid/agent/tools/validate.py\<close>. A schema node is a dictionary; \<open>Crashed\<close> is a Python
  exception out of the check (a \<open>type\<close> that cannot be hashed, a \<open>required\<close> that cannot be walked).
  Equality is Python's: \<open>True\<close> equals 1, and dictionaries are compared without their order.
\<close>

datatype schema_problem =
    WrongType string string
  | IsBoolean string
  | NotInEnum pyval
  | TooSmall int pyval
  | TooLarge int pyval
  | MissingField

datatype check_result = Passed | Problem string schema_problem | Crashed

definition SCALARS :: "string list" where
  "SCALARS = [''string'', ''integer'', ''number'', ''boolean'', ''array'', ''object'']"

definition type_name :: "pyval \<Rightarrow> string" where
  "type_name v =
     (case v of
        PNone \<Rightarrow> ''null'' | PBool b \<Rightarrow> ''boolean'' | PInt i \<Rightarrow> ''integer'' | PStr s \<Rightarrow> ''string''
      | PList xs \<Rightarrow> ''array'' | PDict d \<Rightarrow> ''object'')"

text \<open>\<open>isinstance(value, _SCALARS[expected])\<close>; a boolean is an \<open>int\<close>.\<close>

definition instance_of :: "string \<Rightarrow> pyval \<Rightarrow> bool" where
  "instance_of expected v =
     (case v of
        PStr s \<Rightarrow> expected = ''string''
      | PInt i \<Rightarrow> expected \<in> {''integer'', ''number''}
      | PBool b \<Rightarrow> expected \<in> {''boolean'', ''integer'', ''number''}
      | PList xs \<Rightarrow> expected = ''array''
      | PDict d \<Rightarrow> expected = ''object''
      | PNone \<Rightarrow> False)"

text \<open>Equal values have the same canonical form.\<close>

fun canonical :: "pyval \<Rightarrow> pyval" where
  "canonical (PBool b) = PInt (if b then 1 else 0)"
| "canonical (PList xs) = PList (map canonical xs)"
| "canonical (PDict d) = PDict (sort_key fst (map (\<lambda>(k, v). (k, canonical v)) d))"
| "canonical v = v"

definition py_eq :: "pyval \<Rightarrow> pyval \<Rightarrow> bool" where
  "py_eq v w \<longleftrightarrow> canonical v = canonical w"

definition unhashable :: "pyval \<Rightarrow> bool" where
  "unhashable v = (case v of PList _ \<Rightarrow> True | PDict _ \<Rightarrow> True | _ \<Rightarrow> False)"

subsection \<open>The check\<close>

definition check_type :: "pyval \<Rightarrow> pyval \<Rightarrow> schema_problem option" where
  "check_type expected v =
     (case expected of
        PStr e \<Rightarrow>
          (if e \<in> set SCALARS \<and> \<not> instance_of e v then Some (WrongType e (type_name v))
           else if e \<in> {''integer'', ''number''} \<and> type_name v = ''boolean'' then Some (IsBoolean e)
           else None)
      | _ \<Rightarrow> None)"

definition check_enum :: "pyval \<Rightarrow> pyval \<Rightarrow> schema_problem option" where
  "check_enum enum v =
     (case enum of
        PList es \<Rightarrow> (if list_ex (py_eq v) es then None else Some (NotInEnum v))
      | _ \<Rightarrow> None)"

definition check_range :: "pydict \<Rightarrow> pyval \<Rightarrow> schema_problem option" where
  "check_range spec v =
     (if dget spec ''type'' \<notin> {PStr ''integer'', PStr ''number''} then None
      else case as_int v of
        None \<Rightarrow> None
      | Some i \<Rightarrow>
          (case as_int (dget spec ''minimum'') of
             Some lo \<Rightarrow>
               (if i < lo then Some (TooSmall lo v)
                else case as_int (dget spec ''maximum'') of
                  Some hi \<Rightarrow> if i > hi then Some (TooLarge hi v) else None
                | None \<Rightarrow> None)
           | None \<Rightarrow>
               (case as_int (dget spec ''maximum'') of
                  Some hi \<Rightarrow> if i > hi then Some (TooLarge hi v) else None
                | None \<Rightarrow> None)))"

definition field :: "string \<Rightarrow> string \<Rightarrow> string" where
  "field path name = (if path \<noteq> [] then path @ ''.'' @ name else name)"

fun check_required :: "pyval list \<Rightarrow> pydict \<Rightarrow> string \<Rightarrow> check_result" where
  "check_required [] d path = Passed"
| "check_required (name # names) d path =
     (if unhashable name then Crashed
      else if (case name of PStr k \<Rightarrow> map_of d k \<noteq> None | _ \<Rightarrow> False) then check_required names d path
      else Problem (field path (py_str name)) MissingField)"

definition required_of :: "pydict \<Rightarrow> pyval list option" where
  "required_of spec =
     (let v = dget spec ''required'' in if truthy v then iter_of v else Some [])"

fun and_then :: "check_result \<Rightarrow> check_result \<Rightarrow> check_result" where
  "and_then Passed r = r"
| "and_then r _ = r"

definition first_problem :: "string \<Rightarrow> schema_problem option list \<Rightarrow> check_result" where
  "first_problem path ps =
     (case filter (\<lambda>p. p \<noteq> None) ps of
        Some p # _ \<Rightarrow> Problem path p
      | _ \<Rightarrow> Passed)"

lemma dget_size: "dget d k = PDict e \<Longrightarrow> size (PDict e) < size (PDict d)"
proof -
  assume "dget d k = PDict e"
  then have "(k, PDict e) \<in> set d"
    by (auto simp: dget_def split: option.splits dest: map_of_SomeD)
  then have "size_prod (\<lambda>_. 0) size (k, PDict e) < Suc (size_list (size_prod (\<lambda>_. 0) size) d)"
    by (intro le_imp_less_Suc size_list_estimation') auto
  then show ?thesis by simp
qed

text \<open>The three loops of \<open>_check\<close>: one value, the items of an array, the declared properties.\<close>

function check_value :: "pydict \<Rightarrow> pyval \<Rightarrow> string \<Rightarrow> check_result"
  and check_items :: "pydict \<Rightarrow> nat \<Rightarrow> pyval list \<Rightarrow> string \<Rightarrow> check_result"
  and check_properties :: "pydict \<Rightarrow> pydict \<Rightarrow> string \<Rightarrow> check_result" where
  "check_value spec v path =
     (if unhashable (dget spec ''type'') then Crashed
      else and_then
        (first_problem path
           [check_type (dget spec ''type'') v, check_enum (dget spec ''enum'') v, check_range spec v])
        (and_then
           (case v of
              PList xs \<Rightarrow>
                (if dget spec ''type'' = PStr ''array''
                 then case dget spec ''items'' of
                        PDict items \<Rightarrow> check_items items 0 xs path
                      | _ \<Rightarrow> Passed
                 else Passed)
            | _ \<Rightarrow> Passed)
           (case v of
              PDict d \<Rightarrow>
                (if dget spec ''type'' = PStr ''object''
                 then and_then
                   (case required_of spec of
                      None \<Rightarrow> Crashed | Some names \<Rightarrow> check_required names d path)
                   (case dget spec ''properties'' of
                      PDict props \<Rightarrow> check_properties props d path
                    | _ \<Rightarrow> Passed)
                 else Passed)
            | _ \<Rightarrow> Passed)))"
| "check_items items i [] path = Passed"
| "check_items items i (x # xs) path =
     and_then (check_value items x (path @ ''['' @ show_nat i @ '']''))
       (check_items items (Suc i) xs path)"
| "check_properties [] d path = Passed"
| "check_properties ((name, sub) # props) d path =
     and_then
       (case (map_of d name, sub) of
          (Some v, PDict s) \<Rightarrow> check_value s v (field path name)
        | _ \<Rightarrow> Passed)
       (check_properties props d path)"
  by pat_completeness auto
termination
  by (relation "measures
        [\<lambda>x. case x of
            Inl (spec, _) \<Rightarrow> size (PDict spec)
          | Inr (Inl (items, _)) \<Rightarrow> size (PDict items)
          | Inr (Inr (props, _)) \<Rightarrow> size (PDict props),
         \<lambda>x. case x of
            Inl _ \<Rightarrow> 0
          | Inr (Inl (_, _, xs, _)) \<Rightarrow> Suc (length xs)
          | Inr (Inr _) \<Rightarrow> 0]")
     (auto dest: dget_size)

definition validate_arguments :: "pydict \<Rightarrow> pydict \<Rightarrow> check_result" where
  "validate_arguments parameters arguments = check_value parameters (PDict arguments) []"

subsection \<open>What a schema means\<close>

text \<open>
  The specification: a value conforms to a node if it has the declared type, is one of the allowed
  values and in the allowed range, and its items and fields conform; a boolean is no integer here.
\<close>

definition has_type :: "pydict \<Rightarrow> pyval \<Rightarrow> bool" where
  "has_type s v \<longleftrightarrow>
     (\<forall>t\<in>set SCALARS. dget s ''type'' = PStr t \<longrightarrow>
        type_name v = t \<or> (t = ''number'' \<and> type_name v = ''integer''))"

definition is_allowed :: "pydict \<Rightarrow> pyval \<Rightarrow> bool" where
  "is_allowed s v \<longleftrightarrow>
     (case dget s ''enum'' of PList es \<Rightarrow> \<exists>w\<in>set es. py_eq v w | _ \<Rightarrow> True)"

definition in_bounds :: "pydict \<Rightarrow> pyval \<Rightarrow> bool" where
  "in_bounds s v \<longleftrightarrow>
     dget s ''type'' \<in> {PStr ''integer'', PStr ''number''} \<longrightarrow>
     (case as_int v of
        None \<Rightarrow> True
      | Some i \<Rightarrow>
          (case as_int (dget s ''minimum'') of None \<Rightarrow> True | Some lo \<Rightarrow> lo \<le> i) \<and>
          (case as_int (dget s ''maximum'') of None \<Rightarrow> True | Some hi \<Rightarrow> i \<le> hi))"

definition has_required :: "pydict \<Rightarrow> pydict \<Rightarrow> bool" where
  "has_required s d \<longleftrightarrow>
     (case required_of s of
        None \<Rightarrow> False
      | Some names \<Rightarrow> \<forall>n\<in>set names. \<exists>k. n = PStr k \<and> map_of d k \<noteq> None)"

inductive conforms :: "pydict \<Rightarrow> pyval \<Rightarrow> bool" where
  conforms_node:
    "\<lbrakk>\<not> unhashable (dget s ''type''); has_type s v; is_allowed s v; in_bounds s v;
      \<forall>xs items. dget s ''type'' = PStr ''array'' \<and> v = PList xs \<and> dget s ''items'' = PDict items \<longrightarrow>
        (\<forall>x\<in>set xs. conforms items x);
      \<forall>d. dget s ''type'' = PStr ''object'' \<and> v = PDict d \<longrightarrow>
        has_required s d \<and>
        (\<forall>props. dget s ''properties'' = PDict props \<longrightarrow>
           (\<forall>k sub x. (k, PDict sub) \<in> set props \<and> map_of d k = Some x \<longrightarrow> conforms sub x))\<rbrakk>
     \<Longrightarrow> conforms s v"

inductive_simps conforms_iff: "conforms s v"

lemma and_then_Passed [simp]: "and_then a b = Passed \<longleftrightarrow> a = Passed \<and> b = Passed"
  by (cases a) auto

lemma first_problem_Passed: "first_problem path ps = Passed \<longleftrightarrow> (\<forall>p\<in>set ps. p = None)"
proof (cases "filter (\<lambda>p. p \<noteq> None) ps")
  case Nil
  then show ?thesis by (auto simp: first_problem_def filter_empty_conv)
next
  case (Cons p qs)
  then have "p \<in> set (filter (\<lambda>p. p \<noteq> None) ps)" by simp
  then show ?thesis using Cons by (auto simp: first_problem_def)
qed

lemma check_type_None: "check_type (dget s ''type'') v = None \<longleftrightarrow> has_type s v"
  by (cases "dget s ''type''"; cases v)
     (auto simp: check_type_def has_type_def SCALARS_def instance_of_def type_name_def)

lemma check_enum_None: "check_enum (dget s ''enum'') v = None \<longleftrightarrow> is_allowed s v"
  by (cases "dget s ''enum''") (auto simp: check_enum_def is_allowed_def list_ex_iff)

lemma check_range_None: "check_range s v = None \<longleftrightarrow> in_bounds s v"
  by (auto simp: check_range_def in_bounds_def not_less not_le split: option.splits)

lemma check_required_Passed:
  "check_required names d path = Passed \<longleftrightarrow> (\<forall>n\<in>set names. \<exists>k. n = PStr k \<and> map_of d k \<noteq> None)"
proof (induction names)
  case (Cons n names)
  then show ?case by (cases n) (auto simp: unhashable_def)
qed simp

declare check_value.simps [simp del]

lemma check_conforms:
  "check_value s v path = Passed \<longleftrightarrow> conforms s v"
  "check_items items i xs path = Passed \<longleftrightarrow> (\<forall>x\<in>set xs. conforms items x)"
  "check_properties props d path = Passed \<longleftrightarrow>
     (\<forall>k sub x. (k, PDict sub) \<in> set props \<and> map_of d k = Some x \<longrightarrow> conforms sub x)"
proof (induction s v path and items i xs path and props d path
    rule: check_value_check_items_check_properties.induct)
  case (1 spec v path)
  have required: "(case required_of spec of None \<Rightarrow> Crashed | Some names \<Rightarrow> check_required names d path) = Passed
      \<longleftrightarrow> has_required spec d" for d
    by (simp add: has_required_def check_required_Passed split: option.splits)
  show ?case
  proof (cases "unhashable (dget spec ''type'')")
    case True
    then show ?thesis by (simp add: conforms_iff [of spec] check_value.simps)
  next
    case False
    have items: "(case v of
              PList xs \<Rightarrow>
                (if dget spec ''type'' = PStr ''array''
                 then case dget spec ''items'' of
                        PDict items \<Rightarrow> check_items items 0 xs path
                      | _ \<Rightarrow> Passed
                 else Passed)
            | _ \<Rightarrow> Passed) = Passed \<longleftrightarrow>
        (\<forall>xs items. dget spec ''type'' = PStr ''array'' \<and> v = PList xs \<and> dget spec ''items'' = PDict items \<longrightarrow>
          (\<forall>x\<in>set xs. conforms items x))"
      using 1(1) [OF False] by (cases v; cases "dget spec ''items''") simp_all
    have fields: "(case v of
              PDict d \<Rightarrow>
                (if dget spec ''type'' = PStr ''object''
                 then and_then
                   (case required_of spec of
                      None \<Rightarrow> Crashed | Some names \<Rightarrow> check_required names d path)
                   (case dget spec ''properties'' of
                      PDict props \<Rightarrow> check_properties props d path
                    | _ \<Rightarrow> Passed)
                 else Passed)
            | _ \<Rightarrow> Passed) = Passed \<longleftrightarrow>
        (\<forall>d. dget spec ''type'' = PStr ''object'' \<and> v = PDict d \<longrightarrow>
          has_required spec d \<and>
          (\<forall>props. dget spec ''properties'' = PDict props \<longrightarrow>
             (\<forall>k sub x. (k, PDict sub) \<in> set props \<and> map_of d k = Some x \<longrightarrow> conforms sub x)))"
      using 1(2) [OF False] required by (cases v; cases "dget spec ''properties''") simp_all
    show ?thesis
      unfolding check_value.simps [of spec] if_not_P [OF False] and_then_Passed items fields
        conforms_iff [of spec]
      by (simp add: False first_problem_Passed check_type_None check_enum_None check_range_None)
  qed
next
  case (5 name sub props d path)
  show ?case
  proof (cases "\<exists>s v. sub = PDict s \<and> map_of d name = Some v")
    case True
    then obtain s v where sv: "sub = PDict s" "map_of d name = Some v" by blast
    have "check_value s v (field path name) = Passed \<longleftrightarrow> conforms s v" using 5(1) sv by simp
    then show ?thesis using 5(2) sv by (simp add: all_conj_distrib imp_conjL)
  next
    case False
    then show ?thesis using 5(2) by (cases sub; cases "map_of d name") auto
  qed
qed auto

subsection \<open>Properties\<close>

text \<open>
  C28. The check of the arguments is equivalent to the meaning of the schema: it passes exactly the
  arguments that conform to it, at every depth, where a boolean is not accepted for a number; and it
  crashes, instead of reporting a problem, on a node whose type is a list of types.
\<close>

theorem validation_is_conformance:
  "(validate_arguments parameters arguments = Passed \<longleftrightarrow> conforms parameters (PDict arguments)) \<and>
   validate_arguments ((''type'', PList ts) # parameters) arguments = Crashed"
  by (simp add: validate_arguments_def check_conforms(1) check_value.simps [of "(_, _) # _"] unhashable_def)

end
