(* ===== verification/Agent_Execution.thy ===== *)
theory Agent_Execution
  imports Agent_Guards Agent_Hooks Agent_Validate Agent_Transcript
begin

section \<open>Running tool calls\<close>

text \<open>
  The modules \<open>avid/agent/execution.py\<close> and \<open>avid/agent/tools/safety.py\<close>: one call from its raw
  arguments to the text the model reads, and a batch of calls in the order of the model's message. The
  environment of a run is a record of functions over a world \<open>'e\<close>: the tools, the scripts' runner, the
  approval channel, writing a file, and what other threads have done to the cancellation flag since
  it was last read. \<open>None\<close> is a Python exception. The calls of a parallel segment run one after the
  other in an order the environment chooses, which is the interleaving at the granularity of calls.
\<close>

subsection \<open>The environment of a run\<close>

text \<open>A tool raises (\<open>None\<close>) or returns a value; the declared ones also get the state of the run.\<close>

datatype 'e tool_impl =
    PlainTool "pydict \<Rightarrow> 'e \<Rightarrow> pyval option \<times> 'e"
  | StateTool "pydict \<Rightarrow> run_state \<Rightarrow> 'e \<Rightarrow> pyval option \<times> run_state \<times> 'e"

datatype concurrency = Safe | Exclusive | Conditional

record tool_spec =
  ts_concurrency :: concurrency
  ts_writes :: bool
  ts_assess :: "(pydict \<Rightarrow> run_state \<Rightarrow> string option) option"

record 'e run_env =
  en_registry :: "string \<Rightarrow> 'e tool_impl option"
  en_stateful :: "string list"
  en_schemas :: "string \<Rightarrow> pydict option"
  en_specs :: "string \<Rightarrow> tool_spec option"
  en_runner :: "'e runner"
  en_hooks :: "hook_script list"
  en_broker :: "string \<Rightarrow> pydict \<Rightarrow> action"
  en_ask :: "'e asker option"
  en_spill :: "string \<Rightarrow> 'e \<Rightarrow> string option \<times> 'e"
  en_interrupt :: "'e \<Rightarrow> string option option"
  en_order :: "nat list \<Rightarrow> 'e \<Rightarrow> nat list"
  en_root :: string

definition DENIED_CONTENT :: string where "DENIED_CONTENT = ''Permission denied.''"
definition POST_BLOCKED_CONTENT :: string where
  "POST_BLOCKED_CONTENT = ''error: the result was blocked by a PostToolUse hook''"
definition CANCELLED_CONTENT :: string where
  "CANCELLED_CONTENT = ''error: the run was cancelled, the call was not executed''"

definition bad_arguments :: "string \<Rightarrow> string" where
  "bad_arguments problem = ''argument error: '' @ problem"

definition problem_text :: "string \<Rightarrow> schema_problem \<Rightarrow> string" where
  "problem_text path p =
     bad_arguments ((if path = [] then '''' else path @ '' '') @
       (case p of
          WrongType e a \<Rightarrow> ''must be '' @ e @ '', is '' @ a
        | IsBoolean e \<Rightarrow> ''must be '' @ e @ '', is boolean''
        | NotInEnum v \<Rightarrow> ''is not one of the allowed values: '' @ py_repr v
        | TooSmall i v \<Rightarrow> ''must be at least '' @ show_int i @ '', is '' @ py_repr v
        | TooLarge i v \<Rightarrow> ''must be at most '' @ show_int i @ '', is '' @ py_repr v
        | MissingField \<Rightarrow> ''is missing (required)''))"

definition as_text :: "pyval \<Rightarrow> string" where
  "as_text v = (case v of PStr s \<Rightarrow> s | _ \<Rightarrow> dumps v)"

subsection \<open>One call\<close>

definition tool_failed :: "string \<Rightarrow> string" where
  "tool_failed name = ''tool failed: '' @ name"

definition deny_call ::
  "string \<Rightarrow> pydict \<Rightarrow> nat \<Rightarrow> string \<Rightarrow> nat \<Rightarrow> string \<Rightarrow> string \<Rightarrow> string \<Rightarrow> run_state \<Rightarrow> string \<times> run_state"
where
  "deny_call name arguments round_index call_id parallel kind reason content st =
     (if content = [] then DENIED_CONTENT else content,
      emit (ToolCallDenied name arguments round_index call_id kind reason parallel) (note_denial st))"

text \<open>Calling the implementation by the convention its name is registered under.\<close>

definition call_tool ::
  "'e run_env \<Rightarrow> string \<Rightarrow> 'e tool_impl \<Rightarrow> pydict \<Rightarrow> run_state \<Rightarrow> 'e \<Rightarrow> string \<times> run_state \<times> 'e" where
  "call_tool env name impl arguments st e =
     (case impl of
        PlainTool f \<Rightarrow>
          (if name \<in> set (en_stateful env) then (tool_failed name, st, e)
           else (let (r, e') = f arguments e
                 in (case r of None \<Rightarrow> tool_failed name | Some v \<Rightarrow> as_text v, st, e')))
      | StateTool f \<Rightarrow>
          (if name \<notin> set (en_stateful env) then (tool_failed name, st, e)
           else (let (r, st', e') = f arguments st e
                 in (case r of None \<Rightarrow> tool_failed name | Some v \<Rightarrow> as_text v, st', e'))))"

definition before_context :: "'e run_env \<Rightarrow> string \<Rightarrow> pydict \<Rightarrow> nat \<Rightarrow> string \<Rightarrow> pydict" where
  "before_context env name arguments round_index call_id =
     [(''tool'', PStr name), (''arguments'', PDict arguments), (''round'', PInt (int round_index)),
      (''tool_call_id'', PStr call_id), (''workspace_root'', PStr (en_root env))]"

definition after_context ::
  "'e run_env \<Rightarrow> string \<Rightarrow> pydict \<Rightarrow> nat \<Rightarrow> string \<Rightarrow> string \<Rightarrow> bool \<Rightarrow> pydict" where
  "after_context env name arguments round_index call_id content truncated =
     [(''tool'', PStr name), (''arguments'', PDict arguments), (''round'', PInt (int round_index)),
      (''tool_call_id'', PStr call_id), (''content'', PStr content), (''truncated'', PBool truncated),
      (''workspace_root'', PStr (en_root env))]"

text \<open>What happens once the call may run: the tool, the body's own budget, the last hook.\<close>

definition run_allowed ::
  "'e run_env \<Rightarrow> string \<Rightarrow> 'e tool_impl \<Rightarrow> pydict \<Rightarrow> nat \<Rightarrow> string \<Rightarrow> nat \<Rightarrow> run_state \<Rightarrow> 'e \<Rightarrow>
   string \<times> run_state \<times> 'e" where
  "run_allowed env name impl arguments round_index call_id parallel st e =
     (let (raw, st1, e1) = call_tool env name impl arguments (note_allowed st) e;
          (reminded, st2) = remind_repeat name arguments raw st1;
          (fitted, truncated, e2) = fit_tool_output (en_spill env) reminded e1;
          (blocked, after, e3) =
            trigger (en_runner env) (en_hooks env) PostToolUse
              (after_context env name arguments round_index call_id fitted truncated) e2;
          final =
            (if blocked
             then (let c = or_empty (dget after ''denied_content'')
                   in if c = [] then POST_BLOCKED_CONTENT else c)
             else py_str (dget after ''content''))
      in (final, emit (ToolCallFinished name arguments round_index call_id final truncated parallel) st2,
          e3))"

text \<open>The two gates in front of the tool: the declared hooks, then the run's own permission gate.\<close>

definition run_gated ::
  "'e run_env \<Rightarrow> string \<Rightarrow> 'e tool_impl \<Rightarrow> pydict \<Rightarrow> nat \<Rightarrow> string \<Rightarrow> nat \<Rightarrow> run_state \<Rightarrow> 'e \<Rightarrow>
   string \<times> run_state \<times> 'e" where
  "run_gated env name impl arguments round_index call_id parallel st e =
     (let (blocked, before_ctx, e1) =
            trigger (en_runner env) (en_hooks env) PreToolUse
              (before_context env name arguments round_index call_id) e
      in if blocked then
           (let kind = or_empty (dget before_ctx ''denied_kind'');
                (content, st') =
                  deny_call name arguments round_index call_id parallel
                    (if kind = [] then ''user'' else kind)
                    (or_empty (dget before_ctx ''denied_reason''))
                    (or_empty (dget before_ctx ''denied_content'')) st
            in (content, st', e1))
         else
           (let (denial, st1, e2) =
                  guard_permission (en_broker env) (en_ask env) name arguments st e1
            in case denial of
                 Some d \<Rightarrow>
                   (let (content, st') =
                          deny_call name arguments round_index call_id parallel (dn_kind d)
                            (dn_reason d) (dn_content d) st1
                    in (content, st', e2))
               | None \<Rightarrow> run_allowed env name impl arguments round_index call_id parallel st1 e2))"

definition execute_one ::
  "'e run_env \<Rightarrow> string \<Rightarrow> pyval \<Rightarrow> nat \<Rightarrow> string \<Rightarrow> nat \<Rightarrow> run_state \<Rightarrow> 'e \<Rightarrow>
   string option \<times> run_state \<times> 'e" where
  "execute_one env name raw round_index call_id parallel st e =
     (case raw of
        PStr text \<Rightarrow>
          (case loads text of
             None \<Rightarrow> (Some (bad_arguments ''not JSON''), st, e)
           | Some (PDict arguments) \<Rightarrow>
               (case en_registry env name of
                  None \<Rightarrow> (Some (''unknown tool: '' @ name), st, e)
                | Some impl \<Rightarrow>
                    (case (case en_schemas env name of
                             None \<Rightarrow> Passed | Some p \<Rightarrow> validate_arguments p arguments) of
                       Problem path p \<Rightarrow> (Some (problem_text path p), st, e)
                     | Crashed \<Rightarrow> (None, st, e)
                     | Passed \<Rightarrow>
                         (let st1 = emit (ToolCallStarted name arguments round_index call_id parallel)
                                      (note_tool_call st);
                              (content, st2, e2) =
                                run_gated env name impl arguments round_index call_id parallel st1 e
                          in (Some content, st2, e2))))
           | Some _ \<Rightarrow> (Some (bad_arguments ''not a JSON object''), st, e))
      | _ \<Rightarrow> (None, st, e))"

subsection \<open>The calls of a message\<close>

text \<open>
  \<open>call.get("function") or {}\<close>: \<open>None\<close> is the \<open>AttributeError\<close> of a call, or of a truthy function,
  that is no dictionary.
\<close>

definition call_function :: "pyval \<Rightarrow> pydict option" where
  "call_function call =
     (case call of
        PDict d \<Rightarrow>
          (if truthy (dget d ''function'')
           then (case dget d ''function'' of PDict f \<Rightarrow> Some f | _ \<Rightarrow> None) else Some [])
      | _ \<Rightarrow> None)"

definition call_name :: "pydict \<Rightarrow> string" where
  "call_name f = (case map_of f ''name'' of None \<Rightarrow> [] | Some v \<Rightarrow> py_str v)"

definition call_arguments :: "pydict \<Rightarrow> pydict" where
  "call_arguments f =
     (case dget f ''arguments'' of
        PDict d \<Rightarrow> d
      | PStr s \<Rightarrow> (case loads s of Some (PDict d) \<Rightarrow> d | _ \<Rightarrow> [])
      | _ \<Rightarrow> [])"

definition raw_arguments :: "pydict \<Rightarrow> pyval" where
  "raw_arguments f = (let v = dget f ''arguments'' in if truthy v then v else PStr ''{}'')"

definition call_id :: "pyval \<Rightarrow> string" where
  "call_id call =
     (case call of
        PDict d \<Rightarrow> (case map_of d ''id'' of None \<Rightarrow> [] | Some v \<Rightarrow> py_str v)
      | _ \<Rightarrow> [])"

definition is_concurrency_safe :: "'e run_env \<Rightarrow> string \<Rightarrow> pydict \<Rightarrow> run_state \<Rightarrow> bool" where
  "is_concurrency_safe env name arguments st =
     (case en_specs env name of
        None \<Rightarrow> False
      | Some s \<Rightarrow>
          (if ts_concurrency s = Safe then True
           else if ts_concurrency s \<noteq> Conditional \<or> ts_writes s then False
           else case ts_assess s of
             None \<Rightarrow> False
           | Some f \<Rightarrow> f arguments st = Some ''safe''))"

text \<open>Segments of indices: safe calls share one, any other call stands alone.\<close>

definition close_segment :: "nat list \<Rightarrow> nat list list" where
  "close_segment current = (if current = [] then [] else [current])"

fun plan_from ::
  "'e run_env \<Rightarrow> nat \<Rightarrow> run_state \<Rightarrow> nat \<Rightarrow> nat list \<Rightarrow> pyval list \<Rightarrow> nat list list option" where
  "plan_from env limit st i current [] = Some (close_segment current)"
| "plan_from env limit st i current (call # calls) =
     (if limit > 1 then
        (case call_function call of
           None \<Rightarrow> None
         | Some f \<Rightarrow>
             (if is_concurrency_safe env (call_name f) (call_arguments f) st
              then plan_from env limit st (Suc i) (current @ [i]) calls
              else map_option (\<lambda>segs. close_segment current @ [i] # segs)
                     (plan_from env limit st (Suc i) [] calls)))
      else map_option (\<lambda>segs. close_segment current @ [i] # segs)
             (plan_from env limit st (Suc i) [] calls))"

definition plan_segments ::
  "'e run_env \<Rightarrow> nat \<Rightarrow> run_state \<Rightarrow> pyval list \<Rightarrow> nat list list option" where
  "plan_segments env limit st calls = plan_from env limit st 0 [] calls"

subsection \<open>A batch\<close>

text \<open>Reading the cancellation flag: what other threads did to it takes effect first.\<close>

definition sync_cancel :: "'e run_env \<Rightarrow> 'e \<Rightarrow> run_state \<Rightarrow> run_state" where
  "sync_cancel env e st = (case en_interrupt env e of None \<Rightarrow> st | Some reason \<Rightarrow> cancel reason st)"

text \<open>The inner function \<open>run\<close>.\<close>

definition run_call ::
  "'e run_env \<Rightarrow> nat \<Rightarrow> nat \<Rightarrow> pyval \<Rightarrow> run_state \<Rightarrow> 'e \<Rightarrow> string option \<times> run_state \<times> 'e" where
  "run_call env round_index width call st e =
     (let st = sync_cancel env e st
      in if ru_cancelled st then (Some CANCELLED_CONTENT, st, e)
         else case call_function call of
           None \<Rightarrow> (None, st, e)
         | Some f \<Rightarrow>
             (let (r, st', e') =
                    execute_one env (call_name f) (raw_arguments f) round_index (call_id call) width st e
              in (case r of None \<Rightarrow> Some (tool_failed (call_name f)) | Some c \<Rightarrow> Some c, st', e')))"

text \<open>The calls of a segment in the order they happen to run; the results keep their index.\<close>

fun run_segment ::
  "'e run_env \<Rightarrow> nat \<Rightarrow> nat \<Rightarrow> pyval list \<Rightarrow> nat list \<Rightarrow> run_state \<Rightarrow> 'e \<Rightarrow>
   (nat \<times> string) list option \<times> run_state \<times> 'e" where
  "run_segment env round_index width calls [] st e = (Some [], st, e)"
| "run_segment env round_index width calls (i # is) st e =
     (let (r, st1, e1) = run_call env round_index width (calls ! i) st e
      in case r of
           None \<Rightarrow> (None, st1, e1)
         | Some c \<Rightarrow>
             (let (rs, st2, e2) = run_segment env round_index width calls is st1 e1
              in (map_option ((#) (i, c)) rs, st2, e2)))"

fun run_segments ::
  "'e run_env \<Rightarrow> nat \<Rightarrow> nat \<Rightarrow> pyval list \<Rightarrow> nat list list \<Rightarrow> run_state \<Rightarrow> 'e \<Rightarrow>
   (nat \<times> string) list option \<times> run_state \<times> 'e" where
  "run_segments env round_index limit calls [] st e = (Some [], st, e)"
| "run_segments env round_index limit calls (seg # segs) st e =
     (let st0 = sync_cancel env e st;
          (r, st1, e1) =
            (if ru_cancelled st0 then (Some (map (\<lambda>i. (i, CANCELLED_CONTENT)) seg), st0, e)
             else if length seg = 1 then run_segment env round_index 1 calls seg st0 e
             else run_segment env round_index (min (length seg) limit) calls (en_order env seg e) st0 e)
      in case r of
           None \<Rightarrow> (None, st1, e1)
         | Some done \<Rightarrow>
             (let (rs, st2, e2) = run_segments env round_index limit calls segs st1 e1
              in (map_option ((@) done) rs, st2, e2)))"

text \<open>Outcomes by position; an index without one is the \<open>AssertionError\<close> at the end.\<close>

definition collect_outcomes :: "pyval list \<Rightarrow> (nat \<times> string) list \<Rightarrow> (string \<times> string) list option" where
  "collect_outcomes calls results =
     those (map (\<lambda>i. map_option (\<lambda>c. (call_id (calls ! i), c)) (map_of results i))
              [0..<length calls])"

definition execute_batch ::
  "'e run_env \<Rightarrow> nat \<Rightarrow> nat \<Rightarrow> pyval list \<Rightarrow> run_state \<Rightarrow> 'e \<Rightarrow>
   (string \<times> string) list option \<times> run_state \<times> 'e" where
  "execute_batch env round_index max_parallel calls st e =
     (let limit = max 1 max_parallel
      in case plan_segments env limit st calls of
           None \<Rightarrow> (None, st, e)
         | Some segs \<Rightarrow>
             (let (rs, st', e') = run_segments env round_index limit calls segs st e
              in (Option.bind rs (collect_outcomes calls), st', e')))"

subsection \<open>Facts about a batch\<close>

definition calls_ok :: "pyval list \<Rightarrow> bool" where
  "calls_ok calls \<longleftrightarrow> list_all (\<lambda>c. call_function c \<noteq> None) calls"

text \<open>What the pool of threads is relied on for: it runs the calls of a segment, in some order.\<close>

definition order_ok :: "'e run_env \<Rightarrow> bool" where
  "order_ok env \<longleftrightarrow> (\<forall>seg e. set (en_order env seg e) = set seg)"

lemma plan_from_covers:
  assumes "calls_ok calls"
  shows "\<exists>segs. plan_from env limit st i current calls = Some segs \<and>
    concat segs = current @ [i..<i + length calls] \<and> [] \<notin> set segs"
  using assms
proof (induction calls arbitrary: i current)
  case Nil
  then show ?case by (simp add: close_segment_def)
next
  case (Cons call calls)
  then have ok: "calls_ok calls" "\<exists>f. call_function call = Some f" by (auto simp: calls_ok_def)
  have up: "[i..<Suc (i + length calls)] = i # [Suc i..<Suc (i + length calls)]"
    by (rule upt_conv_Cons) simp
  obtain f where f: "call_function call = Some f" using ok(2) ..
  obtain s1 where s1: "plan_from env limit st (Suc i) (current @ [i]) calls = Some s1"
      "concat s1 = (current @ [i]) @ [Suc i..<Suc i + length calls]" "[] \<notin> set s1"
    using Cons.IH [OF ok(1)] by blast
  obtain s2 where s2: "plan_from env limit st (Suc i) [] calls = Some s2"
      "concat s2 = [Suc i..<Suc i + length calls]" "[] \<notin> set s2"
    using Cons.IH [OF ok(1), of "Suc i" "[]"] by auto
  show ?case using f s1 s2 up by (auto simp: close_segment_def)
qed

lemma run_call_returns:
  "call_function call \<noteq> None \<Longrightarrow> fst (run_call env r w call st e) \<noteq> None"
  by (auto simp: run_call_def Let_def case_prod_beta split: option.splits)

lemma run_segment_returns:
  assumes "\<forall>i\<in>set is. call_function (calls ! i) \<noteq> None"
  shows "\<exists>rs. fst (run_segment env r w calls is st e) = Some rs \<and> map fst rs = is"
  using assms
proof (induction "is" arbitrary: st e)
  case (Cons i "is")
  obtain c st1 e1 where c: "run_call env r w (calls ! i) st e = (Some c, st1, e1)"
    using run_call_returns [of "calls ! i" env r w st e] Cons.prems
    by (cases "run_call env r w (calls ! i) st e") auto
  obtain rs where "fst (run_segment env r w calls is st1 e1) = Some rs" "map fst rs = is"
    using Cons.IH [of st1 e1] Cons.prems by auto
  then show ?case using c by (auto simp: Let_def case_prod_beta)
qed simp

lemma run_segments_returns:
  assumes "order_ok env" and "\<forall>i\<in>set (concat segs). call_function (calls ! i) \<noteq> None"
  shows "\<exists>rs. fst (run_segments env r limit calls segs st e) = Some rs \<and>
    set (map fst rs) = set (concat segs)"
  using assms(2)
proof (induction segs arbitrary: st e)
  case (Cons seg segs)
  let ?st0 = "sync_cancel env e st"
  let ?r = "if ru_cancelled ?st0 then (Some (map (\<lambda>i. (i, CANCELLED_CONTENT)) seg), ?st0, e)
     else if length seg = 1 then run_segment env r 1 calls seg ?st0 e
     else run_segment env r (min (length seg) limit) calls (en_order env seg e) ?st0 e"
  have same: "set (en_order env seg e) = set seg" using assms(1) by (simp add: order_ok_def)
  have ok: "\<forall>i\<in>set seg. call_function (calls ! i) \<noteq> None" using Cons.prems by simp
  have run: "\<exists>rs. fst (run_segment env r w calls is ?st0 e) = Some rs \<and> set (map fst rs) = set seg"
    if "set is = set seg" for w "is"
    using run_segment_returns [of "is" calls env r w ?st0 e] ok that by metis
  have "\<exists>rs. fst ?r = Some rs \<and> set (map fst rs) = set seg"
  proof (cases "ru_cancelled ?st0")
    case True
    then show ?thesis by (simp add: image_image)
  next
    case False
    then show ?thesis using run [OF refl] run [OF same] by simp
  qed
  then obtain rs st1 e1 where rs: "?r = (Some rs, st1, e1)" "set (map fst rs) = set seg"
    by (cases ?r) auto
  obtain rs2 where rs2: "fst (run_segments env r limit calls segs st1 e1) = Some rs2"
      "set (map fst rs2) = set (concat segs)"
    using Cons.IH [of st1 e1] Cons.prems by auto
  have "fst (run_segments env r limit calls (seg # segs) st e) = Some (rs @ rs2)"
    using rs(1) rs2(1) by (simp add: Let_def case_prod_beta)
  moreover have "set (map fst (rs @ rs2)) = set (concat (seg # segs))" using rs(2) rs2(2) by simp
  ultimately show ?case by blast
qed simp

lemma those_map_keyed:
  "(\<And>x. x \<in> set xs \<Longrightarrow> \<exists>y. f x = Some (g x y)) \<Longrightarrow> (\<And>x y. h (g x y) = k x) \<Longrightarrow>
   \<exists>ys. those (map f xs) = Some ys \<and> map h ys = map k xs"
proof (induction xs)
  case (Cons x xs)
  then obtain y where "f x = Some (g x y)" by (meson list.set_intros(1))
  moreover obtain ys where "those (map f xs) = Some ys" "map h ys = map k xs"
    using Cons by auto
  ultimately show ?case using Cons.prems(2) by simp
qed simp

lemma execute_batch_returns:
  assumes "order_ok env" and "calls_ok calls"
  shows "\<exists>outs. fst (execute_batch env r m calls st e) = Some outs \<and>
    map fst outs = map call_id calls"
proof -
  obtain segs where segs: "plan_segments env (max 1 m) st calls = Some segs"
      "concat segs = [0..<length calls]"
    using plan_from_covers [OF assms(2), of env "max 1 m" st 0 "[]"] by (auto simp: plan_segments_def)
  have "\<forall>i\<in>set (concat segs). call_function (calls ! i) \<noteq> None"
    using assms(2) unfolding segs(2) by (auto simp: calls_ok_def list_all_length)
  from run_segments_returns [OF assms(1) this]
  obtain rs where rs: "fst (run_segments env r (max 1 m) calls segs st e) = Some rs"
      "set (map fst rs) = {0..<length calls}"
    unfolding segs(2) by fastforce
  have "\<exists>outs. collect_outcomes calls rs = Some outs \<and>
      map fst outs = map (\<lambda>i. call_id (calls ! i)) [0..<length calls]"
    unfolding collect_outcomes_def
  proof (rule those_map_keyed [where g = "\<lambda>i c. (call_id (calls ! i), c)"])
    fix i assume "i \<in> set [0..<length calls]"
    then have "i \<in> fst ` set rs" using rs(2) by simp
    then obtain c where "map_of rs i = Some c"
      by (metis map_of_eq_None_iff option.exhaust)
    then show "\<exists>c. map_option (\<lambda>c. (call_id (calls ! i), c)) (map_of rs i) = Some (call_id (calls ! i), c)"
      by simp
  qed simp
  moreover have "map (\<lambda>i. call_id (calls ! i)) [0..<length calls] = map call_id calls"
    by (rule nth_equalityI) simp_all
  ultimately show ?thesis
    using segs(1) rs(1) by (auto simp: execute_batch_def Let_def case_prod_beta)
qed

subsection \<open>Facts about one call\<close>

text \<open>Scripts never write the content of a result.\<close>

lemma apply_verdict_content [simp]:
  "dget (snd (apply_verdict s v ctx)) ''content'' = dget ctx ''content''"
  by (simp add: apply_verdict_def inject_def Let_def case_prod_beta)

lemma callback_content [simp]:
  "dget (fst (snd (script_callback runner s ctx e))) ''content'' = dget ctx ''content''"
  by (simp add: script_callback_def Let_def case_prod_beta split: option.splits)

lemma run_callbacks_content:
  "dget (fst (snd (run_callbacks runner ss b ctx e))) ''content'' = dget ctx ''content''"
  by (induction ss arbitrary: b ctx e) (simp_all add: Let_def case_prod_beta)

lemma trigger_content:
  "dget (fst (snd (trigger runner hooks ev ctx e))) ''content'' = dget ctx ''content''"
  by (simp add: trigger_def run_callbacks_content)

definition post_blocked :: "'e run_env \<Rightarrow> pydict \<Rightarrow> 'e \<Rightarrow> bool" where
  "post_blocked env ctx e \<longleftrightarrow> fst (trigger (en_runner env) (en_hooks env) PostToolUse ctx e)"

text \<open>A call that is refused: by a script, or by the permission gate after the scripts.\<close>

definition refused :: "'e run_env \<Rightarrow> string \<Rightarrow> pydict \<Rightarrow> nat \<Rightarrow> string \<Rightarrow> run_state \<Rightarrow> 'e \<Rightarrow> bool" where
  "refused env name arguments r i st e =
     (let g = trigger (en_runner env) (en_hooks env) PreToolUse (before_context env name arguments r i) e
      in fst g \<or>
         fst (guard_permission (en_broker env) (en_ask env) name arguments st (snd (snd g))) \<noteq> None)"

lemma emit_fields [simp]:
  "ru_denials (emit ev st) = ru_denials st" "ru_denial_streak (emit ev st) = ru_denial_streak st"
  "ru_tool_calls (emit ev st) = ru_tool_calls st" "ru_cancelled (emit ev st) = ru_cancelled st"
  by (simp_all add: emit_def)

lemma guard_fields [simp]:
  "ru_denials (fst (snd (guard_permission b a name args st e))) = ru_denials st"
  "ru_denial_streak (fst (snd (guard_permission b a name args st e))) = ru_denial_streak st"
  "ru_tool_calls (fst (snd (guard_permission b a name args st e))) = ru_tool_calls st"
  by (simp_all add: guard_permission_def Let_def case_prod_beta)

lemma deny_call_state:
  "snd (deny_call name args r i w kind reason content st) =
     emit (ToolCallDenied name args r i kind reason w) (note_denial st)"
  by (simp add: deny_call_def)

lemma run_gated_refused:
  assumes "refused env name args r i st e"
  shows "run_gated env name impl args r i w st e = run_gated env name impl' args r i w st e \<and>
    ru_denials (fst (snd (run_gated env name impl args r i w st e))) = ru_denials st + 1 \<and>
    ru_denial_streak (fst (snd (run_gated env name impl args r i w st e))) = ru_denial_streak st + 1"
proof (cases "fst (trigger (en_runner env) (en_hooks env) PreToolUse (before_context env name args r i) e)")
  case True
  then show ?thesis
    by (simp add: run_gated_def Let_def case_prod_beta deny_call_state note_denial_def)
next
  case False
  then obtain d where "fst (guard_permission (en_broker env) (en_ask env) name args st
      (snd (snd (trigger (en_runner env) (en_hooks env) PreToolUse (before_context env name args r i) e)))) = Some d"
    using assms by (auto simp: refused_def Let_def)
  then show ?thesis
    using False by (simp add: run_gated_def Let_def case_prod_beta deny_call_state note_denial_def)
qed

subsection \<open>Properties\<close>

text \<open>
  C8. Every call of a batch is answered once, in the order of the model's message, whatever the segments
  are, in whatever order a parallel segment happens to run, whichever tools raise and whenever the run
  is cancelled.
\<close>

theorem batch_answers_in_order:
  assumes "order_ok env" and "calls_ok calls"
  shows "\<exists>outs. fst (execute_batch env r m calls st e) = Some outs \<and>
    map fst outs = map call_id calls"
  by (rule execute_batch_returns [OF assms])

definition echo_tool :: "unit tool_impl" where
  "echo_tool = PlainTool (\<lambda>args e. (Some (dget args ''text''), e))"

definition sample_action :: "string \<Rightarrow> pydict \<Rightarrow> action" where
  "sample_action name args =
     \<lparr>ac_tool = name, ac_arguments = args, ac_normalized = '''', ac_targets = [], ac_outside = [],
      ac_outside_writes = [],
      ac_credentials = (if dget args ''text'' = PStr ''key'' then [''~/.ssh/id''] else []),
      ac_risks = [], ac_damage = None, ac_network = False, ac_network_target = '''',
      ac_capabilities = [], ac_operations = [OPERATION_READ], ac_workspace_root = None\<rparr>"

definition sample_env :: "unit run_env" where
  "sample_env =
     \<lparr>en_registry = (\<lambda>name. if name = ''echo'' then Some echo_tool else None),
      en_stateful = [], en_schemas = (\<lambda>_. None),
      en_specs = (\<lambda>name. Some \<lparr>ts_concurrency = Safe, ts_writes = False, ts_assess = None\<rparr>),
      en_runner = (\<lambda>s p e. (NotRun, e)), en_hooks = [], en_broker = sample_action, en_ask = None,
      en_spill = (\<lambda>s e. (None, e)), en_interrupt = (\<lambda>e. None), en_order = (\<lambda>seg e. rev seg),
      en_root = ''/w''\<rparr>"

definition echo_call :: "string \<Rightarrow> string \<Rightarrow> pyval" where
  "echo_call i s =
     PDict [(''id'', PStr i), (''function'', PDict [(''name'', PStr ''echo''),
       (''arguments'', PDict [(''text'', PStr s)])])]"

definition json_call :: "string \<Rightarrow> string \<Rightarrow> pyval" where
  "json_call i s =
     PDict [(''id'', PStr i), (''function'', PDict [(''name'', PStr ''echo''), (''arguments'', PStr s)])]"

definition fresh_run :: run_state where
  "fresh_run = for_run False False [] (Some []) None PNone None"

lemma sample_order: "order_ok sample_env"
  by (simp add: order_ok_def sample_env_def)

theorem batch_answers_in_order_witness:
  "map fst (the (fst (execute_batch sample_env 1 4
     [json_call ''c1'' ''{}'', echo_call ''c2'' ''x''] fresh_run ()))) = [''c1'', ''c2'']"
proof -
  have "calls_ok [json_call ''c1'' ''{}'', echo_call ''c2'' ''x'']" by code_simp
  from batch_answers_in_order [OF sample_order this, of 1 4 fresh_run "()"]
  show ?thesis by (auto simp: json_call_def echo_call_def call_id_def)
qed

text \<open>
  C29. A refused call never reaches its tool: if a script blocks the call or the permission gate denies
  it, the answer, the state of the run and the world are the same whatever the tool is, and the denial
  is counted once; a call that touches a credential is refused whatever the scripts, the user, full
  access or automatic approval say.
\<close>

theorem refused_call_never_runs:
  "(refused env name args r i st e \<longrightarrow>
      run_gated env name impl args r i w st e = run_gated env name impl' args r i w st e \<and>
      ru_denials (fst (snd (run_gated env name impl args r i w st e))) = ru_denials st + 1 \<and>
      ru_denial_streak (fst (snd (run_gated env name impl args r i w st e))) = ru_denial_streak st + 1) \<and>
   (ac_credentials (en_broker env name args) \<noteq> [] \<longrightarrow> refused env name args r i st e)"
proof (intro conjI impI)
  assume "ac_credentials (en_broker env name args) \<noteq> []"
  then show "refused env name args r i st e" by (simp add: refused_def Let_def guard_denies_credentials)
qed (use run_gated_refused [of env name args r i st e impl w impl'] in blast)+

theorem refused_call_never_runs_witness:
  "run_gated sample_env ''echo'' echo_tool [(''text'', PStr ''key'')] 1 ''c'' 1 fresh_run () =
   run_gated sample_env ''echo'' (PlainTool (\<lambda>a e. (None, e))) [(''text'', PStr ''key'')] 1 ''c'' 1 fresh_run ()"
proof -
  have "ac_credentials (en_broker sample_env ''echo'' [(''text'', PStr ''key'')]) \<noteq> []"
    by (simp add: sample_env_def sample_action_def)
  then show ?thesis
    using refused_call_never_runs [of sample_env "''echo''" "[(''text'', PStr ''key'')]" 1 "''c''" fresh_run "()"]
    by blast
qed

text \<open>
  What a tool returns fits the context budget: the text of a call that was allowed has at most
  \<open>MAX_TOOL_OUTPUT_CHARS\<close> characters, reminder and notice included, unless a script replaced it; and
  the denial streak is broken before the tool runs.
\<close>

theorem tool_output_fits:
  assumes "\<forall>c t e'. \<not> post_blocked env (after_context env name args r i c t) e'"
  shows "length (fst (run_allowed env name impl args r i w st e)) \<le> MAX_TOOL_OUTPUT_CHARS"
proof -
  obtain raw st1 e1 where a: "call_tool env name impl args (note_allowed st) e = (raw, st1, e1)"
    by (cases "call_tool env name impl args (note_allowed st) e") auto
  obtain reminded st2 where b: "remind_repeat name args raw st1 = (reminded, st2)" by fastforce
  obtain fitted truncated e2 where c: "fit_tool_output (en_spill env) reminded e1 = (fitted, truncated, e2)"
    by (cases "fit_tool_output (en_spill env) reminded e1") auto
  let ?g = "trigger (en_runner env) (en_hooks env) PostToolUse
      (after_context env name args r i fitted truncated) e2"
  have "\<not> fst ?g" using assms by (simp add: post_blocked_def)
  moreover have "dget (fst (snd ?g)) ''content'' = PStr fitted"
    by (simp add: trigger_content after_context_def)
  ultimately have "fst (run_allowed env name impl args r i w st e) = fitted"
    using a b c by (simp add: run_allowed_def Let_def case_prod_beta)
  then show ?thesis using fit_length [OF c] by simp
qed

theorem tool_output_fits_witness:
  "length (fst (run_allowed sample_env ''echo'' echo_tool [(''text'', PStr (replicate 9000 CHR ''x''))]
     1 ''c'' 1 fresh_run ())) \<le> MAX_TOOL_OUTPUT_CHARS"
  by (rule tool_output_fits) (simp add: post_blocked_def trigger_def sample_env_def)

end
