(* ===== verification/Providers_Protocol.thy ===== *)
theory Providers_Protocol
  imports Providers_Usage
begin

section \<open>The protocol vocabulary of the providers\<close>

text \<open>
  The modules \<open>avid/providers/protocol.py\<close>, \<open>config.py\<close>, \<open>reasoning.py\<close> and \<open>transport.py\<close>: the turn
  every provider returns, the event stream it is read from, the record of a turn's reasoning and
  the decision which of it is sent again, and the retries around one request. The endpoint is a
  parameter: a function from a request to a response or a network error. The long repair hints
  are ASCII names of themselves, and waiting times are kept symbolic. \<open>None\<close>, or \<open>Crashed\<close> as an
  error, is a Python exception nobody names.
\<close>

datatype provider_error =
    LLMError string | PromptTooLongError string | ConfigError string | Crashed

record turn =
  tn_message :: pydict
  tn_text :: string
  tn_tool_calls :: "pyval list"
  tn_usage :: usage
  tn_model :: string
  tn_finish_reason :: string
  tn_reasoning :: string
  tn_reasoning_blocks :: "pydict list"

record provider_config =
  cf_api_key :: string
  cf_base_url :: string
  cf_model :: string
  cf_provider :: "string option"
  cf_provider_id :: "string option"
  cf_extra_headers :: pydict
  cf_extra_body :: pydict
  cf_max_output :: "int option"
  cf_reasoning_effort :: "string option"

subsection \<open>Reading values\<close>

text \<open>
  \<open>str(v or "")\<close>, \<open>d.get(k, default)\<close>, \<open>v or {}\<close> of which attributes are read next, \<open>v or []\<close> that is
  iterated next, and \<open>int(v)\<close>.
\<close>

definition str_or :: "pyval \<Rightarrow> string" where
  "str_or v = (if truthy v then py_str v else [])"

definition dget_or :: "pydict \<Rightarrow> string \<Rightarrow> pyval \<Rightarrow> pyval" where
  "dget_or d k v = (case map_of d k of None \<Rightarrow> v | Some w \<Rightarrow> w)"

definition dict_or :: "pyval \<Rightarrow> pydict option" where
  "dict_or v = (if truthy v then as_dict v else Some [])"

definition iter_or :: "pyval \<Rightarrow> pyval list option" where
  "iter_or v = (if truthy v then iter_of v else Some [])"

definition py_int :: "pyval \<Rightarrow> int option" where
  "py_int v = (case v of PInt i \<Rightarrow> Some i | PBool b \<Rightarrow> Some (if b then 1 else 0)
     | PStr s \<Rightarrow> int_of_str s | _ \<Rightarrow> None)"

definition given_str :: "string option \<Rightarrow> bool" where
  "given_str s \<longleftrightarrow> (case s of None \<Rightarrow> False | Some t \<Rightarrow> t \<noteq> [])"

definition dict_update :: "pydict \<Rightarrow> pydict \<Rightarrow> pydict" where
  "dict_update d extra = fold (\<lambda>kv. AList.update (fst kv) (snd kv)) extra d"

lemma dget_or_Cons [simp]: "dget_or ((k', v) # d) k w = (if k = k' then v else dget_or d k w)"
  by (simp add: dget_or_def)

lemma dget_or_Nil [simp]: "dget_or [] k w = w"
  by (simp add: dget_or_def)

lemma str_or_PStr [simp]: "str_or (PStr s) = s"
  by (simp add: str_or_def)

lemma str_or_PNone [simp]: "str_or PNone = []"
  by (simp add: str_or_def)

lemma dict_or_PDict [simp]: "dict_or (PDict d) = Some d"
  by (simp add: dict_or_def)

lemma iter_or_PList [simp]: "iter_or (PList xs) = Some xs"
  by (simp add: iter_or_def)

lemma py_int_PInt [simp]: "py_int (PInt i) = Some i"
  by (simp add: py_int_def)

subsection \<open>Messages\<close>

definition assistant_message :: "string \<Rightarrow> pyval list \<Rightarrow> pydict" where
  "assistant_message text calls =
     [(''role'', PStr ''assistant''), (''content'', PStr text)] @
     (if calls \<noteq> [] then [(''tool_calls'', PList calls)] else [])"

definition content_text :: "pyval \<Rightarrow> string" where
  "content_text raw =
     (case raw of
        PStr s \<Rightarrow> s
      | PList items \<Rightarrow>
          concat (map (\<lambda>item. case item of
                        PDict d \<Rightarrow> (case dget d ''text'' of PStr t \<Rightarrow> t | _ \<Rightarrow> [])
                      | _ \<Rightarrow> []) items)
      | _ \<Rightarrow> [])"

definition content_parts :: "pyval \<Rightarrow> pyval list option" where
  "content_parts raw = as_list raw"

definition image_data_url :: "pydict \<Rightarrow> string" where
  "image_data_url part =
     ''data:'' @ py_str (dget part ''mime'') @ '';base64,'' @ py_str (dget part ''data'')"

text \<open>The ids of a model listing.\<close>

definition model_ids :: "pyval \<Rightarrow> string list" where
  "model_ids payload =
     (case (case payload of PDict d \<Rightarrow> dget d ''data'' | _ \<Rightarrow> payload) of
        PList items \<Rightarrow>
          concat (map (\<lambda>item. case item of
                        PStr s \<Rightarrow> (if s \<noteq> [] then [s] else [])
                      | PDict d \<Rightarrow>
                          (if py_strip (py_str (dget_or d ''id'' (PStr ''''))) \<noteq> []
                           then [py_str (dget d ''id'')] else [])
                      | _ \<Rightarrow> []) items)
      | _ \<Rightarrow> [])"

subsection \<open>Errors of an endpoint\<close>

definition PROMPT_TOO_LONG_SIGNS :: "string list" where
  "PROMPT_TOO_LONG_SIGNS =
     [''prompt is too long'', ''prompt_too_long'', ''context length'', ''context_length_exceeded'',
      ''maximum context'', ''too many tokens'', ''request too large'', ''reduce the length'',
      ''input is too long'', ''exceeds the maximum number of tokens'']"

definition REASONING_REPLAY_HINT :: string where
  "REASONING_REPLAY_HINT = ''<reasoning replay hint>''"

definition REASONING_EFFORT_HINT :: string where
  "REASONING_EFFORT_HINT = ''<reasoning effort hint>''"

definition http_error :: "int \<Rightarrow> string \<Rightarrow> bool \<Rightarrow> bool \<Rightarrow> provider_error" where
  "http_error status body effort replay =
     LLMError (''HTTP '' @ show_int status @ '' - '' @ take 500 body @
       (if status = 400 \<or> status = 422
        then (if effort then REASONING_EFFORT_HINT else []) @ (if replay then REASONING_REPLAY_HINT else [])
        else []))"

definition prompt_too_long :: "int \<Rightarrow> string \<Rightarrow> bool" where
  "prompt_too_long status body \<longleftrightarrow>
     (status = 400 \<or> status = 413 \<or> status = 422) \<and>
     (let t = map lower_char body in list_ex (\<lambda>sign. has_part sign t) PROMPT_TOO_LONG_SIGNS)"

definition refusal :: "int \<Rightarrow> string \<Rightarrow> bool \<Rightarrow> bool \<Rightarrow> provider_error" where
  "refusal status body effort replay =
     (if prompt_too_long status body
      then PromptTooLongError (''HTTP '' @ show_int status @ '' - context exceeded: '' @ take 300 body)
      else http_error status body effort replay)"

subsection \<open>The event stream\<close>

definition decode_stream_frame :: "string \<Rightarrow> provider_error + pydict" where
  "decode_stream_frame payload =
     (case loads payload of
        None \<Rightarrow> Inl (LLMError (''frame is not JSON: '' @ take 200 payload))
      | Some (PDict d) \<Rightarrow> Inr d
      | Some _ \<Rightarrow> Inl (LLMError (''frame is not an object: '' @ take 200 payload)))"

definition DONE_SIGN :: string where "DONE_SIGN = ''[DONE]''"

text \<open>
  The generator, as the frames it yields and the error it ends with. \<open>ending\<close> is the error of the
  connection that breaks after the lines, if it does.
\<close>

fun sse_from :: "string option \<Rightarrow> string list \<Rightarrow> string list \<Rightarrow> pydict list \<times> provider_error option" where
  "sse_from ending buffered [] =
     (case ending of
        Some why \<Rightarrow> ([], Some (LLMError why))
      | None \<Rightarrow>
          (let payload = join_with [LF] buffered
           in if py_strip payload \<noteq> [] \<and> py_strip payload \<noteq> DONE_SIGN then
                (case decode_stream_frame payload of Inl e \<Rightarrow> ([], Some e) | Inr d \<Rightarrow> ([d], None))
              else ([], None)))"
| "sse_from ending buffered (line # lines) =
     (if line = [] then
        (let payload = join_with [LF] buffered
         in if py_strip payload = [] then sse_from ending [] lines
            else if py_strip payload = DONE_SIGN then ([], None)
            else case decode_stream_frame payload of
              Inl e \<Rightarrow> ([], Some e)
            | Inr d \<Rightarrow> map_prod ((#) d) id (sse_from ending [] lines))
      else if has_prefix '':'' line then sse_from ending buffered lines
      else if has_prefix ''data:'' line then
        (let value = drop 5 line
         in sse_from ending (buffered @ [if has_prefix '' '' value then drop 1 value else value]) lines)
      else sse_from ending buffered lines)"

definition iter_sse_events :: "string option \<Rightarrow> string list \<Rightarrow> pydict list \<times> provider_error option" where
  "iter_sse_events ending lines = sse_from ending [] lines"

subsection \<open>The configuration\<close>

definition PROVIDERS :: "string list" where
  "PROVIDERS = [''openai'', ''anthropic'', ''responses'']"

definition resolved_provider :: "provider_config \<Rightarrow> provider_error + string" where
  "resolved_provider cf =
     (let name = (case cf_provider cf of None \<Rightarrow> ''openai'' | Some p \<Rightarrow> if p = [] then ''openai'' else p)
      in if name \<in> set PROVIDERS then Inr name
         else Inl (ConfigError (''unknown provider '' @ repr_str name)))"

text \<open>\<open>url.rstrip('/')\<close>.\<close>

definition rstrip_slash :: "string \<Rightarrow> string" where
  "rstrip_slash u = rev (dropWhile (\<lambda>c. c = CHR ''/'') (rev u))"

definition chat_completions_url :: "provider_config \<Rightarrow> string" where
  "chat_completions_url cf = rstrip_slash (cf_base_url cf) @ ''/chat/completions''"

definition MODEL_CONTEXT_WINDOWS :: "(string \<times> int) list" where
  "MODEL_CONTEXT_WINDOWS =
     [(''gpt-4.1'', 1047576), (''gpt-4o'', 128000), (''gpt-4-turbo'', 128000), (''o1'', 200000),
      (''o3'', 200000), (''o4-mini'', 200000), (''claude-sonnet-4'', 200000),
      (''claude-opus-4'', 200000), (''claude-3'', 200000), (''claude-'', 200000),
      (''deepseek-chat'', 65536), (''deepseek-reasoner'', 65536)]"

definition window_step :: "string \<Rightarrow> string \<times> int \<Rightarrow> int \<times> int option \<Rightarrow> int \<times> int option" where
  "window_step name entry acc =
     (if has_prefix (fst entry) name \<and> fst acc < int (length (fst entry))
      then (int (length (fst entry)), Some (snd entry)) else acc)"

definition window_for :: "string \<Rightarrow> int option" where
  "window_for model =
     snd (fold (window_step (map lower_char (py_strip model))) MODEL_CONTEXT_WINDOWS (- 1, None))"

definition model_info_enabled :: "string option \<Rightarrow> bool" where
  "model_info_enabled raw \<longleftrightarrow>
     map lower_char (py_strip (case raw of None \<Rightarrow> [] | Some s \<Rightarrow> s)) \<notin>
       set [''off'', ''0'', ''false'', ''no'']"

definition max_parallel_tool_calls :: "string option \<Rightarrow> provider_error + int" where
  "max_parallel_tool_calls raw =
     (let s = py_strip (case raw of None \<Rightarrow> [] | Some s \<Rightarrow> s)
      in if s = [] then Inr 10
         else case int_of_str s of
           None \<Rightarrow> Inl (ConfigError (''not a positive integer: '' @ repr_str s))
         | Some v \<Rightarrow>
             (if v < 1 then Inl (ConfigError (''must be at least 1: '' @ show_int v))
              else if v > 32 then Inl (ConfigError (''above the ceiling: '' @ show_int v))
              else Inr v))"

subsection \<open>The record of a turn's reasoning\<close>

definition RECORD_KEY :: string where "RECORD_KEY = ''reasoning''"

record reasoning_route =
  rt_provider_id :: string
  rt_model :: string
  rt_protocol :: string

definition route_key :: "reasoning_route \<Rightarrow> string" where
  "route_key rt = rt_provider_id rt @ ''/'' @ rt_model rt"

definition route_of :: "provider_config \<Rightarrow> provider_error + reasoning_route" where
  "route_of cf =
     map_sum id (\<lambda>p. \<lparr>rt_provider_id = (case cf_provider_id cf of None \<Rightarrow> [] | Some i \<Rightarrow> i),
                       rt_model = cf_model cf, rt_protocol = p\<rparr>) (resolved_provider cf)"

definition attach :: "reasoning_route \<Rightarrow> pydict list \<Rightarrow> pydict \<Rightarrow> pydict" where
  "attach rt blocks message =
     (let kept = filter (\<lambda>b. b \<noteq> []) blocks
      in if kept = [] then message
         else AList.update RECORD_KEY
                (PDict [(''route'', PStr (route_key rt)), (''protocol'', PStr (rt_protocol rt)),
                        (''blocks'', PList (map PDict kept))]) message)"

definition record_of :: "pydict \<Rightarrow> pydict option" where
  "record_of message = as_dict (dget message RECORD_KEY)"

definition reasoning_text_of :: "pydict list \<Rightarrow> string" where
  "reasoning_text_of blocks = concat (map (\<lambda>b. str_or (dget b ''text'')) blocks)"

text \<open>
  The live chain is the messages from \<open>chain_start\<close> to \<open>chain_end\<close>; one message of it is sent with
  its blocks when its record is of the route and a tool result follows it.
\<close>

fun chain_end :: "pydict list \<Rightarrow> nat \<Rightarrow> nat" where
  "chain_end ms 0 = 0"
| "chain_end ms (Suc n) =
     (if dget (ms ! n) ''tail'' = PBool True then chain_end ms n else Suc n)"

fun chain_start :: "pydict list \<Rightarrow> nat \<Rightarrow> nat" where
  "chain_start ms 0 = 0"
| "chain_start ms (Suc n) =
     (if dget (ms ! n) ''role'' \<in> {PStr ''tool'', PStr ''assistant''} then chain_start ms n else Suc n)"

definition replay_at :: "reasoning_route \<Rightarrow> pydict list \<Rightarrow> nat \<Rightarrow> pydict list option" where
  "replay_at rt ms i =
     (if dget (ms ! i) ''role'' \<noteq> PStr ''assistant'' then None
      else case record_of (ms ! i) of
        None \<Rightarrow> None
      | Some r \<Rightarrow>
          (if dget r ''route'' \<noteq> PStr (route_key rt) \<or> dget r ''protocol'' \<noteq> PStr (rt_protocol rt) then None
           else if \<not> (i + 1 < length ms \<and> is_tool (ms ! (i + 1))) then None
           else case dget r ''blocks'' of
             PList blocks \<Rightarrow>
               (let kept = concat (map (\<lambda>b. case b of PDict d \<Rightarrow> [d] | _ \<Rightarrow> []) blocks)
                in if kept = [] then None else Some kept)
           | _ \<Rightarrow> None))"

definition plan_replay :: "reasoning_route \<Rightarrow> pydict list \<Rightarrow> (nat \<times> pydict list) list" where
  "plan_replay rt ms =
     (let stop = chain_end ms (length ms); start = chain_start ms stop
      in concat (map (\<lambda>i. case replay_at rt ms i of None \<Rightarrow> [] | Some bs \<Rightarrow> [(i, bs)]) [start..<stop]))"

subsection \<open>One request and its retries\<close>

record http_request =
  hq_method :: string
  hq_url :: string
  hq_headers :: pydict
  hq_body :: pydict

record http_response =
  hr_status :: int
  hr_text :: string
  hr_retry_after :: bool
  hr_lines :: "string list"
  hr_broken :: "string option"

type_synonym 'e endpoint = "http_request \<Rightarrow> 'e \<Rightarrow> (string + http_response) \<times> 'e"

text \<open>
  What the policy waits before the next attempt: what the server asked for, or the backoff of
  this attempt.
\<close>

datatype waiting = HintedWait | BackoffWait nat

definition RETRYABLE_STATUS :: "int list" where
  "RETRYABLE_STATUS = [429, 500, 502, 503, 504, 529]"

definition DEFAULT_ATTEMPTS :: nat where "DEFAULT_ATTEMPTS = 3"

definition retry_delay :: "http_response option \<Rightarrow> nat \<Rightarrow> waiting" where
  "retry_delay response attempt =
     (case response of
        Some r \<Rightarrow> if hr_retry_after r then HintedWait else BackoffWait attempt
      | None \<Rightarrow> BackoffWait attempt)"

text \<open>
  The loop of \<open>send\<close> and \<open>send_stream\<close> with the attempts that are left after this one.
\<close>

fun send_from ::
  "'e endpoint \<Rightarrow> http_request \<Rightarrow> nat \<Rightarrow> nat \<Rightarrow> waiting list \<Rightarrow> 'e \<Rightarrow>
   (provider_error + http_response) \<times> waiting list \<times> 'e" where
  "send_from http q attempt left waits e =
     (case http q e of
        (Inl why, e') \<Rightarrow>
          (case left of
             0 \<Rightarrow> (Inl (LLMError why), waits, e')
           | Suc n \<Rightarrow> send_from http q (Suc attempt) n (waits @ [retry_delay None attempt]) e')
      | (Inr r, e') \<Rightarrow>
          (case left of
             0 \<Rightarrow> (Inr r, waits, e')
           | Suc n \<Rightarrow>
               (if hr_status r \<in> set RETRYABLE_STATUS
                then send_from http q (Suc attempt) n (waits @ [retry_delay (Some r) attempt]) e'
                else (Inr r, waits, e'))))"

declare send_from.simps [simp del]

definition send :: "'e endpoint \<Rightarrow> nat \<Rightarrow> http_request \<Rightarrow> 'e \<Rightarrow>
   (provider_error + http_response) \<times> waiting list \<times> 'e" where
  "send http attempts q e = send_from http q 1 (attempts - 1) [] e"

subsection \<open>The frames are read back\<close>

text \<open>A server's frame, and the lines between frames that carry no data.\<close>

definition frame_lines :: "pydict \<Rightarrow> string list" where
  "frame_lines d = [''data: '' @ dumps (PDict d), []]"

definition noise_line :: "string \<Rightarrow> bool" where
  "noise_line l \<longleftrightarrow> l \<noteq> [] \<and> \<not> has_prefix ''data:'' l"

lemma sse_noise: "list_all noise_line ls \<Longrightarrow> sse_from ending buffered (ls @ rest) = sse_from ending buffered rest"
  by (induction ls) (auto simp: noise_line_def)

lemma strip_dict:
  "\<exists>t. py_strip (dumps (PDict d)) = CHR ''{'' # t"
proof -
  let ?s = "''{'' @ join_with '', '' (map (\<lambda>kv. dumps_str (fst kv) @ '': '' @ dumps (snd kv)) d)"
  have "py_strip (?s @ ''}'') = ?s @ ''}''"
    by (simp add: py_strip_def is_space_def)
  then show ?thesis by simp
qed

lemma strip_not_done:
  "py_strip (dumps (PDict d)) \<noteq> []" "py_strip (dumps (PDict d)) \<noteq> DONE_SIGN"
  using strip_dict [of d] by (auto simp: DONE_SIGN_def)

lemma sse_frame:
  assumes "json_wf (PDict d)"
  shows "sse_from ending [] (frame_lines d @ rest) = map_prod ((#) d) id (sse_from ending [] rest)"
  using strip_not_done [of d] json_roundtrip [OF assms]
  by (simp add: frame_lines_def has_prefix_def decode_stream_frame_def del: dumps.simps)

lemma sse_frames:
  assumes "list_all (\<lambda>(ls, d). list_all noise_line ls \<and> json_wf (PDict d)) frames"
  shows "sse_from ending [] (concat (map (\<lambda>(ls, d). ls @ frame_lines d) frames) @ rest) =
    map_prod ((@) (map snd frames)) id (sse_from ending [] rest)"
  using assms
proof (induction frames)
  case Nil
  then show ?case by (simp add: map_prod_def split_beta)
next
  case (Cons f frames)
  obtain ls d where f: "f = (ls, d)" by (cases f)
  show ?case
    using Cons f sse_noise [of ls ending "[]"] sse_frame [of d ending]
    by (simp add: map_prod_def split_beta)
qed

lemma sse_read_back:
  assumes "list_all (\<lambda>(ls, d). list_all noise_line ls \<and> json_wf (PDict d)) frames"
    and "list_all noise_line part"
  shows "iter_sse_events None (concat (map (\<lambda>(ls, d). ls @ frame_lines d) frames) @ part) =
      (map snd frames, None)"
    and "iter_sse_events ending (concat (map (\<lambda>(ls, d). ls @ frame_lines d) frames)
        @ part @ [''data: [DONE]'', []] @ rest) = (map snd frames, None)"
    and "iter_sse_events (Some why) (concat (map (\<lambda>(ls, d). ls @ frame_lines d) frames)
        @ part @ [''data: '' @ dumps v]) = (map snd frames, Some (LLMError why))"
proof -
  note noise = sse_noise [OF assms(2), of _ "[]"] and frames = sse_frames [OF assms(1)]
  have done_frame: "py_strip ''[DONE]'' = DONE_SIGN" "DONE_SIGN \<noteq> []"
    by (simp_all add: DONE_SIGN_def py_strip_def is_space_def)
  show "iter_sse_events None (concat (map (\<lambda>(ls, d). ls @ frame_lines d) frames) @ part) =
      (map snd frames, None)"
    using noise [of None "[]"] frames [of None part] by (simp add: iter_sse_events_def py_strip_def)
  show "iter_sse_events ending (concat (map (\<lambda>(ls, d). ls @ frame_lines d) frames)
        @ part @ [''data: [DONE]'', []] @ rest) = (map snd frames, None)"
    using noise [of ending "[''data: [DONE]'', []] @ rest"] done_frame
      frames [of ending "part @ [''data: [DONE]'', []] @ rest"]
    by (simp add: iter_sse_events_def has_prefix_def)
  show "iter_sse_events (Some why) (concat (map (\<lambda>(ls, d). ls @ frame_lines d) frames)
        @ part @ [''data: '' @ dumps v]) = (map snd frames, Some (LLMError why))"
    using noise [of "Some why" "[''data: '' @ dumps v]"]
      frames [of "Some why" "part @ [''data: '' @ dumps v]"]
    by (simp add: iter_sse_events_def has_prefix_def)
qed

text \<open>
  C24. Whatever heartbeats and fields stand between them, the frames a server writes are read back as
  they are and in order; the end sign hides everything behind it, and a connection that breaks
  after some frames yields these frames and then the error, never a frame that was not complete.
\<close>

theorem stream_frames_read_back:
  assumes "list_all (\<lambda>(ls, d). list_all noise_line ls \<and> json_wf (PDict d)) frames"
    and "list_all noise_line part"
  shows "iter_sse_events None (concat (map (\<lambda>(ls, d). ls @ frame_lines d) frames) @ part) =
      (map snd frames, None) \<and>
    iter_sse_events ending (concat (map (\<lambda>(ls, d). ls @ frame_lines d) frames)
        @ part @ [''data: [DONE]'', []] @ rest) = (map snd frames, None) \<and>
    iter_sse_events (Some why) (concat (map (\<lambda>(ls, d). ls @ frame_lines d) frames)
        @ part @ [''data: '' @ dumps v]) = (map snd frames, Some (LLMError why))"
  using sse_read_back [OF assms] by blast

subsection \<open>Retries\<close>

fun world_after :: "'e endpoint \<Rightarrow> http_request \<Rightarrow> nat \<Rightarrow> 'e \<Rightarrow> 'e" where
  "world_after http q 0 e = e"
| "world_after http q (Suc n) e = world_after http q n (snd (http q e))"

definition exchange :: "'e endpoint \<Rightarrow> http_request \<Rightarrow> nat \<Rightarrow> 'e \<Rightarrow> string + http_response" where
  "exchange http q k e = fst (http q (world_after http q k e))"

definition try_again :: "string + http_response \<Rightarrow> bool" where
  "try_again r \<longleftrightarrow> (case r of Inl _ \<Rightarrow> True | Inr h \<Rightarrow> hr_status h \<in> set RETRYABLE_STATUS)"

lemma exchange_Suc: "exchange http q (Suc k) e = exchange http q k (snd (http q e))"
  by (simp add: exchange_def)

lemma send_from_retries:
  "\<exists>k\<le>left. (\<forall>i<k. try_again (exchange http q i e)) \<and>
     (k = left \<or> \<not> try_again (exchange http q k e)) \<and>
     fst (send_from http q (attempt::nat) left waits e) = map_sum LLMError id (exchange http q k e) \<and>
     length (fst (snd (send_from http q attempt left waits e))) = length waits + k \<and>
     snd (snd (send_from http q attempt left waits e)) = world_after http q (Suc k) e"
proof (induction left arbitrary: attempt waits e)
  case (0 attempt waits e)
  show ?case
    by (auto simp: send_from.simps [of http q attempt 0] exchange_def split: prod.splits sum.splits)
next
  case (Suc n attempt waits e)
  obtain r e' where h: "http q e = (r, e')" by (cases "http q e")
  show ?case
  proof (cases "try_again r")
    case False
    then show ?thesis using h
      by (intro exI [of _ 0]) (auto simp: send_from.simps [of http q attempt "Suc n"] exchange_def try_again_def split: sum.splits)
  next
    case True
    then obtain w where w: "send_from http q attempt (Suc n) waits e
        = send_from http q (Suc attempt) n (waits @ [w]) e'"
      using h by (auto simp: send_from.simps [of http q attempt "Suc n"] try_again_def split: sum.splits)
    obtain k where k: "k \<le> n" "\<forall>i<k. try_again (exchange http q i e')"
      "k = n \<or> \<not> try_again (exchange http q k e')"
      "fst (send_from http q (Suc attempt) n (waits @ [w]) e') = map_sum LLMError id (exchange http q k e')"
      "length (fst (snd (send_from http q (Suc attempt) n (waits @ [w]) e'))) = length (waits @ [w]) + k"
      "snd (snd (send_from http q (Suc attempt) n (waits @ [w]) e')) = world_after http q (Suc k) e'"
      using Suc.IH [of e' "Suc attempt" "waits @ [w]"] by blast
    have "\<forall>i<Suc k. try_again (exchange http q i e)"
      using k(2) True h by (auto simp: less_Suc_eq_0_disj exchange_Suc) (simp add: exchange_def)
    then show ?thesis
      using k w h by (intro exI [of _ "Suc k"]) (auto simp: exchange_Suc id_def)
  qed
qed

text \<open>
  A request is repeated only after network errors and retryable statuses, with one wait before
  each repetition, and at most as often as the policy says (at least once): the caller gets the
  first answer that is final, or the last one.
\<close>

theorem send_retries:
  "\<exists>k\<le>attempts - 1. (\<forall>i<k. try_again (exchange http q i e)) \<and>
     (k = attempts - 1 \<or> \<not> try_again (exchange http q k e)) \<and>
     fst (send http attempts q e) = map_sum LLMError id (exchange http q k e) \<and>
     length (fst (snd (send http attempts q e))) = k \<and>
     snd (snd (send http attempts q e)) = world_after http q (Suc k) e"
  using send_from_retries [of "attempts - 1" http q e 1 "[]"] by (simp add: send_def)

subsection \<open>Which reasoning is sent again\<close>

lemma chain_end_le: "chain_end ms n \<le> n"
  by (induction n) auto

lemma chain_end_tail: "\<lbrakk>chain_end ms n \<le> j; j < n\<rbrakk> \<Longrightarrow> dget (ms ! j) ''tail'' = PBool True"
  by (induction n) (auto simp: less_Suc_eq split: if_splits)

lemma chain_start_roles:
  "\<lbrakk>chain_start ms n \<le> j; j < n\<rbrakk> \<Longrightarrow> dget (ms ! j) ''role'' \<in> {PStr ''tool'', PStr ''assistant''}"
  by (induction n) (auto simp: less_Suc_eq split: if_splits)

lemma replay_at_Some:
  assumes "replay_at rt ms i = Some bs"
  shows "dget (ms ! i) ''role'' = PStr ''assistant''" "i + 1 < length ms" "is_tool (ms ! (i + 1))" "bs \<noteq> []"
    "\<exists>r. record_of (ms ! i) = Some r \<and> dget r ''route'' = PStr (route_key rt) \<and>
       dget r ''protocol'' = PStr (rt_protocol rt)"
  using assms by (force simp: replay_at_def Let_def split: if_splits option.splits pyval.splits)+

lemma plan_replay_at: "(i, blocks) \<in> set (plan_replay rt ms) \<Longrightarrow> replay_at rt ms i = Some blocks"
  by (auto simp: plan_replay_def Let_def split: option.splits)

text \<open>
  Reasoning is sent again only to the route that produced it, only for an assistant message whose
  tool results follow, and only inside the live chain: behind it there are only tool calls, tool
  results and the kernel's own marked notes.
\<close>

theorem replay_stays_on_its_route:
  assumes "(i, blocks) \<in> set (plan_replay rt ms)"
  shows "dget (ms ! i) ''role'' = PStr ''assistant'' \<and> i + 1 < length ms \<and> is_tool (ms ! (i + 1)) \<and> blocks \<noteq> []"
    and "\<exists>r. record_of (ms ! i) = Some r \<and> dget r ''route'' = PStr (route_key rt) \<and>
       dget r ''protocol'' = PStr (rt_protocol rt)"
    and "\<lbrakk>i < j; j < length ms\<rbrakk> \<Longrightarrow> dget (ms ! j) ''tail'' = PBool True \<or>
       dget (ms ! j) ''role'' \<in> {PStr ''tool'', PStr ''assistant''}"
proof -
  note r = plan_replay_at [OF assms]
  have i: "chain_start ms (chain_end ms (length ms)) \<le> i" "i < chain_end ms (length ms)"
    using assms by (auto simp: plan_replay_def Let_def split: option.splits)
  show "dget (ms ! i) ''role'' = PStr ''assistant'' \<and> i + 1 < length ms \<and> is_tool (ms ! (i + 1)) \<and> blocks \<noteq> []"
    "\<exists>r. record_of (ms ! i) = Some r \<and> dget r ''route'' = PStr (route_key rt) \<and>
       dget r ''protocol'' = PStr (rt_protocol rt)"
    using replay_at_Some [OF r] by blast+
  assume j: "i < j" "j < length ms"
  show "dget (ms ! j) ''tail'' = PBool True \<or> dget (ms ! j) ''role'' \<in> {PStr ''tool'', PStr ''assistant''}"
    using chain_end_tail [of ms "length ms" j] chain_start_roles [of ms "chain_end ms (length ms)" j] i j
    by (cases "j < chain_end ms (length ms)") auto
qed

lemma record_of_attach:
  "filter (\<lambda>b. b \<noteq> []) blocks \<noteq> [] \<Longrightarrow>
   record_of (attach rt blocks m) =
     Some [(''route'', PStr (route_key rt)), (''protocol'', PStr (rt_protocol rt)),
           (''blocks'', PList (map PDict (filter (\<lambda>b. b \<noteq> []) blocks)))]"
  by (simp add: attach_def record_of_def Let_def)

subsection \<open>Folding a stream\<close>

text \<open>
  The loop of the three \<open>stream\<close> functions: every frame is fed to the state; an exception of the
  fold stops it, and the error the frames end with comes after them.
\<close>

fun fold_events :: "('s \<Rightarrow> pydict \<Rightarrow> 's option) \<Rightarrow> 's \<Rightarrow> pydict list \<Rightarrow> 's option" where
  "fold_events feed s [] = Some s"
| "fold_events feed s (c # cs) = (case feed s c of None \<Rightarrow> None | Some s' \<Rightarrow> fold_events feed s' cs)"

definition folded :: "('s \<Rightarrow> pydict \<Rightarrow> 's option) \<Rightarrow> 's \<Rightarrow> pydict list \<times> provider_error option \<Rightarrow> provider_error + 's" where
  "folded feed s frames =
     (case fold_events feed s (fst frames) of
        None \<Rightarrow> Inl Crashed
      | Some s' \<Rightarrow> (case snd frames of Some e \<Rightarrow> Inl e | None \<Rightarrow> Inr s'))"

lemma fold_events_append:
  "fold_events feed s (cs @ ds) =
     (case fold_events feed s cs of None \<Rightarrow> None | Some s' \<Rightarrow> fold_events feed s' ds)"
  by (induction cs arbitrary: s) (auto split: option.splits)

text \<open>
  A state whose text grows exactly by what the callbacks are told about each frame: then what was
  streamed to the user is what the turn records.
\<close>

locale told_stream =
  fixes feed :: "'s \<Rightarrow> pydict \<Rightarrow> 's option"
    and said :: "'s \<Rightarrow> string"
    and thought :: "'s \<Rightarrow> string"
    and tells :: "pydict \<Rightarrow> string"
    and tells_thought :: "pydict \<Rightarrow> string"
  assumes feed_said: "feed s c = Some s' \<Longrightarrow> said s' = said s @ tells c"
    and feed_thought: "feed s c = Some s' \<Longrightarrow> thought s' = thought s @ tells_thought c"
begin

lemma fold_said: "fold_events feed s cs = Some s' \<Longrightarrow> said s' = said s @ concat (map tells cs)"
  by (induction cs arbitrary: s) (auto split: option.splits dest: feed_said)

lemma fold_thought:
  "fold_events feed s cs = Some s' \<Longrightarrow> thought s' = thought s @ concat (map tells_thought cs)"
  by (induction cs arbitrary: s) (auto split: option.splits dest: feed_thought)

lemma folded_tells:
  assumes "folded feed s frames = Inr s'"
  shows "said s' = said s @ concat (map tells (fst frames))"
    "thought s' = thought s @ concat (map tells_thought (fst frames))" "snd frames = None"
  using assms fold_said fold_thought by (auto simp: folded_def split: option.splits)

end

lemma normalize_usage_found:
  "dget d ''usage'' = PDict u \<Longrightarrow> normalize_usage (PDict d) = normalize_usage (PDict [(''usage'', PDict u)])"
  by (simp add: normalize_usage_def usage_payload_def)

theorem stream_frames_read_back_witness:
  "iter_sse_events None ([''event: x'', '': beat''] @ frame_lines [(''a'', PInt 5)] @ frame_lines []) =
     ([[(''a'', PInt 5)], []], None)"
  using stream_frames_read_back
    [of "[([''event: x'', '': beat''], [(''a'', PInt 5)]), ([], [])]" "[]"]
  by (simp add: noise_line_def has_prefix_def)

end
