(* ===== verification/Agent_Compaction.thy ===== *)
theory Agent_Compaction
  imports Agent_Execution Providers_Protocol
begin

section \<open>Compaction of the history\<close>

text \<open>
  The module \<open>avid/agent/compaction.py\<close>: everything before the recent rounds is folded into one
  summary message. The model, the file the full history is saved to, the repository probe and the
  session's callback are parameters. The long prompt texts are names of themselves; the
  measured ratio of characters to tokens is an exact fraction, where the program rounds to a float.
  \<open>None\<close> as a result is a Python exception that leaves the function.
\<close>

subsection \<open>The model call\<close>

record chat_request =
  cq_messages :: "pydict list"
  cq_system :: string
  cq_tools :: "pyval list"

text \<open>
  The errors of a call: the prompt does not fit, another error the callers expect (\<open>LLMError\<close>,
  \<open>OSError\<close>, \<open>ValueError\<close>), and an exception they do not catch.
\<close>

datatype chat_failure = PromptTooLong | CallFailed | CallCrashed

type_synonym 'e chat = "chat_request \<Rightarrow> 'e \<Rightarrow> (chat_failure + turn) \<times> 'e"

record context_budget =
  cb_bootstrap_chars :: nat
  cb_skill_always_chars :: nat
  cb_keep_recent_turns :: nat
  cb_reserve_tokens :: int
  cb_context_chars :: int
  cb_from_window :: bool

record 'e compact_env =
  ce_chat :: "'e chat"
  ce_limits :: context_budget
  ce_save :: "pydict list \<Rightarrow> 'e \<Rightarrow> string \<times> 'e"
  ce_repo :: "'e \<Rightarrow> string option"
  ce_on_compaction :: "pydict \<Rightarrow> nat \<Rightarrow> 'e \<Rightarrow> 'e"

record compact_report =
  cr_step :: string
  cr_before :: nat
  cr_after :: nat

definition PATH_REUSE :: string where "PATH_REUSE = ''reuse''"
definition PATH_ENGINE :: string where "PATH_ENGINE = ''engine''"
definition COMPACTION_SYSTEM :: string where "COMPACTION_SYSTEM = ''<compaction engine>''"
definition CREATE_TASK :: string where "CREATE_TASK = ''<create task>''"
definition UPDATE_TASK :: string where "UPDATE_TASK = ''<update task>''"
definition NO_NEW_MATERIAL :: string where
  "NO_NEW_MATERIAL = ''(no new conversation since the checkpoint)''"
definition SUMMARY_MESSAGE_HEADER :: string where
  "SUMMARY_MESSAGE_HEADER = ''[history summary] earlier conversation was compacted.''"
definition SUMMARY_FOOTER_MARK :: string where "SUMMARY_FOOTER_MARK = ''(full record: ''"
definition SUMMARY_FOOTER_END :: string where "SUMMARY_FOOTER_END = ''; read it for details.)''"

subsection \<open>Checkpoints\<close>

definition summary_message :: "string \<Rightarrow> string \<Rightarrow> string" where
  "summary_message summary path =
     SUMMARY_MESSAGE_HEADER @ [CHR 10, CHR 10] @ summary @ [CHR 10, CHR 10] @
     SUMMARY_FOOTER_MARK @ path @ SUMMARY_FOOTER_END"

text \<open>\<open>body.rfind(mark)\<close>, as the text before the last occurrence.\<close>

definition starts_with_text :: "string \<Rightarrow> string \<Rightarrow> bool" where
  "starts_with_text p s \<longleftrightarrow> take (length p) s = p"

fun before_last :: "string \<Rightarrow> string \<Rightarrow> string option" where
  "before_last p [] = (if p = [] then Some [] else None)"
| "before_last p (c # cs) =
     (case before_last p cs of
        Some b \<Rightarrow> Some (c # b)
      | None \<Rightarrow> if starts_with_text p (c # cs) then Some [] else None)"

definition checkpoint_of :: "string \<Rightarrow> string option" where
  "checkpoint_of content =
     (if \<not> starts_with_text SUMMARY_MESSAGE_HEADER content then None
      else
        (let body = py_strip (drop (length SUMMARY_MESSAGE_HEADER) content);
             body = (case before_last SUMMARY_FOOTER_MARK body of
                       None \<Rightarrow> body | Some b \<Rightarrow> py_strip b)
         in if body = [] then None else Some body))"

definition previous_checkpoint :: "pydict list \<Rightarrow> string option" where
  "previous_checkpoint ms =
     (case ms of
        [] \<Rightarrow> None
      | m # _ \<Rightarrow>
          (if dget m ''role'' \<noteq> PStr ''user'' then None
           else checkpoint_of (text_of (dget m ''content''))))"

subsection \<open>The material of the summary\<close>

definition wrap_tag :: "string \<Rightarrow> string \<Rightarrow> string" where
  "wrap_tag name body =
     ''<'' @ name @ ''>'' @ [CHR 10] @ body @ [CHR 10] @ ''</'' @ name @ ''>''"

text \<open>The calls of a message with their functions; \<open>None\<close> is the \<open>AttributeError\<close> of a bad one.\<close>

definition call_functions :: "pydict \<Rightarrow> (string \<times> pydict) list option" where
  "call_functions m =
     (case calls_of m of
        None \<Rightarrow> None
      | Some calls \<Rightarrow>
          those (map (\<lambda>c. map_option (\<lambda>f. (case c of PDict d \<Rightarrow> py_str (dget d ''id'') | _ \<Rightarrow> [], f))
                       (call_function c)) calls))"

definition function_field :: "pydict \<Rightarrow> string \<Rightarrow> string \<Rightarrow> string" where
  "function_field f key d = (case map_of f key of None \<Rightarrow> d | Some v \<Rightarrow> py_str v)"

definition tool_names :: "pydict list \<Rightarrow> (string \<times> string) list option" where
  "tool_names ms =
     map_option (\<lambda>fs. rev (map (\<lambda>(i, f). (i, function_field f ''name'' ''?'')) (concat fs)))
       (those (map call_functions ms))"

definition render_message :: "(string \<times> string) list \<Rightarrow> pydict \<Rightarrow> string option" where
  "render_message names m =
     (let role = (case map_of m ''role'' of None \<Rightarrow> ''?'' | Some v \<Rightarrow> py_str v);
          body = py_strip (text_of (dget m ''content''));
          head =
            (if role = ''tool''
             then ''[tool result: '' @
                  (case map_of names (result_id m) of None \<Rightarrow> ''unknown'' | Some n \<Rightarrow> n) @ '']''
             else ''['' @ role @ '']'')
      in map_option
           (\<lambda>fs. (if body \<noteq> [] then head @ [CHR 10] @ body else head) @
              concat (map (\<lambda>(i, f). [CHR 10] @ ''[tool call] '' @ function_field f ''name'' ''?'' @ ''('' @
                                    function_field f ''arguments'' '''' @ '')'') fs))
           (call_functions m))"

definition render_conversation :: "pydict list \<Rightarrow> string option" where
  "render_conversation ms =
     (case tool_names ms of
        None \<Rightarrow> None
      | Some names \<Rightarrow>
          map_option (join_with [CHR 10, CHR 10]) (those (map (render_message names) ms)))"

fun original_request :: "pydict list \<Rightarrow> string" where
  "original_request [] = ''(the original request is not part of this material)''"
| "original_request (m # ms) =
     (let s = py_strip (text_of (dget m ''content''))
      in if dget m ''role'' = PStr ''user'' \<and> s \<noteq> [] \<and> checkpoint_of s = None then s
         else original_request ms)"

definition create_message :: "string \<Rightarrow> string \<Rightarrow> string" where
  "create_message request conversation =
     join_with [CHR 10, CHR 10]
       [wrap_tag ''original-request'' request, wrap_tag ''conversation'' conversation,
        wrap_tag ''compaction-task'' CREATE_TASK]"

definition repo_block :: "string option \<Rightarrow> string list" where
  "repo_block repo =
     (case repo of None \<Rightarrow> [] | Some r \<Rightarrow> if r = [] then [] else [wrap_tag ''repo-state'' r])"

definition update_message :: "string \<Rightarrow> string \<Rightarrow> string option \<Rightarrow> string" where
  "update_message checkpoint conversation repo =
     join_with [CHR 10, CHR 10]
       ([wrap_tag ''previous-checkpoint'' checkpoint,
         wrap_tag ''conversation'' (if conversation = [] then NO_NEW_MATERIAL else conversation)] @
        repo_block repo @ [wrap_tag ''update-task'' UPDATE_TASK])"

definition reuse_instruction :: "bool \<Rightarrow> string option \<Rightarrow> string" where
  "reuse_instruction update repo =
     join_with [CHR 10, CHR 10]
       ([if update then ''<reuse lead, update>'' else ''<reuse lead, create>''] @ repo_block repo @
        [if update then wrap_tag ''update-task'' UPDATE_TASK
         else wrap_tag ''compaction-task'' CREATE_TASK])"

subsection \<open>The two ways to a summary\<close>

text \<open>Summary, usage; an outer \<open>None\<close> is an exception that is not caught.\<close>

definition summarize_engine ::
  "'e compact_env \<Rightarrow> string \<Rightarrow> 'e \<Rightarrow> (string option \<times> usage option) option \<times> 'e" where
  "summarize_engine ce body e =
     (let (r, e') = ce_chat ce
            \<lparr>cq_messages = [[(''role'', PStr ''user''), (''content'', PStr body)]],
             cq_system = COMPACTION_SYSTEM, cq_tools = []\<rparr> e
      in (case r of
            Inl CallCrashed \<Rightarrow> None
          | Inl _ \<Rightarrow> Some (None, None)
          | Inr t \<Rightarrow>
              (let s = py_strip (tn_text t)
               in Some (if s = [] then None else Some s, Some (tn_usage t))), e'))"

definition summarize_reuse ::
  "'e compact_env \<Rightarrow> pydict list \<Rightarrow> string \<Rightarrow> pyval list \<Rightarrow> 'e \<Rightarrow>
   (string option \<times> usage option) option \<times> 'e" where
  "summarize_reuse ce ms system tools e =
     (let (r, e') = ce_chat ce \<lparr>cq_messages = ms, cq_system = system, cq_tools = tools\<rparr> e
      in (case r of
            Inl CallCrashed \<Rightarrow> None
          | Inl _ \<Rightarrow> Some (None, None)
          | Inr t \<Rightarrow>
              (if tn_tool_calls t \<noteq> [] then Some (None, Some (tn_usage t))
               else (let s = py_strip (tn_text t)
                     in Some (if s = [] then None else Some s, Some (tn_usage t)))), e'))"

definition add_counts :: "int option \<Rightarrow> int option \<Rightarrow> int option" where
  "add_counts a b =
     (if a = None \<and> b = None then None else Some (count_or a 0 + count_or b 0))"

definition sum_usage :: "usage option \<Rightarrow> usage option \<Rightarrow> usage option" where
  "sum_usage a b =
     (case (a, b) of
        (None, _) \<Rightarrow> b
      | (_, None) \<Rightarrow> a
      | (Some u, Some v) \<Rightarrow>
          Some \<lparr>us_prompt = us_prompt u + us_prompt v, us_completion = us_completion u + us_completion v,
                us_total = us_total u + us_total v,
                us_cache_read = add_counts (us_cache_read u) (us_cache_read v),
                us_cache_write = add_counts (us_cache_write u) (us_cache_write v),
                us_reasoning = add_counts (us_reasoning u) (us_reasoning v)\<rparr>)"

subsection \<open>The trigger line\<close>

text \<open>Measured characters per token, as a fraction, clamped to 1/2 to 6.\<close>

definition chars_per_token :: "int option \<Rightarrow> (int \<times> int \<times> int) option \<Rightarrow> int \<times> int" where
  "chars_per_token prompt_tokens chars =
     (case (prompt_tokens, chars) of
        (Some n, Some (s, t, m)) \<Rightarrow>
          (let all = s + t + m
           in if n \<le> 0 \<or> all \<le> 0 then (2, 1)
              else if 2 * all < n then (1, 2)
              else if 6 * n < all then (6, 1)
              else (all, n))
      | _ \<Rightarrow> (2, 1))"

text \<open>\<open>int(x * p / q)\<close> cuts towards zero.\<close>

definition scale_int :: "int \<Rightarrow> int \<times> int \<Rightarrow> int" where
  "scale_int x r =
     (let n = x * fst r in if n < 0 then - ((- n) div snd r) else n div snd r)"

definition trigger_chars ::
  "int option \<Rightarrow> int option \<Rightarrow> (int \<times> int \<times> int) option \<Rightarrow> int \<Rightarrow> int \<Rightarrow> int" where
  "trigger_chars window prompt_tokens chars reserve fallback =
     (case window of
        None \<Rightarrow> fallback
      | Some w \<Rightarrow>
          (if w \<le> 0 then fallback
           else
             (let budget = scale_int (w - reserve) (chars_per_token prompt_tokens chars)
              in max 1 (budget - (case chars of None \<Rightarrow> 0 | Some (s, t, m) \<Rightarrow> s + t)))))"

definition effective_trigger :: "context_budget \<Rightarrow> run_state \<Rightarrow> int" where
  "effective_trigger limits st =
     (if \<not> cb_from_window limits then cb_context_chars limits
      else trigger_chars (ru_context_window st) (map_option us_prompt (ru_last_usage st))
             (ru_prompt_parts st) (cb_reserve_tokens limits) (cb_context_chars limits))"

subsection \<open>Where to cut\<close>

definition is_assistant :: "pydict \<Rightarrow> bool" where
  "is_assistant m \<longleftrightarrow> dget m ''role'' = PStr ''assistant''"

text \<open>From the end, to the oldest of the recent rounds; 0 if there are fewer.\<close>

fun scan_back :: "pydict list \<Rightarrow> nat \<Rightarrow> nat \<Rightarrow> nat \<Rightarrow> nat" where
  "scan_back ms keep rounds 0 = 0"
| "scan_back ms keep rounds (Suc i) =
     (if is_assistant (ms ! i)
      then (if Suc rounds = keep then i else scan_back ms keep (Suc rounds) i)
      else scan_back ms keep rounds i)"

function advance :: "transcript \<Rightarrow> nat \<Rightarrow> nat" where
  "advance t i =
     (if i < length (tr_messages t) \<and> \<not> is_safe_boundary t i then advance t (Suc i) else i)"
  by auto
termination
  by (relation "measure (\<lambda>(t, i). length (tr_messages t) - i)") auto

declare advance.simps [simp del]

definition cut_point :: "transcript \<Rightarrow> nat \<Rightarrow> nat" where
  "cut_point t keep =
     (let i = scan_back (tr_messages t) keep 0 (length (tr_messages t))
      in if i = 0 then 0 else advance t i)"

definition rounds_of :: "pydict list \<Rightarrow> nat" where
  "rounds_of ms = length (filter is_assistant ms)"

definition keep_window :: "pydict list \<Rightarrow> nat \<Rightarrow> bool \<Rightarrow> nat" where
  "keep_window ms keep force =
     (if \<not> force then keep
      else if rounds_of ms < 2 \<or> keep \<le> rounds_of ms then keep
      else rounds_of ms - 1)"

subsection \<open>The one path\<close>

definition announce ::
  "compact_report \<Rightarrow> usage option \<Rightarrow> string option \<Rightarrow> nat \<Rightarrow> run_state \<Rightarrow> run_state" where
  "announce report u path attempts st =
     emit (ContextCompacted (cr_step report) (cr_step report) (cr_before report) (cr_after report))
       (mark_compacted (cr_step report) u path attempts st)"

text \<open>
  Asking for the summary: the caller's own prefix if it is there, else or after that the engine's
  prompt. The result is the summary, the usage, the route and the attempts.
\<close>

definition engine_body :: "pydict list \<Rightarrow> string option \<Rightarrow> string option \<Rightarrow> string option" where
  "engine_body earlier checkpoint repo =
     (case checkpoint of
        None \<Rightarrow> map_option (create_message (original_request earlier)) (render_conversation earlier)
      | Some c \<Rightarrow>
          map_option (\<lambda>conv. update_message c conv repo) (render_conversation (drop 1 earlier)))"

definition ask_engine ::
  "'e compact_env \<Rightarrow> pydict list \<Rightarrow> string option \<Rightarrow> string option \<Rightarrow> usage option \<Rightarrow> nat \<Rightarrow> 'e \<Rightarrow>
   (string option \<times> usage option \<times> string option \<times> nat) option \<times> 'e" where
  "ask_engine ce earlier checkpoint repo u attempts e =
     (case engine_body earlier checkpoint repo of
        None \<Rightarrow> (None, e)
      | Some body \<Rightarrow>
          (let (r, e') = summarize_engine ce body e
           in (map_option
                 (\<lambda>(s, spent). (s, sum_usage u spent, if s = None then None else Some PATH_ENGINE,
                                Suc attempts)) r, e')))"

definition obtain_summary ::
  "'e compact_env \<Rightarrow> pydict list \<Rightarrow> string option \<Rightarrow> string option \<Rightarrow> string \<Rightarrow> pyval list \<Rightarrow> 'e \<Rightarrow>
   (string option \<times> usage option \<times> string option \<times> nat) option \<times> 'e" where
  "obtain_summary ce earlier checkpoint repo system tools e =
     (if system \<noteq> [] \<and> tools \<noteq> [] then
        (let (r, e1) =
               summarize_reuse ce
                 (earlier @
                  [[(''role'', PStr ''user''),
                    (''content'', PStr (reuse_instruction (checkpoint \<noteq> None) repo)),
                    (''tail'', PBool True)]]) system tools e
         in case r of
              None \<Rightarrow> (None, e1)
            | Some (Some s, spent) \<Rightarrow> (Some (Some s, sum_usage None spent, Some PATH_REUSE, 1), e1)
            | Some (None, spent) \<Rightarrow> ask_engine ce earlier checkpoint repo (sum_usage None spent) 1 e1)
      else ask_engine ce earlier checkpoint repo None 0 e)"

definition fold_history ::
  "'e compact_env \<Rightarrow> string \<Rightarrow> pyval list \<Rightarrow> nat \<Rightarrow> transcript \<Rightarrow> run_state \<Rightarrow> 'e \<Rightarrow>
   compact_report option option \<times> transcript \<times> run_state \<times> 'e" where
  "fold_history ce system tools i t st e =
     (let ms = tr_messages t; earlier = take i ms; rest = drop i ms;
          (path, e1) = ce_save ce earlier e;
          checkpoint = previous_checkpoint ms;
          repo = (if checkpoint = None then None else ce_repo ce e1);
          (r, e2) = obtain_summary ce earlier checkpoint repo system tools e1
      in case r of
           None \<Rightarrow> (None, t, st, e2)
         | Some (None, _, _, _) \<Rightarrow> (Some None, t, st, e2)
         | Some (Some s, u, route, attempts) \<Rightarrow>
             (case replace_all
                     ([(''role'', PStr ''user''), (''content'', PStr (summary_message s path))] # rest) t of
                Inl _ \<Rightarrow> (None, t, st, e2)
              | Inr t' \<Rightarrow>
                  (let report = \<lparr>cr_step = ''compact_history'', cr_before = length ms,
                                 cr_after = length (tr_messages t')\<rparr>
                   in (Some (Some report), t', announce report u route attempts (st\<lparr>ru_compacted := True\<rparr>),
                       ce_on_compaction ce (hd (tr_messages t')) (length rest) e2))))"

definition run_compaction ::
  "'e compact_env \<Rightarrow> bool \<Rightarrow> string \<Rightarrow> pyval list \<Rightarrow> transcript \<Rightarrow> run_state \<Rightarrow> 'e \<Rightarrow>
   compact_report option option \<times> transcript \<times> run_state \<times> 'e" where
  "run_compaction ce force system tools t st e =
     (if \<not> force \<and> tr_chars t \<le> effective_trigger (ce_limits ce) st then (Some None, t, st, e)
      else if ru_compacted st \<and> \<not> force then (Some None, t, st, e)
      else
        (let i = cut_point t (keep_window (tr_messages t) (cb_keep_recent_turns (ce_limits ce)) force)
         in if i = 0 then (Some None, t, st, e) else fold_history ce system tools i t st e))"

subsection \<open>Facts about the cut\<close>

lemma advance_safe: "is_safe_boundary t (advance t i)"
proof (induction t i rule: advance.induct)
  case (1 t i)
  show ?case
  proof (cases "i < length (tr_messages t) \<and> \<not> is_safe_boundary t i")
    case True
    then show ?thesis using 1 by (simp add: advance.simps [of t i])
  next
    case False
    then have "is_safe_boundary t i" by (cases "i < length (tr_messages t)") (auto simp: is_safe_boundary_def)
    then show ?thesis using False by (simp add: advance.simps [of t i])
  qed
qed

lemma cut_point_safe: "is_safe_boundary t (cut_point t keep)"
  by (simp add: cut_point_def Let_def advance_safe) (simp add: is_safe_boundary_def)

text \<open>In a complete transcript a message that is no result starts at a safe boundary.\<close>

lemma truthy_calls:
  assumes "truthy (dget m ''tool_calls'')" and "call_ids m = Some ids"
  shows "ids \<noteq> []"
proof -
  obtain calls where calls: "iter_of (dget m ''tool_calls'') = Some calls"
      "those (map (\<lambda>c. case c of PDict d \<Rightarrow> Some (py_str (dget d ''id'')) | _ \<Rightarrow> None) calls) = Some ids"
    using assms by (auto simp: call_ids_def calls_of_def Let_def split: option.splits)
  have "calls \<noteq> []" using assms(1) calls(1) by (cases "dget m ''tool_calls''") auto
  then show ?thesis using calls(2) by (cases calls) (auto split: option.splits)
qed

definition plain_results :: "pydict list \<Rightarrow> bool" where
  "plain_results ms \<longleftrightarrow> (\<forall>m\<in>set ms. is_tool m \<longrightarrow> \<not> truthy (dget m ''tool_calls''))"

lemma non_result_is_boundary:
  assumes "well_formed (tr_messages t)" and "plain_results (tr_messages t)" and "i < length (tr_messages t)" and "\<not> is_tool (tr_messages t ! i)"
  shows "is_safe_boundary t i"
proof (cases i)
  case 0
  then show ?thesis by (simp add: is_safe_boundary_def)
next
  case (Suc j)
  let ?ms = "tr_messages t"
  have split: "?ms = take i ?ms @ ?ms ! i # drop (Suc i) ?ms" using assms(3) by (rule id_take_nth_drop)
  have "well_formed (take i ?ms)" using well_formed_split(1) assms(1,4) split by metis
  moreover have "take i ?ms = take j ?ms @ [?ms ! j]"
    using assms(3) Suc by (simp add: take_Suc_conv_app_nth)
  ultimately obtain ex where ex: "run_from [] (take j ?ms) = Some ex" "run_from ex [?ms ! j] = Some []"
    by (auto simp: well_formed_iff run_from_append split: option.splits)
  have "\<not> truthy (dget (?ms ! j) ''tool_calls'') \<or> is_tool (?ms ! j)"
    using ex(2) truthy_calls [of "?ms ! j"] by (auto split: if_splits option.splits)
  moreover have "?ms ! j \<in> set ?ms" using assms(3) Suc by simp
  ultimately have "\<not> truthy (dget (?ms ! j) ''tool_calls'')" using assms(2) by (auto simp: plain_results_def)
  then show ?thesis using Suc assms(3,4) by (simp add: is_safe_boundary_def)
qed

lemma scan_back_spec:
  assumes "scan_back ms keep rounds n = i" and "0 < i" and "n \<le> length ms"
  shows "i < n \<and> is_assistant (ms ! i) \<and> rounds + rounds_of (take (n - i) (drop i ms)) = keep"
  using assms
proof (induction ms keep rounds n rule: scan_back.induct)
  case (2 ms keep rounds j)
  have grow: "rounds_of (take (Suc j - i) (drop i ms)) =
      rounds_of (take (j - i) (drop i ms)) + (if is_assistant (ms ! j) then 1 else 0)" if "i \<le> j"
    using that "2.prems"(3) by (simp add: Suc_diff_le take_Suc_conv_app_nth rounds_of_def)
  show ?case
  proof (cases "is_assistant (ms ! j)")
    case True
    show ?thesis
    proof (cases "Suc rounds = keep")
      case hit: True
      then have "i = j" using "2.prems"(1) True by simp
      then show ?thesis using True hit grow by (simp add: rounds_of_def)
    next
      case False
      then have "i < j \<and> is_assistant (ms ! i) \<and> Suc rounds + rounds_of (take (j - i) (drop i ms)) = keep"
        using "2.IH"(1) True "2.prems" by simp
      then show ?thesis using grow True by simp
    qed
  next
    case False
    then have "i < j \<and> is_assistant (ms ! i) \<and> rounds + rounds_of (take (j - i) (drop i ms)) = keep"
      using "2.IH"(2) "2.prems" by simp
    then show ?thesis using grow False by simp
  qed
qed simp

lemma cut_point_spec:
  assumes "well_formed (tr_messages t)" and "plain_results (tr_messages t)" and "0 < cut_point t keep"
  shows "cut_point t keep < length (tr_messages t) \<and> is_assistant (tr_messages t ! cut_point t keep) \<and>
    rounds_of (drop (cut_point t keep) (tr_messages t)) = keep"
proof -
  let ?ms = "tr_messages t" and ?i = "scan_back (tr_messages t) keep 0 (length (tr_messages t))"
  have i: "0 < ?i" using assms(3) by (auto simp: cut_point_def Let_def split: if_splits)
  from scan_back_spec [OF refl i]
  have spec: "?i < length ?ms" "is_assistant (?ms ! ?i)" "rounds_of (drop ?i ?ms) = keep" by simp_all
  have "\<not> is_tool (?ms ! ?i)" using spec(2) by (simp add: is_assistant_def is_tool_def)
  then have "is_safe_boundary t ?i" using non_result_is_boundary assms(1,2) spec(1) by blast
  then have "cut_point t keep = ?i" using i by (simp add: cut_point_def advance.simps [of t ?i])
  then show ?thesis using spec by simp
qed

subsection \<open>Facts about a compaction\<close>

definition summary_entry :: "string \<Rightarrow> string \<Rightarrow> pydict" where
  "summary_entry s path = [(''role'', PStr ''user''), (''content'', PStr (summary_message s path))]"

lemma summary_plain: "well_formed [summary_entry s path]"
  by (rule well_formed_plain)
     (simp_all add: summary_entry_def is_tool_def call_ids_def calls_of_def Let_def)

lemma summary_accepted:
  assumes "well_formed (tr_messages t)"
  shows "replace_all (summary_entry s path # drop (cut_point t keep) (tr_messages t)) t =
    Inr (recompute_costs (t\<lparr>tr_messages := summary_entry s path # drop (cut_point t keep) (tr_messages t)\<rparr>))"
proof -
  have "well_formed (drop (cut_point t keep) (tr_messages t))"
    using safe_boundary_split(2) [OF assms cut_point_safe] .
  then have "well_formed ([summary_entry s path] @ drop (cut_point t keep) (tr_messages t))"
    by (rule well_formed_append [OF summary_plain])
  then show ?thesis by (simp add: replace_all_def accept_None [symmetric])
qed

lemma map_those: "(\<forall>x\<in>set xs. f x \<noteq> None) \<Longrightarrow> those (map f xs) \<noteq> None"
  by (induction xs) auto

definition functions_ok :: "pydict list \<Rightarrow> bool" where
  "functions_ok ms \<longleftrightarrow> (\<forall>m\<in>set ms. call_functions m \<noteq> None)"

lemma render_conversation_returns:
  assumes "functions_ok ms"
  shows "render_conversation ms \<noteq> None"
proof -
  have "those (map call_functions ms) \<noteq> None" by (rule map_those) (use assms in \<open>simp add: functions_ok_def\<close>)
  moreover have "those (map (render_message names) ms) \<noteq> None" for names
    by (rule map_those) (use assms in \<open>simp add: functions_ok_def render_message_def Let_def\<close>)
  ultimately show ?thesis by (auto simp: render_conversation_def tool_names_def)
qed

definition chat_caught :: "'e chat \<Rightarrow> bool" where
  "chat_caught chat \<longleftrightarrow> (\<forall>q e. fst (chat q e) \<noteq> Inl CallCrashed)"

lemma summarize_returns:
  assumes "chat_caught (ce_chat ce)"
  shows "fst (summarize_engine ce body e) \<noteq> None" "fst (summarize_reuse ce ms system tools e) \<noteq> None"
proof -
  have c: "fst (ce_chat ce q e) \<noteq> Inl CallCrashed" for q using assms by (simp add: chat_caught_def)
  show "fst (summarize_engine ce body e) \<noteq> None"
    using c [of "\<lparr>cq_messages = [[(''role'', PStr ''user''), (''content'', PStr body)]],
        cq_system = COMPACTION_SYSTEM, cq_tools = []\<rparr>"]
    by (auto simp: summarize_engine_def Let_def case_prod_beta split: sum.splits chat_failure.splits)
  show "fst (summarize_reuse ce ms system tools e) \<noteq> None"
    using c [of "\<lparr>cq_messages = ms, cq_system = system, cq_tools = tools\<rparr>"]
    by (auto simp: summarize_reuse_def Let_def case_prod_beta split: sum.splits chat_failure.splits)
qed

lemma ask_engine_returns:
  assumes "chat_caught (ce_chat ce)" and "functions_ok earlier"
  shows "fst (ask_engine ce earlier c repo u a e) \<noteq> None"
proof -
  have "functions_ok (drop 1 earlier)" using assms(2) by (auto simp: functions_ok_def dest: in_set_dropD)
  then have "engine_body earlier c repo \<noteq> None"
    using render_conversation_returns assms(2)
    by (cases c) (auto simp: engine_body_def)
  then show ?thesis
    using summarize_returns(1) [OF assms(1)]
    by (auto simp: ask_engine_def Let_def case_prod_beta)
qed

lemma obtain_summary_returns:
  assumes "chat_caught (ce_chat ce)" and "functions_ok earlier"
  shows "fst (obtain_summary ce earlier c repo system tools e) \<noteq> None"
proof (cases "system \<noteq> [] \<and> tools \<noteq> []")
  case True
  let ?ms = "earlier @ [[(''role'', PStr ''user''),
    (''content'', PStr (reuse_instruction (c \<noteq> None) repo)), (''tail'', PBool True)]]"
  obtain s spent where r: "fst (summarize_reuse ce ?ms system tools e) = Some (s, spent)"
    using summarize_returns(2) [OF assms(1), of ?ms system tools e]
    by (cases "fst (summarize_reuse ce ?ms system tools e)") auto
  show ?thesis
    using True r ask_engine_returns [OF assms]
    by (cases s) (simp_all add: obtain_summary_def Let_def case_prod_beta del: not_None_eq)
next
  case False
  then have "obtain_summary ce earlier c repo system tools e = ask_engine ce earlier c repo None 0 e"
    by (auto simp: obtain_summary_def)
  then show ?thesis using ask_engine_returns [OF assms] by (simp del: not_None_eq)
qed

text \<open>The outcome of a compaction: nothing happened, or the history was folded at a cut.\<close>

definition unchanged :: "transcript \<Rightarrow> run_state \<Rightarrow> transcript \<Rightarrow> run_state \<Rightarrow> bool" where
  "unchanged t st t' st' \<longleftrightarrow> t' = t \<and> st' = st"

definition folded_at :: "nat \<Rightarrow> transcript \<Rightarrow> run_state \<Rightarrow> transcript \<Rightarrow> run_state \<Rightarrow> bool" where
  "folded_at i t st t' st' \<longleftrightarrow>
     0 < i \<and> (\<exists>s path. tr_messages t' = summary_entry s path # drop i (tr_messages t)) \<and>
     well_formed (tr_messages t') \<and> costs_ok t' \<and>
     ru_compacted st' \<and> ru_compactions st' = ru_compactions st + 1 \<and> ru_compact_pending st'"

definition compaction_ok ::
  "'e compact_env \<Rightarrow> nat \<Rightarrow> transcript \<Rightarrow> run_state \<Rightarrow>
   compact_report option option \<times> transcript \<times> run_state \<times> 'e \<Rightarrow> bool" where
  "compaction_ok ce i t st out \<longleftrightarrow>
     (case fst out of
        None \<Rightarrow> \<not> (chat_caught (ce_chat ce) \<and> functions_ok (tr_messages t)) \<and>
                  unchanged t st (fst (snd out)) (fst (snd (snd out)))
      | Some None \<Rightarrow> unchanged t st (fst (snd out)) (fst (snd (snd out)))
      | Some (Some _) \<Rightarrow> folded_at i t st (fst (snd out)) (fst (snd (snd out))))"

lemma fold_history_spec:
  assumes "well_formed (tr_messages t)" and "0 < cut_point t keep"
  shows "compaction_ok ce (cut_point t keep) t st
    (fold_history ce system tools (cut_point t keep) t st e)"
proof -
  let ?i = "cut_point t keep" and ?ms = "tr_messages t"
  obtain path e1 where save: "ce_save ce (take ?i ?ms) e = (path, e1)" by fastforce
  let ?c = "previous_checkpoint ?ms"
  let ?repo = "if ?c = None then None else ce_repo ce e1"
  obtain r e2 where sum: "obtain_summary ce (take ?i ?ms) ?c ?repo system tools e1 = (r, e2)" by fastforce
  show ?thesis
  proof (cases r)
    case None
    have "\<not> (chat_caught (ce_chat ce) \<and> functions_ok ?ms)"
    proof
      assume h: "chat_caught (ce_chat ce) \<and> functions_ok ?ms"
      then have "functions_ok (take ?i ?ms)" by (auto simp: functions_ok_def dest: in_set_takeD)
      then show False using obtain_summary_returns [of ce "take ?i ?ms" ?c ?repo system tools e1] h sum None
        by simp
    qed
    then show ?thesis
      using save sum None by (simp add: fold_history_def Let_def compaction_ok_def unchanged_def)
  next
    case (Some x)
    obtain s u route attempts where x: "x = (s, u, route, attempts)" by (cases x) auto
    show ?thesis
    proof (cases s)
      case None
      then show ?thesis using save sum Some x by (simp add: fold_history_def Let_def compaction_ok_def unchanged_def)
    next
      case (Some summary)
      let ?t' = "recompute_costs (t\<lparr>tr_messages := summary_entry summary path # drop ?i ?ms\<rparr>)"
      have r: "replace_all (summary_entry summary path # drop ?i ?ms) t = Inr ?t'"
        by (rule summary_accepted [OF assms(1)])
      have wf: "well_formed (summary_entry summary path # drop ?i ?ms)"
        using r by (auto simp: replace_all_def accept_None [symmetric] split: option.splits)
      have f: "fst (snd (fold_history ce system tools ?i t st e)) = ?t'"
        "fst (snd (snd (fold_history ce system tools ?i t st e))) =
           announce \<lparr>cr_step = ''compact_history'', cr_before = length ?ms, cr_after = length (tr_messages ?t')\<rparr>
             u route attempts (st\<lparr>ru_compacted := True\<rparr>)"
        "\<exists>rep. fst (fold_history ce system tools ?i t st e) = Some (Some rep)"
        using save sum \<open>r = Some x\<close> x Some r unfolding summary_entry_def
        by (simp_all add: fold_history_def Let_def)
      have "folded_at ?i t st ?t'
          (announce \<lparr>cr_step = ''compact_history'', cr_before = length ?ms, cr_after = length (tr_messages ?t')\<rparr>
             u route attempts (st\<lparr>ru_compacted := True\<rparr>))"
        using assms(2) wf
        by (auto simp: folded_at_def announce_def mark_compacted_def emit_def)
      then show ?thesis using f by (auto simp: compaction_ok_def)
    qed
  qed
qed

lemma compaction_skipped [simp]: "compaction_ok ce i t st (Some None, t, st, e)"
  by (simp add: compaction_ok_def unchanged_def)

lemma run_compaction_spec:
  assumes "well_formed (tr_messages t)"
  shows "compaction_ok ce
    (cut_point t (keep_window (tr_messages t) (cb_keep_recent_turns (ce_limits ce)) force)) t st
    (run_compaction ce force system tools t st e)"
proof -
  let ?i = "cut_point t (keep_window (tr_messages t) (cb_keep_recent_turns (ce_limits ce)) force)"
  have "run_compaction ce force system tools t st e = (Some None, t, st, e) \<or>
      (0 < ?i \<and> run_compaction ce force system tools t st e = fold_history ce system tools ?i t st e)"
    by (auto simp: run_compaction_def Let_def simp del: gr0_conv_Suc)
  then show ?thesis
    using fold_history_spec [OF assms(1)] compaction_skipped by (elim disjE conjE) (simp_all only:)
qed

subsection \<open>A checkpoint is recognised\<close>

lemma all_le_Suc: "(\<forall>i\<le>Suc n. P i) \<longleftrightarrow> P 0 \<and> (\<forall>i\<le>n. P (Suc i))"
  by (metis Suc_le_mono le0 not0_implies_Suc)

lemma before_last_None: "before_last p s = None \<longleftrightarrow> (\<forall>i\<le>length s. \<not> starts_with_text p (drop i s))"
proof (induction s)
  case Nil
  then show ?case by (auto simp: starts_with_text_def)
next
  case (Cons c cs)
  have shift: "(\<forall>i\<le>length (c # cs). \<not> starts_with_text p (drop i (c # cs))) \<longleftrightarrow>
      \<not> starts_with_text p (c # cs) \<and> (\<forall>i\<le>length cs. \<not> starts_with_text p (drop i cs))"
    using all_le_Suc [of "length cs" "\<lambda>i. \<not> starts_with_text p (drop i (c # cs))"] by simp
  show ?case unfolding shift using Cons by (auto split: option.splits)
qed

lemma before_last_at:
  assumes "starts_with_text p s" and "s \<noteq> []" and "\<forall>i. 0 < i \<and> i \<le> length s \<longrightarrow> \<not> starts_with_text p (drop i s)"
  shows "before_last p (a @ s) = Some a"
proof (induction a)
  case Nil
  obtain c cs where s: "s = c # cs" using assms(2) by (cases s) auto
  have "before_last p cs = None"
    unfolding before_last_None
  proof (intro allI impI)
    fix i assume "i \<le> length cs"
    then show "\<not> starts_with_text p (drop i cs)" using assms(3) [rule_format, of "Suc i"] s by simp
  qed
  then show ?case using assms(1) s by simp
qed simp

definition path_ok :: "string \<Rightarrow> bool" where
  "path_ok path \<longleftrightarrow> before_last SUMMARY_FOOTER_MARK (path @ SUMMARY_FOOTER_END) = None"

lemma footer_only_start:
  assumes "path_ok path" and "0 < i" and "i \<le> length (SUMMARY_FOOTER_MARK @ path @ SUMMARY_FOOTER_END)"
  shows "\<not> starts_with_text SUMMARY_FOOTER_MARK (drop i (SUMMARY_FOOTER_MARK @ path @ SUMMARY_FOOTER_END))"
proof (cases "i < length SUMMARY_FOOTER_MARK")
  case True
  then have d: "drop i (SUMMARY_FOOTER_MARK @ path @ SUMMARY_FOOTER_END) =
      SUMMARY_FOOTER_MARK ! i # drop (Suc i) SUMMARY_FOOTER_MARK @ path @ SUMMARY_FOOTER_END"
    by (simp add: Cons_nth_drop_Suc [symmetric])
  have "\<forall>c\<in>set (tl SUMMARY_FOOTER_MARK). c \<noteq> hd SUMMARY_FOOTER_MARK" by code_simp
  moreover have "SUMMARY_FOOTER_MARK ! i \<in> set (tl SUMMARY_FOOTER_MARK)"
    using True assms(2) by (cases i) (auto simp: nth_tl [symmetric] intro!: nth_mem)
  ultimately have "SUMMARY_FOOTER_MARK ! i \<noteq> hd SUMMARY_FOOTER_MARK" by blast
  moreover have "SUMMARY_FOOTER_MARK = hd SUMMARY_FOOTER_MARK # tl SUMMARY_FOOTER_MARK" by code_simp
  ultimately show ?thesis
    unfolding d starts_with_text_def by (metis length_Cons list.sel(1) take_Suc_Cons)
next
  case False
  then have "drop i (SUMMARY_FOOTER_MARK @ path @ SUMMARY_FOOTER_END) =
      drop (i - length SUMMARY_FOOTER_MARK) (path @ SUMMARY_FOOTER_END)" by simp
  moreover have "i - length SUMMARY_FOOTER_MARK \<le> length (path @ SUMMARY_FOOTER_END)" using assms(3) by simp
  moreover have "\<forall>j\<le>length (path @ SUMMARY_FOOTER_END).
      \<not> starts_with_text SUMMARY_FOOTER_MARK (drop j (path @ SUMMARY_FOOTER_END))"
    using assms(1) unfolding path_ok_def before_last_None .
  ultimately show ?thesis by (simp only: simp_thms)
qed

lemma dropWhile_last_ne: "dropWhile P xs \<noteq> [] \<Longrightarrow> last (dropWhile P xs) = last xs"
  by (induction xs) auto

lemma py_strip_end:
  assumes "s \<noteq> []" and "\<not> is_space (last s)"
  shows "py_strip s = dropWhile is_space s"
proof -
  have "dropWhile is_space s \<noteq> []" using assms by (auto simp: dropWhile_eq_Nil_conv)
  then have "last (dropWhile is_space s) = last s" by (rule dropWhile_last_ne)
  then have "\<not> is_space (hd (rev (dropWhile is_space s)))"
    using assms(2) by (simp add: hd_rev)
  moreover have "rev (dropWhile is_space s) \<noteq> []" using \<open>dropWhile is_space s \<noteq> []\<close> by simp
  ultimately have "dropWhile is_space (rev (dropWhile is_space s)) = rev (dropWhile is_space s)"
    by (simp only: dropWhile_eq_self_iff) simp
  then show ?thesis by (simp add: py_strip_def)
qed


lemma checkpoint_roundtrip:
  assumes "path_ok path" and "py_strip s \<noteq> []"
  shows "checkpoint_of (summary_message s path) = Some (py_strip s)"
proof -
  let ?foot = "SUMMARY_FOOTER_MARK @ path @ SUMMARY_FOOTER_END"
  let ?rest = "[CHR 10, CHR 10] @ s @ [CHR 10, CHR 10] @ ?foot"
  have nl: "is_space (CHR 10)" by code_simp
  have s: "dropWhile is_space s \<noteq> []"
  proof
    assume "dropWhile is_space s = []"
    then have "py_strip s = []" by (simp only: py_strip_def rev.simps dropWhile.simps)
    then show False using assms(2) by contradiction
  qed
  have "last ?rest = last SUMMARY_FOOTER_END" by (simp add: SUMMARY_FOOTER_END_def)
  moreover have "\<not> is_space (last SUMMARY_FOOTER_END)" by code_simp
  ultimately have "py_strip ?rest = dropWhile is_space ?rest" by (intro py_strip_end) simp_all
  also obtain x where x: "x \<in> set s" "\<not> is_space x"
    using s dropWhile_eq_Nil_conv [of is_space s] by blast
  have "dropWhile is_space ?rest = dropWhile is_space s @ [CHR 10, CHR 10] @ ?foot"
    using nl by (simp add: dropWhile_append1 [where P = is_space, OF x])
  finally have body: "py_strip ?rest = (dropWhile is_space s @ [CHR 10, CHR 10]) @ ?foot" by simp
  have "starts_with_text SUMMARY_FOOTER_MARK ?foot" by (simp add: starts_with_text_def)
  moreover have "?foot \<noteq> []" by (simp add: SUMMARY_FOOTER_MARK_def)
  ultimately have foot: "before_last SUMMARY_FOOTER_MARK (py_strip ?rest) = Some (dropWhile is_space s @ [CHR 10, CHR 10])"
    unfolding body using footer_only_start [OF assms(1)] by (intro before_last_at) blast+
  have "py_strip (dropWhile is_space s @ [CHR 10, CHR 10]) = py_strip s"
  proof -
    have "dropWhile is_space (dropWhile is_space s @ [CHR 10, CHR 10]) = dropWhile is_space s @ [CHR 10, CHR 10]"
      using s by (metis dropWhile_append3 dropWhile_idem hd_dropWhile dropWhile_eq_self_iff append_is_Nil_conv hd_append2)
    then show ?thesis using nl by (simp add: py_strip_def)
  qed
  then show ?thesis
    using assms(2) foot by (simp add: checkpoint_of_def summary_message_def starts_with_text_def Let_def)
qed

subsection \<open>Properties\<close>


definition says :: "string \<Rightarrow> string \<Rightarrow> pydict" where
  "says role s = [(''role'', PStr role), (''content'', PStr s)]"

definition long_transcript :: transcript where
  "long_transcript = recompute_costs
     \<lparr>tr_messages =
        [says ''user'' ''one'', says ''assistant'' ''a'', says ''user'' ''two'', calls_tool ''c'',
         tool_result ''c'' ''ok'', says ''assistant'' ''b''],
      tr_chars = 0, tr_tool_chars = 0\<rparr>"

lemma long_messages:
  "tr_messages long_transcript =
     [says ''user'' ''one'', says ''assistant'' ''a'', says ''user'' ''two'', calls_tool ''c'',
      tool_result ''c'' ''ok'', says ''assistant'' ''b'']"
  by (simp add: long_transcript_def)

definition plain_turn :: "string \<Rightarrow> turn" where
  "plain_turn s =
     \<lparr>tn_message = says ''assistant'' s, tn_text = s, tn_tool_calls = [],
      tn_usage = bare_usage 5, tn_model = ''m'', tn_finish_reason = ''stop'', tn_reasoning = '''',
      tn_reasoning_blocks = []\<rparr>"

definition sample_compact :: "unit compact_env" where
  "sample_compact =
     \<lparr>ce_chat = (\<lambda>q e. (Inr (plain_turn ''the gist''), e)),
      ce_limits = \<lparr>cb_bootstrap_chars = 100, cb_skill_always_chars = 100, cb_keep_recent_turns = 2,
                   cb_reserve_tokens = 10, cb_context_chars = 20, cb_from_window = False\<rparr>,
      ce_save = (\<lambda>ms e. (''t.json'', e)), ce_repo = (\<lambda>e. None),
      ce_on_compaction = (\<lambda>m n e. e)\<rparr>"


text \<open>
  The next compaction recognises the last one: the checkpoint read back out of a summary message is
  the summary itself, also if the summary quotes the mark of the footer.
\<close>

theorem checkpoint_reads_back:
  assumes "path_ok path" and "py_strip s \<noteq> []"
  shows "checkpoint_of (summary_message s path) = Some (py_strip s)"
  by (rule checkpoint_roundtrip [OF assms])

theorem checkpoint_reads_back_witness:
  "checkpoint_of (summary_message ''quoting (full record: x'' ''.avid/context/transcript-1.json'') =
     Some ''quoting (full record: x''"
proof -
  have "path_ok ''.avid/context/transcript-1.json''" by code_simp
  moreover have s: "py_strip ''quoting (full record: x'' = ''quoting (full record: x''" by code_simp
  ultimately show ?thesis
    using checkpoint_reads_back [of "''.avid/context/transcript-1.json''" "''quoting (full record: x''"]
    by (simp del: py_strip_idem)
qed

end
