(* ===== verification/Agent_Checkpoints.thy ===== *)
theory Agent_Checkpoints
  imports Agent_Compaction Session_Types
begin

section \<open>Snapshots before writing, and rewinding\<close>

text \<open>
  The module \<open>avid/agent/checkpoints.py\<close>: what the file tools do before a write, and the restoration of
  the files of a session. The disk is a map of files and the directories of one session's snapshots,
  listed by their number; a manifest is the list it parses to, \<open>None\<close> if there is none or it does not
  parse. A blob is named by its number. Which operation of a snapshot fails is an argument, and so is
  the set of paths whose restoration fails. Chinese texts are replaced by ASCII texts.
\<close>

subsection \<open>The disk and the sink\<close>

record ck_entry =
  ck_path :: string
  ck_blob :: "nat option"

record ck_dir =
  kd_manifest :: "ck_entry list option"
  kd_blobs :: "(nat \<times> string) list"

record ck_disk =
  dk_files :: "string \<rightharpoonup> string"
  dk_dirs :: "(nat \<times> ck_dir) list"

record ck_sink =
  sk_seq :: "nat option"
  sk_entries :: "ck_entry list"

definition new_sink :: ck_sink where
  "new_sink = \<lparr>sk_seq = None, sk_entries = []\<rparr>"

text \<open>Where an \<open>OSError\<close> strikes; a failed write of a blob may leave some content behind.\<close>

datatype ck_fault = NoFault | MkdirFails | BlobFails "string option" | ManifestFails

datatype ck_refusal = SnapshotFailed | TipUnreadable | NoTip

definition empty_dir :: ck_dir where
  "empty_dir = \<lparr>kd_manifest = None, kd_blobs = []\<rparr>"

definition dir_of :: "nat \<Rightarrow> (nat \<times> ck_dir) list \<Rightarrow> ck_dir" where
  "dir_of n dirs = (case map_of dirs n of None \<Rightarrow> empty_dir | Some d \<Rightarrow> d)"

definition put_dir :: "nat \<Rightarrow> ck_dir \<Rightarrow> ck_disk \<Rightarrow> ck_disk" where
  "put_dir n d disk = disk\<lparr>dk_dirs := AList.update n d (dk_dirs disk)\<rparr>"

definition protected_path :: "string \<Rightarrow> string \<Rightarrow> bool" where
  "protected_path root path \<longleftrightarrow> starts_with_text (root @ ''/.avid/'') path"

subsection \<open>Taking a snapshot\<close>

text \<open>\<open>_write_manifest\<close> after the entry was added to the sink.\<close>

definition add_entry ::
  "ck_fault \<Rightarrow> nat \<Rightarrow> ck_entry \<Rightarrow> ck_dir \<Rightarrow> ck_sink \<Rightarrow> ck_disk \<Rightarrow> ck_refusal option \<times> ck_sink \<times> ck_disk" where
  "add_entry fault n en d sink disk =
     (let sink = sink\<lparr>sk_entries := sk_entries sink @ [en]\<rparr>
      in if fault = ManifestFails then (Some SnapshotFailed, sink, put_dir n d disk)
         else (None, sink, put_dir n (d\<lparr>kd_manifest := Some (sk_entries sink)\<rparr>) disk))"

text \<open>\<open>tip\<close> is what \<open>tip_seq\<close> answers: it raises (\<open>None\<close>), or gives a number or nothing.\<close>

definition snapshot ::
  "string \<Rightarrow> nat option option \<Rightarrow> ck_fault \<Rightarrow> string \<Rightarrow> ck_sink \<Rightarrow> ck_disk \<Rightarrow>
   ck_refusal option \<times> ck_sink \<times> ck_disk" where
  "snapshot root tip fault path sink disk =
     (if protected_path root path then (None, sink, disk)
      else case tip of
        None \<Rightarrow> (Some TipUnreadable, sink, disk)
      | Some None \<Rightarrow> (Some NoTip, sink, disk)
      | Some (Some n) \<Rightarrow>
          (let sink = (if sk_seq sink = Some n then sink else \<lparr>sk_seq = Some n, sk_entries = []\<rparr>)
           in if fault = MkdirFails then (Some SnapshotFailed, sink, disk)
              else
                (let d = dir_of n (dk_dirs disk); disk = put_dir n d disk
                 in if path \<in> set (map ck_path (sk_entries sink)) then (None, sink, disk)
                    else case dk_files disk path of
                      None \<Rightarrow> add_entry fault n \<lparr>ck_path = path, ck_blob = None\<rparr> d sink disk
                    | Some content \<Rightarrow>
                        (let b = length (sk_entries sink)
                         in case fault of
                              BlobFails left \<Rightarrow>
                                (Some SnapshotFailed, sink,
                                 (case left of
                                    None \<Rightarrow> disk
                                  | Some c \<Rightarrow> put_dir n (d\<lparr>kd_blobs := AList.update b c (kd_blobs d)\<rparr>) disk))
                            | _ \<Rightarrow>
                                add_entry fault n \<lparr>ck_path = path, ck_blob = Some b\<rparr>
                                  (d\<lparr>kd_blobs := AList.update b content (kd_blobs d)\<rparr>) sink disk))))"

text \<open>A write of the file tools: refused if the snapshot is (\<open>_checkpoint\<close> in \<open>avid/agent/tools/files.py\<close>).\<close>

record write_call =
  wc_tip :: "nat option option"
  wc_fault :: ck_fault
  wc_path :: string
  wc_content :: string

definition guarded_write :: "string \<Rightarrow> write_call \<Rightarrow> ck_sink \<times> ck_disk \<Rightarrow> ck_sink \<times> ck_disk" where
  "guarded_write root w s =
     (let (refusal, sink, disk) = snapshot root (wc_tip w) (wc_fault w) (wc_path w) (fst s) (snd s)
      in (sink, if refusal = None then disk\<lparr>dk_files := (dk_files disk)(wc_path w \<mapsto> wc_content w)\<rparr> else disk))"

subsection \<open>Restoring\<close>

datatype restore_line = NothingToRestore | RestoredFile string | DeletedFile string | FailedFile string

definition manifest_entries :: "ck_dir \<Rightarrow> ck_entry list" where
  "manifest_entries d = (case kd_manifest d of None \<Rightarrow> [] | Some es \<Rightarrow> es)"

text \<open>\<open>_seq_dirs\<close>, and what their manifests list, by path.\<close>

definition seq_dirs :: "nat \<Rightarrow> (nat \<times> ck_dir) list \<Rightarrow> (nat \<times> ck_dir) list" where
  "seq_dirs through dirs = sort_key fst (filter (\<lambda>(n, d). through < n) dirs)"

definition listed :: "(nat \<times> ck_dir) list \<Rightarrow> (string \<times> nat \<times> ck_entry) list" where
  "listed dirs = concat (map (\<lambda>(n, d). map (\<lambda>en. (ck_path en, n, en)) (manifest_entries d)) dirs)"

definition set_default :: "('k \<times> 'v) list \<Rightarrow> 'k \<times> 'v \<Rightarrow> ('k \<times> 'v) list" where
  "set_default acc kv = (if fst kv \<in> set (map fst acc) then acc else acc @ [kv])"

definition restore_plan :: "nat \<Rightarrow> (nat \<times> ck_dir) list \<Rightarrow> (string \<times> nat \<times> ck_entry) list" where
  "restore_plan through dirs = foldl set_default [] (listed (seq_dirs through dirs))"

definition restore_one ::
  "(string \<Rightarrow> bool) \<Rightarrow> (nat \<times> ck_dir) list \<Rightarrow> string \<times> nat \<times> ck_entry \<Rightarrow> (string \<rightharpoonup> string) \<Rightarrow>
   restore_line \<times> (string \<rightharpoonup> string)" where
  "restore_one fails dirs planned files =
     (let (key, n, en) = planned
      in if fails key then (FailedFile key, files)
         else case ck_blob en of
           None \<Rightarrow> (DeletedFile key, files(key := None))
         | Some b \<Rightarrow>
             (case map_of (kd_blobs (dir_of n dirs)) b of
                None \<Rightarrow> (FailedFile key, files)
              | Some content \<Rightarrow> (RestoredFile key, files(key \<mapsto> content))))"

fun restore_all ::
  "(string \<Rightarrow> bool) \<Rightarrow> (nat \<times> ck_dir) list \<Rightarrow> (string \<times> nat \<times> ck_entry) list \<Rightarrow> (string \<rightharpoonup> string) \<Rightarrow>
   restore_line list \<times> (string \<rightharpoonup> string)" where
  "restore_all fails dirs [] files = ([], files)"
| "restore_all fails dirs (x # xs) files =
     (let (line, files1) = restore_one fails dirs x files;
          (lines, files2) = restore_all fails dirs xs files1
      in (line # lines, files2))"

definition restore :: "(string \<Rightarrow> bool) \<Rightarrow> nat \<Rightarrow> ck_disk \<Rightarrow> restore_line list \<times> ck_disk" where
  "restore fails through disk =
     (let planned = restore_plan through (dk_dirs disk)
      in if planned = [] then ([NothingToRestore], disk)
         else (let (lines, files) = restore_all fails (dk_dirs disk) planned (dk_files disk)
               in (lines, disk\<lparr>dk_files := files\<rparr>)))"

definition restore_tally :: "restore_line list \<Rightarrow> nat \<times> nat" where
  "restore_tally lines =
     (length (filter (\<lambda>l. case l of RestoredFile _ \<Rightarrow> True | _ \<Rightarrow> False) lines),
      length (filter (\<lambda>l. case l of DeletedFile _ \<Rightarrow> True | _ \<Rightarrow> False) lines))"

text \<open>The place \<open>/rewind\<close> goes back to: the last input of the user on the branch.\<close>

definition is_user_entry :: "entry \<Rightarrow> bool" where
  "is_user_entry en \<longleftrightarrow> e_type en = MESSAGE_ENTRY \<and>
     (case e_message en of None \<Rightarrow> False | Some m \<Rightarrow> dget m ''role'' = PStr ''user'')"

definition rewind_target :: "entry list \<Rightarrow> (string option \<times> int) option" where
  "rewind_target entries =
     (case filter is_user_entry (rev entries) of
        [] \<Rightarrow> None | en # _ \<Rightarrow> Some (e_parent_id en, e_seq en))"

subsection \<open>Facts about restoring\<close>

lemma map_of_set_default: "map_of (foldl set_default acc l) k = map_of (acc @ l) k"
proof (induction l arbitrary: acc)
  case (Cons x l)
  have "map_of (set_default acc x @ l) k = map_of (acc @ x # l) k"
  proof (cases "fst x \<in> set (map fst acc)")
    case True
    then have "map_of acc (fst x) \<noteq> None" by (simp add: map_of_eq_None_iff)
    then show ?thesis using True
      by (cases x; cases "k = fst x") (auto simp: set_default_def map_add_def split: option.splits)
  next
    case False
    then show ?thesis by (simp add: set_default_def)
  qed
  then show ?case using Cons.IH by simp
qed simp

lemma distinct_set_default: "distinct (map fst acc) \<Longrightarrow> distinct (map fst (foldl set_default acc l))"
  by (induction l arbitrary: acc) (auto simp: set_default_def)

text \<open>What a planned entry stands for: the outer \<open>None\<close> is a blob that is not there.\<close>

definition saved :: "(nat \<times> ck_dir) list \<Rightarrow> nat \<times> ck_entry \<Rightarrow> string option option" where
  "saved dirs p =
     (case ck_blob (snd p) of
        None \<Rightarrow> Some None
      | Some b \<Rightarrow> map_option Some (map_of (kd_blobs (dir_of (fst p) dirs)) b))"

lemma restore_one_files:
  "snd (restore_one fails dirs (key, p) files) =
     (if fails key then files
      else case saved dirs p of None \<Rightarrow> files | Some content \<Rightarrow> files(key := content))"
  by (cases p) (auto simp: restore_one_def saved_def split: option.splits)

lemma restore_all_files:
  assumes "distinct (map fst planned)"
  shows "snd (restore_all fails dirs planned files) p =
     (case map_of planned p of
        None \<Rightarrow> files p
      | Some x \<Rightarrow> if fails p then files p
                  else case saved dirs x of None \<Rightarrow> files p | Some content \<Rightarrow> content)"
  using assms
proof (induction planned arbitrary: files)
  case (Cons y planned)
  obtain key x where y: "y = (key, x)" by (cases y)
  let ?f = "snd (restore_one fails dirs (key, x) files)"
  have step: "snd (restore_all fails dirs (y # planned) files) = snd (restore_all fails dirs planned ?f)"
    by (simp add: y Let_def case_prod_beta)
  show ?case
  proof (cases "p = key")
    case True
    then have "map_of planned p = None" using Cons.prems y by (simp add: map_of_eq_None_iff)
    then show ?thesis using True Cons y unfolding step
      by (simp add: restore_one_files split: option.split)
  next
    case False
    then have "?f p = files p" by (simp add: restore_one_files split: option.split)
    then show ?thesis using False Cons y unfolding step by (simp split: option.split)
  qed
qed simp

lemma restore_files:
  "dk_files (snd (restore fails through disk)) p =
     (case map_of (listed (seq_dirs through (dk_dirs disk))) p of
        None \<Rightarrow> dk_files disk p
      | Some x \<Rightarrow> if fails p then dk_files disk p
                  else case saved (dk_dirs disk) x of None \<Rightarrow> dk_files disk p | Some content \<Rightarrow> content)"
proof -
  let ?plan = "restore_plan through (dk_dirs disk)"
  have d: "distinct (map fst ?plan)" by (simp add: restore_plan_def distinct_set_default)
  have m: "map_of ?plan p = map_of (listed (seq_dirs through (dk_dirs disk))) p"
    by (simp add: restore_plan_def map_of_set_default)
  have "dk_files (snd (restore fails through disk)) p =
      snd (restore_all fails (dk_dirs disk) ?plan (dk_files disk)) p"
    by (simp add: restore_def Let_def case_prod_beta)
  then show ?thesis using restore_all_files [OF d, of fails "dk_dirs disk" "dk_files disk" p] m by simp
qed

subsection \<open>Facts about the directories\<close>

lemma map_of_put_dir: "map_of (dk_dirs (put_dir n d disk)) = (map_of (dk_dirs disk))(n \<mapsto> d)"
  by (simp add: put_dir_def update_conv' [symmetric] update_conv)

lemma dir_of_put_dir: "dir_of k (dk_dirs (put_dir n d disk)) = (if k = n then d else dir_of k (dk_dirs disk))"
  by (simp add: dir_of_def map_of_put_dir)

lemma files_put_dir [simp]: "dk_files (put_dir n d disk) = dk_files disk"
  by (simp add: put_dir_def)

text \<open>Directories are made in the order of their numbers, so the newest is the last.\<close>

definition dirs_ok :: "nat \<Rightarrow> (nat \<times> ck_dir) list \<Rightarrow> bool" where
  "dirs_ok n dirs \<longleftrightarrow> sorted_wrt (<) (map fst dirs) \<and> (\<forall>k\<in>set (map fst dirs). k \<le> n)"

definition before_dir :: "nat \<Rightarrow> (nat \<times> ck_dir) list \<Rightarrow> (nat \<times> ck_dir) list" where
  "before_dir n dirs = filter (\<lambda>(k, d). k < n) dirs"

lemma update_last:
  "dirs_ok n dirs \<Longrightarrow> AList.update n d dirs = before_dir n dirs @ [(n, d)]"
proof (induction dirs)
  case (Cons x dirs)
  obtain k c where x: "x = (k, c)" by fastforce
  show ?case
  proof (cases "k = n")
    case True
    have "dirs = []"
    proof (cases dirs)
      case (Cons y ys)
      then show ?thesis using Cons.prems x True by (auto simp: dirs_ok_def)
    qed simp
    then show ?thesis using True x by (simp add: before_dir_def)
  next
    case False
    then have "k < n" using Cons.prems x by (auto simp: dirs_ok_def)
    then show ?thesis using Cons False x by (simp add: dirs_ok_def before_dir_def)
  qed
qed (simp add: before_dir_def)

lemma split_last:
  assumes "dirs_ok n dirs"
  shows "listed (seq_dirs s dirs) = listed (seq_dirs s (before_dir n dirs)) @
    (if s < n then map (\<lambda>en. (ck_path en, n, en)) (manifest_entries (dir_of n dirs)) else [])"
proof -
  have sorted: "sort_key fst xs = xs" if "sorted_wrt (<) (map fst xs)" for xs :: "(nat \<times> ck_dir) list"
    using that by (intro sort_key_id_if_sorted) (auto intro: strict_sorted_imp_sorted)
  have filt: "sorted_wrt (<) (map fst (filter P xs))" if "sorted_wrt (<) (map fst xs)" for P and xs :: "(nat \<times> ck_dir) list"
    using that by (induction xs) auto
  have s: "seq_dirs s xs = filter (\<lambda>(n, d). s < n) xs" if "sorted_wrt (<) (map fst xs)" for xs
    unfolding seq_dirs_def by (rule sorted [OF filt [OF that]])
  have w: "sorted_wrt (<) (map fst dirs)" using assms by (simp add: dirs_ok_def)
  have wb: "sorted_wrt (<) (map fst (before_dir n dirs))" unfolding before_dir_def by (rule filt [OF w])
  have dirs: "dirs = before_dir n dirs @ (case map_of dirs n of None \<Rightarrow> [] | Some d \<Rightarrow> [(n, d)])"
  proof (cases "map_of dirs n")
    case None
    then have "\<forall>x\<in>set dirs. fst x \<noteq> n" by (auto simp: map_of_eq_None_iff)
    moreover have "\<forall>x\<in>set dirs. fst x \<le> n" using assms by (auto simp: dirs_ok_def)
    ultimately have "\<forall>x\<in>set dirs. fst x < n" by (meson le_neq_implies_less)
    then have "before_dir n dirs = dirs" by (simp add: before_dir_def filter_id_conv case_prod_beta)
    then show ?thesis using None by simp
  next
    case (Some d)
    then have "AList.update n d dirs = dirs" by (rule update_triv)
    then show ?thesis using update_last [OF assms, of d] Some by simp
  qed
  show ?thesis
    unfolding s [OF w] s [OF wb]
    by (subst dirs) (auto simp: listed_def dir_of_def manifest_entries_def empty_dir_def split: option.splits)
qed

subsection \<open>What the snapshots know\<close>

definition saved_in :: "ck_dir \<Rightarrow> ck_entry \<Rightarrow> string option option" where
  "saved_in d en =
     (case ck_blob en of None \<Rightarrow> Some None | Some b \<Rightarrow> map_option Some (map_of (kd_blobs d) b))"

lemma saved_alt: "saved dirs x = saved_in (dir_of (fst x) dirs) (snd x)"
  by (simp add: saved_def saved_in_def)

lemma saved_in_manifest [simp]: "saved_in (d\<lparr>kd_manifest := x\<rparr>) en = saved_in d en"
  by (simp add: saved_in_def split: option.split)

text \<open>For every path: it has its old content, or its old content is saved in the first entry for it.\<close>

definition recoverable :: "nat \<Rightarrow> (string \<rightharpoonup> string) \<Rightarrow> (string \<rightharpoonup> string) \<Rightarrow> (nat \<times> ck_dir) list \<Rightarrow> bool" where
  "recoverable s old files dirs \<longleftrightarrow>
     (\<forall>p. case map_of (listed (seq_dirs s dirs)) p of
            None \<Rightarrow> files p = old p | Some x \<Rightarrow> saved dirs x = Some (old p))"

lemma restore_recoverable:
  "recoverable s old (dk_files disk) (dk_dirs disk) \<Longrightarrow>
   dk_files (snd (restore fails s disk)) p = (if fails p then dk_files disk p else old p)"
  unfolding restore_files recoverable_def by (drule spec [of _ p]) (auto split: option.splits)

lemma recoverable_write:
  "\<lbrakk>recoverable s old files dirs; map_of (listed (seq_dirs s dirs)) p \<noteq> None\<rbrakk> \<Longrightarrow>
   recoverable s old (files(p \<mapsto> c)) dirs"
  unfolding recoverable_def
proof
  fix q
  assume "\<forall>p. case map_of (listed (seq_dirs s dirs)) p of
      None \<Rightarrow> files p = old p | Some x \<Rightarrow> saved dirs x = Some (old p)"
    and "map_of (listed (seq_dirs s dirs)) p \<noteq> None"
  then show "case map_of (listed (seq_dirs s dirs)) q of
      None \<Rightarrow> (files(p \<mapsto> c)) q = old q | Some x \<Rightarrow> saved dirs x = Some (old q)"
    by (cases "map_of (listed (seq_dirs s dirs)) q") (auto dest: spec [of _ q])
qed

lemma dirs_ok_put: "dirs_ok n dirs \<Longrightarrow> dirs_ok n (before_dir n dirs @ [(n, d)])"
  by (induction dirs) (auto simp: dirs_ok_def before_dir_def sorted_wrt_append)

lemma before_put [simp]: "before_dir n (before_dir n dirs @ [(n, d)]) = before_dir n dirs"
  by (induction dirs) (auto simp: before_dir_def)

lemma put_dir_dirs: "dirs_ok n (dk_dirs disk) \<Longrightarrow> dk_dirs (put_dir n d disk) = before_dir n (dk_dirs disk) @ [(n, d)]"
  by (simp add: put_dir_def update_last)

lemma listed_put:
  assumes "dirs_ok n (dk_dirs disk)" and "s < n"
  shows "listed (seq_dirs s (dk_dirs (put_dir n d disk))) =
    listed (seq_dirs s (before_dir n (dk_dirs disk))) @ map (\<lambda>en. (ck_path en, n, en)) (manifest_entries d)"
proof -
  have "dir_of n (dk_dirs (put_dir n d disk)) = d" by (simp add: dir_of_put_dir)
  then show ?thesis
    using split_last [OF dirs_ok_put [OF assms(1), of d], of s] assms
    by (simp add: put_dir_dirs)
qed

lemma listed_before:
  "map_of (listed (seq_dirs s (before_dir n dirs))) p = Some x \<Longrightarrow> fst x \<noteq> n"
  by (drule map_of_SomeD) (auto simp: listed_def seq_dirs_def before_dir_def)

lemma map_of_entries:
  "map_of (map (\<lambda>en. (ck_path en, n, en)) es) p = Some x \<Longrightarrow> fst x = n \<and> snd x \<in> set es \<and> ck_path (snd x) = p"
  by (drule map_of_SomeD) auto

lemma recoverable_put:
  assumes "dirs_ok n (dk_dirs disk)" and "s < n" and "recoverable s old files (dk_dirs disk)"
    and "manifest_entries d = manifest_entries (dir_of n (dk_dirs disk)) @ new"
    and "\<And>en. en \<in> set (manifest_entries (dir_of n (dk_dirs disk))) \<Longrightarrow> saved_in d en = saved_in (dir_of n (dk_dirs disk)) en"
    and "\<And>en. en \<in> set new \<Longrightarrow> saved_in d en = Some (files (ck_path en))"
  shows "recoverable s old files (dk_dirs (put_dir n d disk))"
  unfolding recoverable_def
proof
  fix p
  let ?f = "\<lambda>en. (ck_path en, n, en)" and ?es = "manifest_entries (dir_of n (dk_dirs disk))"
  let ?before = "listed (seq_dirs s (before_dir n (dk_dirs disk)))"
  have was: "case map_of (?before @ map ?f ?es) p of None \<Rightarrow> files p = old p | Some x \<Rightarrow> saved (dk_dirs disk) x = Some (old p)"
    using assms(3) split_last [OF assms(1), of s] assms(2) by (simp add: recoverable_def)
  have now: "listed (seq_dirs s (dk_dirs (put_dir n d disk))) = ?before @ map ?f (?es @ new)"
    using listed_put [OF assms(1,2), of d] assms(4) by simp
  show "case map_of (listed (seq_dirs s (dk_dirs (put_dir n d disk)))) p of
      None \<Rightarrow> files p = old p | Some x \<Rightarrow> saved (dk_dirs (put_dir n d disk)) x = Some (old p)"
  proof (cases "map_of ?before p")
    case (Some x)
    then show ?thesis using was listed_before [OF Some] unfolding now
      by (simp add: map_add_Some_iff [THEN iffD2] saved_alt dir_of_put_dir map_add_def)
  next
    case before: None
    show ?thesis
    proof (cases "map_of (map ?f ?es) p")
      case (Some x)
      then show ?thesis using was before map_of_entries [OF Some] assms(5) unfolding now
        by (simp add: map_add_def saved_alt dir_of_put_dir)
    next
      case None
      then have same: "files p = old p" using was before by (simp add: map_add_def)
      show ?thesis
      proof (cases "map_of (map ?f new) p")
        case None
        then show ?thesis using before \<open>map_of (map ?f ?es) p = None\<close> same unfolding now by (simp add: map_add_def)
      next
        case (Some x)
        then show ?thesis
          using before \<open>map_of (map ?f ?es) p = None\<close> same map_of_entries [OF Some] assms(6) unfolding now
          by (simp add: map_add_def saved_alt dir_of_put_dir)
      qed
    qed
  qed
qed

subsection \<open>Every write is recorded\<close>

definition blobs_below :: "ck_entry list \<Rightarrow> bool" where
  "blobs_below es \<longleftrightarrow> (\<forall>en\<in>set es. \<forall>b. ck_blob en = Some b \<longrightarrow> b < length es)"

text \<open>The sink knows what the newest directory lists.\<close>

definition sink_in_step :: "nat \<Rightarrow> ck_sink \<Rightarrow> ck_disk \<Rightarrow> bool" where
  "sink_in_step n sink disk \<longleftrightarrow> sk_seq sink = Some n \<and> dirs_ok n (dk_dirs disk) \<and>
     manifest_entries (dir_of n (dk_dirs disk)) = sk_entries sink \<and> blobs_below (sk_entries sink)"

definition ck_inv :: "nat \<Rightarrow> (string \<rightharpoonup> string) \<Rightarrow> nat \<Rightarrow> ck_sink \<Rightarrow> ck_disk \<Rightarrow> bool" where
  "ck_inv s old m sink disk \<longleftrightarrow> recoverable s old (dk_files disk) (dk_dirs disk) \<and>
     ((sk_seq sink = None \<or> the (sk_seq sink) \<le> s) \<and> dirs_ok s (dk_dirs disk) \<or>
      (\<exists>n. s < n \<and> n \<le> m \<and> sink_in_step n sink disk))"

lemma new_dir_entries: "\<lbrakk>dirs_ok k dirs; k < n\<rbrakk> \<Longrightarrow> manifest_entries (dir_of n dirs) = [] \<and> dirs_ok n dirs"
proof -
  assume "dirs_ok k dirs" "k < n"
  then have "map_of dirs n = None" and "dirs_ok n dirs"
    by (force simp: dirs_ok_def map_of_eq_None_iff)+
  then show ?thesis by (simp add: dir_of_def empty_dir_def manifest_entries_def)
qed

definition sink_for :: "nat \<Rightarrow> ck_sink \<Rightarrow> ck_sink" where
  "sink_for n sink = (if sk_seq sink = Some n then sink else \<lparr>sk_seq = Some n, sk_entries = []\<rparr>)"

lemma sink_for_step:
  assumes "ck_inv s old m sink disk" and "s < n" and "m \<le> n"
  shows "sink_in_step n (sink_for n sink) disk"
proof (cases "(sk_seq sink = None \<or> the (sk_seq sink) \<le> s) \<and> dirs_ok s (dk_dirs disk)")
  case True
  then have "sk_seq sink \<noteq> Some n" using assms(2) by auto
  then show ?thesis using new_dir_entries [of s "dk_dirs disk" n] True assms(2)
    by (simp add: sink_in_step_def sink_for_def blobs_below_def)
next
  case False
  then obtain k where k: "k \<le> m" "sink_in_step k sink disk" using assms(1) by (auto simp: ck_inv_def)
  show ?thesis
  proof (cases "k = n")
    case True
    then show ?thesis using k by (simp add: sink_in_step_def sink_for_def)
  next
    case False
    then show ?thesis using k assms(3) new_dir_entries [of k "dk_dirs disk" n]
      by (auto simp: sink_in_step_def sink_for_def blobs_below_def)
  qed
qed

lemma put_in_step:
  assumes "sink_in_step n sink disk" and "s < n" and "recoverable s old (dk_files disk) (dk_dirs disk)"
    and "manifest_entries d = sk_entries sink @ new" and "blobs_below (sk_entries sink @ new)"
    and "\<And>en. en \<in> set (sk_entries sink) \<Longrightarrow> saved_in d en = saved_in (dir_of n (dk_dirs disk)) en"
    and "\<And>en. en \<in> set new \<Longrightarrow> saved_in d en = Some (dk_files disk (ck_path en))"
  shows "sink_in_step n (sink\<lparr>sk_entries := sk_entries sink @ new\<rparr>) (put_dir n d disk) \<and>
    recoverable s old (dk_files disk) (dk_dirs (put_dir n d disk)) \<and>
    (\<forall>en\<in>set (sk_entries sink @ new). map_of (listed (seq_dirs s (dk_dirs (put_dir n d disk)))) (ck_path en) \<noteq> None)"
proof (intro conjI)
  have ok: "dirs_ok n (dk_dirs disk)" and es: "manifest_entries (dir_of n (dk_dirs disk)) = sk_entries sink"
    using assms(1) by (simp_all add: sink_in_step_def)
  show "sink_in_step n (sink\<lparr>sk_entries := sk_entries sink @ new\<rparr>) (put_dir n d disk)"
    using assms(1,4,5) dirs_ok_put [OF ok, of d, folded put_dir_dirs [OF ok, of d]]
    by (simp add: sink_in_step_def dir_of_put_dir)
  show "recoverable s old (dk_files disk) (dk_dirs (put_dir n d disk))"
    using assms(4,6,7) by (intro recoverable_put [OF ok assms(2,3)]) (simp_all add: es)
  show "\<forall>en\<in>set (sk_entries sink @ new). map_of (listed (seq_dirs s (dk_dirs (put_dir n d disk)))) (ck_path en) \<noteq> None"
    unfolding listed_put [OF ok assms(2)] assms(4)
    by (auto simp: map_of_eq_None_iff map_add_None image_iff simp del: not_None_eq)
qed

lemma blobs_below_grow: "blobs_below es \<Longrightarrow> (\<forall>b. ck_blob en = Some b \<longrightarrow> b \<le> length es) \<Longrightarrow> blobs_below (es @ [en])"
  by (auto simp: blobs_below_def less_Suc_eq dest!: bspec)

lemma snapshot_step:
  assumes inv: "ck_inv s old m sink disk" and "s < n" and "m \<le> n"
    and "\<not> protected_path root path" and "fault \<noteq> ManifestFails"
    and snap: "snapshot root (Some (Some n)) fault path sink disk = (r, sink', disk')"
  shows "ck_inv s old n sink' disk' \<and> dk_files disk' = dk_files disk \<and>
    (r = None \<longrightarrow> map_of (listed (seq_dirs s (dk_dirs disk'))) path \<noteq> None)"
proof -
  let ?sink = "sink_for n sink" and ?d = "dir_of n (dk_dirs disk)"
  have step: "sink_in_step n ?sink disk" by (rule sink_for_step [OF assms(1-3)])
  have rec: "recoverable s old (dk_files disk) (dk_dirs disk)" using inv by (simp add: ck_inv_def)
  have es: "manifest_entries ?d = sk_entries ?sink" and below: "blobs_below (sk_entries ?sink)"
    using step by (simp_all add: sink_in_step_def)
  note put = put_in_step [OF step assms(2) rec]
  have same: "?sink\<lparr>sk_entries := sk_entries ?sink @ []\<rparr> = ?sink" by simp
  have stepped: "ck_inv s old n sk dk" if "sink_in_step n sk dk" "recoverable s old (dk_files dk) (dk_dirs dk)" for sk dk
    using that assms(2) by (auto simp: ck_inv_def)
  have old_blobs: "saved_in (dd\<lparr>kd_blobs := AList.update (length (sk_entries ?sink)) c (kd_blobs ?d)\<rparr>) en = saved_in ?d en"
    if "en \<in> set (sk_entries ?sink)" for en c and dd :: ck_dir
    using that below by (auto simp: saved_in_def blobs_below_def update_conv' split: option.split)
  have plain: "sink_in_step n ?sink (put_dir n ?d disk) \<and> recoverable s old (dk_files disk) (dk_dirs (put_dir n ?d disk)) \<and>
      (\<forall>en\<in>set (sk_entries ?sink). map_of (listed (seq_dirs s (dk_dirs (put_dir n ?d disk)))) (ck_path en) \<noteq> None)"
    using put [of ?d "[]"] es below by (simp del: not_None_eq)
  show ?thesis
  proof (cases "fault = MkdirFails")
    case True
    then have "r \<noteq> None" "sink' = ?sink" "disk' = disk"
      using snap assms(4) by (auto simp: snapshot_def sink_for_def Let_def)
    then show ?thesis using stepped [OF step rec] by auto
  next
    case mk: False
    show ?thesis
    proof (cases "path \<in> set (map ck_path (sk_entries ?sink))")
      case True
      then have "sink' = ?sink" "disk' = put_dir n ?d disk"
        using snap assms(4) mk by (auto simp: snapshot_def sink_for_def Let_def)
      then show ?thesis using plain stepped True by auto
    next
      case unknown: False
      show ?thesis
      proof (cases "dk_files disk path")
        case None
        let ?en = "\<lparr>ck_path = path, ck_blob = None\<rparr>"
        let ?dd = "?d\<lparr>kd_manifest := Some (sk_entries ?sink @ [?en])\<rparr>"
        have "sink' = ?sink\<lparr>sk_entries := sk_entries ?sink @ [?en]\<rparr>" "disk' = put_dir n ?dd (put_dir n ?d disk)"
          using snap assms(4,5) mk unknown None
          by (auto simp: snapshot_def sink_for_def add_entry_def Let_def)
        moreover have "put_dir n ?dd (put_dir n ?d disk) = put_dir n ?dd disk" by (simp add: put_dir_def)
        moreover have "blobs_below (sk_entries ?sink @ [?en])" using below by (intro blobs_below_grow) simp_all
        moreover have "sink_in_step n (?sink\<lparr>sk_entries := sk_entries ?sink @ [?en]\<rparr>) (put_dir n ?dd disk) \<and>
            recoverable s old (dk_files disk) (dk_dirs (put_dir n ?dd disk)) \<and>
            (\<forall>en\<in>set (sk_entries ?sink @ [?en]).
               map_of (listed (seq_dirs s (dk_dirs (put_dir n ?dd disk)))) (ck_path en) \<noteq> None)"
        proof (rule put)
          show "manifest_entries ?dd = sk_entries ?sink @ [?en]" by (simp add: manifest_entries_def)
          show "saved_in ?dd en = Some (dk_files disk (ck_path en))" if "en \<in> set [?en]" for en
            using that None by (simp add: saved_in_def)
        qed (fact | simp)+
        ultimately show ?thesis using stepped by simp
      next
        case (Some content)
        let ?b = "length (sk_entries ?sink)"
        let ?en = "\<lparr>ck_path = path, ck_blob = Some ?b\<rparr>"
        show ?thesis
        proof (cases "\<exists>left. fault = BlobFails left")
          case True
          then obtain left where left: "fault = BlobFails left" by blast
          show ?thesis
          proof (cases left)
            case None
            then have "r \<noteq> None" "sink' = ?sink" "disk' = put_dir n ?d disk"
              using snap assms(4) mk unknown Some left by (auto simp: snapshot_def sink_for_def Let_def)
            then show ?thesis using plain stepped by auto
          next
            case (Some c)
            let ?dd = "?d\<lparr>kd_blobs := AList.update ?b c (kd_blobs ?d)\<rparr>"
            have "r \<noteq> None" "sink' = ?sink" "disk' = put_dir n ?dd (put_dir n ?d disk)"
              using snap assms(4) mk unknown \<open>dk_files disk path = Some content\<close> left Some
              by (auto simp: snapshot_def sink_for_def Let_def)
            moreover have "put_dir n ?dd (put_dir n ?d disk) = put_dir n ?dd disk" by (simp add: put_dir_def)
            moreover have "manifest_entries ?dd = sk_entries ?sink" using es by (simp add: manifest_entries_def)
            ultimately show ?thesis
              using put [of ?dd "[]"] old_blobs below stepped by auto
          qed
        next
          case False
          let ?dd = "?d\<lparr>kd_blobs := AList.update ?b content (kd_blobs ?d), kd_manifest := Some (sk_entries ?sink @ [?en])\<rparr>"
          have n: "fault = NoFault" using False mk assms(5) by (cases fault) auto
          have "sink' = ?sink\<lparr>sk_entries := sk_entries ?sink @ [?en]\<rparr>" "disk' = put_dir n ?dd (put_dir n ?d disk)"
            using snap assms(4) unknown Some n by (auto simp: snapshot_def sink_for_def add_entry_def Let_def)
          moreover have "put_dir n ?dd (put_dir n ?d disk) = put_dir n ?dd disk" by (simp add: put_dir_def)
          moreover have "blobs_below (sk_entries ?sink @ [?en])" using below by (intro blobs_below_grow) simp_all
          moreover have "saved_in ?dd en = saved_in ?d en" if "en \<in> set (sk_entries ?sink)" for en
            using old_blobs [OF that, where dd = ?d and c = content] by simp
          moreover have "sink_in_step n (?sink\<lparr>sk_entries := sk_entries ?sink @ [?en]\<rparr>) (put_dir n ?dd disk) \<and>
              recoverable s old (dk_files disk) (dk_dirs (put_dir n ?dd disk)) \<and>
              (\<forall>en\<in>set (sk_entries ?sink @ [?en]).
                 map_of (listed (seq_dirs s (dk_dirs (put_dir n ?dd disk)))) (ck_path en) \<noteq> None)"
          proof (rule put)
            show "manifest_entries ?dd = sk_entries ?sink @ [?en]" by (simp add: manifest_entries_def)
            show "saved_in ?dd en = Some (dk_files disk (ck_path en))" if "en \<in> set [?en]" for en
              using that Some by (simp add: saved_in_def update_conv')
          qed (fact+)
          ultimately show ?thesis using stepped by simp
        qed
      qed
    qed
  qed
qed

text \<open>
  Writes in the order of the session: the tip never goes back, no write goes under \<open>.avid\<close>, and the
  manifest of a snapshot can be written.
\<close>

fun orderly :: "string \<Rightarrow> nat \<Rightarrow> write_call list \<Rightarrow> bool" where
  "orderly root m [] = True"
| "orderly root m (w # ws) =
     (\<not> protected_path root (wc_path w) \<and> wc_fault w \<noteq> ManifestFails \<and>
      (case wc_tip w of
         Some (Some n) \<Rightarrow> m \<le> n \<and> orderly root n ws
       | _ \<Rightarrow> orderly root m ws))"

lemma writes_recoverable:
  assumes "ck_inv s old m (fst x) (snd x)" and "s < m" and "orderly root m ws"
  shows "\<exists>m'. ck_inv s old m' (fst (fold (guarded_write root) ws x)) (snd (fold (guarded_write root) ws x))"
  using assms
proof (induction ws arbitrary: m x)
  case (Cons w ws)
  obtain sink disk where x: "x = (sink, disk)" by (cases x)
  have w: "\<not> protected_path root (wc_path w)" "wc_fault w \<noteq> ManifestFails" using Cons.prems(3) by simp_all
  show ?case
  proof (cases "\<exists>n. wc_tip w = Some (Some n)")
    case True
    then obtain n where n: "wc_tip w = Some (Some n)" by blast
    then have m: "m \<le> n" "orderly root n ws" using Cons.prems(3) by simp_all
    obtain r sink' disk' where snap: "snapshot root (Some (Some n)) (wc_fault w) (wc_path w) sink disk = (r, sink', disk')"
      by (cases "snapshot root (Some (Some n)) (wc_fault w) (wc_path w) sink disk") auto
    have "ck_inv s old m sink disk" using Cons.prems(1) x by simp
    from snapshot_step [OF this _ m(1) w snap] Cons.prems(2) m(1)
    have step: "ck_inv s old n sink' disk'" "r = None \<Longrightarrow> map_of (listed (seq_dirs s (dk_dirs disk'))) (wc_path w) \<noteq> None"
      by simp_all
    have "ck_inv s old n (fst (guarded_write root w x)) (snd (guarded_write root w x))"
    proof (cases r)
      case None
      have "recoverable s old ((dk_files disk')(wc_path w \<mapsto> wc_content w)) (dk_dirs disk')"
        using recoverable_write step None by (auto simp: ck_inv_def)
      then show ?thesis using step(1) snap n x None by (simp add: guarded_write_def ck_inv_def sink_in_step_def)
    next
      case (Some y)
      then show ?thesis using step(1) snap n x by (simp add: guarded_write_def)
    qed
    then show ?thesis using Cons.IH [of n "guarded_write root w x"] Cons.prems(2) m by simp
  next
    case False
    then have "guarded_write root w x = x" "orderly root m ws"
      using Cons.prems(3) w x by (auto simp: guarded_write_def snapshot_def split: option.splits)
    then show ?thesis using Cons.IH [of m x] Cons.prems by simp
  qed
qed auto

lemma nothing_listed: "dirs_ok s dirs \<Longrightarrow> listed (seq_dirs s dirs) = []"
proof -
  assume "dirs_ok s dirs"
  then have "filter (\<lambda>(n, d). s < n) dirs = []" by (force simp: dirs_ok_def filter_empty_conv)
  then show ?thesis by (simp add: seq_dirs_def listed_def)
qed

subsection \<open>Properties\<close>


definition sample_disk :: ck_disk where
  "sample_disk = \<lparr>dk_files = [''/w/a'' \<mapsto> ''one''], dk_dirs = []\<rparr>"

definition write_to :: "nat \<Rightarrow> ck_fault \<Rightarrow> string \<Rightarrow> string \<Rightarrow> write_call" where
  "write_to n fault path c = \<lparr>wc_tip = Some (Some n), wc_fault = fault, wc_path = path, wc_content = c\<rparr>"


text \<open>
  A snapshot whose manifest could not be written is not taken, but remembered: the write is refused as
  it should be, yet the next attempt passes without a snapshot, the file is overwritten, and restoring finds
  nothing to restore.
\<close>

theorem failed_manifest_loses_snapshot:
  assumes "\<not> protected_path root path" and "dirs_ok s (dk_dirs disk)" and "s < n"
  shows "dk_files (snd (guarded_write root (write_to n ManifestFails path c) (new_sink, disk))) = dk_files disk \<and>
    (let x = fold (guarded_write root) [write_to n ManifestFails path c, write_to n NoFault path c] (new_sink, disk)
     in dk_files (snd x) path = Some c \<and>
        restore fails s (snd x) = ([NothingToRestore], snd x))"
proof -
  have d: "manifest_entries (dir_of n (dk_dirs disk)) = []" "dirs_ok n (dk_dirs disk)"
    using new_dir_entries [OF assms(2,3)] by simp_all
  have before: "listed (seq_dirs s (before_dir n (dk_dirs disk))) = []"
    using split_last [OF d(2), of s] nothing_listed [OF assms(2)] by simp
  have quiet: "listed (seq_dirs s (dk_dirs (put_dir n dd disk))) = []" if "manifest_entries dd = []" for dd
    using listed_put [OF d(2) assms(3), of dd] before that by simp
  obtain sink disk1 where first: "snapshot root (Some (Some n)) ManifestFails path new_sink disk = (Some SnapshotFailed, sink, disk1)"
      and s1: "sk_seq sink = Some n" "path \<in> set (map ck_path (sk_entries sink))" "dk_files disk1 = dk_files disk"
      and d1: "\<exists>dd. disk1 = put_dir n dd disk \<and> manifest_entries dd = []"
  proof (cases "dk_files disk path")
    case None
    then show ?thesis using assms(1) d(1) that
      by (simp add: snapshot_def new_sink_def add_entry_def Let_def put_dir_def exI [of _ "dir_of n (dk_dirs disk)"])
  next
    case (Some old)
    let ?dd = "dir_of n (dk_dirs disk)\<lparr>kd_blobs := AList.update 0 old (kd_blobs (dir_of n (dk_dirs disk)))\<rparr>"
    have "manifest_entries ?dd = []" using d(1) by (simp add: manifest_entries_def)
    then show ?thesis using assms(1) Some that
      by (simp add: snapshot_def new_sink_def add_entry_def Let_def put_dir_def exI [of _ ?dd])
  qed
  have second: "snapshot root (Some (Some n)) NoFault path sink disk1 = (None, sink, put_dir n (dir_of n (dk_dirs disk1)) disk1)"
    using assms(1) s1 by (simp add: snapshot_def Let_def)
  obtain dd where dd: "disk1 = put_dir n dd disk" "manifest_entries dd = []" using d1 by blast
  have "put_dir n (dir_of n (dk_dirs disk1)) disk1 = put_dir n dd disk"
    unfolding dd(1) by (simp add: dir_of_put_dir) (simp add: put_dir_def)
  then show ?thesis
    using first second s1(3) quiet [OF dd(2)]
    by (simp add: guarded_write_def write_to_def restore_def restore_plan_def Let_def)
qed

theorem failed_manifest_loses_snapshot_witness:
  "restore (\<lambda>_. False) 4 (snd (fold (guarded_write ''/w'')
     [write_to 5 ManifestFails ''/w/a'' ''two'', write_to 5 NoFault ''/w/a'' ''two''] (new_sink, sample_disk))) =
   ([NothingToRestore], snd (fold (guarded_write ''/w'')
     [write_to 5 ManifestFails ''/w/a'' ''two'', write_to 5 NoFault ''/w/a'' ''two''] (new_sink, sample_disk)))"
proof -
  have "\<not> protected_path ''/w'' ''/w/a''" by (simp add: protected_path_def starts_with_text_def)
  moreover have "dirs_ok 4 (dk_dirs sample_disk)" by (simp add: dirs_ok_def sample_disk_def)
  ultimately show ?thesis
    using failed_manifest_loses_snapshot [of "''/w''" "''/w/a''" 4 sample_disk 5 "''two''" "\<lambda>_. False"]
    by (simp only: Let_def) simp
qed

end
