(* ===== verification/Session_Codec.thy ===== *)
theory Session_Codec
  imports Session_State Json_Text
begin

section \<open>The lines of a session file\<close>

text \<open>
  The codec of \<open>avid/session/jsonl.py\<close>: a header line and one transaction line per commit, to and
  from JSON text, and the cutting of a file into complete lines. Text is over the code points of
  \<open>char\<close>; floats are not modelled, so a line with a float is one that does not parse. Where Python
  tests \<open>isinstance(x, int)\<close>, \<open>as_int\<close> also takes booleans, as Python does.
\<close>

definition FORMAT_VERSION :: int where "FORMAT_VERSION = 1"
definition HEADER_KIND :: string where "HEADER_KIND = ''header''"

record jsonl_header =
  jh_id :: string
  jh_storage_version :: int
  jh_created_at :: int
  jh_parent :: "string option"
  jh_next_seq :: "int option"
  jh_workspace :: "string option"

definition optional_field :: "string \<Rightarrow> ('a \<Rightarrow> pyval) \<Rightarrow> 'a option \<Rightarrow> pydict" where
  "optional_field k f v = (case v of None \<Rightarrow> [] | Some x \<Rightarrow> [(k, f x)])"

definition header_dict :: "jsonl_header \<Rightarrow> pydict" where
  "header_dict h =
     [(''v'', PInt FORMAT_VERSION), (''kind'', PStr HEADER_KIND), (''id'', PStr (jh_id h)),
      (''storageVersion'', PInt (jh_storage_version h)), (''createdAt'', PInt (jh_created_at h))]
     @ optional_field ''parentSessionId'' PStr (jh_parent h)
     @ optional_field ''nextSeq'' PInt (jh_next_seq h)
     @ optional_field ''workspaceId'' PStr (jh_workspace h)"

definition encode_header :: "jsonl_header \<Rightarrow> string" where
  "encode_header h = dumps (PDict (header_dict h))"

text \<open>An optional field that is absent or null is \<open>Some None\<close>; \<open>None\<close> is one of the wrong type.\<close>

definition opt_str :: "pyval \<Rightarrow> string option option" where
  "opt_str v = (case v of PNone \<Rightarrow> Some None | PStr s \<Rightarrow> Some (Some s) | _ \<Rightarrow> None)"

definition opt_int :: "pyval \<Rightarrow> int option option" where
  "opt_int v = (case v of PNone \<Rightarrow> Some None | _ \<Rightarrow> map_option Some (as_int v))"

definition header_of :: "pydict \<Rightarrow> storage_cause + jsonl_header" where
  "header_of r =
     (if dget r ''kind'' \<noteq> PStr HEADER_KIND then Inl HeaderBadKind
      else if as_int (dget r ''v'') \<noteq> Some FORMAT_VERSION then Inl HeaderBadVersion
      else case as_str (dget r ''id'') of
        None \<Rightarrow> Inl HeaderNoId
      | Some i \<Rightarrow>
        (if i = [] then Inl HeaderNoId
         else case as_int (dget r ''storageVersion'') of
           None \<Rightarrow> Inl HeaderBadStorageVersion
         | Some sv \<Rightarrow>
           (if sv < 1 then Inl HeaderBadStorageVersion
            else case as_int (dget r ''createdAt'') of
              None \<Rightarrow> Inl HeaderBadCreatedAt
            | Some created \<Rightarrow>
              (if created < 0 then Inl HeaderBadCreatedAt
               else case opt_str (dget r ''parentSessionId'') of
                 None \<Rightarrow> Inl HeaderBadParent
               | Some parent \<Rightarrow>
                 (case opt_int (dget r ''nextSeq'') of
                    None \<Rightarrow> Inl HeaderBadNextSeq
                  | Some next \<Rightarrow>
                    (if next \<noteq> None \<and> the next < 1 then Inl HeaderBadNextSeq
                     else case opt_str (dget r ''workspaceId'') of
                       None \<Rightarrow> Inl HeaderBadWorkspace
                     | Some ws \<Rightarrow>
                       (if ws = Some [] then Inl HeaderBadWorkspace
                        else Inr \<lparr>jh_id = i, jh_storage_version = sv, jh_created_at = created,
                                  jh_parent = parent, jh_next_seq = next, jh_workspace = ws\<rparr>)))))))"

definition parse_header :: "string \<Rightarrow> storage_cause + jsonl_header" where
  "parse_header line =
     (case loads line of
        None \<Rightarrow> Inl HeaderNotJson
      | Some (PDict r) \<Rightarrow> header_of r
      | Some _ \<Rightarrow> Inl HeaderNotObject)"

subsection \<open>Transactions\<close>

fun opt_id :: "string option \<Rightarrow> pyval" where
  "opt_id None = PNone"
| "opt_id (Some i) = PStr i"

fun encode_write :: "committed_write \<Rightarrow> pydict" where
  "encode_write (CommittedEntry seq ts e) =
     [(''kind'', PStr ''entry''), (''seq'', PInt seq), (''timestamp'', PInt ts),
      (''id'', PStr (ne_id e)), (''parentId'', opt_id (ne_parent_id e)), (''type'', PStr (ne_type e))]
     @ optional_field ''message'' PDict (ne_message e)"
| "encode_write (CommittedValueSet seq ns k v) =
     [(''kind'', PStr ''value''), (''op'', PStr ''set''), (''seq'', PInt seq),
      (''namespace'', PStr ns), (''key'', PStr k), (''value'', v)]"
| "encode_write (CommittedValueDelete seq ns k) =
     [(''kind'', PStr ''value''), (''op'', PStr ''delete''), (''seq'', PInt seq),
      (''namespace'', PStr ns), (''key'', PStr k)]"

definition decode_entry :: "int \<Rightarrow> pydict \<Rightarrow> storage_cause + committed_write" where
  "decode_entry seq r =
     (case as_str (dget r ''id'') of
        None \<Rightarrow> Inl EntryNoId
      | Some i \<Rightarrow>
        (if i = [] then Inl EntryNoId
         else case opt_str (dget r ''parentId'') of
           None \<Rightarrow> Inl EntryBadParent
         | Some parent \<Rightarrow>
           (case as_str (dget r ''type'') of
              None \<Rightarrow> Inl EntryNoType
            | Some ty \<Rightarrow>
              (case as_int (dget r ''timestamp'') of
                 None \<Rightarrow> Inl EntryBadTimestamp
               | Some ts \<Rightarrow>
                 (if ts < 0 then Inl EntryBadTimestamp
                  else case dget r ''message'' of
                    PNone \<Rightarrow> Inr (CommittedEntry seq ts
                      \<lparr>ne_id = i, ne_parent_id = parent, ne_type = ty, ne_message = None\<rparr>)
                  | PDict m \<Rightarrow> Inr (CommittedEntry seq ts
                      \<lparr>ne_id = i, ne_parent_id = parent, ne_type = ty, ne_message = Some m\<rparr>)
                  | _ \<Rightarrow> Inl EntryBadMessage)))))"

definition decode_value :: "int \<Rightarrow> pydict \<Rightarrow> storage_cause + committed_write" where
  "decode_value seq r =
     (case as_str (dget r ''namespace'') of
        None \<Rightarrow> Inl ValueBadNamespace
      | Some ns \<Rightarrow>
        (if ns = [] then Inl ValueBadNamespace
         else case as_str (dget r ''key'') of
           None \<Rightarrow> Inl ValueBadKey
         | Some k \<Rightarrow>
           (if dget r ''op'' = PStr ''set'' then Inr (CommittedValueSet seq ns k (dget r ''value''))
            else if dget r ''op'' = PStr ''delete'' then Inr (CommittedValueDelete seq ns k)
            else Inl ValueBadOp)))"

definition decode_write :: "pyval \<Rightarrow> storage_cause + committed_write" where
  "decode_write record =
     (case record of
        PDict r \<Rightarrow>
          (case as_int (dget r ''seq'') of
             None \<Rightarrow> Inl WriteBadSeq
           | Some seq \<Rightarrow>
             (if seq < 1 then Inl WriteBadSeq
              else if dget r ''kind'' = PStr ''entry'' then decode_entry seq r
              else if dget r ''kind'' = PStr ''value'' then decode_value seq r
              else Inl WriteBadKind))
      | _ \<Rightarrow> Inl WriteNotObject)"

definition encode_transaction :: "committed_write list \<Rightarrow> string" where
  "encode_transaction ws =
     (case map (\<lambda>w. PDict (encode_write w)) ws of
        [r] \<Rightarrow> dumps r
      | rs \<Rightarrow> dumps (PList rs))"

fun decode_all :: "pyval list \<Rightarrow> storage_cause + committed_write list" where
  "decode_all [] = Inr []"
| "decode_all (r # rs) =
     (case decode_write r of
        Inl e \<Rightarrow> Inl e
      | Inr w \<Rightarrow> map_sum id ((#) w) (decode_all rs))"

definition parse_transaction :: "string \<Rightarrow> storage_cause + committed_write list" where
  "parse_transaction line =
     (case loads line of
        None \<Rightarrow> Inl TransactionNotJson
      | Some payload \<Rightarrow>
          (let records = (case payload of PList rs \<Rightarrow> rs | _ \<Rightarrow> [payload])
           in if records = [] then Inl TransactionEmpty else decode_all records))"

subsection \<open>Lines\<close>


text \<open>Reading a text file turns every \<open>\r\n\<close> and lone \<open>\r\<close> into \<open>\n\<close>.\<close>

fun universal_newlines :: "string \<Rightarrow> string" where
  "universal_newlines [] = []"
| "universal_newlines (c # cs) =
     (if c = CHR 0x0D
      then LF # (case cs of [] \<Rightarrow> [] | d # ds \<Rightarrow> if d = LF then universal_newlines ds
                                                       else universal_newlines cs)
      else c # universal_newlines cs)"

fun split_on :: "char \<Rightarrow> string \<Rightarrow> string list" where
  "split_on sep [] = [[]]"
| "split_on sep (c # cs) =
     (if c = sep then [] # split_on sep cs
      else case split_on sep cs of [] \<Rightarrow> [[c]] | l # ls \<Rightarrow> (c # l) # ls)"

definition split_complete_lines :: "string \<Rightarrow> string list \<times> bool" where
  "split_complete_lines content =
     (if content \<noteq> [] \<and> last content = LF then (split_on LF (butlast content), False)
      else if LF \<notin> set content then ([], True)
      else (split_on LF (rev (tl (dropWhile (\<lambda>c. c \<noteq> LF) (rev content)))), True))"

definition lines_text :: "string list \<Rightarrow> string" where
  "lines_text ls = join_with [LF] ls @ [LF]"

subsection \<open>Round trips\<close>

definition header_ok :: "jsonl_header \<Rightarrow> bool" where
  "header_ok h \<longleftrightarrow> jh_id h \<noteq> [] \<and> 1 \<le> jh_storage_version h \<and> 0 \<le> jh_created_at h \<and>
     (case jh_next_seq h of None \<Rightarrow> True | Some n \<Rightarrow> 1 \<le> n) \<and> jh_workspace h \<noteq> Some []"

fun write_ok :: "committed_write \<Rightarrow> bool" where
  "write_ok (CommittedEntry seq ts e) \<longleftrightarrow> 1 \<le> seq \<and> 0 \<le> ts \<and> ne_id e \<noteq> [] \<and>
     (case ne_message e of None \<Rightarrow> True | Some m \<Rightarrow> json_wf (PDict m))"
| "write_ok (CommittedValueSet seq ns k v) \<longleftrightarrow> 1 \<le> seq \<and> ns \<noteq> [] \<and> json_wf v"
| "write_ok (CommittedValueDelete seq ns k) \<longleftrightarrow> 1 \<le> seq \<and> ns \<noteq> []"

lemma header_roundtrip:
  assumes "header_ok h"
  shows "parse_header (encode_header h) = Inr h"
proof -
  have wf: "json_wf (PDict (header_dict h))"
    by (auto simp: header_dict_def optional_field_def split: option.splits)
  have "header_of (header_dict h) = Inr h"
    using assms
    by (cases "jh_parent h"; cases "jh_next_seq h"; cases "jh_workspace h")
       (auto simp: header_of_def header_dict_def header_ok_def optional_field_def opt_str_def
          opt_int_def)
  then show ?thesis
    using json_roundtrip [OF wf] by (simp add: parse_header_def encode_header_def)
qed

lemma decode_encode_write:
  assumes "write_ok w"
  shows "decode_write (PDict (encode_write w)) = Inr w"
proof (cases w)
  case (CommittedEntry seq ts e)
  then show ?thesis
    using assms
    by (cases e; cases "ne_parent_id e"; cases "ne_message e")
       (auto simp: decode_write_def decode_entry_def optional_field_def opt_str_def)
qed (use assms in \<open>auto simp: decode_write_def decode_value_def\<close>)

lemma json_wf_opt_id [simp]: "json_wf (opt_id p)"
  by (cases p) auto

lemma json_wf_write: "write_ok w \<Longrightarrow> json_wf (PDict (encode_write w))"
  by (cases w) (auto simp: optional_field_def split: option.splits)

lemma decode_all_encode:
  "\<forall>w\<in>set ws. write_ok w \<Longrightarrow> decode_all (map (\<lambda>w. PDict (encode_write w)) ws) = Inr ws"
  by (induction ws) (simp_all add: decode_encode_write)

lemma transaction_roundtrip:
  assumes "ws \<noteq> []" and "\<forall>w\<in>set ws. write_ok w"
  shows "parse_transaction (encode_transaction ws) = Inr ws"
proof -
  let ?rs = "map (\<lambda>w. PDict (encode_write w)) ws"
  have wf: "\<forall>r\<in>set ?rs. json_wf r" using assms(2) json_wf_write by auto
  show ?thesis
  proof (cases "length ws = 1")
    case True
    then obtain w where w: "ws = [w]" by (auto simp: length_Suc_conv)
    then have "loads (encode_transaction ws) = Some (PDict (encode_write w))"
      using wf json_roundtrip [of "PDict (encode_write w)"] by (simp add: encode_transaction_def)
    then show ?thesis using decode_all_encode [OF assms(2)] w by (simp add: parse_transaction_def)
  next
    case False
    have "encode_transaction ws = dumps (PList ?rs)"
      using False assms(1) by (cases ws rule: list.exhaust; cases "tl ws") (auto simp: encode_transaction_def)
    then have "loads (encode_transaction ws) = Some (PList ?rs)"
      using wf json_roundtrip [of "PList ?rs"] by simp
    then show ?thesis
      using decode_all_encode [OF assms(2)] assms(1) by (simp add: parse_transaction_def)
  qed
qed

subsection \<open>Cutting a file into lines\<close>

lemma split_on_none: "sep \<notin> set s \<Longrightarrow> split_on sep s = [s]"
  by (induction s) auto

lemma split_on_cons: "sep \<notin> set s \<Longrightarrow> split_on sep (s @ sep # t) = s # split_on sep t"
  by (induction s) auto

lemma split_on_join:
  "\<lbrakk>ls \<noteq> []; \<forall>l\<in>set ls. sep \<notin> set l\<rbrakk> \<Longrightarrow> split_on sep (join_with [sep] ls) = ls"
proof (induction "[sep]" ls rule: join_with.induct)
  case (3 x y ys)
  then show ?case by (simp add: split_on_cons)
qed (simp_all add: split_on_none)

lemma join_with_snoc: "ls \<noteq> [] \<Longrightarrow> join_with sep (ls @ [l]) = join_with sep ls @ sep @ l"
  by (induction sep ls rule: join_with.induct) (auto simp: neq_Nil_conv)

lemma lines_text_snoc: "ls \<noteq> [] \<Longrightarrow> lines_text (ls @ [l]) = lines_text ls @ l @ [LF]"
  by (simp add: lines_text_def join_with_snoc)

lemma split_lines_text:
  assumes "ls \<noteq> []" and "\<forall>l\<in>set ls. LF \<notin> set l"
  shows "split_complete_lines (lines_text ls) = (ls, False)"
  using split_on_join [OF assms] by (simp add: split_complete_lines_def lines_text_def)

lemma split_torn_text:
  assumes "ls \<noteq> []" and "\<forall>l\<in>set ls. LF \<notin> set l" and "t \<noteq> []" and "LF \<notin> set t"
  shows "split_complete_lines (lines_text ls @ t) = (ls, True)"
proof -
  have "last t \<noteq> LF" using assms(3,4) by (metis last_in_set)
  moreover have "dropWhile (\<lambda>c. c \<noteq> LF) (rev (lines_text ls @ t)) = rev (lines_text ls)"
    using assms(4) by (simp add: lines_text_def dropWhile_append)
  ultimately show ?thesis
    using split_on_join [OF assms(1,2)] assms(3)
    by (simp add: split_complete_lines_def lines_text_def)
qed

lemma universal_newlines_id: "CHR 0x0D \<notin> set s \<Longrightarrow> universal_newlines s = s"
  by (induction s rule: universal_newlines.induct) auto

lemma set_join_with: "set (join_with sep ls) \<subseteq> set sep \<union> \<Union> (set ` set ls)"
  by (induction sep ls rule: join_with.induct) auto

lemma encoded_lines:
  "LF \<notin> set (encode_header h)" "CHR 0x0D \<notin> set (encode_header h)"
  "LF \<notin> set (encode_transaction ws)" "CHR 0x0D \<notin> set (encode_transaction ws)"
  "encode_header h \<noteq> []"
proof -
  have cr: "CHR 0x0D \<notin> set (dumps v)" for v
    using printable_dumps [of v] by (auto simp: printable_def)
  show "LF \<notin> set (encode_header h)" "CHR 0x0D \<notin> set (encode_header h)"
    unfolding encode_header_def by (rule dumps_no_newline, rule cr)
  have "encode_transaction ws \<in> range dumps"
    unfolding encode_transaction_def by (auto simp del: dumps.simps split: list.splits)
  then show "LF \<notin> set (encode_transaction ws)" "CHR 0x0D \<notin> set (encode_transaction ws)"
    using dumps_no_newline cr by auto
  show "encode_header h \<noteq> []" by (simp add: encode_header_def header_dict_def)
qed

subsection \<open>Properties\<close>

text \<open>
  C26. Every transaction the codec writes as a line it reads back as the same writes, and the line has
  no line break in it, so that a file can be cut into its commits again.
\<close>

theorem transaction_line_roundtrip:
  assumes "ws \<noteq> []" and "\<forall>w\<in>set ws. write_ok w"
  shows "parse_transaction (encode_transaction ws) = Inr ws \<and> LF \<notin> set (encode_transaction ws)"
  using transaction_roundtrip [OF assms] encoded_lines(3) by blast

theorem transaction_line_roundtrip_witness:
  "parse_transaction (encode_transaction [CommittedValueSet 3 ''ns'' ''k'' (PList [PInt (- 4), PStr ''a b'']),
     CommittedValueDelete 4 ''ns'' ''k'']) =
   Inr [CommittedValueSet 3 ''ns'' ''k'' (PList [PInt (- 4), PStr ''a b'']), CommittedValueDelete 4 ''ns'' ''k'']"
  using transaction_line_roundtrip [of "[CommittedValueSet 3 ''ns'' ''k'' (PList [PInt (- 4), PStr ''a b'']),
     CommittedValueDelete 4 ''ns'' ''k'']"] by simp

end
