(* ===== verification/Agent_Files.thy ===== *)
theory Agent_Files
  imports Agent_Checkpoints Session_Projection Session_Codec
begin

section \<open>The file tools\<close>

text \<open>
  The tools \<open>read_file\<close>, \<open>write_file\<close> and \<open>edit_file\<close> of \<open>avid/agent/tools/files.py\<close>. Resolving a
  path, the test for sensitive paths, the directories and the decoding of a file are parameters; files
  are the characters they decode to, with their line ends as they are on disk. Answers are values, an
  error one of a datatype instead of a text. \<open>glob_files\<close> only lists what the file system finds.
\<close>

definition MAX_READ_CHARS :: nat where "MAX_READ_CHARS = 20000"
definition MAX_READ_LINES :: nat where "MAX_READ_LINES = 2000"

subsection \<open>The environment\<close>

text \<open>A write that fails may leave a part of the new content in the file.\<close>

datatype write_fault = WriteOk | WriteRefused | WriteTorn string

record file_env =
  fe_root :: string
  fe_resolve :: "string \<Rightarrow> string + string"
  fe_sensitive :: "string \<Rightarrow> string option"
  fe_is_dir :: "string \<Rightarrow> bool"
  fe_decodes :: "string \<Rightarrow> bool"
  fe_snapshots :: bool
  fe_tip :: "nat option option"
  fe_fault :: ck_fault
  fe_read_fails :: bool
  fe_write :: write_fault

datatype file_error =
    Unresolved string
  | ProtectedPath string
  | FileMissing
  | IsDirectory
  | NoContentString
  | NoOldString
  | NoNewString
  | ReadFailed
  | OffsetBeyond nat nat
  | OldNotFound
  | OldNotUnique nat
  | SnapshotRefused ck_refusal
  | WriteFailedWith write_fault

definition path_arg :: "pydict \<Rightarrow> string" where
  "path_arg args = (case map_of args ''path'' of None \<Rightarrow> [] | Some v \<Rightarrow> py_str v)"

text \<open>The path of a call, if it resolves and is not protected.\<close>

definition allowed_path :: "file_env \<Rightarrow> pydict \<Rightarrow> file_error + string" where
  "allowed_path fe args =
     (case fe_resolve fe (path_arg args) of
        Inl e \<Rightarrow> Inl (Unresolved e)
      | Inr path \<Rightarrow>
          (case fe_sensitive fe path of Some r \<Rightarrow> Inl (ProtectedPath r) | None \<Rightarrow> Inr path))"

definition path_exists :: "file_env \<Rightarrow> ck_disk \<Rightarrow> string \<Rightarrow> bool" where
  "path_exists fe disk path \<longleftrightarrow> dk_files disk path \<noteq> None \<or> fe_is_dir fe path"

subsection \<open>Reading\<close>

definition int_arg :: "pyval \<Rightarrow> nat \<Rightarrow> nat \<Rightarrow> nat" where
  "int_arg v fallback minimum =
     (case (case v of PInt i \<Rightarrow> Some i | PBool b \<Rightarrow> Some (if b then 1 else 0) | PStr s \<Rightarrow> int_of_str s | _ \<Rightarrow> None) of
        None \<Rightarrow> fallback | Some i \<Rightarrow> nat (max i (int minimum)))"

definition file_lines :: "string \<Rightarrow> string list" where
  "file_lines content =
     (let ls = split_on LF (universal_newlines content) in if last ls = [] then butlast ls else ls)"

definition count_lines :: "string \<Rightarrow> nat" where
  "count_lines content =
     (let n = length (filter (\<lambda>c. c = LF) content)
      in if n \<noteq> 0 \<and> last content \<noteq> LF then n + 1 else n)"

fun read_window :: "nat \<Rightarrow> nat \<Rightarrow> nat \<Rightarrow> string list \<Rightarrow> string list \<Rightarrow> string list \<times> bool" where
  "read_window number offset limit window [] = (window, False)"
| "read_window number offset limit window (line # ls) =
     (if number < offset then read_window (Suc number) offset limit window ls
      else if length window = limit then (window, True)
      else read_window (Suc number) offset limit (window @ [line]) ls)"

record read_answer =
  ra_text :: string
  ra_chars_cut :: bool
  ra_lines_cut :: "nat option"

definition read_file :: "file_env \<Rightarrow> pydict \<Rightarrow> ck_disk \<Rightarrow> file_error + read_answer" where
  "read_file fe args disk =
     (case allowed_path fe args of
        Inl e \<Rightarrow> Inl e
      | Inr path \<Rightarrow>
          (if \<not> path_exists fe disk path then Inl FileMissing
           else if fe_is_dir fe path then Inl IsDirectory
           else
             (let offset = int_arg (dget args ''offset'') 1 1;
                  limit = int_arg (dget args ''limit'') MAX_READ_LINES 1
              in case (if fe_read_fails fe then None else dk_files disk path) of
                   None \<Rightarrow> Inl ReadFailed
                 | Some content \<Rightarrow>
                     (let (window, hit_limit) = read_window 1 offset limit [] (file_lines content)
                      in if window = [] then
                           (if offset = 1
                            then Inr \<lparr>ra_text = [], ra_chars_cut = False, ra_lines_cut = None\<rparr>
                            else Inl (OffsetBeyond offset (count_lines content)))
                         else
                           (let t = join_with [LF] window
                            in Inr \<lparr>ra_text = (if MAX_READ_CHARS < length t then take MAX_READ_CHARS t else t),
                                    ra_chars_cut = (MAX_READ_CHARS < length t),
                                    ra_lines_cut = (if hit_limit then Some (count_lines content) else None)\<rparr>)))))"

subsection \<open>Writing\<close>

definition snapshot_before_write ::
  "file_env \<Rightarrow> string \<Rightarrow> ck_sink \<times> ck_disk \<Rightarrow> ck_refusal option \<times> ck_sink \<times> ck_disk" where
  "snapshot_before_write fe path s =
     (if fe_snapshots fe then snapshot (fe_root fe) (fe_tip fe) (fe_fault fe) path (fst s) (snd s)
      else (None, s))"

definition put_text :: "file_env \<Rightarrow> string \<Rightarrow> string \<Rightarrow> ck_disk \<Rightarrow> bool \<times> ck_disk" where
  "put_text fe path content disk =
     (case fe_write fe of
        WriteOk \<Rightarrow> (True, disk\<lparr>dk_files := (dk_files disk)(path \<mapsto> content)\<rparr>)
      | WriteRefused \<Rightarrow> (False, disk)
      | WriteTorn part \<Rightarrow> (False, disk\<lparr>dk_files := (dk_files disk)(path \<mapsto> part)\<rparr>))"

definition checked_write ::
  "file_env \<Rightarrow> string \<Rightarrow> string \<Rightarrow> 'a \<Rightarrow> ck_sink \<times> ck_disk \<Rightarrow> (file_error + 'a) \<times> ck_sink \<times> ck_disk" where
  "checked_write fe path content answer s =
     (let (refused, sink, disk) = snapshot_before_write fe path s
      in case refused of
           Some r \<Rightarrow> (Inl (SnapshotRefused r), sink, disk)
         | None \<Rightarrow>
             (let (written, disk) = put_text fe path content disk
              in (if written then Inr answer else Inl (WriteFailedWith (fe_write fe)), sink, disk)))"

text \<open>The answer of \<open>write_file\<close>: whether the file was there, its lines and characters.\<close>

definition write_file ::
  "file_env \<Rightarrow> pydict \<Rightarrow> ck_sink \<times> ck_disk \<Rightarrow> (file_error + bool \<times> nat \<times> nat) \<times> ck_sink \<times> ck_disk" where
  "write_file fe args s =
     (case allowed_path fe args of
        Inl e \<Rightarrow> (Inl e, s)
      | Inr path \<Rightarrow>
          (case dget args ''content'' of
             PStr content \<Rightarrow>
               (if fe_is_dir fe path then (Inl IsDirectory, s)
                else checked_write fe path content
                       (path_exists fe (snd s) path, length (filter (\<lambda>c. c = LF) content) + 1, length content) s)
           | _ \<Rightarrow> (Inl NoContentString, s)))"

text \<open>\<open>text.count(old)\<close> counts occurrences that do not overlap; \<open>text.replace(old, new, 1)\<close>.\<close>

function count_text :: "string \<Rightarrow> string \<Rightarrow> nat" where
  "count_text old [] = 0"
| "count_text old (c # cs) =
     (if starts_with_text old (c # cs) then Suc (count_text old (drop (length old - 1) cs))
      else count_text old cs)"
  by pat_completeness auto
termination
  by (relation "measure (\<lambda>(old, t). length t)") auto

fun replace_first :: "string \<Rightarrow> string \<Rightarrow> string \<Rightarrow> string" where
  "replace_first old new [] = []"
| "replace_first old new (c # cs) =
     (if starts_with_text old (c # cs) then new @ drop (length old) (c # cs)
      else c # replace_first old new cs)"

definition edit_file ::
  "file_env \<Rightarrow> pydict \<Rightarrow> ck_sink \<times> ck_disk \<Rightarrow> (file_error + unit) \<times> ck_sink \<times> ck_disk" where
  "edit_file fe args s =
     (case allowed_path fe args of
        Inl e \<Rightarrow> (Inl e, s)
      | Inr path \<Rightarrow>
          (case (dget args ''old_string'', dget args ''new_string'') of
             (PStr old, v) \<Rightarrow>
               (if old = [] then (Inl NoOldString, s)
                else case v of
                  PStr new \<Rightarrow>
                    (if \<not> path_exists fe (snd s) path then (Inl FileMissing, s)
                     else if fe_is_dir fe path then (Inl IsDirectory, s)
                     else case dk_files (snd s) path of
                       None \<Rightarrow> (Inl ReadFailed, s)
                     | Some content \<Rightarrow>
                         (if fe_read_fails fe \<or> \<not> fe_decodes fe content then (Inl ReadFailed, s)
                          else
                            (let t = universal_newlines content; n = count_text old t
                             in if n = 0 then (Inl OldNotFound, s)
                                else if n > 1 then (Inl (OldNotUnique n), s)
                                else checked_write fe path (replace_first old new t) () s)))
                | _ \<Rightarrow> (Inl NoNewString, s))
           | _ \<Rightarrow> (Inl NoOldString, s)))"

subsection \<open>Facts\<close>

lemma read_window_spec:
  assumes "number = Suc (length done)" and "0 < limit" and "0 < offset"
    and "window = take limit (drop (offset - 1) done)" and "length done \<le> offset - 1 + limit"
  shows "read_window number offset limit window ls =
    (take limit (drop (offset - 1) (done @ ls)), offset - 1 + limit < length (done @ ls))"
  using assms
proof (induction ls arbitrary: number window "done")
  case Nil
  then show ?case by auto
next
  case (Cons line ls)
  show ?case
  proof (cases "number < offset")
    case True
    then have "window = []" "take limit (drop (offset - 1) (done @ [line])) = []"
      using Cons.prems by auto
    then show ?thesis
      using True Cons.IH [of "Suc number" "done @ [line]" "[]"] Cons.prems by simp
  next
    case False
    then have d: "offset - 1 \<le> length done" using Cons.prems by simp
    have len: "length window = min limit (length done - (offset - 1))" using Cons.prems(4) by simp
    show ?thesis
    proof (cases "length window = limit")
      case True
      then have "offset - 1 + limit \<le> length done" using len Cons.prems(2) by (simp add: min_def split: if_splits)
      then show ?thesis using False True Cons.prems(4) by simp
    next
      case room: False
      then have "length done - (offset - 1) < limit" using len by simp
      then have "window @ [line] = take limit (drop (offset - 1) (done @ [line]))"
        using Cons.prems(4) d by (simp add: Suc_diff_le)
      then show ?thesis
        using False room d Cons.IH [of "Suc number" "done @ [line]" "window @ [line]"] Cons.prems(1-3)
          \<open>length done - (offset - 1) < limit\<close>
        by simp
    qed
  qed
qed

lemma read_window_page:
  assumes "0 < limit" and "0 < offset"
  shows "read_window 1 offset limit [] ls = (take limit (drop (offset - 1) ls), offset - 1 + limit < length ls)"
  using read_window_spec [of 1 "[]" limit offset "[]" ls] assms by simp

lemma pages_cover: "concat (map (\<lambda>k. take l (drop (k * l) xs)) [0..<n]) = take (n * l) xs"
proof (induction n)
  case (Suc n)
  then show ?case by (simp add: take_add [symmetric] add.commute)
qed simp

lemma starts_with_split: "starts_with_text p s \<longleftrightarrow> (\<exists>r. s = p @ r)"
  by (auto simp: starts_with_text_def) (metis append_take_drop_id)

lemma count_text_pos:
  assumes "old \<noteq> []"
  shows "0 < count_text old t \<longleftrightarrow> (\<exists>pre post. t = pre @ old @ post)"
proof (induction t)
  case Nil
  then show ?case using assms by simp
next
  case (Cons c cs)
  show ?case
  proof (cases "starts_with_text old (c # cs)")
    case True
    then obtain r where "c # cs = [] @ old @ r" by (auto simp: starts_with_split)
    moreover have "0 < count_text old (c # cs)" using True by simp
    ultimately show ?thesis by blast
  next
    case False
    then have "(\<exists>pre post. c # cs = pre @ old @ post) \<longleftrightarrow> (\<exists>pre post. cs = pre @ old @ post)"
      unfolding starts_with_split by (metis append_Cons append_Nil list.exhaust list.sel(3))
    then show ?thesis using False Cons.IH by simp
  qed
qed

lemma replace_first_spec:
  assumes "0 < count_text old t" and "old \<noteq> []"
  shows "\<exists>pre post. t = pre @ old @ post \<and> replace_first old new t = pre @ new @ post"
  using assms(1)
proof (induction t)
  case (Cons c cs)
  show ?case
  proof (cases "starts_with_text old (c # cs)")
    case True
    then obtain r where r: "c # cs = old @ r" by (auto simp: starts_with_split)
    have "replace_first old new (c # cs) = new @ drop (length old) (c # cs)" using True by simp
    also have "\<dots> = [] @ new @ r" unfolding r by simp
    finally have "replace_first old new (c # cs) = [] @ new @ r" .
    moreover have "c # cs = [] @ old @ r" using r by simp
    ultimately show ?thesis by blast
  next
    case False
    then obtain pre post where "cs = pre @ old @ post" "replace_first old new cs = pre @ new @ post"
      using Cons by auto
    then show ?thesis using False by (intro exI [of _ "c # pre"] exI [of _ post]) simp
  qed
qed simp

lemma universal_no_CR: "CHR 0x0D \<notin> set (universal_newlines s)"
  by (induction s rule: universal_newlines.induct) (auto split: list.splits)

text \<open>A write of a tool is the guarded write that rewinding undoes.\<close>

definition call_of :: "file_env \<Rightarrow> string \<Rightarrow> string \<Rightarrow> write_call" where
  "call_of fe path content =
     \<lparr>wc_tip = fe_tip fe, wc_fault = fe_fault fe, wc_path = path, wc_content = content\<rparr>"

lemma checked_write_guarded:
  assumes "fe_snapshots fe" and "fe_write fe = WriteOk"
  shows "snd (checked_write fe path content a s) = guarded_write (fe_root fe) (call_of fe path content) s"
  using assms
  by (auto simp: checked_write_def guarded_write_def call_of_def snapshot_before_write_def put_text_def
      Let_def case_prod_beta split: option.splits)

lemma snapshot_files: "dk_files (snd (snd (snapshot root tip fault path sink disk))) = dk_files disk"
  by (auto simp: snapshot_def add_entry_def Let_def split: option.splits ck_fault.splits)

lemma checked_write_done:
  assumes "checked_write fe path content a s = (Inr x, s')"
  shows "dk_files (snd s') = (dk_files (snd s))(path \<mapsto> content) \<and> x = a"
  using assms snapshot_files [of "fe_root fe" "fe_tip fe" "fe_fault fe" path "fst s" "snd s"]
  by (auto simp: checked_write_def snapshot_before_write_def put_text_def Let_def case_prod_beta
      split: option.splits write_fault.splits if_splits)

lemma checked_write_failed:
  assumes "checked_write fe path content a s = (Inl e, s')"
  shows "(\<forall>q. q \<noteq> path \<longrightarrow> dk_files (snd s') q = dk_files (snd s) q) \<and>
    ((\<forall>p. e \<noteq> WriteFailedWith (WriteTorn p)) \<longrightarrow> dk_files (snd s') = dk_files (snd s))"
  using assms snapshot_files [of "fe_root fe" "fe_tip fe" "fe_fault fe" path "fst s" "snd s"]
  by (auto simp: checked_write_def snapshot_before_write_def put_text_def Let_def case_prod_beta
      split: option.splits write_fault.splits if_splits)

lemma edit_file_writes:
  assumes "allowed_path fe args = Inr path" and "dget args ''old_string'' = PStr old" and "old \<noteq> []"
    and "dget args ''new_string'' = PStr new" and "\<not> fe_is_dir fe path"
    and "dk_files (snd s) path = Some content" and "\<not> fe_read_fails fe" and "fe_decodes fe content"
    and "count_text old (universal_newlines content) = 1"
  shows "edit_file fe args s =
    checked_write fe path (replace_first old new (universal_newlines content)) () s"
  using assms by (simp add: edit_file_def Let_def path_exists_def)

text \<open>An edit is either refused on the spot, or is the write of a file with one occurrence.\<close>

lemma edit_file_cases:
  obtains e where "edit_file fe args s = (Inl e, s)" "\<forall>f. e \<noteq> WriteFailedWith f"
  | path old new content where "allowed_path fe args = Inr path" "dget args ''old_string'' = PStr old"
      "old \<noteq> []" "dget args ''new_string'' = PStr new" "dk_files (snd s) path = Some content"
      "count_text old (universal_newlines content) = 1"
      "edit_file fe args s = checked_write fe path (replace_first old new (universal_newlines content)) () s"
proof (cases "allowed_path fe args")
  case (Inl e)
  then have "\<forall>f. e \<noteq> WriteFailedWith f" by (auto simp: allowed_path_def split: sum.splits option.splits)
  then show ?thesis using Inl that(1) [of e] by (simp add: edit_file_def)
next
  case path: (Inr path)
  show ?thesis
  proof (cases "\<exists>old. old \<noteq> [] \<and> dget args ''old_string'' = PStr old")
    case False
    then have "edit_file fe args s = (Inl NoOldString, s)"
      using path by (cases "dget args ''old_string''") (simp_all add: edit_file_def)
    then show ?thesis using that(1) by blast
  next
    case True
    then obtain old where old: "old \<noteq> []" "dget args ''old_string'' = PStr old" by blast
    show ?thesis
    proof (cases "\<exists>new. dget args ''new_string'' = PStr new")
      case False
      then have "edit_file fe args s = (Inl NoNewString, s)"
        using path old by (cases "dget args ''new_string''") (simp_all add: edit_file_def)
      then show ?thesis using that(1) by blast
    next
      case True
      then obtain new where new: "dget args ''new_string'' = PStr new" by blast
      note args = path old new
      show ?thesis
      proof (cases "\<not> path_exists fe (snd s) path \<or> fe_is_dir fe path")
        case True
        then have "edit_file fe args s = (Inl FileMissing, s) \<or> edit_file fe args s = (Inl IsDirectory, s)"
          using args by (simp add: edit_file_def)
        then show ?thesis using that(1) by blast
      next
        case there: False
        show ?thesis
        proof (cases "dk_files (snd s) path")
          case None
          then have "edit_file fe args s = (Inl ReadFailed, s)" using args there by (simp add: edit_file_def)
          then show ?thesis using that(1) by blast
        next
          case (Some content)
          let ?n = "count_text old (universal_newlines content)"
          show ?thesis
          proof (cases "fe_read_fails fe \<or> \<not> fe_decodes fe content \<or> ?n \<noteq> 1")
            case True
            then have "edit_file fe args s = (Inl ReadFailed, s) \<or> edit_file fe args s = (Inl OldNotFound, s) \<or>
                edit_file fe args s = (Inl (OldNotUnique ?n), s)"
              using args there Some by (auto simp: edit_file_def Let_def)
            then show ?thesis using that(1) by blast
          next
            case False
            then have "?n = 1" by simp
            moreover have "edit_file fe args s =
                checked_write fe path (replace_first old new (universal_newlines content)) () s"
              using False there Some path old new by (intro edit_file_writes) simp_all
            ultimately show ?thesis using that(2) [OF path old(2,1) new Some] by blast
          qed
        qed
      qed
    qed
  qed
qed

subsection \<open>Properties\<close>

text \<open>
  Reading in pages loses nothing and repeats nothing: a window is exactly the lines from its offset up
  to its limit, with a notice exactly if lines follow, and the windows that follow one another give back
  the lines of the file in order.
\<close>

theorem pages_are_the_file:
  assumes "0 < limit"
  shows "(\<forall>k. read_window 1 (k * limit + 1) limit [] ls =
      (take limit (drop (k * limit) ls), k * limit + limit < length ls)) \<and>
    concat (map (\<lambda>k. fst (read_window 1 (k * limit + 1) limit [] ls)) [0..<n]) = take (n * limit) ls"
proof -
  have page: "read_window 1 (k * limit + 1) limit [] ls =
      (take limit (drop (k * limit) ls), k * limit + limit < length ls)" for k
    using read_window_page [OF assms, of "k * limit + 1" ls] by simp
  show ?thesis unfolding page using pages_cover [of limit ls n] by simp
qed

theorem pages_are_the_file_witness:
  "fst (read_window 1 (1 * 2 + 1) 2 [] (file_lines (''a'' @ [LF] @ ''b'' @ [LF] @ ''c''))) = [''c'']"
proof -
  have "file_lines (''a'' @ [LF] @ ''b'' @ [LF] @ ''c'') = [''a'', ''b'', ''c'']" by code_simp
  moreover have "(0::nat) < 2" by simp
  ultimately show ?thesis using pages_are_the_file [of 2 "[''a'', ''b'', ''c'']"] by simp
qed

text \<open>
  An edit replaces one occurrence of the old string and nothing else of what was read, in one file, and
  is refused if the count is not one; but what is written is what was read, so every carriage return of
  the file is gone, and the count leaves out occurrences that overlap. An edit that is refused changes no
  file; only a write that fails half way does.
\<close>

theorem edit_replaces_what_was_read:
  "(edit_file fe args s = (Inr x, s') \<longrightarrow>
     (\<exists>path content old new pre post.
        allowed_path fe args = Inr path \<and> dk_files (snd s) path = Some content \<and>
        dget args ''old_string'' = PStr old \<and> dget args ''new_string'' = PStr new \<and>
        count_text old (universal_newlines content) = 1 \<and>
        universal_newlines content = pre @ old @ post \<and>
        dk_files (snd s') = (dk_files (snd s))(path \<mapsto> pre @ new @ post) \<and>
        CHR 0x0D \<notin> set pre \<union> set post)) \<and>
   (edit_file fe args s = (Inl e, s') \<longrightarrow> (\<forall>p. e \<noteq> WriteFailedWith (WriteTorn p)) \<longrightarrow>
     dk_files (snd s') = dk_files (snd s)) \<and>
   count_text ''aa'' ''aaa'' = 1"
proof (intro conjI impI)
  assume ok: "edit_file fe args s = (Inr x, s')"
  then show "\<exists>path content old new pre post.
      allowed_path fe args = Inr path \<and> dk_files (snd s) path = Some content \<and>
      dget args ''old_string'' = PStr old \<and> dget args ''new_string'' = PStr new \<and>
      count_text old (universal_newlines content) = 1 \<and>
      universal_newlines content = pre @ old @ post \<and>
      dk_files (snd s') = (dk_files (snd s))(path \<mapsto> pre @ new @ post) \<and>
      CHR 0x0D \<notin> set pre \<union> set post"
  proof (cases rule: edit_file_cases [of fe args s])
    case (1 e)
    then show ?thesis using ok by simp
  next
    case (2 path old new content)
    let ?t = "universal_newlines content"
    obtain pre post where split: "?t = pre @ old @ post" "replace_first old new ?t = pre @ new @ post"
      using replace_first_spec [of old ?t new] 2(3,6) by auto
    have "CHR 0x0D \<notin> set pre \<union> set post" using universal_no_CR [of content] unfolding split(1) by simp
    moreover have "dk_files (snd s') = (dk_files (snd s))(path \<mapsto> pre @ new @ post)"
      using checked_write_done [of fe path _ "()" s x s'] 2(7) ok split(2) by simp
    ultimately show ?thesis using 2 split(1) by blast
  qed
next
  assume failed: "edit_file fe args s = (Inl e, s')" and whole: "\<forall>p. e \<noteq> WriteFailedWith (WriteTorn p)"
  show "dk_files (snd s') = dk_files (snd s)"
  proof (cases rule: edit_file_cases [of fe args s])
    case (1 e)
    then show ?thesis using failed by simp
  next
    case (2 path old new content)
    then show ?thesis using failed whole checked_write_failed [of fe path _ "()" s e s'] by simp
  qed
qed code_simp

definition sample_files :: file_env where
  "sample_files =
     \<lparr>fe_root = ''/w'', fe_resolve = (\<lambda>raw. Inr (''/w/'' @ raw)), fe_sensitive = (\<lambda>_. None),
      fe_is_dir = (\<lambda>_. False), fe_decodes = (\<lambda>_. True), fe_snapshots = True, fe_tip = Some (Some 5),
      fe_fault = NoFault, fe_read_fails = False, fe_write = WriteOk\<rparr>"

definition dos_disk :: ck_disk where
  "dos_disk = \<lparr>dk_files = [''/w/a'' \<mapsto> ''one'' @ [CHR 0x0D, LF] @ ''two''], dk_dirs = []\<rparr>"

definition edit_args :: pydict where
  "edit_args = [(''path'', PStr ''a''), (''old_string'', PStr ''two''), (''new_string'', PStr ''2'')]"

lemma dos_edited:
  "fst (edit_file sample_files edit_args (new_sink, dos_disk)) = Inr () \<and>
   dk_files (snd (snd (edit_file sample_files edit_args (new_sink, dos_disk)))) ''/w/a'' = Some (''one'' @ [LF] @ ''2'')"
proof -
  have p: "allowed_path sample_files edit_args = Inr ''/w/a''"
    by (simp add: allowed_path_def sample_files_def edit_args_def path_arg_def)
  have n: "count_text ''two'' (universal_newlines (''one'' @ [CHR 0x0D, LF] @ ''two'')) = 1"
    "replace_first ''two'' ''2'' (universal_newlines (''one'' @ [CHR 0x0D, LF] @ ''two'')) = ''one'' @ [LF] @ ''2''"
    by code_simp+
  have "edit_file sample_files edit_args (new_sink, dos_disk) = checked_write sample_files ''/w/a''
      (replace_first ''two'' ''2'' (universal_newlines (''one'' @ [CHR 0x0D, LF] @ ''two''))) () (new_sink, dos_disk)"
    by (rule edit_file_writes [OF p _ _ _ _ _ _ _ n(1)])
       (simp_all add: edit_args_def sample_files_def dos_disk_def)
  then have e: "edit_file sample_files edit_args (new_sink, dos_disk) =
      checked_write sample_files ''/w/a'' (''one'' @ [LF] @ ''2'') () (new_sink, dos_disk)"
    unfolding n(2) .
  have "\<not> protected_path ''/w'' ''/w/a''" by code_simp
  then have "fst (checked_write sample_files ''/w/a'' (''one'' @ [LF] @ ''2'') () (new_sink, dos_disk)) = Inr ()"
    by (simp add: checked_write_def snapshot_before_write_def put_text_def sample_files_def snapshot_def
        add_entry_def dos_disk_def new_sink_def Let_def put_dir_def)
  moreover from this have "dk_files (snd (snd (checked_write sample_files ''/w/a'' (''one'' @ [LF] @ ''2'') () (new_sink, dos_disk)))) ''/w/a''
      = Some (''one'' @ [LF] @ ''2'')"
    using checked_write_done [of sample_files "''/w/a''" "''one'' @ [LF] @ ''2''" "()" "(new_sink, dos_disk)"]
    by (cases "checked_write sample_files ''/w/a'' (''one'' @ [LF] @ ''2'') () (new_sink, dos_disk)") auto
  ultimately show ?thesis using e by simp
qed

theorem edit_replaces_what_was_read_witness:
  "\<exists>pre post. universal_newlines (''one'' @ [CHR 0x0D, LF] @ ''two'') = pre @ ''two'' @ post \<and>
     CHR 0x0D \<notin> set pre \<union> set post"
proof -
  have "edit_file sample_files edit_args (new_sink, dos_disk) =
      (Inr (), snd (edit_file sample_files edit_args (new_sink, dos_disk)))"
    using dos_edited by (metis prod.collapse)
  from edit_replaces_what_was_read [THEN conjunct1, rule_format, OF this] show ?thesis
    by (auto simp: allowed_path_def sample_files_def edit_args_def path_arg_def dos_disk_def)
qed

end
