(* ===== verification/Agent_Context.thy ===== *)
theory Agent_Context
  imports Agent_Compaction
begin

section \<open>What the model sees in a round\<close>

text \<open>
  The class \<open>ContextManager\<close> of \<open>avid/agent/context.py\<close>: the declared blocks of the context, the part of
  them that is frozen by the first round, the note at the end of every request, and the model call with
  its one retry. The bodies that are read from outside (environment, \<open>AGENTS.md\<close>, skill catalogue) are
  parameters; the ones made from the run's own state are modelled. Headings are ASCII.
\<close>

definition SKILL_ALWAYS_MAX_CHARS :: nat where "SKILL_ALWAYS_MAX_CHARS = 8000"
definition SKILL_ALWAYS_TOTAL_MAX_CHARS :: nat where "SKILL_ALWAYS_TOTAL_MAX_CHARS = 16000"
definition TRUNCATION_NOTE :: string where "TRUNCATION_NOTE = CHR 10 # ''(truncated)''"
definition TAIL_HEADER :: string where
  "TAIL_HEADER = ''[context] run-time context attached to this request, not user input.''"

subsection \<open>Blocks\<close>

datatype block_cap = NoCap | CharCap nat | BootstrapCap | SkillCap

record 'e block_spec =
  bk_kind :: string
  bk_title :: "string option"
  bk_frozen :: bool
  bk_cap :: block_cap
  bk_source :: "run_state \<Rightarrow> string list \<Rightarrow> 'e \<Rightarrow> string option"

definition render_title :: "'e block_spec \<Rightarrow> string \<Rightarrow> string" where
  "render_title spec body =
     (case bk_title spec of None \<Rightarrow> body | Some t \<Rightarrow> ''## '' @ t @ [CHR 10] @ body)"

definition cap_of :: "context_budget \<Rightarrow> block_cap \<Rightarrow> nat option" where
  "cap_of limits c =
     (case c of
        NoCap \<Rightarrow> None | CharCap n \<Rightarrow> Some n
      | BootstrapCap \<Rightarrow> Some (cb_bootstrap_chars limits)
      | SkillCap \<Rightarrow> Some (cb_skill_always_chars limits))"

text \<open>The always resident skills, in name order: an oversized body is cut, one too many is skipped.\<close>

fun skill_sections :: "nat \<Rightarrow> (string \<times> string) list \<Rightarrow> string list" where
  "skill_sections used [] = []"
| "skill_sections used ((name, body) # skills) =
     (let body = (if SKILL_ALWAYS_MAX_CHARS < length body
                  then take SKILL_ALWAYS_MAX_CHARS body @ TRUNCATION_NOTE else body)
      in if SKILL_ALWAYS_TOTAL_MAX_CHARS < used + length body then skill_sections used skills
         else (''### '' @ name @ [CHR 10] @ body) # skill_sections (used + length body) skills)"

definition skill_always_body :: "(string \<times> string) list \<Rightarrow> string option" where
  "skill_always_body skills =
     (let sections = skill_sections 0 skills
      in if sections = [] then None
         else Some (''Skills loaded in full:'' @ [CHR 10, CHR 10] @
                    join_with [CHR 10, CHR 10] sections))"

definition injected_body :: "string list \<Rightarrow> string option" where
  "injected_body injected =
     (let s = join_with [CHR 10, CHR 10] injected in if s = [] then None else Some s)"

definition plan_body :: "run_state \<Rightarrow> string option" where
  "plan_body st = (if ru_todo st = [] then None else Some (todo_render (ru_todo st)))"

definition run_state_body :: "run_state \<Rightarrow> string" where
  "run_state_body st =
     ''round '' @ show_nat (ru_round st) @ ''; tool calls '' @ show_nat (ru_tool_calls st) @
     ''; denied '' @ show_nat (ru_denials st) @ '' (streak '' @ show_nat (ru_denial_streak st) @
     ''); compactions '' @ show_nat (ru_compactions st)"

text \<open>\<open>CONTEXT_MAP\<close>, with the outside bodies as arguments; sources may be added after it.\<close>

definition context_map ::
  "string \<Rightarrow> (run_state \<Rightarrow> 'e \<Rightarrow> string) \<Rightarrow> ('e \<Rightarrow> string option) \<Rightarrow> ('e \<Rightarrow> (string \<times> string) list) \<Rightarrow>
   ('e \<Rightarrow> string) \<Rightarrow> 'e block_spec list" where
  "context_map instructions environment bootstrap skills catalog =
     [\<lparr>bk_kind = ''instructions'', bk_title = None, bk_frozen = True, bk_cap = NoCap,
       bk_source = (\<lambda>st inj e. Some instructions)\<rparr>,
      \<lparr>bk_kind = ''environment'', bk_title = Some ''environment'', bk_frozen = True, bk_cap = NoCap,
       bk_source = (\<lambda>st inj e. Some (environment st e))\<rparr>,
      \<lparr>bk_kind = ''bootstrap'', bk_title = Some ''workspace'', bk_frozen = True, bk_cap = BootstrapCap,
       bk_source = (\<lambda>st inj e. bootstrap e)\<rparr>,
      \<lparr>bk_kind = ''skill_always'', bk_title = Some ''resident skills'', bk_frozen = True,
       bk_cap = SkillCap, bk_source = (\<lambda>st inj e. skill_always_body (skills e))\<rparr>,
      \<lparr>bk_kind = ''skill_catalog'', bk_title = Some ''skills'', bk_frozen = True, bk_cap = NoCap,
       bk_source = (\<lambda>st inj e. Some (catalog e))\<rparr>,
      \<lparr>bk_kind = ''injected'', bk_title = None, bk_frozen = False, bk_cap = NoCap,
       bk_source = (\<lambda>st inj e. injected_body inj)\<rparr>,
      \<lparr>bk_kind = ''plan'', bk_title = Some ''plan'', bk_frozen = False, bk_cap = NoCap,
       bk_source = (\<lambda>st inj e. plan_body st)\<rparr>,
      \<lparr>bk_kind = ''run_state'', bk_title = Some ''run state'', bk_frozen = False, bk_cap = NoCap,
       bk_source = (\<lambda>st inj e. Some (run_state_body st))\<rparr>]"

subsection \<open>The manager\<close>

record 'e context_conf =
  cc_specs :: "'e block_spec list"
  cc_compact :: "'e compact_env"
  cc_chat :: "'e chat"
  cc_tools :: "pyval list"

record context_state =
  cx_system :: "string option"
  cx_parts :: "(string \<times> nat) list"
  cx_injected :: "string list"

definition new_context :: context_state where
  "new_context = \<lparr>cx_system = None, cx_parts = [], cx_injected = []\<rparr>"

record composed_request =
  co_system :: string
  co_messages :: "pydict list"
  co_parts :: "(string \<times> nat) list"
  co_history :: int
  co_total :: int
  co_changed :: bool

definition render_block ::
  "context_budget \<Rightarrow> run_state \<Rightarrow> string list \<Rightarrow> 'e \<Rightarrow> 'e block_spec \<Rightarrow> string option" where
  "render_block limits st injected e spec =
     (case bk_source spec st injected e of
        None \<Rightarrow> None
      | Some body \<Rightarrow>
          (if py_strip body = [] then None
           else Some (render_title spec
             (case cap_of limits (bk_cap spec) of
                None \<Rightarrow> body
              | Some n \<Rightarrow> if n < length body then take n body @ TRUNCATION_NOTE else body))))"

definition collect_blocks ::
  "'e context_conf \<Rightarrow> bool \<Rightarrow> run_state \<Rightarrow> string list \<Rightarrow> 'e \<Rightarrow> (string \<times> string) list" where
  "collect_blocks cc frozen st injected e =
     concat (map (\<lambda>spec.
         (case render_block (ce_limits (cc_compact cc)) st injected e spec of
            None \<Rightarrow> [] | Some s \<Rightarrow> [(bk_kind spec, s)]))
       (filter (\<lambda>spec. bk_frozen spec = frozen) (cc_specs cc)))"

definition add_part :: "string \<times> string \<Rightarrow> (string \<times> nat) list \<Rightarrow> (string \<times> nat) list" where
  "add_part b parts =
     AList.update (fst b)
       ((case map_of parts (fst b) of None \<Rightarrow> 0 | Some n \<Rightarrow> n) + length (snd b)) parts"

definition freeze_system :: "'e context_conf \<Rightarrow> run_state \<Rightarrow> 'e \<Rightarrow> context_state \<Rightarrow> context_state" where
  "freeze_system cc st e cx =
     (let blocks = collect_blocks cc True st (cx_injected cx) e
      in cx\<lparr>cx_system := Some (join_with [CHR 10, CHR 10] (map snd blocks)),
            cx_parts := fold add_part blocks []\<rparr>)"

definition frozen_system :: "context_state \<Rightarrow> string" where
  "frozen_system cx = (case cx_system cx of None \<Rightarrow> [] | Some s \<Rightarrow> s)"

definition tail_message :: "string list \<Rightarrow> pydict" where
  "tail_message blocks =
     [(''role'', PStr ''user''),
      (''content'', PStr (TAIL_HEADER @ [CHR 10, CHR 10] @ join_with [CHR 10, CHR 10] blocks)),
      (''tail'', PBool True)]"

definition assemble ::
  "'e context_conf \<Rightarrow> bool \<Rightarrow> context_state \<Rightarrow> transcript \<Rightarrow> run_state \<Rightarrow> 'e \<Rightarrow> composed_request" where
  "assemble cc changed cx t st e =
     (let blocks = collect_blocks cc False st (cx_injected cx) e;
          note = (if blocks = [] then [] else [tail_message (map snd blocks)])
      in \<lparr>co_system = frozen_system cx, co_messages = tr_messages t @ note,
          co_parts = fold add_part blocks (cx_parts cx), co_history = tr_chars t,
          co_total = tr_chars t + sum_list (map message_chars note), co_changed = changed\<rparr>)"

definition system_prompt :: "'e context_conf \<Rightarrow> run_state \<Rightarrow> 'e \<Rightarrow> context_state \<Rightarrow> context_state" where
  "system_prompt cc st e cx = (if cx_system cx = None then freeze_system cc st e cx else cx)"

text \<open>\<open>_run_compaction\<close>: the request of a compaction carries the frozen prefix.\<close>

definition compact_with ::
  "'e context_conf \<Rightarrow> bool \<Rightarrow> context_state \<Rightarrow> transcript \<Rightarrow> run_state \<Rightarrow> 'e \<Rightarrow>
   compact_report option option \<times> context_state \<times> transcript \<times> run_state \<times> 'e" where
  "compact_with cc force cx t st e =
     (let cx' = system_prompt cc st e cx;
          (report, t', st', e') =
            run_compaction (cc_compact cc) force (frozen_system cx') (cc_tools cc) t st e
      in (report, cx', t', st', e'))"

definition compact_now ::
  "'e context_conf \<Rightarrow> context_state \<Rightarrow> transcript \<Rightarrow> run_state \<Rightarrow> 'e \<Rightarrow>
   compact_report option option \<times> context_state \<times> transcript \<times> run_state \<times> 'e" where
  "compact_now cc cx t st e = compact_with cc True cx t st e"

text \<open>\<open>compose\<close>; \<open>None\<close> is an exception out of the compaction.\<close>

definition compose ::
  "'e context_conf \<Rightarrow> string list \<Rightarrow> context_state \<Rightarrow> transcript \<Rightarrow> run_state \<Rightarrow> 'e \<Rightarrow>
   composed_request option \<times> context_state \<times> transcript \<times> run_state \<times> 'e" where
  "compose cc injected cx t st e =
     (let cx1 = cx\<lparr>cx_injected := filter (\<lambda>s. py_strip s \<noteq> []) injected\<rparr>;
          (report, cx2, t', st', e') = compact_with cc False (system_prompt cc st e cx1) t st e
      in (case report of
            None \<Rightarrow> None
          | Some r \<Rightarrow> Some (assemble cc (r \<noteq> None) cx2 t' st' e'), cx2, t', st', e'))"

definition note_prompt_parts :: "'e context_conf \<Rightarrow> composed_request \<Rightarrow> run_state \<Rightarrow> run_state" where
  "note_prompt_parts cc request st =
     record_prompt_parts (int (length (co_system request)))
       (if cc_tools cc = [] then 0 else int (length (dumps (PList (cc_tools cc)))))
       (co_total request) st"

definition send :: "'e context_conf \<Rightarrow> composed_request \<Rightarrow> 'e \<Rightarrow> (chat_failure + turn) \<times> 'e" where
  "send cc request e =
     cc_chat cc \<lparr>cq_messages = co_messages request, cq_system = co_system request,
                 cq_tools = cc_tools cc\<rparr> e"

text \<open>\<open>call\<close>: one request, and one more after a forced compaction if the prompt did not fit.\<close>

definition call_model ::
  "'e context_conf \<Rightarrow> context_state \<Rightarrow> composed_request \<Rightarrow> transcript \<Rightarrow> run_state \<Rightarrow> 'e \<Rightarrow>
   (chat_failure + turn) \<times> context_state \<times> transcript \<times> run_state \<times> 'e" where
  "call_model cc cx request t st e =
     (let st1 = note_prompt_parts cc request st;
          (r, e1) = send cc request e
      in case r of
           Inl PromptTooLong \<Rightarrow>
             (if ru_retried st1 then (Inl PromptTooLong, cx, t, st1, e1)
              else
                (let (report, cx2, t2, st2, e2) = compact_now cc cx t (st1\<lparr>ru_retried := True\<rparr>) e1
                 in case report of
                      None \<Rightarrow> (Inl CallCrashed, cx2, t2, st2, e2)
                    | Some _ \<Rightarrow>
                        (let request2 = assemble cc False cx2 t2 st2 e2;
                             (r2, e3) = send cc request2 e2
                         in (r2, cx2, t2, note_prompt_parts cc request2 st2, e3))))
         | _ \<Rightarrow> (r, cx, t, st1, e1))"

subsection \<open>Facts\<close>

definition sound :: "transcript \<Rightarrow> bool" where
  "sound t \<longleftrightarrow> well_formed (tr_messages t) \<and> costs_ok t"

lemma run_compaction_sound:
  assumes "sound t"
  shows "sound (fst (snd (run_compaction ce force system tools t st e)))"
proof -
  have "well_formed (tr_messages t)" using assms by (simp add: sound_def)
  from run_compaction_spec [OF this, of ce force st system tools e] assms
  show ?thesis
    by (auto simp: compaction_ok_def folded_at_def unchanged_def sound_def split: option.splits)
qed

lemma fold_history_fields:
  "ru_stop_blocks (fst (snd (snd (fold_history ce system tools i t st e)))) = ru_stop_blocks st \<and>
   ru_round (fst (snd (snd (fold_history ce system tools i t st e)))) = ru_round st \<and>
   ru_denial_streak (fst (snd (snd (fold_history ce system tools i t st e)))) = ru_denial_streak st"
proof -
  obtain path e1 where p: "ce_save ce (take i (tr_messages t)) e = (path, e1)" by fastforce
  let ?repo = "if previous_checkpoint (tr_messages t) = None then None else ce_repo ce e1"
  obtain r e2 where r: "obtain_summary ce (take i (tr_messages t)) (previous_checkpoint (tr_messages t))
      ?repo system tools e1 = (r, e2)" by fastforce
  show ?thesis
  proof (cases r)
    case None
    then show ?thesis using p r by (simp add: fold_history_def Let_def)
  next
    case (Some x)
    then show ?thesis
      using p r
      by (cases x; cases "fst x")
         (simp_all add: fold_history_def Let_def announce_def emit_def mark_compacted_def split: sum.split)
  qed
qed

lemma run_compaction_fields [simp]:
  "ru_stop_blocks (fst (snd (snd (run_compaction ce force system tools t st e)))) = ru_stop_blocks st"
  "ru_round (fst (snd (snd (run_compaction ce force system tools t st e)))) = ru_round st"
  "ru_denial_streak (fst (snd (snd (run_compaction ce force system tools t st e)))) = ru_denial_streak st"
  by (simp_all add: run_compaction_def fold_history_fields Let_def)

lemma system_prompt_frozen [simp]:
  "cx_system cx = Some s \<Longrightarrow> system_prompt cc st e cx = cx"
  "cx_system (system_prompt cc st e cx) \<noteq> None"
  by (auto simp: system_prompt_def freeze_system_def Let_def)

lemma system_prompt_twice [simp]:
  "system_prompt cc st' e' (system_prompt cc st e cx) = system_prompt cc st e cx"
proof -
  obtain s where "cx_system (system_prompt cc st e cx) = Some s"
    using system_prompt_frozen(2) [of cc st e cx] by blast
  then show ?thesis by (rule system_prompt_frozen(1))
qed

lemma compact_with_parts:
  "fst (compact_with cc force cx t st e) =
     fst (run_compaction (cc_compact cc) force (frozen_system (system_prompt cc st e cx)) (cc_tools cc) t st e)"
  "fst (snd (compact_with cc force cx t st e)) = system_prompt cc st e cx"
  "snd (snd (compact_with cc force cx t st e)) =
     snd (run_compaction (cc_compact cc) force (frozen_system (system_prompt cc st e cx)) (cc_tools cc) t st e)"
  by (simp_all add: compact_with_def Let_def case_prod_beta)

lemma compose_parts:
  "fst (snd (compose cc injected cx t st e)) =
     system_prompt cc st e (cx\<lparr>cx_injected := filter (\<lambda>s. py_strip s \<noteq> []) injected\<rparr>)"
  "snd (snd (compose cc injected cx t st e)) =
     snd (snd (compact_with cc False
       (system_prompt cc st e (cx\<lparr>cx_injected := filter (\<lambda>s. py_strip s \<noteq> []) injected\<rparr>)) t st e))"
  by (simp_all add: compose_def Let_def case_prod_beta compact_with_parts)

lemma compose_sound: "sound t \<Longrightarrow> sound (fst (snd (snd (compose cc injected cx t st e))))"
  by (simp add: compose_parts compact_with_parts run_compaction_sound)

lemma compose_fields [simp]:
  "ru_stop_blocks (fst (snd (snd (snd (compose cc injected cx t st e))))) = ru_stop_blocks st"
  "ru_round (fst (snd (snd (snd (compose cc injected cx t st e))))) = ru_round st"
  "ru_denial_streak (fst (snd (snd (snd (compose cc injected cx t st e))))) = ru_denial_streak st"
  by (simp_all add: compose_parts compact_with_parts)

lemma prompt_part_fields [simp]:
  "ru_stop_blocks (note_prompt_parts cc r st) = ru_stop_blocks st"
  "ru_round (note_prompt_parts cc r st) = ru_round st"
  "ru_denial_streak (note_prompt_parts cc r st) = ru_denial_streak st"
  "ru_retried (note_prompt_parts cc r st) = ru_retried st"
  by (simp_all add: note_prompt_parts_def record_prompt_parts_def)

lemma call_model_fields [simp]:
  "ru_stop_blocks (fst (snd (snd (snd (call_model cc cx r t st e))))) = ru_stop_blocks st"
  "ru_round (fst (snd (snd (snd (call_model cc cx r t st e))))) = ru_round st"
  "ru_denial_streak (fst (snd (snd (snd (call_model cc cx r t st e))))) = ru_denial_streak st"
  by (auto simp: call_model_def compact_now_def compact_with_parts Let_def case_prod_beta
        split: sum.splits chat_failure.splits option.splits)

lemma call_model_sound: "sound t \<Longrightarrow> sound (fst (snd (snd (call_model cc cx r t st e))))"
  by (auto simp: call_model_def compact_now_def compact_with_parts Let_def case_prod_beta run_compaction_sound
        split: sum.splits chat_failure.splits option.splits)

lemma call_model_turn:
  assumes "fst (call_model cc cx r t st e) = Inr turn"
  shows "\<exists>q e'. fst (cc_chat cc q e') = Inr turn"
  using assms
  by (auto simp: call_model_def send_def Let_def case_prod_beta
        split: sum.splits chat_failure.splits option.splits if_splits)

text \<open>What is sent is the transcript and at most one note, and the reported cost is exactly its cost.\<close>

definition composed_ok :: "transcript \<Rightarrow> composed_request \<Rightarrow> bool" where
  "composed_ok t r \<longleftrightarrow>
     (\<exists>notes. co_messages r = tr_messages t @ notes \<and> length notes \<le> 1 \<and>
        (\<forall>m\<in>set notes. dget m ''tail'' = PBool True)) \<and>
     co_total r = estimate_chars (co_messages r) \<and> co_history r = estimate_chars (tr_messages t)"

lemma assemble_ok: "costs_ok t \<Longrightarrow> composed_ok t (assemble cc changed cx t st e)"
  by (auto simp: composed_ok_def assemble_def Let_def costs_ok_def estimate_chars_def tail_message_def dget_def)

lemma assemble_system [simp]: "co_system (assemble cc changed cx t st e) = frozen_system cx"
  by (simp add: assemble_def Let_def)

subsection \<open>Properties\<close>

text \<open>
  C31. The prefix of the provider's cache is stable: once composed, the system prompt is the same in every
  later request, whatever the state of the run, the injected texts and the world have become; a request
  is the transcript followed by at most one marked note, which the transcript itself never contains, its
  reported cost is exact, and a complete transcript stays complete.
\<close>

theorem composed_request_is_stable:
  assumes "sound t" and "fst (compose cc injected cx t st e) = Some r"
  shows "composed_ok (fst (snd (snd (compose cc injected cx t st e)))) r \<and>
    sound (fst (snd (snd (compose cc injected cx t st e)))) \<and>
    cx_system (fst (snd (compose cc injected cx t st e))) = Some (co_system r) \<and>
    (\<forall>s. cx_system cx = Some s \<longrightarrow> co_system r = s)"
proof -
  let ?cx1 = "system_prompt cc st e (cx\<lparr>cx_injected := filter (\<lambda>s. py_strip s \<noteq> []) injected\<rparr>)"
  have parts: "fst (snd (compose cc injected cx t st e)) = ?cx1"
    by (simp add: compose_parts)
  have "costs_ok (fst (snd (snd (compose cc injected cx t st e))))"
    using compose_sound [OF assms(1), of cc injected cx st e] unfolding sound_def by (rule conjunct2)
  moreover obtain ch where r: "r = assemble cc ch ?cx1 (fst (snd (snd (compose cc injected cx t st e))))
      (fst (snd (snd (snd (compose cc injected cx t st e))))) (snd (snd (snd (snd (compose cc injected cx t st e)))))"
    using assms(2)
    by (auto simp: compose_def Let_def case_prod_beta compact_with_parts split: option.splits)
  ultimately have "composed_ok (fst (snd (snd (compose cc injected cx t st e)))) r"
    by (simp add: assemble_ok)
  moreover have "cx_system ?cx1 = Some (co_system r)"
  proof -
    obtain p where p: "cx_system ?cx1 = Some p"
      using system_prompt_frozen(2) [of cc st e "cx\<lparr>cx_injected := filter (\<lambda>s. py_strip s \<noteq> []) injected\<rparr>"]
      by blast
    have "co_system r = frozen_system ?cx1" unfolding r by (rule assemble_system)
    then show ?thesis unfolding frozen_system_def p by simp
  qed
  moreover have "cx_system cx = Some s \<Longrightarrow> co_system r = s" for s
    using r by (simp add: system_prompt_def frozen_system_def)
  ultimately show ?thesis
    unfolding parts using compose_sound [OF assms(1), of cc injected cx st e] by (intro conjI allI impI)
qed

definition short_transcript :: transcript where
  "short_transcript = recompute_costs \<lparr>tr_messages = [says ''user'' ''hi''], tr_chars = 0, tr_tool_chars = 0\<rparr>"

definition sample_conf :: "unit context_conf" where
  "sample_conf =
     \<lparr>cc_specs = context_map ''be brief'' (\<lambda>st e. ''/w'') (\<lambda>e. Some ''rules'') (\<lambda>e. []) (\<lambda>e. ''none''),
      cc_compact = sample_compact, cc_chat = ce_chat sample_compact, cc_tools = []\<rparr>"

lemma short_sound: "sound short_transcript"
proof -
  have "well_formed (tr_messages short_transcript)" by code_simp
  then show ?thesis by (simp add: sound_def short_transcript_def)
qed

lemma short_not_compacted:
  "run_compaction sample_compact False s tools short_transcript st e = (Some None, short_transcript, st, e)"
proof -
  have "tr_chars short_transcript = 18" by code_simp
  then show ?thesis by (simp add: run_compaction_def effective_trigger_def sample_compact_def)
qed

lemma short_composed:
  "fst (compose sample_conf injected cx short_transcript st e) =
     Some (assemble sample_conf False
       (system_prompt sample_conf st e (cx\<lparr>cx_injected := filter (\<lambda>s. py_strip s \<noteq> []) injected\<rparr>))
       short_transcript st e)"
proof -
  have c: "cc_compact sample_conf = sample_compact" by (simp add: sample_conf_def)
  show ?thesis
    by (simp add: compose_def compact_with_def Let_def case_prod_beta short_not_compacted c)
qed

theorem composed_request_is_stable_witness:
  "co_system (the (fst (compose sample_conf [''note''] (new_context\<lparr>cx_system := Some ''fixed''\<rparr>)
     short_transcript fresh_run ()))) = ''fixed''"
proof -
  have "fst (compose sample_conf [''note''] (new_context\<lparr>cx_system := Some ''fixed''\<rparr>) short_transcript
      fresh_run ()) = Some (the (fst (compose sample_conf [''note''] (new_context\<lparr>cx_system := Some ''fixed''\<rparr>)
      short_transcript fresh_run ())))"
    by (simp only: short_composed option.sel)
  from composed_request_is_stable [OF short_sound this] show ?thesis by (simp del: option.sel)
qed

end
