(* ===== verification/Agent_Run.thy ===== *)
theory Agent_Run
  imports Agent_Context
begin

section \<open>The loop of a run\<close>

text \<open>
  The modules \<open>avid/agent/run.py\<close> and \<open>avid/agent/stop.py\<close>: the rounds of one run, the two
  cancellation checkpoints, the delivery of steering messages and every named exit. The loop has no
  bound of its own: it is a partial function, whose value \<open>None\<close> is a run that never ends. What the
  callback \<open>on_message\<close> receives is a log. Chinese texts are replaced by ASCII texts.
\<close>

subsection \<open>How a run ends\<close>

definition MAX_STOP_BLOCKS :: nat where "MAX_STOP_BLOCKS = 1"

definition BLANK_ANSWER_NUDGE :: "string \<Rightarrow> string" where
  "BLANK_ANSWER_NUDGE reason = ''The last round has no visible text ('' @ reason @ ''). Please answer.''"
definition BLANK_ANSWER_NOTICE :: "string \<Rightarrow> string" where
  "BLANK_ANSWER_NOTICE reason = ''(This run produced no visible answer: '' @ reason @ ''.)''"
definition DENIAL_HALT :: "nat \<Rightarrow> string" where
  "DENIAL_HALT streak = ''(The run was stopped: '' @ show_nat streak @ '' calls in a row were refused.)''"

datatype stop_reason = FinalText | BlankNotice | HookBudgetExit | DenialHalted | PromptBlocked | CommandStop

record run_outcome =
  oc_text :: string
  oc_reason :: stop_reason

datatype run_error = CancelledBy string | ModelError chat_failure | ComposeCrashed | BatchCrashed

definition is_blank :: "turn \<Rightarrow> bool" where
  "is_blank turn \<longleftrightarrow> py_strip (tn_text turn) = []"

definition blank_reason :: "turn \<Rightarrow> string" where
  "blank_reason turn =
     (let thinking = py_strip (tn_reasoning turn);
          base =
            (if thinking \<noteq> [] then ''the last round only thought ('' @ show_nat (length thinking) @ '')''
             else if tn_finish_reason turn = ''length'' then ''the last round was cut at the output limit''
             else ''the last round was empty'')
      in case us_reasoning (tn_usage turn) of
           None \<Rightarrow> base
         | Some n \<Rightarrow> if n = 0 then base else base @ '', reasoning tokens '' @ show_int n)"

subsection \<open>The state of the loop\<close>

text \<open>\<open>rc_steers\<close> is the probe for steering messages, \<open>rc_probe\<close> the one for cancellation.\<close>

record 'e run_conf =
  rc_env :: "'e run_env"
  rc_context :: "'e context_conf"
  rc_parallel :: nat
  rc_max_denials :: nat
  rc_max_blocks :: nat
  rc_window :: "int option"
  rc_tool_names :: "string list"
  rc_permission_mode :: string
  rc_steers :: "('e \<Rightarrow> pydict list \<times> 'e) option"
  rc_probe :: "'e \<Rightarrow> string option"

record 'e run_mem =
  rm_transcript :: transcript
  rm_state :: run_state
  rm_context :: context_state
  rm_log :: "pydict list"
  rm_pending :: "pydict list"
  rm_world :: 'e

datatype round_result = Continue | Ended run_outcome | Raised run_error

definition say :: "pydict \<Rightarrow> 'e run_mem \<Rightarrow> 'e run_mem" where
  "say message m =
     m\<lparr>rm_transcript := tr_append message (rm_transcript m), rm_log := rm_log m @ [message]\<rparr>"

definition take_steers :: "'e run_conf \<Rightarrow> 'e \<Rightarrow> pydict list \<times> 'e" where
  "take_steers rc e = (case rc_steers rc of None \<Rightarrow> ([], e) | Some probe \<Rightarrow> probe e)"

text \<open>A checkpoint: what other threads did to the flag takes effect, then it is read.\<close>

definition checkpoint :: "'e run_conf \<Rightarrow> 'e run_mem \<Rightarrow> string option \<times> 'e run_mem" where
  "checkpoint rc m =
     (let st = sync_cancel (rc_env rc) (rm_world m) (rm_state m)
      in (check_cancelled (rc_probe rc (rm_world m)) st, m\<lparr>rm_state := st\<rparr>))"

subsection \<open>The ending of a round without tool calls\<close>

definition stop_context :: "run_state \<Rightarrow> transcript \<Rightarrow> turn \<Rightarrow> pydict" where
  "stop_context st t turn =
     (let s = run_snapshot st
      in [(''final_text'', PStr (tn_text turn)), (''messages'', PList (map PDict (tr_messages t))),
          (''summary'', PStr (summarize_run st)), (''nudge'', PNone),
          (''rounds'', PInt (int (sn_rounds s))), (''tool_calls'', PInt (int (sn_tool_calls s))),
          (''denials'', PInt (int (sn_denials s))),
          (''denial_streak'', PInt (int (sn_denial_streak s))),
          (''compactions'', PInt (int (sn_compactions s)))])"

definition decide_end :: "'e run_conf \<Rightarrow> turn \<Rightarrow> 'e run_mem \<Rightarrow> run_outcome option \<times> 'e run_mem" where
  "decide_end rc turn m =
     (let (hook_blocked, stop, e) =
            trigger (en_runner (rc_env rc)) (en_hooks (rc_env rc)) Stop
              (stop_context (rm_state m) (rm_transcript m) turn) (rm_world m);
          m = m\<lparr>rm_world := e\<rparr>;
          st = rm_state m;
          blank = is_blank turn;
          reason = (if blank then blank_reason turn else []);
          nudge = (if blank \<and> \<not> hook_blocked then PStr (BLANK_ANSWER_NUDGE reason)
                   else dget stop ''nudge'')
      in if (hook_blocked \<or> blank) \<and> ru_stop_blocks st < rc_max_blocks rc then
           (let st = st\<lparr>ru_stop_blocks := ru_stop_blocks st + 1\<rparr>
            in (None,
                if truthy nudge
                then say [(''role'', PStr ''user''), (''content'', PStr (py_str nudge))]
                       (m\<lparr>rm_state := emit (StopNudge (py_str nudge)) st\<rparr>)
                else m\<lparr>rm_state := st\<rparr>))
         else if blank then
           (Some \<lparr>oc_text = BLANK_ANSWER_NOTICE reason, oc_reason = BlankNotice\<rparr>,
            say [(''role'', PStr ''assistant''), (''content'', PStr (BLANK_ANSWER_NOTICE reason))] m)
         else (Some \<lparr>oc_text = tn_text turn,
                     oc_reason = (if hook_blocked then HookBudgetExit else FinalText)\<rparr>, m))"

definition denial_halt :: "'e run_mem \<Rightarrow> run_outcome \<times> 'e run_mem" where
  "denial_halt m =
     (let t = DENIAL_HALT (ru_denial_streak (rm_state m))
      in (\<lparr>oc_text = t, oc_reason = DenialHalted\<rparr>,
          say [(''role'', PStr ''assistant''), (''content'', PStr t)] m))"

subsection \<open>One round\<close>

definition tool_message :: "string \<times> string \<Rightarrow> pydict" where
  "tool_message out =
     [(''role'', PStr ''tool''), (''tool_call_id'', PStr (fst out)), (''content'', PStr (snd out))]"

text \<open>The messages that arrived, the request and the model's answer.\<close>

definition deliver :: "'e run_conf \<Rightarrow> 'e run_mem \<Rightarrow> 'e run_mem" where
  "deliver rc m =
     (let (steers, e) = take_steers rc (rm_world m);
          m = fold say (rm_pending m @ steers) (m\<lparr>rm_world := e\<rparr>)
      in m\<lparr>rm_pending := [],
           rm_state := emit (RunStatus (ru_round (rm_state m)) (ru_tokens (rm_state m))) (rm_state m)\<rparr>)"

definition ask_model ::
  "'e run_conf \<Rightarrow> string list \<Rightarrow> 'e run_mem \<Rightarrow> (run_error + turn) \<times> 'e run_mem" where
  "ask_model rc injected m =
     (let (request, cx, t, st, e) =
            compose (rc_context rc) injected (rm_context m) (rm_transcript m) (rm_state m) (rm_world m);
          m1 = m\<lparr>rm_context := cx, rm_transcript := t, rm_state := st, rm_world := e\<rparr>
      in case request of
           None \<Rightarrow> (Inl ComposeCrashed, m1)
         | Some q \<Rightarrow>
             (let (r, cx, t, st, e) = call_model (rc_context rc) cx q t st e;
                  m2 = m\<lparr>rm_context := cx, rm_transcript := t, rm_state := st, rm_world := e\<rparr>
              in case r of
                   Inl x \<Rightarrow> (Inl (ModelError x), m2)
                 | Inr turn \<Rightarrow>
                     (let m3 = say (tn_message turn)
                                 (m2\<lparr>rm_state := record_run_usage (tn_usage turn) (rm_state m2)\<rparr>)
                      in (Inr turn,
                          m3\<lparr>rm_state := emit (RunStatus (ru_round (rm_state m3)) (ru_tokens (rm_state m3)))
                                          (rm_state m3)\<rparr>))))"

definition finish_round :: "'e run_conf \<Rightarrow> turn \<Rightarrow> 'e run_mem \<Rightarrow> round_result \<times> 'e run_mem" where
  "finish_round rc turn m =
     (let (steers, e) = take_steers rc (rm_world m); m = m\<lparr>rm_pending := steers, rm_world := e\<rparr>
      in if steers \<noteq> [] then (Continue, m)
         else
           (let (out, m) = decide_end rc turn m
            in (case out of None \<Rightarrow> Continue | Some o' \<Rightarrow> Ended o', m)))"

definition run_batch :: "'e run_conf \<Rightarrow> turn \<Rightarrow> 'e run_mem \<Rightarrow> round_result \<times> 'e run_mem" where
  "run_batch rc turn m =
     (let (cancelled, m) = checkpoint rc m
      in case cancelled of
           Some reason \<Rightarrow> (Raised (CancelledBy reason), m)
         | None \<Rightarrow>
             (let (outs, st, e) =
                    execute_batch (rc_env rc) (ru_round (rm_state m)) (rc_parallel rc)
                      (tn_tool_calls turn) (rm_state m) (rm_world m);
                  m = m\<lparr>rm_state := st, rm_world := e\<rparr>
              in case outs of
                   None \<Rightarrow> (Raised BatchCrashed, m)
                 | Some results \<Rightarrow>
                     (let m = fold say (map tool_message results) m
                      in if ru_denial_streak (rm_state m) < rc_max_denials rc then (Continue, m)
                         else
                           (let (steers, e) = take_steers rc (rm_world m);
                                m = m\<lparr>rm_pending := steers, rm_world := e\<rparr>
                            in if steers \<noteq> [] then (Continue, m)
                               else (let (out, m) = denial_halt m in (Ended out, m))))))"

definition run_round ::
  "'e run_conf \<Rightarrow> string list \<Rightarrow> nat \<Rightarrow> 'e run_mem \<Rightarrow> round_result \<times> 'e run_mem" where
  "run_round rc injected k m =
     (let (cancelled, m) = checkpoint rc (m\<lparr>rm_state := (rm_state m)\<lparr>ru_round := k\<rparr>\<rparr>)
      in case cancelled of
           Some reason \<Rightarrow> (Raised (CancelledBy reason), m)
         | None \<Rightarrow>
             (let (answer, m) = ask_model rc injected (deliver rc m)
              in case answer of
                   Inl x \<Rightarrow> (Raised x, m)
                 | Inr turn \<Rightarrow>
                     if tn_tool_calls turn = [] then finish_round rc turn m else run_batch rc turn m))"

partial_function (option) run_loop ::
  "'e run_conf \<Rightarrow> string list \<Rightarrow> nat \<Rightarrow> 'e run_mem \<Rightarrow> ((run_error + run_outcome) \<times> 'e run_mem) option" where
  "run_loop rc injected k m =
     (let out = run_round rc injected k m
      in case fst out of
           Continue \<Rightarrow> run_loop rc injected (Suc k) (snd out)
         | Ended o' \<Rightarrow> Some (Inr o', snd out)
         | Raised x \<Rightarrow> Some (Inl x, snd out))"

subsection \<open>The whole run\<close>

definition submit_context :: "'e run_conf \<Rightarrow> transcript \<Rightarrow> nat \<Rightarrow> pydict" where
  "submit_context rc t index =
     [(''prompt'', PStr (text_at t index)), (''messages'', PList (map PDict (tr_messages t))),
      (''injected'', PList []), (''workspace_root'', PStr (en_root (rc_env rc))),
      (''permission_mode'', PStr (rc_permission_mode rc)),
      (''tool_names'', PList (map PStr (rc_tool_names rc)))]"

definition submit_input :: "'e run_conf \<Rightarrow> transcript \<Rightarrow> 'e \<Rightarrow> (nat \<times> string list) option \<times> 'e" where
  "submit_input rc t e =
     (case last_user_index t of
        None \<Rightarrow> (None, e)
      | Some index \<Rightarrow>
          (let (blocked, submit, e') =
                 trigger (en_runner (rc_env rc)) (en_hooks (rc_env rc)) UserPromptSubmit
                   (submit_context rc t index) e
           in (if blocked then None
               else Some (index, case dget submit ''injected'' of PList xs \<Rightarrow> map py_str xs | _ \<Rightarrow> []), e')))"

definition start_run :: "'e run_conf \<Rightarrow> transcript \<Rightarrow> run_state \<Rightarrow> pydict \<Rightarrow> 'e \<Rightarrow> 'e run_mem" where
  "start_run rc t st message e =
     \<lparr>rm_transcript = t,
      rm_state = (if ru_context_window st = None then st\<lparr>ru_context_window := rc_window rc\<rparr> else st),
      rm_context = new_context, rm_log = [message], rm_pending = [], rm_world = e\<rparr>"

definition run ::
  "'e run_conf \<Rightarrow> pydict list \<Rightarrow> run_state \<Rightarrow> 'e \<Rightarrow>
   (transcript_error + ((run_error + run_outcome) \<times> 'e run_mem option) option)" where
  "run rc messages st e =
     (case new_transcript messages of
        Inl x \<Rightarrow> Inl x
      | Inr t \<Rightarrow>
          Inr (case submit_input rc t e of
                 (None, e') \<Rightarrow> Some (Inr \<lparr>oc_text = [], oc_reason = PromptBlocked\<rparr>, None)
               | (Some (index, injected), e') \<Rightarrow>
                   map_option (\<lambda>(r, m). (r, Some m))
                     (run_loop rc injected 1 (start_run rc t st (tr_messages t ! index) e'))))"

subsection \<open>Facts about messages\<close>

definition plain_message :: "pydict \<Rightarrow> bool" where
  "plain_message m \<longleftrightarrow> \<not> is_tool m \<and> call_ids m = Some []"

text \<open>What is relied on for a model's answer, as the clients of \<open>avid/providers\<close> build it.\<close>

definition turn_ok :: "turn \<Rightarrow> bool" where
  "turn_ok turn \<longleftrightarrow> \<not> is_tool (tn_message turn) \<and>
     call_ids (tn_message turn) = Some (map call_id (tn_tool_calls turn)) \<and>
     distinct (map call_id (tn_tool_calls turn)) \<and> calls_ok (tn_tool_calls turn)"

definition conf_ok :: "'e run_conf \<Rightarrow> bool" where
  "conf_ok rc \<longleftrightarrow> order_ok (rc_env rc) \<and>
     (\<forall>q e turn. fst (cc_chat (rc_context rc) q e) = Inr turn \<longrightarrow> turn_ok turn) \<and>
     (\<forall>probe e. rc_steers rc = Some probe \<longrightarrow> list_all plain_message (fst (probe e)))"

lemma text_message_plain [simp]:
  "plain_message [(''role'', PStr ''user''), (''content'', PStr s)]"
  "plain_message [(''role'', PStr ''assistant''), (''content'', PStr s)]"
  by (simp_all add: plain_message_def is_tool_def call_ids_def calls_of_def)

lemma sound_append_plain [wf_intros]:
  "\<lbrakk>sound t; plain_message m\<rbrakk> \<Longrightarrow> sound (tr_append m t)"
  by (auto simp: sound_def plain_message_def tr_append_def costs_ok_append [unfolded tr_append_def]
      intro: well_formed_append well_formed_plain)

lemma take_steers_plain: "conf_ok rc \<Longrightarrow> list_all plain_message (fst (take_steers rc e))"
  by (auto simp: conf_ok_def take_steers_def split: option.splits)

lemma tool_message_facts [simp]:
  "is_tool (tool_message out)" "result_id (tool_message out) = fst out"
  by (simp_all add: tool_message_def is_tool_def result_id_def)

lemma run_from_results:
  assumes "distinct (map fst outs)" and "fst ` set outs \<subseteq> set expected"
  shows "run_from expected (map tool_message outs) = Some (filter (\<lambda>i. i \<notin> fst ` set outs) expected)"
  using assms
proof (induction outs arbitrary: expected)
  case Nil
  then show ?case by simp
next
  case (Cons o1 outs)
  then have new: "fst o1 \<notin> fst ` set outs" and inside: "fst ` set outs \<subseteq> set expected"
    by simp_all
  then have "fst ` set outs \<subseteq> set (removeAll (fst o1) expected)" unfolding set_removeAll by blast
  moreover have "distinct (map fst outs)" using Cons.prems(1) by simp
  ultimately have "run_from (removeAll (fst o1) expected) (map tool_message outs) =
      Some (filter (\<lambda>i. i \<notin> fst ` set outs) (removeAll (fst o1) expected))"
    by (intro Cons.IH)
  moreover have "filter (\<lambda>i. i \<notin> fst ` set outs) (removeAll (fst o1) expected) =
      filter (\<lambda>i. i \<notin> fst ` set (o1 # outs)) expected"
    by (induction expected) auto
  ultimately show ?case using Cons.prems by simp
qed

lemma answered_batch:
  assumes "well_formed ms" and "turn_ok turn" and "map fst outs = map call_id (tn_tool_calls turn)"
  shows "well_formed (ms @ tn_message turn # map tool_message outs)"
proof -
  have ids: "fst ` set outs = set (map call_id (tn_tool_calls turn))" using assms(3) by (metis list.set_map)
  have "run_from (expect_ids (map call_id (tn_tool_calls turn))) (map tool_message outs) = Some []"
    using run_from_results [of outs "expect_ids (map call_id (tn_tool_calls turn))"] assms ids
    by (auto simp: turn_ok_def filter_empty_conv)
  then have "well_formed (tn_message turn # map tool_message outs)"
    using assms(2) by (simp add: well_formed_iff turn_ok_def)
  then show ?thesis by (rule well_formed_append [OF assms(1)])
qed

subsection \<open>Facts about the parts of a round\<close>

lemma say_simps [simp]:
  "rm_transcript (say x m) = tr_append x (rm_transcript m)" "rm_state (say x m) = rm_state m"
  "rm_log (say x m) = rm_log m @ [x]" "rm_pending (say x m) = rm_pending m"
  "rm_world (say x m) = rm_world m" "rm_context (say x m) = rm_context m"
  by (simp_all add: say_def)

lemma fold_say [simp]:
  "rm_state (fold say xs m) = rm_state m" "rm_log (fold say xs m) = rm_log m @ xs"
  "rm_pending (fold say xs m) = rm_pending m" "rm_world (fold say xs m) = rm_world m"
  "rm_context (fold say xs m) = rm_context m"
  by (induction xs arbitrary: m) simp_all

lemma append_messages [simp]: "tr_messages (tr_append x t) = tr_messages t @ [x]"
  by (simp add: tr_append_def)

lemma fold_say_transcript:
  "tr_messages (rm_transcript (fold say xs m)) = tr_messages (rm_transcript m) @ xs"
  "costs_ok (rm_transcript m) \<Longrightarrow> costs_ok (rm_transcript (fold say xs m))"
  by (induction xs arbitrary: m) (simp_all add: costs_ok_append)

lemma fold_say_sound:
  "\<lbrakk>sound (rm_transcript m); list_all plain_message xs\<rbrakk> \<Longrightarrow> sound (rm_transcript (fold say xs m))"
  by (induction xs arbitrary: m) (simp_all add: sound_append_plain)

lemma emit_more [simp]:
  "ru_stop_blocks (emit ev st) = ru_stop_blocks st" "ru_round (emit ev st) = ru_round st"
  by (simp_all add: emit_def)

lemma record_run_usage_fields [simp]:
  "ru_stop_blocks (record_run_usage u st) = ru_stop_blocks st" "ru_round (record_run_usage u st) = ru_round st"
  by (simp_all add: record_run_usage_def Let_def)

lemma sync_cancel_fields [simp]:
  "ru_stop_blocks (sync_cancel env e st) = ru_stop_blocks st" "ru_round (sync_cancel env e st) = ru_round st"
  by (simp_all add: sync_cancel_def cancel_def split: option.splits)

lemma checkpoint_simps [simp]:
  "rm_transcript (snd (checkpoint rc m)) = rm_transcript m" "rm_log (snd (checkpoint rc m)) = rm_log m"
  "rm_pending (snd (checkpoint rc m)) = rm_pending m" "rm_world (snd (checkpoint rc m)) = rm_world m"
  "ru_stop_blocks (rm_state (snd (checkpoint rc m))) = ru_stop_blocks (rm_state m)"
  "ru_round (rm_state (snd (checkpoint rc m))) = ru_round (rm_state m)"
  by (simp_all add: checkpoint_def Let_def)

definition mem_ok :: "'e run_mem \<Rightarrow> bool" where
  "mem_ok m \<longleftrightarrow> sound (rm_transcript m) \<and> list_all plain_message (rm_pending m)"

lemma deliver_ok:
  assumes "conf_ok rc" and "mem_ok m"
  shows "sound (rm_transcript (deliver rc m))" and "rm_pending (deliver rc m) = []"
  using assms take_steers_plain [OF assms(1), of "rm_world m"]
  by (simp_all add: deliver_def Let_def case_prod_beta mem_ok_def fold_say_sound)

lemma deliver_fields [simp]:
  "ru_stop_blocks (rm_state (deliver rc m)) = ru_stop_blocks (rm_state m)"
  "ru_round (rm_state (deliver rc m)) = ru_round (rm_state m)"
  by (simp_all add: deliver_def Let_def case_prod_beta)

lemma ask_model_fields:
  "ru_stop_blocks (rm_state (snd (ask_model rc injected m))) = ru_stop_blocks (rm_state m) \<and>
   ru_round (rm_state (snd (ask_model rc injected m))) = ru_round (rm_state m) \<and>
   rm_pending (snd (ask_model rc injected m)) = rm_pending m"
proof (cases "fst (compose (rc_context rc) injected (rm_context m) (rm_transcript m) (rm_state m) (rm_world m))")
  case None
  then show ?thesis by (simp add: ask_model_def Let_def case_prod_beta)
next
  case (Some q)
  then show ?thesis by (simp add: ask_model_def Let_def case_prod_beta split: sum.split)
qed

text \<open>An answer is appended to a complete transcript, and comes from the model.\<close>

lemma ask_model_answer:
  assumes "sound (rm_transcript m)"
  shows "(case fst (ask_model rc injected m) of
      Inl x \<Rightarrow> sound (rm_transcript (snd (ask_model rc injected m)))
    | Inr turn \<Rightarrow>
        (\<exists>t. sound t \<and> rm_transcript (snd (ask_model rc injected m)) = tr_append (tn_message turn) t) \<and>
        (\<exists>log. rm_log (snd (ask_model rc injected m)) = log @ [tn_message turn]) \<and>
        (\<exists>q e. fst (cc_chat (rc_context rc) q e) = Inr turn))"
proof -
  let ?c = "compose (rc_context rc) injected (rm_context m) (rm_transcript m) (rm_state m) (rm_world m)"
  have s: "sound (fst (snd (snd ?c)))" by (rule compose_sound [OF assms])
  show ?thesis
  proof (cases "fst ?c")
    case None
    then show ?thesis using s by (simp add: ask_model_def Let_def case_prod_beta)
  next
    case (Some q)
    let ?d = "call_model (rc_context rc) (fst (snd ?c)) q (fst (snd (snd ?c))) (fst (snd (snd (snd ?c))))
      (snd (snd (snd (snd ?c))))"
    have d: "sound (fst (snd (snd ?d)))" by (rule call_model_sound [OF s])
    show ?thesis
    proof (cases "fst ?d")
      case (Inl x)
      then show ?thesis using Some d by (simp add: ask_model_def Let_def case_prod_beta)
    next
      case (Inr turn)
      from call_model_turn [OF Inr] have "\<exists>q e. fst (cc_chat (rc_context rc) q e) = Inr turn" .
      then show ?thesis using Some Inr d by (auto simp: ask_model_def Let_def case_prod_beta)
    qed
  qed
qed

subsection \<open>Facts about a round\<close>

text \<open>A transcript that was left between a message with tool calls and their answers.\<close>

definition unanswered :: "transcript \<Rightarrow> bool" where
  "unanswered t \<longleftrightarrow>
     (\<exists>ms turn. turn_ok turn \<and> well_formed ms \<and> tr_messages t = ms @ [tn_message turn] \<and> tn_tool_calls turn \<noteq> [])"

text \<open>What the user gets to see at the end of a run.\<close>

definition visible_end :: "pydict list \<Rightarrow> run_outcome \<Rightarrow> bool" where
  "visible_end log out \<longleftrightarrow> py_strip (oc_text out) \<noteq> [] \<and> log \<noteq> [] \<and>
     (case oc_reason out of
        FinalText \<Rightarrow> \<exists>turn :: turn. last log = tn_message turn \<and> oc_text out = tn_text turn \<and> tn_tool_calls turn = []
      | HookBudgetExit \<Rightarrow> \<exists>turn :: turn. last log = tn_message turn \<and> oc_text out = tn_text turn \<and> tn_tool_calls turn = []
      | PromptBlocked \<Rightarrow> False
      | CommandStop \<Rightarrow> False
      | _ \<Rightarrow> last log = [(''role'', PStr ''assistant''), (''content'', PStr (oc_text out))])"

definition round_ok :: "round_result \<times> 'e run_mem \<Rightarrow> bool" where
  "round_ok out \<longleftrightarrow>
     (case fst out of
        Continue \<Rightarrow> mem_ok (snd out)
      | Ended o' \<Rightarrow> sound (rm_transcript (snd out)) \<and> visible_end (rm_log (snd out)) o'
      | Raised (CancelledBy _) \<Rightarrow> sound (rm_transcript (snd out)) \<or> unanswered (rm_transcript (snd out))
      | Raised BatchCrashed \<Rightarrow> False
      | Raised _ \<Rightarrow> sound (rm_transcript (snd out)))"

lemma strip_visible:
  assumes "\<not> is_space c" and "c \<in> set s"
  shows "py_strip s \<noteq> []"
proof -
  have ne: "dropWhile is_space s \<noteq> []" using assms unfolding dropWhile_eq_Nil_conv by blast
  then have "\<not> is_space (hd (dropWhile is_space s))" by (rule hd_dropWhile)
  moreover have "hd (dropWhile is_space s) \<in> set (rev (dropWhile is_space s))" using ne by simp
  ultimately have "dropWhile is_space (rev (dropWhile is_space s)) \<noteq> []"
    unfolding dropWhile_eq_Nil_conv by blast
  then show ?thesis unfolding py_strip_def by simp
qed

lemma notice_visible: "py_strip (BLANK_ANSWER_NOTICE r) \<noteq> []" "py_strip (DENIAL_HALT n) \<noteq> []"
proof -
  have s: "\<not> is_space CHR ''T''" by code_simp
  show "py_strip (BLANK_ANSWER_NOTICE r) \<noteq> []" by (rule strip_visible [OF s]) (simp add: BLANK_ANSWER_NOTICE_def)
  show "py_strip (DENIAL_HALT n) \<noteq> []" by (rule strip_visible [OF s]) (simp add: DENIAL_HALT_def)
qed

lemma denial_halt_ok:
  assumes "sound (rm_transcript m)"
  shows "sound (rm_transcript (snd (denial_halt m))) \<and>
    visible_end (rm_log (snd (denial_halt m))) (fst (denial_halt m))"
  using assms notice_visible(2)
  by (simp add: denial_halt_def Let_def visible_end_def sound_append_plain)

lemma decide_end_ok:
  assumes "sound (rm_transcript m)" and "rm_log m = log @ [tn_message turn]" and "tn_tool_calls turn = []"
  shows "sound (rm_transcript (snd (decide_end rc turn m))) \<and>
    rm_pending (snd (decide_end rc turn m)) = rm_pending m \<and>
    (case fst (decide_end rc turn m) of None \<Rightarrow> True
     | Some out \<Rightarrow> visible_end (rm_log (snd (decide_end rc turn m))) out)"
proof -
  obtain b stop e where g: "trigger (en_runner (rc_env rc)) (en_hooks (rc_env rc)) Stop
      (stop_context (rm_state m) (rm_transcript m) turn) (rm_world m) = (b, stop, e)"
    by (cases "trigger (en_runner (rc_env rc)) (en_hooks (rc_env rc)) Stop
      (stop_context (rm_state m) (rm_transcript m) turn) (rm_world m)") auto
  show ?thesis
  proof (cases "(b \<or> is_blank turn) \<and> ru_stop_blocks (rm_state m) < rc_max_blocks rc")
    case True
    then show ?thesis using g assms(1) by (simp add: decide_end_def Let_def sound_append_plain)
  next
    case out: False
    show ?thesis
    proof (cases "is_blank turn")
      case True
      then show ?thesis
        using g out assms notice_visible(1)
        by (simp add: decide_end_def Let_def visible_end_def sound_append_plain)
    next
      case False
      then show ?thesis
        using g out assms
        by (auto simp: decide_end_def Let_def visible_end_def is_blank_def)
    qed
  qed
qed

lemma finish_round_ok:
  assumes "conf_ok rc" and "sound (rm_transcript m)" and "rm_log m = log @ [tn_message turn]"
    and "tn_tool_calls turn = []"
  shows "round_ok (finish_round rc turn m)"
proof -
  obtain steers e where s: "take_steers rc (rm_world m) = (steers, e)" by fastforce
  have plain: "list_all plain_message steers" using take_steers_plain [OF assms(1), of "rm_world m"] s by simp
  show ?thesis
  proof (cases "steers = []")
    case False
    then show ?thesis using s plain assms(2) by (simp add: finish_round_def round_ok_def mem_ok_def)
  next
    case True
    let ?m = "m\<lparr>rm_pending := [], rm_world := e\<rparr>"
    have "sound (rm_transcript ?m)" "rm_log ?m = log @ [tn_message turn]" using assms by simp_all
    from decide_end_ok [OF this assms(4), of rc] True s show ?thesis
      by (cases "fst (decide_end rc turn ?m)")
         (simp_all add: finish_round_def round_ok_def Let_def case_prod_beta mem_ok_def)
  qed
qed

lemma run_batch_ok:
  assumes "conf_ok rc" and "sound t" and "turn_ok turn" and "tn_tool_calls turn \<noteq> []"
    and "rm_transcript m = tr_append (tn_message turn) t" and "rm_pending m = []"
  shows "round_ok (run_batch rc turn m)"
proof -
  obtain c m1 where c: "checkpoint rc m = (c, m1)" by fastforce
  have m1: "rm_transcript m1 = rm_transcript m" "rm_pending m1 = []"
    using checkpoint_simps(1,3) [of rc m] assms(6) unfolding c by simp_all
  show ?thesis
  proof (cases c)
    case (Some reason)
    have "unanswered (rm_transcript m)" using assms(2-5) by (auto simp: unanswered_def sound_def)
    then show ?thesis using c Some m1 by (simp add: run_batch_def round_ok_def)
  next
    case None
    have "order_ok (rc_env rc)" "calls_ok (tn_tool_calls turn)"
      using assms(1,3) by (simp_all add: conf_ok_def turn_ok_def)
    then obtain outs st e where b: "execute_batch (rc_env rc) (ru_round (rm_state m1)) (rc_parallel rc)
        (tn_tool_calls turn) (rm_state m1) (rm_world m1) = (Some outs, st, e)"
      and ids: "map fst outs = map call_id (tn_tool_calls turn)"
      using execute_batch_returns [of "rc_env rc" "tn_tool_calls turn" "ru_round (rm_state m1)"
          "rc_parallel rc" "rm_state m1" "rm_world m1"]
      by (metis prod.collapse)
    let ?m = "fold say (map tool_message outs) (m1\<lparr>rm_state := st, rm_world := e\<rparr>)"
    have "well_formed (tr_messages t @ tn_message turn # map tool_message outs)"
      using assms(2,3) ids by (intro answered_batch) (simp_all add: sound_def)
    then have s: "sound (rm_transcript ?m)"
      using m1 assms(2,5) by (simp add: sound_def fold_say_transcript costs_ok_append)
    obtain steers e2 where st: "take_steers rc e = (steers, e2)" by fastforce
    have plain: "list_all plain_message steers" using take_steers_plain [OF assms(1), of e] st by simp
    let ?h = "denial_halt (?m\<lparr>rm_pending := [], rm_world := e2\<rparr>)"
    have h: "sound (rm_transcript (snd ?h)) \<and> visible_end (rm_log (snd ?h)) (fst ?h)"
      using s by (intro denial_halt_ok) simp
    show ?thesis
    proof (cases "ru_denial_streak st < rc_max_denials rc")
      case True
      then show ?thesis using c None b s m1 by (simp add: run_batch_def round_ok_def Let_def mem_ok_def)
    next
      case False
      then show ?thesis
        using c None b s m1 st plain h
        by (simp add: run_batch_def round_ok_def Let_def case_prod_beta mem_ok_def)
    qed
  qed
qed

lemma run_round_ok:
  assumes "conf_ok rc" and "mem_ok m"
  shows "round_ok (run_round rc injected k m)"
proof -
  let ?m0 = "m\<lparr>rm_state := (rm_state m)\<lparr>ru_round := k\<rparr>\<rparr>"
  obtain c m1 where c: "checkpoint rc ?m0 = (c, m1)" by fastforce
  have m1: "rm_transcript m1 = rm_transcript m" "rm_pending m1 = rm_pending m"
    using checkpoint_simps(1,3) [of rc ?m0] unfolding c by simp_all
  then have ok: "mem_ok m1" using assms(2) by (simp add: mem_ok_def)
  show ?thesis
  proof (cases c)
    case (Some reason)
    then show ?thesis using c ok by (simp add: run_round_def round_ok_def mem_ok_def)
  next
    case None
    let ?d = "deliver rc m1"
    have d: "sound (rm_transcript ?d)" "rm_pending ?d = []" using deliver_ok [OF assms(1) ok] by simp_all
    obtain a m2 where a: "ask_model rc injected ?d = (a, m2)" by fastforce
    note ans = ask_model_answer [OF d(1), of rc injected, unfolded a, simplified]
    have p: "rm_pending m2 = []" using ask_model_fields [of rc injected ?d] d(2) a by simp
    show ?thesis
    proof (cases a)
      case (Inl x)
      have "x = ComposeCrashed \<or> (\<exists>y. x = ModelError y)"
        using a Inl
        by (auto simp: ask_model_def Let_def case_prod_beta split: option.splits sum.splits)
      then show ?thesis using c None a Inl ans by (auto simp: run_round_def round_ok_def)
    next
      case (Inr turn)
      obtain t log where t: "sound t" "rm_transcript m2 = tr_append (tn_message turn) t"
          "rm_log m2 = log @ [tn_message turn]" and ok: "turn_ok turn"
        using ans Inr assms(1) by (auto simp: conf_ok_def)
      show ?thesis
      proof (cases "tn_tool_calls turn = []")
        case True
        have "sound (rm_transcript m2)"
          using t(1,2) ok True by (auto simp: turn_ok_def plain_message_def intro!: sound_append_plain)
        then have "round_ok (finish_round rc turn m2)" by (rule finish_round_ok [OF assms(1) _ t(3) True])
        then show ?thesis using c None a Inr True by (simp add: run_round_def)
      next
        case False
        have "round_ok (run_batch rc turn m2)" by (rule run_batch_ok [OF assms(1) t(1) ok False t(2) p])
        then show ?thesis using c None a Inr False by (simp add: run_round_def)
      qed
    qed
  qed
qed

subsection \<open>Facts about the loop\<close>

definition end_ok :: "(run_error + run_outcome) \<times> 'e run_mem \<Rightarrow> bool" where
  "end_ok out \<longleftrightarrow> round_ok (case fst out of Inl x \<Rightarrow> Raised x | Inr o' \<Rightarrow> Ended o', snd out)"

lemma run_loop_ok:
  assumes "run_loop rc injected k m = Some out" and "conf_ok rc" and "mem_ok m"
  shows "end_ok out"
proof -
  have "conf_ok rc \<longrightarrow> mem_ok m \<longrightarrow> end_ok out"
  proof (rule run_loop.raw_induct [OF _ assms(1)])
    fix f rc injected k m out
    assume ih: "\<And>rc injected k m out. f rc injected k m = Some out \<Longrightarrow>
        conf_ok rc \<longrightarrow> mem_ok (m :: 'a run_mem) \<longrightarrow> end_ok out"
      and eq: "(let out = run_round rc injected k m
        in case fst out of
             Continue \<Rightarrow> f rc injected (Suc k) (snd out)
           | Ended o' \<Rightarrow> Some (Inr o', snd out)
           | Raised x \<Rightarrow> Some (Inl x, snd out)) = Some out"
    show "conf_ok rc \<longrightarrow> mem_ok m \<longrightarrow> end_ok out"
    proof (intro impI)
      assume c: "conf_ok rc" and m: "mem_ok m"
      obtain r m' where r: "run_round rc injected k m = (r, m')" by fastforce
      have ok: "round_ok (r, m')" using run_round_ok [OF c m, of injected k] r by simp
      show "end_ok out"
      proof (cases r)
        case Continue
        then have "f rc injected (Suc k) m' = Some out" using eq r by (simp add: Let_def)
        moreover have "mem_ok m'" using ok Continue by (simp add: round_ok_def)
        ultimately show ?thesis using ih c by blast
      next
        case (Ended o')
        then have "out = (Inr o', m')" using eq r by (simp add: Let_def)
        then show ?thesis using ok Ended by (simp add: end_ok_def)
      next
        case (Raised x)
        then have "out = (Inl x, m')" using eq r by (simp add: Let_def)
        then show ?thesis using ok Raised by (simp add: end_ok_def)
      qed
    qed
  qed
  then show ?thesis using assms by blast
qed

text \<open>A model that makes no more tool calls, and nobody who interrupts.\<close>

definition quiet :: "'e run_conf \<Rightarrow> bool" where
  "quiet rc \<longleftrightarrow>
     (\<forall>q e turn. fst (cc_chat (rc_context rc) q e) = Inr turn \<longrightarrow> tn_tool_calls turn = []) \<and>
     (\<forall>e. fst (take_steers rc e) = [])"

lemma decide_end_progress:
  assumes "fst (decide_end rc turn m) = None"
  shows "ru_stop_blocks (rm_state m) < rc_max_blocks rc \<and>
    ru_stop_blocks (rm_state (snd (decide_end rc turn m))) = Suc (ru_stop_blocks (rm_state m))"
  using assms
  by (auto simp: decide_end_def Let_def case_prod_beta split: if_splits)

lemma decide_end_round [simp]:
  "ru_round (rm_state (snd (decide_end rc turn m))) = ru_round (rm_state m)"
  by (simp add: decide_end_def Let_def case_prod_beta)

lemma finish_round_progress:
  assumes "\<forall>e. fst (take_steers rc e) = []"
  shows "ru_round (rm_state (snd (finish_round rc turn m))) = ru_round (rm_state m) \<and>
    (fst (finish_round rc turn m) = Continue \<longrightarrow>
       ru_stop_blocks (rm_state m) < rc_max_blocks rc \<and>
       ru_stop_blocks (rm_state (snd (finish_round rc turn m))) = Suc (ru_stop_blocks (rm_state m)))"
proof -
  let ?m = "m\<lparr>rm_pending := [], rm_world := snd (take_steers rc (rm_world m))\<rparr>"
  have "finish_round rc turn m =
      (case fst (decide_end rc turn ?m) of None \<Rightarrow> Continue | Some o' \<Rightarrow> Ended o', snd (decide_end rc turn ?m))"
    using assms by (simp add: finish_round_def Let_def case_prod_beta)
  then show ?thesis
    using decide_end_progress [of rc turn ?m] by (cases "fst (decide_end rc turn ?m)") simp_all
qed

lemma run_round_progress:
  assumes "quiet rc" and "mem_ok m" and "conf_ok rc"
  shows "ru_round (rm_state (snd (run_round rc injected k m))) = k \<and>
    (fst (run_round rc injected k m) = Continue \<longrightarrow>
       ru_stop_blocks (rm_state m) < rc_max_blocks rc \<and>
       ru_stop_blocks (rm_state (snd (run_round rc injected k m))) = Suc (ru_stop_blocks (rm_state m)))"
proof -
  let ?m0 = "m\<lparr>rm_state := (rm_state m)\<lparr>ru_round := k\<rparr>\<rparr>"
  obtain c m1 where c: "checkpoint rc ?m0 = (c, m1)" by fastforce
  have m1: "rm_transcript m1 = rm_transcript m" "rm_pending m1 = rm_pending m" "ru_round (rm_state m1) = k"
      "ru_stop_blocks (rm_state m1) = ru_stop_blocks (rm_state m)"
    using checkpoint_simps [of rc ?m0] unfolding c by simp_all
  obtain a m2 where a: "ask_model rc injected (deliver rc m1) = (a, m2)" by fastforce
  have m2: "ru_round (rm_state m2) = k" "ru_stop_blocks (rm_state m2) = ru_stop_blocks (rm_state m)"
    using ask_model_fields [of rc injected "deliver rc m1"] a m1 by simp_all
  show ?thesis
  proof (cases c)
    case (Some reason)
    then show ?thesis using c m1 by (simp add: run_round_def)
  next
    case None
    show ?thesis
    proof (cases a)
      case (Inl x)
      then show ?thesis using c None a m2 by (simp add: run_round_def)
    next
      case (Inr turn)
      have "mem_ok m1" using assms(2) m1 by (simp add: mem_ok_def)
      from ask_model_answer [OF deliver_ok(1) [OF assms(3) this], of rc injected]
      obtain q e where "fst (cc_chat (rc_context rc) q e) = Inr turn" using a Inr by auto
      then have "tn_tool_calls turn = []" using assms(1) by (auto simp: quiet_def)
      then show ?thesis
        using c None a Inr m2 finish_round_progress [of rc turn m2] assms(1)
        by (simp add: run_round_def quiet_def)
    qed
  qed
qed

lemma run_loop_returns:
  assumes "quiet rc" and "conf_ok rc" and "mem_ok m"
    and "n = rc_max_blocks rc - ru_stop_blocks (rm_state m)"
  shows "\<exists>r m'. run_loop rc injected k m = Some (r, m') \<and> ru_round (rm_state m') \<le> k + n"
  using assms(3,4)
proof (induction n arbitrary: k m)
  case 0
  obtain r m' where r: "run_round rc injected k m = (r, m')" by fastforce
  have p: "ru_round (rm_state m') = k" "r \<noteq> Continue"
    using run_round_progress [OF assms(1) 0(1) assms(2), of injected k] r 0(2) by auto
  then show ?case using r by (subst run_loop.simps) (cases r; simp add: Let_def)
next
  case (Suc n)
  obtain r m' where r: "run_round rc injected k m = (r, m')" by fastforce
  have p: "ru_round (rm_state m') = k"
      "r = Continue \<Longrightarrow> ru_stop_blocks (rm_state m') = Suc (ru_stop_blocks (rm_state m))"
    using run_round_progress [OF assms(1) Suc.prems(1) assms(2), of injected k] r by auto
  show ?case
  proof (cases "r = Continue")
    case True
    have "mem_ok m'" using run_round_ok [OF assms(2) Suc.prems(1), of injected k] r True
      by (simp add: round_ok_def)
    moreover have "n = rc_max_blocks rc - ru_stop_blocks (rm_state m')"
      using Suc.prems(2) p(2) [OF True] by simp
    ultimately obtain r2 m2 where "run_loop rc injected (Suc k) m' = Some (r2, m2)"
        "ru_round (rm_state m2) \<le> Suc k + n"
      using Suc.IH by blast
    then show ?thesis using r True by (subst run_loop.simps) (simp add: Let_def)
  next
    case False
    then show ?thesis using r p(1) by (subst run_loop.simps) (cases r; simp add: Let_def)
  qed
qed

lemma start_run_ok: "new_transcript ms = Inr t \<Longrightarrow> mem_ok (start_run rc t st x e)"
  by (auto simp: new_transcript_def accept_None start_run_def mem_ok_def sound_def split: option.splits)

lemma run_end_ok:
  assumes "conf_ok rc" and "run rc messages st e = Inr (Some (r, Some m))"
  shows "end_ok (r, m)"
proof -
  obtain t where t: "new_transcript messages = Inr t" using assms(2) by (auto simp: run_def split: sum.splits)
  obtain z e' where z: "submit_input rc t e = (z, e')" by fastforce
  have "z \<noteq> None"
  proof
    assume "z = None"
    then show False using assms(2) t z by (simp add: run_def)
  qed
  then obtain index injected where s: "submit_input rc t e = (Some (index, injected), e')" using z by auto
  have "map_option (\<lambda>(r, m). (r, Some m))
      (run_loop rc injected 1 (start_run rc t st (tr_messages t ! index) e')) = Some (r, Some m)"
    using assms(2) t s by (simp add: run_def)
  then obtain x where x: "run_loop rc injected 1 (start_run rc t st (tr_messages t ! index) e') = Some x"
      "(case x of (r, m) \<Rightarrow> (r, Some m)) = (r, Some m)"
    unfolding map_option_eq_Some by blast
  from x(2) have "x = (r, m)" by (cases x) simp
  with x(1) have "run_loop rc injected 1 (start_run rc t st (tr_messages t ! index) e') = Some (r, m)" by simp
  then show ?thesis by (rule run_loop_ok [OF _ assms(1) start_run_ok [OF t]])
qed

lemma run_blocked:
  assumes "run rc messages st e = Inr (Some (Inr out, None))"
  shows "out = \<lparr>oc_text = [], oc_reason = PromptBlocked\<rparr> "
proof -
  obtain t where t: "new_transcript messages = Inr t" using assms by (auto simp: run_def split: sum.splits)
  obtain z e' where z: "submit_input rc t e = (z, e')" by fastforce
  show ?thesis using assms t z by (cases z) (auto simp: run_def)
qed

subsection \<open>Properties\<close>


definition sample_rc :: "unit run_conf" where
  "sample_rc =
     \<lparr>rc_env = sample_env, rc_context = sample_conf, rc_parallel = 4,
      rc_max_denials = MAX_CONSECUTIVE_DENIALS, rc_max_blocks = MAX_STOP_BLOCKS, rc_window = None,
      rc_tool_names = [], rc_permission_mode = ''normal'', rc_steers = None, rc_probe = (\<lambda>e. None)\<rparr>"

lemma sample_chat: "cc_chat (rc_context sample_rc) q e = (Inr (plain_turn ''the gist''), e)"
  by (simp add: sample_rc_def sample_conf_def sample_compact_def)

lemma sample_rc_ok: "conf_ok sample_rc"
  using sample_order
  by (simp add: conf_ok_def sample_chat turn_ok_def plain_turn_def calls_ok_def)
     (simp add: sample_rc_def says_def is_tool_def call_ids_def calls_of_def)

lemma sample_rc_quiet: "quiet sample_rc"
  by (simp add: quiet_def sample_chat plain_turn_def) (simp add: sample_rc_def take_steers_def)

lemma short_accepted: "new_transcript [says ''user'' ''hi''] = Inr short_transcript"
proof -
  have "accept [says ''user'' ''hi''] = None" by code_simp
  then show ?thesis by (simp add: new_transcript_def short_transcript_def)
qed

lemma sample_started:
  "run sample_rc [says ''user'' ''hi''] st () =
     Inr (map_option (\<lambda>(r, m). (r, Some m))
       (run_loop sample_rc [] 1 (start_run sample_rc short_transcript st (says ''user'' ''hi'') ())))"
proof -
  have u: "last_user_index short_transcript = Some 0" by code_simp
  have s: "submit_input sample_rc short_transcript () = (Some (0, []), ())"
    by (simp add: submit_input_def u trigger_def)
       (simp add: sample_rc_def sample_env_def submit_context_def)
  show ?thesis by (simp add: run_def short_accepted s) (simp add: short_transcript_def)
qed


text \<open>
  A run never ends in silence: the text of every outcome is visible, and it is what was last said to
  the user: the model's own last message without tool calls, or a notice that names why there is none (a
  blank answer with the budget spent, too many refusals in a row). Only an input that was blocked before
  the first round ends without a text.
\<close>

theorem run_never_ends_silently:
  assumes "conf_ok rc" and "run rc messages st e = Inr (Some (Inr out, final))"
  shows "(out = \<lparr>oc_text = [], oc_reason = PromptBlocked\<rparr> \<and> final = None) \<or>
    (\<exists>m. final = Some m \<and> visible_end (rm_log m) out)"
proof (cases final)
  case None
  then show ?thesis using assms(2) run_blocked [of rc messages st e out] by simp
next
  case (Some m)
  then show ?thesis using run_end_ok [OF assms(1), of messages st e "Inr out" m] assms(2)
    by (simp add: end_ok_def round_ok_def)
qed

lemma short_called:
  "call_model sample_conf cx q t st e = (Inr (plain_turn ''the gist''), cx, t, note_prompt_parts sample_conf q st, e)"
  by (simp add: call_model_def send_def) (simp add: sample_conf_def sample_compact_def)

lemma sample_checkpoint:
  "\<not> ru_cancelled (rm_state m) \<Longrightarrow> checkpoint sample_rc m = (None, m)"
  by (simp add: checkpoint_def sample_rc_def sample_env_def sync_cancel_def check_cancelled_def)

lemma sample_answer:
  assumes "rm_transcript m = short_transcript"
  shows "\<exists>m2. ask_model sample_rc [] m = (Inr (plain_turn ''the gist''), m2)"
proof -
  have "rc_context sample_rc = sample_conf" by (simp add: sample_rc_def)
  then show ?thesis by (simp add: ask_model_def assms Let_def case_prod_beta short_composed short_called)
qed

lemma sample_round:
  "\<exists>m. run_round sample_rc [] 1 (start_run sample_rc short_transcript fresh_run x ()) =
     (Ended \<lparr>oc_text = ''the gist'', oc_reason = FinalText\<rparr>, m)"
proof -
  let ?m = "(start_run sample_rc short_transcript fresh_run x ())\<lparr>rm_state :=
    (rm_state (start_run sample_rc short_transcript fresh_run x ()))\<lparr>ru_round := 1\<rparr>\<rparr>"
  have "\<not> ru_cancelled (rm_state ?m)" by (simp add: start_run_def fresh_run_def for_run_def)
  note c = sample_checkpoint [OF this]
  have t: "rm_transcript (deliver sample_rc ?m) = short_transcript"
    by (simp add: deliver_def take_steers_def Let_def start_run_def) (simp add: sample_rc_def)
  obtain m2 where a: "ask_model sample_rc [] (deliver sample_rc ?m) = (Inr (plain_turn ''the gist''), m2)"
    using sample_answer [OF t] by blast
  have n: "\<not> is_blank (plain_turn ''the gist'')" by code_simp
  have "fst (decide_end sample_rc (plain_turn ''the gist'') m) = Some \<lparr>oc_text = ''the gist'', oc_reason = FinalText\<rparr>" for m
    by (simp add: decide_end_def n trigger_def) (simp add: sample_rc_def sample_env_def plain_turn_def)
  then have "fst (finish_round sample_rc (plain_turn ''the gist'') m2) = Ended \<lparr>oc_text = ''the gist'', oc_reason = FinalText\<rparr>"
    by (simp add: finish_round_def take_steers_def Let_def case_prod_beta) (simp add: sample_rc_def)
  moreover have "tn_tool_calls (plain_turn ''the gist'') = []" by (simp add: plain_turn_def)
  ultimately have "fst (run_round sample_rc [] 1 (start_run sample_rc short_transcript fresh_run x ())) =
      Ended \<lparr>oc_text = ''the gist'', oc_reason = FinalText\<rparr>"
    using a by (simp add: run_round_def c del: One_nat_def)
  then show ?thesis by (metis prod.collapse)
qed

theorem run_never_ends_silently_witness:
  "\<exists>m. run sample_rc [says ''user'' ''hi''] fresh_run () =
     Inr (Some (Inr \<lparr>oc_text = ''the gist'', oc_reason = FinalText\<rparr>, Some m)) \<and>
     visible_end (rm_log m) \<lparr>oc_text = ''the gist'', oc_reason = FinalText\<rparr>"
proof -
  obtain m where "run_round sample_rc [] 1 (start_run sample_rc short_transcript fresh_run
      (says ''user'' ''hi'') ()) = (Ended \<lparr>oc_text = ''the gist'', oc_reason = FinalText\<rparr>, m)"
    using sample_round by blast
  then have r: "run sample_rc [says ''user'' ''hi''] fresh_run () =
      Inr (Some (Inr \<lparr>oc_text = ''the gist'', oc_reason = FinalText\<rparr>, Some m))"
    by (simp add: sample_started) (subst run_loop.simps, simp add: Let_def)
  from run_never_ends_silently [OF sample_rc_ok r] r show ?thesis by auto
qed

text \<open>
  There is no bound on the rounds of a run, but once the model stops calling tools it ends: if no more
  tool calls and no steering messages come, the loop returns after at most as many further rounds as nudges
  are left in the budget, however the hooks behave and whatever the model says.
\<close>

theorem run_ends_without_tool_calls:
  assumes "quiet rc" and "conf_ok rc" and "mem_ok m"
  shows "\<exists>r m'. run_loop rc injected k m = Some (r, m') \<and>
    ru_round (rm_state m') \<le> k + (rc_max_blocks rc - ru_stop_blocks (rm_state m))"
  using run_loop_returns [OF assms refl] .

theorem run_ends_without_tool_calls_witness:
  "\<exists>r m'. run_loop sample_rc [] 7 (start_run sample_rc short_transcript fresh_run [] ()) = Some (r, m') \<and>
     ru_round (rm_state m') \<le> 8"
proof -
  have "mem_ok (start_run sample_rc short_transcript fresh_run [] ())"
    using short_sound by (simp add: mem_ok_def start_run_def)
  moreover have "ru_stop_blocks (rm_state (start_run sample_rc short_transcript fresh_run [] ())) = 0"
    by (simp add: start_run_def fresh_run_def for_run_def)
  moreover have "rc_max_blocks sample_rc = 1" by (simp add: sample_rc_def MAX_STOP_BLOCKS_def)
  ultimately show ?thesis
    using run_ends_without_tool_calls [OF sample_rc_quiet sample_rc_ok, of _ "[]" 7] by fastforce
qed

end
