(* ===== verification/Providers_Anthropic.thy ===== *)
theory Providers_Anthropic
  imports Providers_Protocol
begin

section \<open>The messages protocol\<close>

text \<open>
  The module \<open>avid/providers/anthropic.py\<close>: messages in the shape of the kernel become messages of
  the native protocol, a response or a stream of events becomes a turn. \<open>None\<close> is an exception
  nobody names. The slots of the accumulator are records of the seven strings of its dicts, in the
  order their indices arrived.
\<close>

subsection \<open>Messages\<close>

definition plain_text :: "pyval \<Rightarrow> string" where
  "plain_text raw = (case raw of PStr s \<Rightarrow> s | _ \<Rightarrow> [])"

definition tool_use_block :: "pyval \<Rightarrow> pydict option" where
  "tool_use_block call =
     (case call of
        PDict c \<Rightarrow>
          (case dict_or (dget c ''function'') of
             None \<Rightarrow> None
           | Some f \<Rightarrow>
               (let raw = dget f ''arguments'';
                    args = (if \<not> truthy raw then Some []
                            else case raw of
                              PStr s \<Rightarrow> Some (case loads s of Some (PDict a) \<Rightarrow> a | _ \<Rightarrow> [])
                            | _ \<Rightarrow> None)
                in map_option (\<lambda>a.
                     [(''type'', PStr ''tool_use''), (''id'', PStr (py_str (dget_or c ''id'' (PStr '''')))),
                      (''name'', PStr (py_str (dget_or f ''name'' (PStr '''')))), (''input'', PDict a)]) args))
      | _ \<Rightarrow> None)"

definition replayable :: "pydict list \<Rightarrow> pydict list" where
  "replayable blocks =
     concat (map (\<lambda>b.
       if dget b ''type'' = PStr ''thinking'' \<and> truthy (dget b ''signature'') then
         [[(''type'', PStr ''thinking''), (''thinking'', dget_or b ''thinking'' (PStr '''')),
           (''signature'', dget b ''signature'')]]
       else if dget b ''type'' = PStr ''redacted_thinking'' \<and> truthy (dget b ''data'') then
         [[(''type'', PStr ''redacted_thinking''), (''data'', dget b ''data'')]]
       else []) blocks)"

definition user_block :: "pyval \<Rightarrow> pyval list" where
  "user_block part =
     (case part of
        PDict d \<Rightarrow>
          (if dget d ''type'' = PStr ''image''
           then [PDict [(''type'', PStr ''image''),
                   (''source'', PDict [(''type'', PStr ''base64''), (''media_type'', PStr (str_or (dget d ''mime''))),
                                       (''data'', PStr (str_or (dget d ''data'')))])]]
           else case dget d ''text'' of
             PStr t \<Rightarrow> [PDict [(''type'', PStr ''text''), (''text'', PStr t)]]
           | _ \<Rightarrow> [])
      | _ \<Rightarrow> [])"

definition anthropic_user_content :: "pyval \<Rightarrow> pyval" where
  "anthropic_user_content raw =
     (case content_parts raw of
        None \<Rightarrow> PStr (plain_text raw)
      | Some parts \<Rightarrow> PList (concat (map user_block parts)))"

definition result_block :: "pydict \<Rightarrow> pyval" where
  "result_block m =
     PDict [(''type'', PStr ''tool_result''),
            (''tool_use_id'', PStr (py_str (dget_or m ''tool_call_id'' (PStr '''')))),
            (''content'', PStr (plain_text (dget m ''content'')))]"

definition user_says_native :: "pyval \<Rightarrow> pydict" where
  "user_says_native c = [(''role'', PStr ''user''), (''content'', c)]"

definition flush_results :: "pydict list \<Rightarrow> pyval list \<Rightarrow> pydict list" where
  "flush_results out pending = (if pending \<noteq> [] then out @ [user_says_native (PList pending)] else out)"

definition push_user :: "pyval \<Rightarrow> pydict list \<Rightarrow> pydict list" where
  "push_user content out =
     (case (content, if out = [] then None else Some (last out)) of
        (PStr s, Some l) \<Rightarrow>
          (case dget l ''content'' of
             PStr t \<Rightarrow>
               (if dget l ''role'' = PStr ''user''
                then butlast out @ [AList.update ''content'' (PStr (t @ [LF, LF] @ s)) l]
                else out @ [user_says_native content])
           | _ \<Rightarrow> out @ [user_says_native content])
      | _ \<Rightarrow> out @ [user_says_native content])"

definition assistant_native :: "pydict list \<Rightarrow> pydict \<Rightarrow> pydict option" where
  "assistant_native replayed m =
     (case iter_or (dget m ''tool_calls'') of
        None \<Rightarrow> None
      | Some calls \<Rightarrow>
          (case those (map tool_use_block calls) of
             None \<Rightarrow> None
           | Some uses \<Rightarrow>
               (let t = plain_text (dget m ''content'')
                in Some [(''role'', PStr ''assistant''),
                         (''content'', PList (map PDict (replayable replayed) @
                            (if t \<noteq> [] then [PDict [(''type'', PStr ''text''), (''text'', PStr t)]] else []) @
                            map PDict uses))])))"

fun build_from ::
  "(nat \<times> pydict list) list \<Rightarrow> nat \<Rightarrow> pydict list \<Rightarrow> pyval list \<Rightarrow> pydict list \<Rightarrow> pydict list option" where
  "build_from plan i out pending [] = Some (flush_results out pending)"
| "build_from plan i out pending (m # ms) =
     (if is_tool m then build_from plan (Suc i) out (pending @ [result_block m]) ms
      else if dget m ''role'' = PStr ''assistant'' then
        (case assistant_native (case map_of plan i of None \<Rightarrow> [] | Some bs \<Rightarrow> bs) m of
           None \<Rightarrow> None
         | Some a \<Rightarrow> build_from plan (Suc i) (flush_results out pending @ [a]) [] ms)
      else build_from plan (Suc i)
             (push_user (anthropic_user_content (dget m ''content'')) (flush_results out pending)) [] ms)"

definition build_messages :: "reasoning_route option \<Rightarrow> pydict list \<Rightarrow> pydict list option" where
  "build_messages rt ms = build_from (case rt of None \<Rightarrow> [] | Some r \<Rightarrow> plan_replay r ms) 0 [] [] ms"

subsection \<open>The request\<close>

definition ANTHROPIC_MAX_TOKENS :: int where "ANTHROPIC_MAX_TOKENS = 16384"
definition ANTHROPIC_VERSION :: string where "ANTHROPIC_VERSION = ''2023-06-01''"

definition native_tool :: "pyval \<Rightarrow> pyval option" where
  "native_tool item =
     (case item of
        PDict d \<Rightarrow>
          (case map_of d ''function'' of
             Some (PDict f) \<Rightarrow>
               (case map_of f ''name'' of
                  None \<Rightarrow> None
                | Some n \<Rightarrow>
                    Some (PDict [(''name'', n), (''description'', dget_or f ''description'' (PStr '''')),
                                 (''input_schema'', dget_or f ''parameters'' (PDict [(''type'', PStr ''object'')]))]))
           | _ \<Rightarrow> None)
      | _ \<Rightarrow> None)"

definition anthropic_request ::
  "provider_config \<Rightarrow> pydict list \<Rightarrow> string option \<Rightarrow> pyval list \<Rightarrow> int option \<Rightarrow> provider_error + pydict" where
  "anthropic_request cf ms system tools max_tokens =
     (case route_of cf of
        Inl e \<Rightarrow> Inl e
      | Inr rt \<Rightarrow>
          (case (build_messages (Some rt) ms, those (map native_tool tools)) of
             (Some out, Some ts) \<Rightarrow>
               Inr (dict_update
                 ([(''model'', PStr (cf_model cf)),
                   (''max_tokens'', PInt (case max_tokens of None \<Rightarrow> ANTHROPIC_MAX_TOKENS | Some n \<Rightarrow> n)),
                   (''messages'', PList (map PDict out))] @
                  (if given_str system then [(''system'', PStr (the system))] else []) @
                  (if tools \<noteq> [] then [(''tools'', PList ts)] else []))
                 (cf_extra_body cf))
           | _ \<Rightarrow> Inl Crashed))"

definition messages_url :: "provider_config \<Rightarrow> string" where
  "messages_url cf =
     (let base = rstrip_slash (cf_base_url cf);
          base = (if has_prefix (rev ''/v1'') (rev base) then take (length base - 3) base else base)
      in base @ ''/v1/messages'')"

definition anthropic_headers :: "provider_config \<Rightarrow> pydict" where
  "anthropic_headers cf =
     dict_update
       ([(''anthropic-version'', PStr ANTHROPIC_VERSION), (''Content-Type'', PStr ''application/json'')] @
        (if cf_api_key cf \<noteq> [] then [(''x-api-key'', PStr (cf_api_key cf))] else []))
       (cf_extra_headers cf)"

definition anthropic_carried_reasoning :: "pydict \<Rightarrow> bool" where
  "anthropic_carried_reasoning request =
     (case iter_or (dget request ''messages'') of
        None \<Rightarrow> False
      | Some ms \<Rightarrow>
          list_ex (\<lambda>m. case m of
              PDict d \<Rightarrow>
                (case dget d ''content'' of
                   PList bs \<Rightarrow> list_ex (\<lambda>b. case b of
                       PDict x \<Rightarrow> dget x ''type'' \<in> {PStr ''thinking'', PStr ''redacted_thinking''}
                     | _ \<Rightarrow> False) bs
                 | _ \<Rightarrow> False)
            | _ \<Rightarrow> False) ms)"

subsection \<open>A whole response\<close>

definition stop_word :: "string \<Rightarrow> string" where
  "stop_word reason =
     (case map_of [(''end_turn'', ''stop''), (''stop_sequence'', ''stop''), (''tool_use'', ''tool_calls''),
                   (''max_tokens'', ''length'')] reason of
        Some w \<Rightarrow> w | None \<Rightarrow> map lower_char reason)"

definition finish_of :: "pyval \<Rightarrow> string" where "finish_of stop_reason = stop_word (str_or stop_reason)"

definition native_call :: "string \<Rightarrow> string \<Rightarrow> string \<Rightarrow> pyval" where
  "native_call i name args =
     PDict [(''id'', PStr i), (''type'', PStr ''function''),
            (''function'', PDict [(''name'', PStr name), (''arguments'', PStr args)])]"

definition call_of_block :: "pydict \<Rightarrow> pyval" where
  "call_of_block b =
     native_call (py_str (dget_or b ''id'' (PStr ''''))) (py_str (dget_or b ''name'' (PStr '''')))
       (dumps (if truthy (dget b ''input'') then dget b ''input'' else PDict []))"

definition thinking_of_block :: "pydict \<Rightarrow> pydict option" where
  "thinking_of_block b =
     (if dget b ''type'' = PStr ''thinking'' then
        Some [(''type'', PStr ''thinking''), (''thinking'', PStr (str_or (dget b ''thinking''))),
              (''signature'', PStr (str_or (dget b ''signature'')))]
      else if dget b ''type'' = PStr ''redacted_thinking'' then
        Some [(''type'', PStr ''redacted_thinking''), (''data'', PStr (str_or (dget b ''data'')))]
      else None)"

definition native_turn ::
  "string \<Rightarrow> pydict list \<Rightarrow> pyval list \<Rightarrow> usage \<Rightarrow> string \<Rightarrow> string \<Rightarrow> turn" where
  "native_turn t thinks calls usage model finish =
     \<lparr>tn_message = assistant_message t calls, tn_text = t, tn_tool_calls = calls, tn_usage = usage,
      tn_model = model, tn_finish_reason = finish,
      tn_reasoning = concat (map (\<lambda>b. str_or (dget b ''thinking'')) thinks), tn_reasoning_blocks = thinks\<rparr>"

definition block_texts :: "pydict list \<Rightarrow> string" where
  "block_texts bs = concat (map (\<lambda>b. str_or (dget b ''text'')) (filter (\<lambda>b. dget b ''type'' = PStr ''text'') bs))"

definition block_calls :: "pydict list \<Rightarrow> pyval list" where
  "block_calls bs = map call_of_block (filter (\<lambda>b. dget b ''type'' = PStr ''tool_use'') bs)"

definition block_thinks :: "pydict list \<Rightarrow> pydict list" where
  "block_thinks bs =
     concat (map (\<lambda>b. if dget b ''type'' \<in> {PStr ''text'', PStr ''tool_use''} then []
                      else case thinking_of_block b of None \<Rightarrow> [] | Some t \<Rightarrow> [t]) bs)"

definition anthropic_parse_turn :: "pyval \<Rightarrow> provider_error + turn" where
  "anthropic_parse_turn data =
     (case data of
        PDict d \<Rightarrow>
          (case (case iter_or (dget d ''content'') of None \<Rightarrow> None | Some vs \<Rightarrow> those (map as_dict vs)) of
             None \<Rightarrow> Inl Crashed
           | Some bs \<Rightarrow>
               Inr (native_turn (block_texts bs) (block_thinks bs) (block_calls bs) (normalize_usage data)
                      (py_str (dget_or d ''model'' (PStr ''''))) (finish_of (dget d ''stop_reason''))))
      | _ \<Rightarrow> Inl Crashed)"

subsection \<open>A stream\<close>

record slot =
  sl_kind :: string
  sl_text :: string
  sl_id :: string
  sl_name :: string
  sl_args :: string
  sl_signature :: string
  sl_data :: string

record accumulator =
  ac_model :: string
  ac_blocks :: "(int \<times> slot) list"
  ac_stop_reason :: string
  ac_input_usage :: pydict
  ac_output_tokens :: int

definition fresh_accumulator :: accumulator where
  "fresh_accumulator =
     \<lparr>ac_model = [], ac_blocks = [], ac_stop_reason = [], ac_input_usage = [], ac_output_tokens = 0\<rparr>"

definition block_kind :: "string \<Rightarrow> string" where
  "block_kind ty =
     (case map_of [(''text'', ''text''), (''thinking'', ''thinking''), (''redacted_thinking'', ''redacted''),
                   (''tool_use'', ''tool'')] ty of
        Some k \<Rightarrow> k | None \<Rightarrow> ''text'')"

definition int_or_zero :: "pyval \<Rightarrow> int option" where
  "int_or_zero v = (if truthy v then py_int v else Some 0)"

text \<open>\<open>message_start\<close>: the counts that are named.\<close>

fun keep_counts :: "string list \<Rightarrow> pydict \<Rightarrow> pydict \<Rightarrow> pydict option" where
  "keep_counts [] usage kept = Some kept"
| "keep_counts (k # ks) usage kept =
     (case map_of usage k of
        None \<Rightarrow> keep_counts ks usage kept
      | Some v \<Rightarrow>
          (case int_or_zero v of
             None \<Rightarrow> None
           | Some n \<Rightarrow> keep_counts ks usage (AList.update k (PInt n) kept)))"

definition INPUT_COUNTS :: "string list" where
  "INPUT_COUNTS = [''input_tokens'', ''cache_read_input_tokens'', ''cache_creation_input_tokens'']"

definition start_message :: "pydict \<Rightarrow> accumulator \<Rightarrow> accumulator option" where
  "start_message event a =
     (case dict_or (dget event ''message'') of
        None \<Rightarrow> None
      | Some message \<Rightarrow>
          (case dict_or (dget message ''usage'') of
             None \<Rightarrow> None
           | Some usage \<Rightarrow>
               map_option (\<lambda>kept. a\<lparr>ac_model := (if truthy (dget message ''model'') then py_str (dget message ''model'')
                                                  else ac_model a),
                                    ac_input_usage := kept\<rparr>)
                 (keep_counts INPUT_COUNTS usage (ac_input_usage a))))"

definition start_block :: "pydict \<Rightarrow> accumulator \<Rightarrow> accumulator option" where
  "start_block event a =
     (case (dict_or (dget event ''content_block''), py_int (dget_or event ''index'' (PInt 0))) of
        (Some b, Some i) \<Rightarrow>
          (if map_of (ac_blocks a) i \<noteq> None then Some a
           else Some (a\<lparr>ac_blocks := ac_blocks a @
             [(i, \<lparr>sl_kind = block_kind (py_str (dget b ''type'')), sl_text = [],
                   sl_id = py_str (dget_or b ''id'' (PStr '''')), sl_name = py_str (dget_or b ''name'' (PStr '''')),
                   sl_args = [], sl_signature = [], sl_data = py_str (dget_or b ''data'' (PStr ''''))\<rparr>)]\<rparr>))
      | _ \<Rightarrow> None)"

text \<open>One delta on its slot: the slot, and the pieces the callbacks are told.\<close>

definition delta_slot :: "pydict \<Rightarrow> slot \<Rightarrow> slot \<times> string \<times> string" where
  "delta_slot delta s =
     (let ty = dget delta ''type'' in
      if ty = PStr ''text_delta'' then
        (let p = str_or (dget delta ''text'') in (s\<lparr>sl_text := sl_text s @ p\<rparr>, p, []))
      else if ty = PStr ''thinking_delta'' then
        (let p = str_or (dget delta ''thinking'') in (s\<lparr>sl_text := sl_text s @ p\<rparr>, [], p))
      else if ty = PStr ''signature_delta'' then
        (s\<lparr>sl_signature := sl_signature s @ str_or (dget delta ''signature'')\<rparr>, [], [])
      else if ty = PStr ''input_json_delta'' then
        (s\<lparr>sl_args := sl_args s @ str_or (dget delta ''partial_json'')\<rparr>, [], [])
      else (s, [], []))"

definition feed_delta :: "pydict \<Rightarrow> accumulator \<Rightarrow> (accumulator \<times> string \<times> string) option" where
  "feed_delta event a =
     (case py_int (dget_or event ''index'' (PInt 0)) of
        None \<Rightarrow> None
      | Some i \<Rightarrow>
          (case map_of (ac_blocks a) i of
             None \<Rightarrow> Some (a, [], [])
           | Some s \<Rightarrow>
               (case dict_or (dget event ''delta'') of
                  None \<Rightarrow> None
                | Some delta \<Rightarrow>
                    (let (s', told) = delta_slot delta s
                     in Some (a\<lparr>ac_blocks := AList.update i s' (ac_blocks a)\<rparr>, told)))))"

definition message_delta :: "pydict \<Rightarrow> accumulator \<Rightarrow> accumulator option" where
  "message_delta event a =
     (case (dict_or (dget event ''delta''), dict_or (dget event ''usage'')) of
        (Some delta, Some usage) \<Rightarrow>
          (case (if dget usage ''output_tokens'' = PNone then Some (ac_output_tokens a)
                 else int_or_zero (dget usage ''output_tokens'')) of
             None \<Rightarrow> None
           | Some n \<Rightarrow>
               Some (a\<lparr>ac_stop_reason := (if truthy (dget delta ''stop_reason'') then py_str (dget delta ''stop_reason'')
                                          else ac_stop_reason a),
                       ac_output_tokens := n\<rparr>))
      | _ \<Rightarrow> None)"

definition anthropic_feed :: "accumulator \<Rightarrow> pydict \<Rightarrow> (accumulator \<times> string \<times> string) option" where
  "anthropic_feed a event =
     (let kind = dget event ''type'' in
      if kind = PStr ''message_start'' then map_option (\<lambda>a. (a, [], [])) (start_message event a)
      else if kind = PStr ''content_block_start'' then map_option (\<lambda>a. (a, [], [])) (start_block event a)
      else if kind = PStr ''content_block_delta'' then feed_delta event a
      else if kind = PStr ''message_delta'' then map_option (\<lambda>a. (a, [], [])) (message_delta event a)
      else Some (a, [], []))"

text \<open>The loop of \<open>stream\<close> over the frames, with all that the callbacks were told.\<close>

fun anthropic_fold ::
  "accumulator \<times> string \<times> string \<Rightarrow> pydict list \<Rightarrow> (accumulator \<times> string \<times> string) option" where
  "anthropic_fold s [] = Some s"
| "anthropic_fold (a, said, thought) (c # cs) =
     (case anthropic_feed a c of
        None \<Rightarrow> None
      | Some (a', t, r) \<Rightarrow> anthropic_fold (a', said @ t, thought @ r) cs)"

definition slot_texts :: "slot list \<Rightarrow> string" where
  "slot_texts ss = concat (map sl_text (filter (\<lambda>s. sl_kind s = ''text'') ss))"

definition slot_calls :: "slot list \<Rightarrow> pyval list" where
  "slot_calls ss =
     map (\<lambda>s. native_call (sl_id s) (sl_name s) (if sl_args s = [] then ''{}'' else sl_args s))
       (filter (\<lambda>s. sl_kind s = ''tool'') ss)"

definition slot_thinks :: "slot list \<Rightarrow> pydict list" where
  "slot_thinks ss =
     concat (map (\<lambda>s. if sl_kind s = ''thinking'' then
                        [[(''type'', PStr ''thinking''), (''thinking'', PStr (sl_text s)),
                          (''signature'', PStr (sl_signature s))]]
                      else if sl_kind s = ''redacted'' then
                        [[(''type'', PStr ''redacted_thinking''), (''data'', PStr (sl_data s))]]
                      else []) ss)"

definition anthropic_to_turn :: "accumulator \<Rightarrow> turn" where
  "anthropic_to_turn a =
     (let ss = map snd (ac_blocks a)
      in native_turn (slot_texts ss) (slot_thinks ss) (slot_calls ss)
           (normalize_usage (PDict (AList.update ''output_tokens'' (PInt (ac_output_tokens a)) (ac_input_usage a))))
           (ac_model a) (finish_of (PStr (ac_stop_reason a))))"

subsection \<open>Streaming and not streaming agree\<close>

text \<open>
  A content block as an endpoint sends it in pieces: as events of a stream at one index, and as the
  block of a whole response. The text of a tool's input is cut anywhere; an empty input may be
  sent as no text at all.
\<close>

datatype sent_block =
    SentText "string list"
  | SentThinking "string list" "string list"
  | SentRedacted string
  | SentTool string string "string list" pydict

definition delta_event :: "int \<Rightarrow> string \<Rightarrow> string \<Rightarrow> string \<Rightarrow> pydict" where
  "delta_event i ty key p =
     [(''type'', PStr ''content_block_delta''), (''index'', PInt i),
      (''delta'', PDict [(''type'', PStr ty), (key, PStr p)])]"

definition start_event :: "int \<Rightarrow> pydict \<Rightarrow> pydict" where
  "start_event i b =
     [(''type'', PStr ''content_block_start''), (''index'', PInt i), (''content_block'', PDict b)]"

fun sent_start :: "sent_block \<Rightarrow> pydict" where
  "sent_start (SentText ps) = [(''type'', PStr ''text''), (''text'', PStr '''')]"
| "sent_start (SentThinking ps sigs) = [(''type'', PStr ''thinking''), (''thinking'', PStr '''')]"
| "sent_start (SentRedacted d) = [(''type'', PStr ''redacted_thinking''), (''data'', PStr d)]"
| "sent_start (SentTool i name ps input) =
     [(''type'', PStr ''tool_use''), (''id'', PStr i), (''name'', PStr name), (''input'', PDict [])]"

fun sent_deltas :: "int \<Rightarrow> sent_block \<Rightarrow> pydict list" where
  "sent_deltas i (SentText ps) = map (delta_event i ''text_delta'' ''text'') ps"
| "sent_deltas i (SentThinking ps sigs) =
     map (delta_event i ''thinking_delta'' ''thinking'') ps @ map (delta_event i ''signature_delta'' ''signature'') sigs"
| "sent_deltas i (SentRedacted d) = []"
| "sent_deltas i (SentTool c name ps input) = map (delta_event i ''input_json_delta'' ''partial_json'') ps"

definition sent_events :: "int \<Rightarrow> sent_block \<Rightarrow> pydict list" where
  "sent_events i b =
     start_event i (sent_start b) # sent_deltas i b @ [[(''type'', PStr ''content_block_stop''), (''index'', PInt i)]]"

fun sent_whole :: "sent_block \<Rightarrow> pydict" where
  "sent_whole (SentText ps) = [(''type'', PStr ''text''), (''text'', PStr (concat ps))]"
| "sent_whole (SentThinking ps sigs) =
     [(''type'', PStr ''thinking''), (''thinking'', PStr (concat ps)), (''signature'', PStr (concat sigs))]"
| "sent_whole (SentRedacted d) = [(''type'', PStr ''redacted_thinking''), (''data'', PStr d)]"
| "sent_whole (SentTool i name ps input) =
     [(''type'', PStr ''tool_use''), (''id'', PStr i), (''name'', PStr name), (''input'', PDict input)]"

fun sent_ok :: "sent_block \<Rightarrow> bool" where
  "sent_ok (SentTool i name ps input) \<longleftrightarrow>
     concat ps = dumps (PDict input) \<or> (concat ps = [] \<and> input = [])"
| "sent_ok _ \<longleftrightarrow> True"

fun sent_slot :: "sent_block \<Rightarrow> slot" where
  "sent_slot (SentText ps) = \<lparr>sl_kind = ''text'', sl_text = concat ps, sl_id = [], sl_name = [], sl_args = [], sl_signature = [], sl_data = []\<rparr>"
| "sent_slot (SentThinking ps sigs) = \<lparr>sl_kind = ''thinking'', sl_text = concat ps, sl_id = [], sl_name = [], sl_args = [], sl_signature = concat sigs, sl_data = []\<rparr>"
| "sent_slot (SentRedacted d) = \<lparr>sl_kind = ''redacted'', sl_text = [], sl_id = [], sl_name = [], sl_args = [], sl_signature = [], sl_data = d\<rparr>"
| "sent_slot (SentTool i name ps input) = \<lparr>sl_kind = ''tool'', sl_text = [], sl_id = i, sl_name = name, sl_args = concat ps, sl_signature = [], sl_data = []\<rparr>"

fun sent_said :: "sent_block \<Rightarrow> string" where
  "sent_said (SentText ps) = concat ps" | "sent_said _ = []"

fun sent_thought :: "sent_block \<Rightarrow> string" where
  "sent_thought (SentThinking ps sigs) = concat ps" | "sent_thought _ = []"

fun sent_from :: "int \<Rightarrow> sent_block list \<Rightarrow> pydict list" where
  "sent_from i [] = []"
| "sent_from i (b # bs) = sent_events i b @ sent_from (i + 1) bs"

definition input_usage :: "int \<Rightarrow> int \<Rightarrow> int \<Rightarrow> pydict" where
  "input_usage inp cr cw =
     [(''input_tokens'', PInt inp), (''cache_read_input_tokens'', PInt cr),
      (''cache_creation_input_tokens'', PInt cw)]"

definition anthropic_stream_of ::
  "string \<Rightarrow> sent_block list \<Rightarrow> string \<Rightarrow> int \<Rightarrow> int \<Rightarrow> int \<Rightarrow> int \<Rightarrow> pydict list" where
  "anthropic_stream_of model bs stop inp cr cw out =
     [[(''type'', PStr ''message_start''),
       (''message'', PDict [(''model'', PStr model), (''usage'', PDict (input_usage inp cr cw))])],
      [(''type'', PStr ''ping'')]] @
     sent_from 0 bs @
     [[(''type'', PStr ''message_delta''), (''delta'', PDict [(''stop_reason'', PStr stop)]),
       (''usage'', PDict [(''output_tokens'', PInt out)])],
      [(''type'', PStr ''message_stop'')]]"

definition anthropic_response_of ::
  "string \<Rightarrow> sent_block list \<Rightarrow> string \<Rightarrow> int \<Rightarrow> int \<Rightarrow> int \<Rightarrow> int \<Rightarrow> pyval" where
  "anthropic_response_of model bs stop inp cr cw out =
     PDict [(''model'', PStr model), (''content'', PList (map (PDict \<circ> sent_whole) bs)),
            (''stop_reason'', PStr stop),
            (''usage'', PDict (input_usage inp cr cw @ [(''output_tokens'', PInt out)]))]"

lemma anthropic_fold_append:
  "anthropic_fold s (cs @ ds) =
     (case anthropic_fold s cs of None \<Rightarrow> None | Some s' \<Rightarrow> anthropic_fold s' ds)"
  by (induction s cs rule: anthropic_fold.induct) (auto split: option.splits)

lemma update_last_slot:
  "i \<notin> fst ` set bs \<Longrightarrow> AList.update i y (bs @ [(i, x)]) = bs @ [(i, y)]"
  by (induction bs) auto

lemma map_of_last: "i \<notin> fst ` set bs \<Longrightarrow> map_of (bs @ [(i, x)]) i = Some x"
  by (auto simp: map_add_def split: option.splits dest!: map_of_SomeD intro: rev_image_eqI)

text \<open>Deltas of one kind only touch the last slot.\<close>

lemma feed_last:
  assumes "i \<notin> fst ` set bs" "ac_blocks a = bs @ [(i, s)]"
    and "delta_slot [(''type'', PStr ty), (key, PStr p)] s = (s', t, r)"
  shows "anthropic_feed a (delta_event i ty key p) = Some (a\<lparr>ac_blocks := bs @ [(i, s')]\<rparr>, t, r)"
proof -
  have "map_of (ac_blocks a) i = Some s" "AList.update i s' (ac_blocks a) = bs @ [(i, s')]"
    unfolding assms(2) by (rule map_of_last [OF assms(1)], rule update_last_slot [OF assms(1)])
  then show ?thesis
    by (simp add: anthropic_feed_def delta_event_def feed_delta_def assms(3))
qed

lemma fold_deltas:
  assumes i: "i \<notin> fst ` set bs"
    and step: "\<And>s p. delta_slot [(''type'', PStr ty), (key, PStr p)] s = (upd p s, f p, g p)"
    and upd: "\<And>p q s. upd q (upd p s) = upd (p @ q) s" "\<And>s. upd [] s = s"
    and fg: "f [] = []" "g [] = []" "\<And>p q. f (p @ q) = f p @ f q" "\<And>p q. g (p @ q) = g p @ g q"
  shows "ac_blocks a = bs @ [(i, s)] \<Longrightarrow>
    anthropic_fold (a, said, thought) (map (delta_event i ty key) ps) =
      Some (a\<lparr>ac_blocks := bs @ [(i, upd (concat ps) s)]\<rparr>, said @ f (concat ps), thought @ g (concat ps))"
proof (induction ps arbitrary: a s said thought)
  case (Cons p ps)
  then show ?case
    using feed_last [OF i Cons.prems step]
      Cons.IH [of "a\<lparr>ac_blocks := bs @ [(i, upd p s)]\<rparr>" "upd p s" "said @ f p" "thought @ g p"]
    by (simp add: upd fg)
qed (simp add: upd fg)

lemma fold_block:
  assumes "i \<notin> fst ` set (ac_blocks a)"
  shows "anthropic_fold (a, said, thought) (sent_events i b) =
    Some (a\<lparr>ac_blocks := ac_blocks a @ [(i, sent_slot b)]\<rparr>, said @ sent_said b, thought @ sent_thought b)"
proof -
  let ?s0 = "\<lparr>sl_kind = block_kind (py_str (dget (sent_start b) ''type'')), sl_text = [],
      sl_id = py_str (dget_or (sent_start b) ''id'' (PStr '''')),
      sl_name = py_str (dget_or (sent_start b) ''name'' (PStr '''')),
      sl_args = [], sl_signature = [], sl_data = py_str (dget_or (sent_start b) ''data'' (PStr ''''))\<rparr>"
  let ?a = "\<lambda>s. a\<lparr>ac_blocks := ac_blocks a @ [(i, s)]\<rparr>"
  have none: "map_of (ac_blocks a) i = None"
    using assms by (simp add: map_of_eq_None_iff)
  have start: "anthropic_feed a (start_event i (sent_start b)) = Some (?a ?s0, [], [])"
    by (cases b) (simp_all add: anthropic_feed_def start_event_def start_block_def none dict_or_def)
  have stop: "anthropic_feed x [(''type'', PStr ''content_block_stop''), (''index'', PInt i)] = Some (x, [], [])"
    for x by (simp add: anthropic_feed_def)
  have say: "anthropic_fold (?a s, said, thought) (map (delta_event i ''text_delta'' ''text'') ps) =
      Some (?a (s\<lparr>sl_text := sl_text s @ concat ps\<rparr>), said @ concat ps, thought)" for s ps said thought
    using fold_deltas [OF assms, where upd = "\<lambda>p s. s\<lparr>sl_text := sl_text s @ p\<rparr>" and f = "\<lambda>p. p"
        and g = "\<lambda>p. []" and ty = "''text_delta''" and key = "''text''" and a = "?a s" and s = s]
    by (simp add: delta_slot_def Let_def)
  have think: "anthropic_fold (?a s, said, thought) (map (delta_event i ''thinking_delta'' ''thinking'') ps) =
      Some (?a (s\<lparr>sl_text := sl_text s @ concat ps\<rparr>), said, thought @ concat ps)" for s ps said thought
    using fold_deltas [OF assms, where upd = "\<lambda>p s. s\<lparr>sl_text := sl_text s @ p\<rparr>" and f = "\<lambda>p. []"
        and g = "\<lambda>p. p" and ty = "''thinking_delta''" and key = "''thinking''" and a = "?a s" and s = s]
    by (simp add: delta_slot_def Let_def)
  have sign: "anthropic_fold (?a s, said, thought) (map (delta_event i ''signature_delta'' ''signature'') ps) =
      Some (?a (s\<lparr>sl_signature := sl_signature s @ concat ps\<rparr>), said, thought)" for s ps said thought
    using fold_deltas [OF assms, where upd = "\<lambda>p s. s\<lparr>sl_signature := sl_signature s @ p\<rparr>" and f = "\<lambda>p. []"
        and g = "\<lambda>p. []" and ty = "''signature_delta''" and key = "''signature''" and a = "?a s" and s = s]
    by (simp add: delta_slot_def Let_def)
  have args: "anthropic_fold (?a s, said, thought) (map (delta_event i ''input_json_delta'' ''partial_json'') ps) =
      Some (?a (s\<lparr>sl_args := sl_args s @ concat ps\<rparr>), said, thought)" for s ps said thought
    using fold_deltas [OF assms, where upd = "\<lambda>p s. s\<lparr>sl_args := sl_args s @ p\<rparr>" and f = "\<lambda>p. []"
        and g = "\<lambda>p. []" and ty = "''input_json_delta''" and key = "''partial_json''" and a = "?a s" and s = s]
    by (simp add: delta_slot_def Let_def)
  have "anthropic_fold (a, said, thought) (sent_events i b) =
      anthropic_fold (?a ?s0, said, thought)
        (sent_deltas i b @ [[(''type'', PStr ''content_block_stop''), (''index'', PInt i)]])"
    by (simp add: sent_events_def start)
  then show ?thesis
    by (cases b) (simp_all add: anthropic_fold_append stop say think sign args
        block_kind_def)
qed

fun sent_slots :: "int \<Rightarrow> sent_block list \<Rightarrow> (int \<times> slot) list" where
  "sent_slots i [] = []"
| "sent_slots i (b # bs) = (i, sent_slot b) # sent_slots (i + 1) bs"

lemma snd_sent_slots [simp]: "map snd (sent_slots i bs) = map sent_slot bs"
  by (induction i bs rule: sent_slots.induct) auto

lemma fold_blocks:
  assumes "\<forall>j\<in>fst ` set (ac_blocks a). j < i"
  shows "anthropic_fold (a, said, thought) (sent_from i bs) =
    Some (a\<lparr>ac_blocks := ac_blocks a @ sent_slots i bs\<rparr>,
          said @ concat (map sent_said bs), thought @ concat (map sent_thought bs))"
  using assms
proof (induction bs arbitrary: a i said thought)
  case (Cons b bs)
  have i: "i \<notin> fst ` set (ac_blocks a)" using Cons.prems by auto
  have "\<forall>j\<in>fst ` set (ac_blocks (a\<lparr>ac_blocks := ac_blocks a @ [(i, sent_slot b)]\<rparr>)). j < i + 1"
    using Cons.prems by fastforce
  then show ?case
    using Cons.IH [of "a\<lparr>ac_blocks := ac_blocks a @ [(i, sent_slot b)]\<rparr>" "i + 1"
        "said @ sent_said b" "thought @ sent_thought b"]
    by (simp add: anthropic_fold_append fold_block [OF i])
qed simp

lemma slots_are_blocks:
  "slot_texts (map sent_slot bs) = block_texts (map sent_whole bs)"
  "slot_thinks (map sent_slot bs) = block_thinks (map sent_whole bs)"
proof (induction bs)
  case (Cons b bs)
  note defs = slot_texts_def block_texts_def slot_thinks_def block_thinks_def thinking_of_block_def
  case 1 show ?case using Cons by (cases b) (simp_all add: defs)
  case 2 show ?case using Cons by (cases b) (simp_all add: defs)
qed (simp_all add: slot_texts_def block_texts_def slot_thinks_def block_thinks_def)

lemma input_text:
  "sent_ok (SentTool i name ps input) \<Longrightarrow>
     (if concat ps = [] then ''{}'' else concat ps) = dumps (PDict input)"
  by (auto simp del: concat_eq_Nil_conv)

lemma calls_are_blocks:
  "list_all sent_ok bs \<Longrightarrow> slot_calls (map sent_slot bs) = block_calls (map sent_whole bs)"
proof (induction bs)
  case (Cons b bs)
  show ?case
  proof (cases b)
    case (SentTool i name ps input)
    then have "(if concat ps = [] then ''{}'' else concat ps) = dumps (PDict input)"
      using Cons.prems input_text by simp
    then show ?thesis using Cons SentTool
      by (cases "input = []"; cases "concat ps = []") (simp_all add: slot_calls_def block_calls_def call_of_block_def del: concat_eq_Nil_conv)
  qed (use Cons in \<open>simp_all add: slot_calls_def block_calls_def\<close>)
qed (simp add: slot_calls_def block_calls_def)

lemma told_is_recorded:
  "concat (map sent_said bs) = block_texts (map sent_whole bs)"
  "concat (map sent_thought bs) =
     concat (map (\<lambda>b. str_or (dget b ''thinking'')) (block_thinks (map sent_whole bs)))"
proof (induction bs)
  case (Cons b bs)
  note defs = block_texts_def block_thinks_def thinking_of_block_def
  case 1 show ?case using Cons by (cases b) (simp_all add: defs)
  case 2 show ?case using Cons by (cases b) (simp_all add: defs)
qed (simp_all add: block_texts_def block_thinks_def)

lemma those_dicts: "those (map (as_dict \<circ> (PDict \<circ> f)) xs) = Some (map f xs)"
  by (induction xs) auto

lemma parse_response:
  "anthropic_parse_turn (anthropic_response_of model bs stop inp cr cw out) =
     Inr (native_turn (block_texts (map sent_whole bs)) (block_thinks (map sent_whole bs))
       (block_calls (map sent_whole bs))
       (normalize_usage (PDict [(''usage'', PDict (input_usage inp cr cw @ [(''output_tokens'', PInt out)]))]))
       model (finish_of (PStr stop)))"
proof -
  let ?d = "[(''model'', PStr model), (''content'', PList (map (PDict \<circ> sent_whole) bs)),
            (''stop_reason'', PStr stop),
            (''usage'', PDict (input_usage inp cr cw @ [(''output_tokens'', PInt out)]))]"
  have u: "normalize_usage (PDict ?d) =
      normalize_usage (PDict [(''usage'', PDict (input_usage inp cr cw @ [(''output_tokens'', PInt out)]))])"
    by (rule normalize_usage_found) simp
  have bs: "those (map as_dict (map (PDict \<circ> sent_whole) bs)) = Some (map sent_whole bs)"
    using those_dicts [of sent_whole bs] by simp
  have c: "dget ?d ''content'' = PList (map (PDict \<circ> sent_whole) bs)" by simp
  show ?thesis
    unfolding anthropic_response_of_def anthropic_parse_turn_def pyval.case c iter_or_PList option.case bs u
    by simp
qed

text \<open>
  C12. However an endpoint cuts the text, the thinking, the signatures and the tool inputs of a response
  into events, the turn folded from the stream is the turn read from the whole response, and the
  callbacks were told exactly its text and its reasoning.
\<close>

theorem anthropic_stream_is_response:
  assumes "model \<noteq> []" "list_all sent_ok bs"
  shows "\<exists>a. anthropic_fold (fresh_accumulator, [], []) (anthropic_stream_of model bs stop inp cr cw out) =
        Some (a, tn_text (anthropic_to_turn a), tn_reasoning (anthropic_to_turn a)) \<and>
      anthropic_parse_turn (anthropic_response_of model bs stop inp cr cw out) = Inr (anthropic_to_turn a)"
proof -
  let ?a = "\<lparr>ac_model = model, ac_blocks = sent_slots 0 bs, ac_stop_reason = stop,
    ac_input_usage = input_usage inp cr cw, ac_output_tokens = out\<rparr>"
  let ?t = "native_turn (block_texts (map sent_whole bs)) (block_thinks (map sent_whole bs))
     (block_calls (map sent_whole bs))
     (normalize_usage (PDict [(''usage'', PDict (input_usage inp cr cw @ [(''output_tokens'', PInt out)]))]))
     model (finish_of (PStr stop))"
  have usage: "normalize_usage (PDict (AList.update ''output_tokens'' (PInt out) (input_usage inp cr cw))) =
      normalize_usage (PDict [(''usage'', PDict (input_usage inp cr cw @ [(''output_tokens'', PInt out)]))])"
    by (simp add: normalize_usage_def usage_payload_def input_usage_def)
  have turn: "anthropic_to_turn ?a = ?t"
    by (simp add: anthropic_to_turn_def slots_are_blocks calls_are_blocks [OF assms(2)] usage)
  let ?m = "fresh_accumulator\<lparr>ac_model := model, ac_input_usage := input_usage inp cr cw\<rparr>"
  have counts: "keep_counts INPUT_COUNTS (input_usage inp cr cw) [] = Some (input_usage inp cr cw)"
    by (simp add: INPUT_COUNTS_def input_usage_def int_or_zero_def)
  have head: "anthropic_fold (fresh_accumulator, [], [])
      [[(''type'', PStr ''message_start''),
        (''message'', PDict [(''model'', PStr model), (''usage'', PDict (input_usage inp cr cw))])],
       [(''type'', PStr ''ping'')]] = Some (?m, [], [])"
    using assms(1) counts
    by (simp add: anthropic_feed_def start_message_def fresh_accumulator_def)
  have body: "anthropic_fold (?m, [], []) (sent_from 0 bs) =
      Some (?m\<lparr>ac_blocks := sent_slots 0 bs\<rparr>, tn_text ?t, tn_reasoning ?t)"
    using fold_blocks [of ?m 0 "[]" "[]" bs]
    by (simp add: fresh_accumulator_def native_turn_def told_is_recorded)
  have tail: "anthropic_fold (?m\<lparr>ac_blocks := sent_slots 0 bs\<rparr>, x, y)
      [[(''type'', PStr ''message_delta''), (''delta'', PDict [(''stop_reason'', PStr stop)]),
        (''usage'', PDict [(''output_tokens'', PInt out)])],
       [(''type'', PStr ''message_stop'')]] = Some (?a, x, y)" for x y
    by (simp add: anthropic_feed_def message_delta_def int_or_zero_def fresh_accumulator_def)
  have "anthropic_fold (fresh_accumulator, [], []) (anthropic_stream_of model bs stop inp cr cw out) =
      Some (?a, tn_text ?t, tn_reasoning ?t)"
    unfolding anthropic_stream_of_def anthropic_fold_append head body tail option.case ..
  moreover have "anthropic_parse_turn (anthropic_response_of model bs stop inp cr cw out) = Inr ?t"
    using parse_response by blast
  ultimately show ?thesis using turn by metis
qed

subsection \<open>Every tool use is answered by the next message\<close>

definition content_blocks :: "pydict \<Rightarrow> pydict list" where
  "content_blocks m =
     (case dget m ''content'' of
        PList vs \<Rightarrow> concat (map (\<lambda>v. case v of PDict d \<Rightarrow> [d] | _ \<Rightarrow> []) vs)
      | _ \<Rightarrow> [])"

definition use_ids :: "pydict \<Rightarrow> pyval list" where
  "use_ids m = map (\<lambda>b. dget b ''id'') (filter (\<lambda>b. dget b ''type'' = PStr ''tool_use'') (content_blocks m))"

definition result_ids :: "pydict \<Rightarrow> pyval list" where
  "result_ids m =
     map (\<lambda>b. dget b ''tool_use_id'') (filter (\<lambda>b. dget b ''type'' = PStr ''tool_result'') (content_blocks m))"

text \<open>
  Reading a native history: the ids that wait for their results after it, or \<open>None\<close> if a message
  did not bring exactly the results of the one before.
\<close>

fun carry :: "pyval list \<Rightarrow> pydict list \<Rightarrow> pyval list option" where
  "carry ids [] = Some ids"
| "carry ids (m # ms) = (if set (result_ids m) = set ids then carry (use_ids m) ms else None)"

lemma carry_append:
  "carry ids (xs @ ys) = (case carry ids xs of None \<Rightarrow> None | Some w \<Rightarrow> carry w ys)"
  by (induction xs arbitrary: ids) auto

text \<open>Calls and results that say their ids.\<close>

definition has_id :: "pyval \<Rightarrow> bool" where
  "has_id c \<longleftrightarrow> (case c of PDict d \<Rightarrow> map_of d ''id'' \<noteq> None | _ \<Rightarrow> False)"

definition keyed :: "pydict \<Rightarrow> bool" where
  "keyed m \<longleftrightarrow>
     (is_tool m \<longrightarrow> map_of m ''tool_call_id'' \<noteq> None) \<and>
     (\<not> is_tool m \<and> dget m ''role'' \<noteq> PStr ''assistant'' \<longrightarrow> \<not> truthy (dget m ''tool_calls'')) \<and>
     (case calls_of m of
        None \<Rightarrow> True
      | Some cs \<Rightarrow> list_all has_id cs)"

lemma dget_or_found: "map_of d k \<noteq> None \<Longrightarrow> dget_or d k v = dget d k"
  by (auto simp: dget_or_def dget_def)

lemma user_block_plain:
  "\<lbrakk>v \<in> set (user_block p); v = PDict d\<rbrakk> \<Longrightarrow>
     dget d ''type'' \<noteq> PStr ''tool_use'' \<and> dget d ''type'' \<noteq> PStr ''tool_result''"
proof (cases p)
  case (PDict x)
  moreover assume "v \<in> set (user_block p)" "v = PDict d"
  ultimately show ?thesis
    by (cases "dget x ''text''") (auto simp: user_block_def split: if_splits)
qed (simp_all add: user_block_def)

lemma user_native_ids:
  "result_ids (user_says_native (anthropic_user_content raw)) = []"
  "use_ids (user_says_native (anthropic_user_content raw)) = []"
proof -
  have "dget b ''type'' \<noteq> PStr ''tool_use'' \<and> dget b ''type'' \<noteq> PStr ''tool_result''"
    if "b \<in> set (content_blocks (user_says_native (anthropic_user_content raw)))" for b
    using that user_block_plain
    by (auto simp: content_blocks_def user_says_native_def anthropic_user_content_def
        split: option.splits pyval.splits)
  then show "result_ids (user_says_native (anthropic_user_content raw)) = []"
    "use_ids (user_says_native (anthropic_user_content raw)) = []"
    by (auto simp: result_ids_def use_ids_def filter_empty_conv)
qed

lemma text_ids: "dget m ''content'' = PStr s \<Longrightarrow> result_ids m = [] \<and> use_ids m = []"
  by (simp add: result_ids_def use_ids_def content_blocks_def)

lemma carry_push_user:
  assumes "carry [] out = Some []"
  shows "carry [] (push_user (anthropic_user_content raw) out) = Some []"
proof -
  let ?c = "anthropic_user_content raw"
  have plain: "carry [] (out @ [user_says_native ?c]) = Some []"
    using assms by (simp add: carry_append user_native_ids)
  show ?thesis
  proof (cases "push_user ?c out = out @ [user_says_native ?c]")
    case False
    then obtain s t where st: "?c = PStr s" "out \<noteq> []" "dget (last out) ''content'' = PStr t"
      "push_user ?c out = butlast out @ [AList.update ''content'' (PStr (t @ [LF, LF] @ s)) (last out)]"
      by (auto simp: push_user_def split: pyval.splits if_splits)
    have "carry [] (butlast out @ [last out]) = Some []" using assms st(2) by simp
    then obtain w where w: "carry [] (butlast out) = Some w" "set w = {}"
      using text_ids [OF st(3)] by (auto simp: carry_append split: option.splits if_splits)
    have "dget (AList.update ''content'' (PStr (t @ [LF, LF] @ s)) (last out)) ''content'' =
        PStr (t @ [LF, LF] @ s)" by simp
    note ids = text_ids [OF this]
    show ?thesis unfolding st(4) carry_append w(1) using w(2) ids by simp
  qed (use plain in simp)
qed

lemma result_block_ids:
  assumes "list_all (\<lambda>m. is_tool m \<and> map_of m ''tool_call_id'' \<noteq> None) ts"
  shows "result_ids (user_says_native (PList (map result_block ts))) =
      map (\<lambda>m. PStr (result_id m)) ts"
    "use_ids (user_says_native (PList (map result_block ts))) = []"
  using assms
  by (induction ts)
    (auto simp: result_ids_def use_ids_def content_blocks_def user_says_native_def result_block_def
      result_id_def dget_or_found)

lemma carry_flush:
  assumes "carry [] out = Some ids" "set ids = set (map (\<lambda>m. PStr (result_id m)) ts)"
    and "list_all (\<lambda>m. is_tool m \<and> map_of m ''tool_call_id'' \<noteq> None) ts"
  shows "carry [] (flush_results out (map result_block ts)) = Some []"
  using assms result_block_ids [OF assms(3)]
  by (auto simp: flush_results_def carry_append)

lemma use_block_id:
  assumes "tool_use_block c = Some u" "has_id c"
  shows "dget u ''type'' = PStr ''tool_use'' \<and>
    (case c of PDict d \<Rightarrow> dget u ''id'' = PStr (py_str (dget d ''id'')) | _ \<Rightarrow> False)"
  using assms by (auto simp: tool_use_block_def has_id_def dget_or_found Let_def split: pyval.splits option.splits)

lemma replayable_types:
  "b \<in> set (replayable bs) \<Longrightarrow> dget b ''type'' \<noteq> PStr ''tool_use'' \<and> dget b ''type'' \<noteq> PStr ''tool_result''"
  by (auto simp: replayable_def split: if_splits)

lemma those_use_ids:
  assumes "those (map tool_use_block calls) = Some us"
    and "list_all has_id calls"
    and "those (map (\<lambda>c. case c of PDict d \<Rightarrow> Some (py_str (dget d ''id'')) | _ \<Rightarrow> None) calls) = Some ids"
  shows "map (\<lambda>b. dget b ''id'') us = map PStr ids \<and> (\<forall>u\<in>set us. dget u ''type'' = PStr ''tool_use'')"
  using assms
proof (induction calls arbitrary: us ids)
  case (Cons c calls)
  then obtain d where c: "c = PDict d" by (auto simp: has_id_def split: pyval.splits)
  with Cons.prems obtain u us' ids' where
    u: "tool_use_block c = Some u" "us = u # us'" "those (map tool_use_block calls) = Some us'"
    and i: "ids = py_str (dget d ''id'') # ids'"
      "those (map (\<lambda>c. case c of PDict d \<Rightarrow> Some (py_str (dget d ''id'')) | _ \<Rightarrow> None) calls) = Some ids'"
    by (auto split: option.splits)
  show ?case
    using Cons.IH [OF u(3) _ i(2)] use_block_id [OF u(1)] Cons.prems(2) c u(2) i(1) by auto
qed auto

lemma assistant_native_ids:
  assumes "assistant_native bs m = Some a" "keyed m" "call_ids m = Some ids"
  shows "result_ids a = []" "use_ids a = map PStr ids"
proof -
  obtain calls us where calls: "iter_or (dget m ''tool_calls'') = Some calls"
    "those (map tool_use_block calls) = Some us"
    and a: "a = [(''role'', PStr ''assistant''),
        (''content'', PList (map PDict (replayable bs) @
           (if plain_text (dget m ''content'') \<noteq> []
            then [PDict [(''type'', PStr ''text''), (''text'', PStr (plain_text (dget m ''content'')))]] else []) @
           map PDict us))]"
    using assms(1) by (auto simp: assistant_native_def Let_def split: option.splits)
  have cs: "calls_of m = Some calls" using calls(1) by (simp add: calls_of_def iter_or_def Let_def)
  have ids: "map (\<lambda>b. dget b ''id'') us = map PStr ids \<and> (\<forall>u\<in>set us. dget u ''type'' = PStr ''tool_use'')"
    using those_use_ids [OF calls(2)] assms(2,3) unfolding keyed_def call_ids_def cs option.case by blast
  have singles: "concat (map (\<lambda>v. case v of PDict d \<Rightarrow> [d] | _ \<Rightarrow> []) (map PDict xs)) = xs" for xs
    by (induction xs) auto
  have blocks: "content_blocks a = replayable bs @
      (if plain_text (dget m ''content'') \<noteq> []
       then [[(''type'', PStr ''text''), (''text'', PStr (plain_text (dget m ''content'')))]] else []) @ us"
    using singles by (simp add: a content_blocks_def)
  have none: "filter (\<lambda>b. dget b ''type'' = PStr ''tool_use'') (replayable bs) = []"
    "filter (\<lambda>b. dget b ''type'' = PStr ''tool_result'') (replayable bs) = []"
    using replayable_types by (auto simp: filter_empty_conv)
  have "filter (\<lambda>b. dget b ''type'' = PStr ''tool_use'') us = us"
    "filter (\<lambda>b. dget b ''type'' = PStr ''tool_result'') us = []"
    using ids by (auto simp: filter_empty_conv)
  then show "result_ids a = []" "use_ids a = map PStr ids"
    using ids none by (simp_all add: result_ids_def use_ids_def blocks)
qed

lemma call_ids_none: "\<not> truthy (dget m ''tool_calls'') \<Longrightarrow> call_ids m = Some []"
  by (simp add: call_ids_def calls_of_def Let_def)

lemma build_from_carry:
  assumes "run_from expected ms = Some []" "list_all keyed ms"
    and "carry [] out = Some ids" "set ids = set (map (\<lambda>m. PStr (result_id m)) ts) \<union> PStr ` set expected"
    and "list_all (\<lambda>m. is_tool m \<and> map_of m ''tool_call_id'' \<noteq> None) ts"
    and "build_from plan i out (map result_block ts) ms = Some native"
  shows "carry [] native = Some []"
  using assms
proof (induction ms arbitrary: expected out ids ts i)
  case Nil
  then show ?case using carry_flush [of out ids ts] by simp
next
  case (Cons m ms)
  show ?case
  proof (cases "is_tool m")
    case True
    then have e: "result_id m \<in> set expected" "run_from (removeAll (result_id m) expected) ms = Some []"
      using Cons.prems(1) by (auto split: if_splits)
    have k: "map_of m ''tool_call_id'' \<noteq> None" using Cons.prems(2) True by (simp add: keyed_def)
    show ?thesis
      by (rule Cons.IH [OF e(2) _ Cons.prems(3), of "ts @ [m]" "Suc i"])
        (use Cons.prems(2,4,5,6) True e(1) k in auto)
  next
    case False
    then obtain own where e: "expected = []" "call_ids m = Some own" "run_from (expect_ids own) ms = Some []"
      using Cons.prems(1) by (auto split: if_splits option.splits)
    have k: "keyed m" "list_all keyed ms" using Cons.prems(2) by auto
    have flushed: "carry [] (flush_results out (map result_block ts)) = Some []"
      using carry_flush [OF Cons.prems(3) _ Cons.prems(5)] Cons.prems(4) e(1) by simp
    show ?thesis
    proof (cases "dget m ''role'' = PStr ''assistant''")
      case True
      then obtain a where a: "assistant_native (case map_of plan i of None \<Rightarrow> [] | Some bs \<Rightarrow> bs) m = Some a"
        "build_from plan (Suc i) (flush_results out (map result_block ts) @ [a]) [] ms = Some native"
        using Cons.prems(6) False by (auto split: option.splits)
      have "carry [] (flush_results out (map result_block ts) @ [a]) = Some (map PStr own)"
        using flushed assistant_native_ids [OF a(1) k(1) e(2)] by (simp add: carry_append)
      then show ?thesis
        by (rule Cons.IH [OF e(3) k(2), of _ _ "[]" "Suc i"]) (use a(2) in \<open>auto simp: set_expect_ids\<close>)
    next
      case u: False
      then have n: "own = []" using k(1) False e(2) call_ids_none by (simp add: keyed_def)
      show ?thesis
        by (rule Cons.IH [OF e(3) k(2) carry_push_user [OF flushed], of "[]" "Suc i"])
          (use Cons.prems(6) False u n in \<open>auto simp: set_expect_ids\<close>)
    qed
  qed
qed

text \<open>
  C15. A complete transcript becomes a native history in which every message brings exactly the results
  of the tool uses of the message before it, and in which no use is left without its result.
\<close>

theorem native_history_is_complete:
  assumes "well_formed ms" "list_all keyed ms" "build_messages rt ms = Some native"
  shows "carry [] native = Some []"
proof (rule build_from_carry)
  show "run_from [] ms = Some []" using assms(1) by (simp add: well_formed_iff)
  show "build_from (case rt of None \<Rightarrow> [] | Some r \<Rightarrow> plan_replay r ms) 0 [] (map result_block []) ms = Some native"
    using assms(3) by (simp add: build_messages_def)
qed (use assms(2) in auto)

definition steered_messages :: "pydict list" where
  "steered_messages =
     [user_says ''go'', calls_tool ''a1'', tool_result ''a1'' ''ok'', user_says ''and then'']"

theorem native_history_is_complete_witness:
  "carry [] (the (build_messages None steered_messages)) = Some [] \<and>
   length (the (build_messages None steered_messages)) = 4"
proof -
  have c: "well_formed steered_messages" "list_all keyed steered_messages"
    "build_messages None steered_messages = Some (the (build_messages None steered_messages))"
    by code_simp+
  show ?thesis using native_history_is_complete [OF c] by (intro conjI) code_simp+
qed

text \<open>
  But roles need not alternate, although the code merges user messages for that: a message of the
  user that arrives behind tool results is a second user message in a row.
\<close>

lemma roles_need_not_alternate:
  "map (\<lambda>m. dget m ''role'') (the (build_messages None steered_messages)) =
     [PStr ''user'', PStr ''assistant'', PStr ''user'', PStr ''user'']"
  by code_simp

text \<open>
  And an error the endpoint reports inside the stream is no error of the call: the turn so far is
  returned as if it were the answer.
\<close>

lemma stream_error_is_dropped:
  "anthropic_feed a [(''type'', PStr ''error''), (''error'', e)] = Some (a, [], [])"
  by (simp add: anthropic_feed_def)

theorem anthropic_stream_is_response_witness:
  "\<exists>a. anthropic_fold (fresh_accumulator, [], [])
      (anthropic_stream_of ''m'' [SentText [''a'', ''b''], SentTool ''i'' ''f'' [''{'', ''}''] []] ''tool_use'' 5 0 0 7) =
        Some (a, tn_text (anthropic_to_turn a), tn_reasoning (anthropic_to_turn a))"
  using anthropic_stream_is_response
    [of "''m''" "[SentText [''a'', ''b''], SentTool ''i'' ''f'' [''{'', ''}''] []]" "''tool_use''" 5 0 0 7]
  by auto

end
