(* ===== verification/Providers_Openai.thy ===== *)
theory Providers_Openai
  imports Providers_Protocol
begin

section \<open>The chat completions protocol\<close>

text \<open>
  The module \<open>avid/providers/openai_compat.py\<close>: the request with its messages rebuilt from a white
  list of keys, the turn read from a whole response, and the turn folded from a stream of chunks.
  \<open>None\<close> is an exception nobody names. A partial tool call is a record of the four strings the
  code keeps in a dict and its function dict.
\<close>

subsection \<open>The request\<close>

definition wire_block :: "pyval \<Rightarrow> pyval list" where
  "wire_block part =
     (case part of
        PDict d \<Rightarrow>
          (if dget d ''type'' = PStr ''image''
           then [PDict [(''type'', PStr ''image_url''),
                        (''image_url'', PDict [(''url'', PStr (image_data_url d))])]]
           else case dget d ''text'' of
             PStr t \<Rightarrow> [PDict [(''type'', PStr ''text''), (''text'', PStr t)]]
           | _ \<Rightarrow> [])
      | _ \<Rightarrow> [])"

definition wire_message :: "pydict \<Rightarrow> pydict list option \<Rightarrow> pydict" where
  "wire_message m replayed =
     (let t = reasoning_text_of (case replayed of None \<Rightarrow> [] | Some bs \<Rightarrow> bs)
      in [(''role'', dget m ''role''),
          (''content'', case content_parts (dget m ''content'') of
                          None \<Rightarrow> dget_or m ''content'' (PStr '''')
                        | Some parts \<Rightarrow> PList (concat (map wire_block parts)))] @
         (if truthy (dget m ''tool_calls'') then [(''tool_calls'', dget m ''tool_calls'')] else []) @
         (if truthy (dget m ''tool_call_id'') then [(''tool_call_id'', dget m ''tool_call_id'')] else []) @
         (if t \<noteq> [] then [(''reasoning_content'', PStr t)] else []))"

definition wire_messages :: "pydict list \<Rightarrow> (nat \<times> pydict list) list \<Rightarrow> pydict list" where
  "wire_messages ms plan = map (\<lambda>i. wire_message (ms ! i) (map_of plan i)) [0..<length ms]"

definition openai_request ::
  "provider_config \<Rightarrow> pydict list \<Rightarrow> string option \<Rightarrow> pyval list \<Rightarrow> int option \<Rightarrow> provider_error + pydict" where
  "openai_request cf ms system tools max_tokens =
     (case route_of cf of
        Inl e \<Rightarrow> Inl e
      | Inr rt \<Rightarrow>
          Inr (dict_update
            ([(''model'', PStr (cf_model cf)),
              (''messages'', PList (map PDict
                 ((if given_str system
                   then [[(''role'', PStr ''system''), (''content'', PStr (the system))]] else []) @
                  wire_messages ms (plan_replay rt ms))))] @
             (case max_tokens of None \<Rightarrow> [] | Some n \<Rightarrow> [(''max_tokens'', PInt n)]) @
             (if tools \<noteq> [] then [(''tools'', PList tools)] else []) @
             (if given_str (cf_reasoning_effort cf)
              then [(''reasoning_effort'', PStr (the (cf_reasoning_effort cf)))] else []))
            (cf_extra_body cf)))"

definition openai_headers :: "provider_config \<Rightarrow> bool \<Rightarrow> pydict" where
  "openai_headers cf streaming =
     dict_update
       ([(''Content-Type'', PStr ''application/json'')] @
        (if cf_api_key cf \<noteq> [] then [(''Authorization'', PStr (''Bearer '' @ cf_api_key cf))] else []) @
        (if streaming then [(''Accept'', PStr ''text/event-stream'')] else []))
       (cf_extra_headers cf)"

definition openai_carried_reasoning :: "pydict \<Rightarrow> bool" where
  "openai_carried_reasoning request =
     (case dget request ''messages'' of
        PList ms \<Rightarrow> list_ex (\<lambda>m. case m of PDict d \<Rightarrow> truthy (dget d ''reasoning_content'') | _ \<Rightarrow> False) ms
      | _ \<Rightarrow> False)"

subsection \<open>A whole response\<close>

definition detail_texts :: "pyval list \<Rightarrow> string" where
  "detail_texts items =
     concat (map (\<lambda>item. case item of
                   PDict d \<Rightarrow> (case dget d ''text'' of PStr t \<Rightarrow> t | _ \<Rightarrow> [])
                 | _ \<Rightarrow> []) items)"

definition openai_reasoning_text :: "pydict \<Rightarrow> string" where
  "openai_reasoning_text raw =
     (case dget raw ''reasoning_content'' of
        PStr s \<Rightarrow> s
      | _ \<Rightarrow>
          (case dget raw ''reasoning'' of
             PStr s \<Rightarrow> s
           | _ \<Rightarrow> (case dget raw ''reasoning_details'' of PList items \<Rightarrow> detail_texts items | _ \<Rightarrow> [])))"

definition openai_reasoning_blocks :: "string \<Rightarrow> pydict list" where
  "openai_reasoning_blocks t = (if t \<noteq> [] then [[(''type'', PStr ''text''), (''text'', PStr t)]] else [])"

text \<open>\<open>data["choices"][0]\<close> and its message; \<open>None\<close> is a \<open>KeyError\<close>, \<open>IndexError\<close> or \<open>TypeError\<close>.\<close>

definition first_choice :: "pyval \<Rightarrow> pydict option" where
  "first_choice data =
     (case data of
        PDict d \<Rightarrow>
          (case map_of d ''choices'' of
             Some (PList (PDict c # _)) \<Rightarrow> Some c
           | _ \<Rightarrow> None)
      | _ \<Rightarrow> None)"

definition openai_parse_turn :: "pyval \<Rightarrow> provider_error + turn" where
  "openai_parse_turn data =
     (case first_choice data of
        None \<Rightarrow> Inl (LLMError (''no choices[0].message: '' @ take 300 (py_repr data)))
      | Some choice \<Rightarrow>
          (case map_of choice ''message'' of
             None \<Rightarrow> Inl (LLMError (''no choices[0].message: '' @ take 300 (py_repr data)))
           | Some (PDict raw) \<Rightarrow>
               (case iter_or (dget raw ''tool_calls'') of
                  None \<Rightarrow> Inl Crashed
                | Some calls \<Rightarrow>
                    (let t = content_text (dget raw ''content'')
                     in Inr \<lparr>tn_message = assistant_message t calls, tn_text = t, tn_tool_calls = calls,
                             tn_usage = normalize_usage data,
                             tn_model = py_str (case data of PDict d \<Rightarrow> dget_or d ''model'' (PStr '''') | _ \<Rightarrow> PNone),
                             tn_finish_reason = py_str (dget_or choice ''finish_reason'' (PStr '''')),
                             tn_reasoning = openai_reasoning_text raw,
                             tn_reasoning_blocks = openai_reasoning_blocks (openai_reasoning_text raw)\<rparr>))
           | Some _ \<Rightarrow> Inl Crashed))"

text \<open>The turn with its reasoning on its own message.\<close>

definition record_turn :: "provider_config \<Rightarrow> turn \<Rightarrow> provider_error + turn" where
  "record_turn cf t =
     map_sum id (\<lambda>rt. t\<lparr>tn_message := attach rt (tn_reasoning_blocks t) (tn_message t)\<rparr>) (route_of cf)"

subsection \<open>A stream\<close>

record call_part =
  pt_id :: string
  pt_type :: string
  pt_name :: string
  pt_args :: string

definition blank_call :: call_part where
  "blank_call = \<lparr>pt_id = [], pt_type = ''function'', pt_name = [], pt_args = []\<rparr>"

definition call_dict :: "call_part \<Rightarrow> pyval" where
  "call_dict c =
     PDict [(''id'', PStr (pt_id c)), (''type'', PStr (pt_type c)),
            (''function'', PDict [(''name'', PStr (pt_name c)), (''arguments'', PStr (pt_args c))])]"

record openai_state =
  os_content :: string
  os_reasoning :: string
  os_calls :: "call_part list"
  os_usage :: "usage option"
  os_model :: string
  os_finish :: string

definition openai_start :: openai_state where
  "openai_start = \<lparr>os_content = [], os_reasoning = [], os_calls = [], os_usage = None, os_model = [], os_finish = []\<rparr>"

definition openai_to_turn :: "openai_state \<Rightarrow> turn" where
  "openai_to_turn s =
     \<lparr>tn_message = assistant_message (os_content s) (map call_dict (os_calls s)),
      tn_text = os_content s, tn_tool_calls = map call_dict (os_calls s),
      tn_usage = (case os_usage s of Some u \<Rightarrow> u | None \<Rightarrow> bare_usage 0),
      tn_model = os_model s, tn_finish_reason = os_finish s, tn_reasoning = os_reasoning s,
      tn_reasoning_blocks = openai_reasoning_blocks (os_reasoning s)\<rparr>"

definition padded :: "nat \<Rightarrow> call_part list \<Rightarrow> call_part list" where
  "padded n calls = calls @ replicate (n - length calls) blank_call"

text \<open>\<open>calls[index]\<close> with Python's negative indices; \<open>None\<close> is an \<open>IndexError\<close>.\<close>

definition place :: "int \<Rightarrow> nat \<Rightarrow> nat option" where
  "place index n =
     (if 0 \<le> index then (if nat index < n then Some (nat index) else None)
      else if - index \<le> int n then Some (nat (int n + index)) else None)"

definition openai_merge_piece :: "pyval \<Rightarrow> call_part list \<Rightarrow> call_part list option" where
  "openai_merge_piece piece calls =
     (case piece of
        PDict p \<Rightarrow>
          (case py_int (dget_or p ''index'' (PInt (int (length calls)))) of
             None \<Rightarrow> None
           | Some index \<Rightarrow>
               (let calls = padded (nat (index + 1)) calls
                in case (place index (length calls), dict_or (dget p ''function'')) of
                     (Some i, Some f) \<Rightarrow>
                       (let c = calls ! i
                        in Some (calls[i := c\<lparr>
                             pt_id := (if truthy (dget p ''id'') then py_str (dget p ''id'') else pt_id c),
                             pt_type := (if truthy (dget p ''type'') then py_str (dget p ''type'') else pt_type c),
                             pt_name := pt_name c @ str_or (dget f ''name''),
                             pt_args := pt_args c @ str_or (dget f ''arguments'')\<rparr>]))
                   | _ \<Rightarrow> None))
      | _ \<Rightarrow> None)"

fun openai_merge_pieces :: "pyval list \<Rightarrow> call_part list \<Rightarrow> call_part list option" where
  "openai_merge_pieces [] calls = Some calls"
| "openai_merge_pieces (p # ps) calls =
     (case openai_merge_piece p calls of None \<Rightarrow> None | Some calls' \<Rightarrow> openai_merge_pieces ps calls')"

definition chunk_choice :: "pydict \<Rightarrow> pydict option" where
  "chunk_choice chunk =
     (let choices = dget chunk ''choices''
      in if \<not> truthy choices then Some []
         else case choices of PList (PDict c # _) \<Rightarrow> Some c | _ \<Rightarrow> None)"

definition chunk_delta :: "pydict \<Rightarrow> pydict option" where
  "chunk_delta chunk =
     (case chunk_choice chunk of None \<Rightarrow> None | Some c \<Rightarrow> dict_or (dget c ''delta''))"

definition openai_merge :: "openai_state \<Rightarrow> pydict \<Rightarrow> openai_state option" where
  "openai_merge s chunk =
     (case (chunk_choice chunk, chunk_delta chunk) of
        (Some choice, Some delta) \<Rightarrow>
          (case iter_or (dget delta ''tool_calls'') of
             None \<Rightarrow> None
           | Some pieces \<Rightarrow>
               (case openai_merge_pieces pieces (os_calls s) of
                  None \<Rightarrow> None
                | Some calls \<Rightarrow>
                    Some \<lparr>os_content = os_content s @ str_or (dget delta ''content''),
                          os_reasoning = os_reasoning s @ openai_reasoning_text delta,
                          os_calls = calls,
                          os_usage = (if truthy (dget chunk ''usage'')
                                      then Some (normalize_usage (PDict chunk)) else os_usage s),
                          os_model = (if truthy (dget chunk ''model'') then py_str (dget chunk ''model'') else os_model s),
                          os_finish = (if truthy (dget choice ''finish_reason'')
                                       then py_str (dget choice ''finish_reason'') else os_finish s)\<rparr>))
      | _ \<Rightarrow> None)"

definition openai_delta_text :: "pydict \<Rightarrow> string" where
  "openai_delta_text chunk =
     (case chunk_delta chunk of None \<Rightarrow> [] | Some d \<Rightarrow> str_or (dget d ''content''))"

definition openai_delta_reasoning :: "pydict \<Rightarrow> string" where
  "openai_delta_reasoning chunk =
     (case chunk_delta chunk of None \<Rightarrow> [] | Some d \<Rightarrow> openai_reasoning_text d)"

interpretation oai: told_stream openai_merge os_content os_reasoning openai_delta_text openai_delta_reasoning
  by unfold_locales
    (auto simp: openai_merge_def openai_delta_text_def openai_delta_reasoning_def split: option.splits)

subsection \<open>Streaming and not streaming agree\<close>

text \<open>
  A fragment of a tool call as the endpoint sends it, and what the fragments of one index join to:
  the last id that is given, and the names and arguments in order.
\<close>

record fragment =
  fg_index :: nat
  fg_id :: string
  fg_name :: string
  fg_args :: string

definition fragment_piece :: "fragment \<Rightarrow> pyval" where
  "fragment_piece f =
     PDict [(''index'', PInt (int (fg_index f))), (''id'', PStr (fg_id f)),
            (''function'', PDict [(''name'', PStr (fg_name f)), (''arguments'', PStr (fg_args f))])]"

definition fragments_at :: "nat \<Rightarrow> fragment list \<Rightarrow> fragment list" where
  "fragments_at i fs = filter (\<lambda>f. fg_index f = i) fs"

definition joined_call :: "fragment list \<Rightarrow> nat \<Rightarrow> call_part" where
  "joined_call fs i =
     (let own = fragments_at i fs; ids = filter (\<lambda>s. s \<noteq> []) (map fg_id own)
      in \<lparr>pt_id = (if ids = [] then [] else last ids), pt_type = ''function'',
          pt_name = concat (map fg_name own), pt_args = concat (map fg_args own)\<rparr>)"

definition call_count :: "fragment list \<Rightarrow> nat" where
  "call_count fs = fold (\<lambda>f n. max n (Suc (fg_index f))) fs 0"

definition joined_calls :: "fragment list \<Rightarrow> call_part list" where
  "joined_calls fs = map (joined_call fs) [0..<call_count fs]"

lemma call_count_snoc: "call_count (fs @ [f]) = max (call_count fs) (Suc (fg_index f))"
  by (simp add: call_count_def)

lemma call_count_index: "f \<in> set fs \<Longrightarrow> fg_index f < call_count fs"
  by (induction fs rule: rev_induct) (auto simp: call_count_snoc)

lemma joined_beyond: "call_count fs \<le> i \<Longrightarrow> joined_call fs i = blank_call"
proof -
  assume "call_count fs \<le> i"
  then have "fragments_at i fs = []"
    using call_count_index by (fastforce simp: fragments_at_def filter_empty_conv)
  then show ?thesis by (simp add: joined_call_def blank_call_def)
qed

lemma joined_other: "fg_index f \<noteq> i \<Longrightarrow> joined_call (fs @ [f]) i = joined_call fs i"
  by (simp add: joined_call_def fragments_at_def)

lemma joined_same:
  "joined_call (fs @ [f]) (fg_index f) =
     (let c = joined_call fs (fg_index f)
      in c\<lparr>pt_id := (if fg_id f \<noteq> [] then fg_id f else pt_id c),
           pt_name := pt_name c @ fg_name f, pt_args := pt_args c @ fg_args f\<rparr>)"
  by (simp add: joined_call_def fragments_at_def Let_def)

lemma padded_joined:
  "padded n (joined_calls fs) = map (joined_call fs) [0..<max (call_count fs) n]"
  by (rule nth_equalityI) (auto simp: padded_def joined_calls_def nth_append joined_beyond)

lemma merge_fragment:
  "openai_merge_piece (fragment_piece f) (joined_calls fs) = Some (joined_calls (fs @ [f]))"
proof -
  let ?n = "max (call_count fs) (Suc (fg_index f))"
  have n: "nat (int (fg_index f) + 1) = Suc (fg_index f)" by simp
  have len: "length (map (joined_call fs) [0..<?n]) = ?n" by simp
  have p: "place (int (fg_index f)) ?n = Some (fg_index f)" by (simp add: place_def)
  have at: "map (joined_call fs) [0..<?n] ! fg_index f = joined_call fs (fg_index f)" by simp
  have step: "openai_merge_piece (fragment_piece f) (joined_calls fs) =
      Some ((map (joined_call fs) [0..<?n])[fg_index f := joined_call (fs @ [f]) (fg_index f)])"
    by (simp add: openai_merge_piece_def fragment_piece_def n padded_joined p at joined_same Let_def)
  have "(map (joined_call fs) [0..<?n])[fg_index f := joined_call (fs @ [f]) (fg_index f)]
      = joined_calls (fs @ [f])"
    by (rule nth_equalityI)
      (auto simp: joined_calls_def call_count_snoc nth_list_update joined_other)
  with step show ?thesis by simp
qed

lemma merge_fragments:
  "openai_merge_pieces (map fragment_piece gs) (joined_calls fs) = Some (joined_calls (fs @ gs))"
  by (induction gs arbitrary: fs) (simp_all add: merge_fragment)

text \<open>One chunk of text, reasoning and fragments; the whole stream; and the whole response.\<close>

type_synonym openai_piece = "string \<times> string \<times> fragment list"

definition piece_chunk :: "string \<Rightarrow> openai_piece \<Rightarrow> pydict" where
  "piece_chunk model p =
     [(''model'', PStr model),
      (''choices'', PList [PDict [(''delta'', PDict
         [(''content'', PStr (fst p)), (''reasoning_content'', PStr (fst (snd p))),
          (''tool_calls'', PList (map fragment_piece (snd (snd p))))])]])]"

definition openai_stream_of :: "string \<Rightarrow> openai_piece list \<Rightarrow> string \<Rightarrow> pydict \<Rightarrow> pydict list" where
  "openai_stream_of model pieces finish usage =
     map (piece_chunk model) pieces @
     [[(''model'', PStr model), (''choices'', PList [PDict [(''delta'', PDict []), (''finish_reason'', PStr finish)]])],
      [(''model'', PStr model), (''choices'', PList []), (''usage'', PDict usage)]]"

definition openai_response_of :: "string \<Rightarrow> openai_piece list \<Rightarrow> string \<Rightarrow> pydict \<Rightarrow> pyval" where
  "openai_response_of model pieces finish usage =
     PDict [(''model'', PStr model),
       (''choices'', PList [PDict [(''message'', PDict
          [(''content'', PStr (concat (map fst pieces))),
           (''reasoning_content'', PStr (concat (map (fst \<circ> snd) pieces))),
           (''tool_calls'', PList (map call_dict (joined_calls (concat (map (snd \<circ> snd) pieces)))))]),
          (''finish_reason'', PStr finish)]]),
       (''usage'', PDict usage)]"

lemma merge_piece_chunk:
  assumes "model \<noteq> []" "os_calls s = joined_calls fs"
  shows "openai_merge s (piece_chunk model (t, r, gs)) =
    Some (s\<lparr>os_content := os_content s @ t, os_reasoning := os_reasoning s @ r,
            os_calls := joined_calls (fs @ gs), os_model := model\<rparr>)"
  using assms
  by (simp add: openai_merge_def piece_chunk_def chunk_choice_def chunk_delta_def Let_def
      merge_fragments openai_reasoning_text_def)

lemma fold_piece_chunks:
  assumes "model \<noteq> []" "os_calls s = joined_calls fs"
  shows "fold_events openai_merge s (map (piece_chunk model) pieces) =
    Some (s\<lparr>os_content := os_content s @ concat (map fst pieces),
            os_reasoning := os_reasoning s @ concat (map (fst \<circ> snd) pieces),
            os_calls := joined_calls (fs @ concat (map (snd \<circ> snd) pieces)),
            os_model := (if pieces = [] then os_model s else model)\<rparr>)"
  using assms(2)
proof (induction pieces arbitrary: s fs)
  case (Cons p pieces)
  obtain t r gs where p: "p = (t, r, gs)" by (cases p)
  show ?case
    using Cons.IH [of "s\<lparr>os_content := os_content s @ t, os_reasoning := os_reasoning s @ r,
        os_calls := joined_calls (fs @ gs), os_model := model\<rparr>" "fs @ gs"]
      merge_piece_chunk [OF assms(1) Cons.prems, of t r gs] p
    by simp
qed simp

text \<open>
  C13. However an endpoint cuts a response into chunks, and however the fragments of its tool calls are
  interleaved, the turn folded from the stream is the turn read from the whole response, and what
  the callbacks were told is its text and its reasoning.
\<close>

theorem openai_stream_is_response:
  assumes "model \<noteq> []" "finish \<noteq> []" "usage \<noteq> []"
  shows "\<exists>s. folded openai_merge openai_start (openai_stream_of model pieces finish usage, None) = Inr s \<and>
      openai_parse_turn (openai_response_of model pieces finish usage) = Inr (openai_to_turn s) \<and>
      concat (map openai_delta_text (openai_stream_of model pieces finish usage)) = tn_text (openai_to_turn s) \<and>
      concat (map openai_delta_reasoning (openai_stream_of model pieces finish usage)) =
        tn_reasoning (openai_to_turn s)"
proof -
  let ?fs = "concat (map (snd \<circ> snd) pieces)"
  let ?s = "\<lparr>os_content = concat (map fst pieces), os_reasoning = concat (map (fst \<circ> snd) pieces),
    os_calls = joined_calls ?fs, os_usage = Some (normalize_usage (PDict [(''usage'', PDict usage)])),
    os_model = model, os_finish = finish\<rparr>"
  have start: "os_calls openai_start = joined_calls []"
    by (simp add: openai_start_def joined_calls_def call_count_def)
  let ?m = "openai_start\<lparr>os_content := os_content ?s, os_reasoning := os_reasoning ?s,
    os_calls := joined_calls ?fs, os_model := (if pieces = [] then [] else model)\<rparr>"
  let ?close = "[[(''model'', PStr model), (''choices'', PList [PDict [(''delta'', PDict []), (''finish_reason'', PStr finish)]])],
    [(''model'', PStr model), (''choices'', PList []), (''usage'', PDict usage)]]"
  have pieces: "fold_events openai_merge openai_start (map (piece_chunk model) pieces) = Some ?m"
    unfolding fold_piece_chunks [OF assms(1) start] by (simp add: openai_start_def)
  have tail: "fold_events openai_merge ?m ?close = Some ?s"
    using assms normalize_usage_found
      [of "[(''model'', PStr model), (''choices'', PList []), (''usage'', PDict usage)]" usage]
    by (simp add: openai_merge_def chunk_choice_def chunk_delta_def Let_def iter_or_def dict_or_def
        openai_reasoning_text_def openai_start_def)
  have "fold_events openai_merge openai_start (openai_stream_of model pieces finish usage) = Some ?s"
    unfolding openai_stream_of_def fold_events_append pieces option.case tail ..
  then have f: "folded openai_merge openai_start (openai_stream_of model pieces finish usage, None) = Inr ?s"
    by (simp add: folded_def)
  have told: "concat (map openai_delta_text (openai_stream_of model pieces finish usage)) = os_content ?s"
    "concat (map openai_delta_reasoning (openai_stream_of model pieces finish usage)) = os_reasoning ?s"
    using oai.folded_tells [OF f] by (simp_all add: openai_start_def)
  have "normalize_usage (openai_response_of model pieces finish usage) =
      normalize_usage (PDict [(''usage'', PDict usage)])"
    unfolding openai_response_of_def by (rule normalize_usage_found) simp
  moreover have "first_choice (openai_response_of model pieces finish usage) =
      Some [(''message'', PDict [(''content'', PStr (os_content ?s)), (''reasoning_content'', PStr (os_reasoning ?s)),
              (''tool_calls'', PList (map call_dict (joined_calls ?fs)))]), (''finish_reason'', PStr finish)]"
    by (simp add: first_choice_def openai_response_of_def)
  moreover have "(case openai_response_of model pieces finish usage of
      PDict d \<Rightarrow> dget_or d ''model'' (PStr '''') | _ \<Rightarrow> PNone) = PStr model"
    by (simp add: openai_response_of_def)
  ultimately have "openai_parse_turn (openai_response_of model pieces finish usage) = Inr (openai_to_turn ?s)"
    by (simp add: openai_parse_turn_def openai_to_turn_def content_text_def openai_reasoning_text_def Let_def
        iter_or_def)
  then show ?thesis
    by (intro exI [of _ ?s] conjI f) (use told in \<open>simp_all add: openai_to_turn_def\<close>)
qed

subsection \<open>What reaches the wire\<close>

lemma map_of_dict_update: "map_of extra k = None \<Longrightarrow> map_of (dict_update d extra) k = map_of d k"
proof -
  have "map_of extra k = None \<Longrightarrow> map_of (fold (\<lambda>kv. AList.update (fst kv) (snd kv)) extra d) k = map_of d k"
    by (induction extra arbitrary: d) (auto split: if_splits)
  then show "map_of extra k = None \<Longrightarrow> map_of (dict_update d extra) k = map_of d k"
    by (simp add: dict_update_def)
qed

lemma request_messages:
  assumes "openai_request cf ms system tools cap = Inr q" "map_of (cf_extra_body cf) ''messages'' = None"
  obtains rt head where "route_of cf = Inr rt" "length head \<le> 1"
    "list_all (\<lambda>m. map fst m = [''role'', ''content'']) head"
    "dget q ''messages'' = PList (map PDict (head @ wire_messages ms (plan_replay rt ms)))"
proof -
  obtain rt where rt: "route_of cf = Inr rt"
    using assms(1) by (auto simp: openai_request_def split: sum.splits)
  let ?head = "if given_str system then [[(''role'', PStr ''system''), (''content'', PStr (the system))]] else []"
  have "dget q ''messages'' = PList (map PDict (?head @ wire_messages ms (plan_replay rt ms)))"
    using assms rt by (auto simp: openai_request_def dget_def map_of_dict_update)
  then show ?thesis by (intro that [of rt ?head]) (auto simp: rt)
qed

lemma wire_message_keys:
  "set (map fst (wire_message m r)) \<subseteq> {''role'', ''content'', ''tool_calls'', ''tool_call_id'', ''reasoning_content''}"
  by (auto simp: wire_message_def Let_def)

lemma wire_reasoning:
  "map_of (wire_message m r) ''reasoning_content'' \<noteq> None \<longleftrightarrow>
     (\<exists>bs. r = Some bs \<and> reasoning_text_of bs \<noteq> [])"
  by (cases r) (auto simp: wire_message_def Let_def reasoning_text_of_def)

text \<open>
  C16. Nothing but the protocol's own fields reaches the endpoint: every message of a request is rebuilt
  from five keys, in the order of the history, and it carries reasoning only if the message holds a
  record of exactly this route, a tool result follows it and no one but tools and the model has
  spoken since.
\<close>

theorem wire_is_whitelisted:
  assumes "openai_request cf ms system tools cap = Inr q" "map_of (cf_extra_body cf) ''messages'' = None"
  shows "\<exists>head wire. dget q ''messages'' = PList (map PDict (head @ wire)) \<and> length head \<le> 1 \<and>
      length wire = length ms \<and>
      (\<forall>i<length ms. set (map fst (wire ! i)) \<subseteq>
         {''role'', ''content'', ''tool_calls'', ''tool_call_id'', ''reasoning_content''} \<and>
       dget (wire ! i) ''role'' = dget (ms ! i) ''role'' \<and>
       (map_of (wire ! i) ''reasoning_content'' \<noteq> None \<longrightarrow>
          (\<exists>rt r. route_of cf = Inr rt \<and> record_of (ms ! i) = Some r \<and>
             dget r ''route'' = PStr (route_key rt) \<and> dget r ''protocol'' = PStr (rt_protocol rt) \<and>
             i + 1 < length ms \<and> is_tool (ms ! (i + 1)))))"
proof -
  obtain rt head where rt: "route_of cf = Inr rt" and head: "length head \<le> 1"
    and q: "dget q ''messages'' = PList (map PDict (head @ wire_messages ms (plan_replay rt ms)))"
    using request_messages [OF assms] by metis
  let ?wire = "wire_messages ms (plan_replay rt ms)"
  have len: "length ?wire = length ms" by (simp add: wire_messages_def)
  have nth: "?wire ! i = wire_message (ms ! i) (map_of (plan_replay rt ms) i)" if "i < length ms" for i
    using that by (simp add: wire_messages_def)
  have reason: "\<exists>rt r. route_of cf = Inr rt \<and> record_of (ms ! i) = Some r \<and>
             dget r ''route'' = PStr (route_key rt) \<and> dget r ''protocol'' = PStr (rt_protocol rt) \<and>
             i + 1 < length ms \<and> is_tool (ms ! (i + 1))"
    if "i < length ms" "map_of (?wire ! i) ''reasoning_content'' \<noteq> None" for i
  proof -
    have "map_of (wire_message (ms ! i) (map_of (plan_replay rt ms) i)) ''reasoning_content'' \<noteq> None"
      using that(2) by (simp add: nth [OF that(1)])
    then obtain bs where "map_of (plan_replay rt ms) i = Some bs"
      unfolding wire_reasoning by blast
    then have "replay_at rt ms i = Some bs"
      by (rule plan_replay_at [OF map_of_SomeD])
    then show ?thesis using replay_at_Some [of rt ms i bs] rt by blast
  qed
  have keys: "set (map fst (?wire ! i)) \<subseteq>
         {''role'', ''content'', ''tool_calls'', ''tool_call_id'', ''reasoning_content''} \<and>
       dget (?wire ! i) ''role'' = dget (ms ! i) ''role''" if "i < length ms" for i
    unfolding nth [OF that] using wire_message_keys by (simp add: wire_message_def Let_def)
  show ?thesis
    by (intro exI [of _ head] exI [of _ ?wire] conjI q head len allI impI)
      (rule keys [THEN conjunct1] keys [THEN conjunct2] reason; assumption)+
qed

theorem openai_stream_is_response_witness:
  "\<exists>s. folded openai_merge openai_start (openai_stream_of ''m''
      [(''a'', '''', [\<lparr>fg_index = 1, fg_id = ''c'', fg_name = ''f'', fg_args = ''{''\<rparr>]),
       (''b'', ''t'', [\<lparr>fg_index = 0, fg_id = ''d'', fg_name = ''g'', fg_args = ''''\<rparr>,
                      \<lparr>fg_index = 1, fg_id = '''', fg_name = '''', fg_args = ''}''\<rparr>])]
      ''stop'' [(''total_tokens'', PInt 9)], None) = Inr s \<and> os_content s = ''ab'' \<and> length (os_calls s) = 2"
proof -
  let ?ps = "[(''a'', '''', [\<lparr>fg_index = 1, fg_id = ''c'', fg_name = ''f'', fg_args = ''{''\<rparr>]),
       (''b'', ''t'', [\<lparr>fg_index = 0, fg_id = ''d'', fg_name = ''g'', fg_args = ''''\<rparr>,
                      \<lparr>fg_index = 1, fg_id = '''', fg_name = '''', fg_args = ''}''\<rparr>])]"
  obtain s where s: "folded openai_merge openai_start
      (openai_stream_of ''m'' ?ps ''stop'' [(''total_tokens'', PInt 9)], None) = Inr s"
    using openai_stream_is_response [of "''m''" "''stop''" "[(''total_tokens'', PInt 9)]" ?ps] by auto
  have "(case folded openai_merge openai_start
      (openai_stream_of ''m'' ?ps ''stop'' [(''total_tokens'', PInt 9)], None) of
       Inl _ \<Rightarrow> False | Inr s \<Rightarrow> os_content s = ''ab'' \<and> length (os_calls s) = 2)" by code_simp
  with s show ?thesis by simp
qed

definition wire_config :: provider_config where
  "wire_config =
     \<lparr>cf_api_key = ''k'', cf_base_url = ''u'', cf_model = ''m'', cf_provider = None, cf_provider_id = Some ''x'',
      cf_extra_headers = [], cf_extra_body = [], cf_max_output = None, cf_reasoning_effort = None\<rparr>"

definition wire_sample :: "pydict list" where
  "wire_sample =
     [user_says ''go'',
      attach \<lparr>rt_provider_id = ''x'', rt_model = ''m'', rt_protocol = ''openai''\<rparr>
        [[(''type'', PStr ''text''), (''text'', PStr ''hm'')]] (calls_tool ''a1''),
      tool_result ''a1'' ''ok'']"

theorem wire_is_whitelisted_witness:
  "\<exists>q head wire. openai_request wire_config wire_sample None [] None = Inr q \<and>
     dget q ''messages'' = PList (map PDict (head @ wire)) \<and> length wire = 3"
proof -
  obtain q where q: "openai_request wire_config wire_sample None [] None = Inr q"
    by (simp add: openai_request_def route_of_def resolved_provider_def wire_config_def PROVIDERS_def)
  have x: "map_of (cf_extra_body wire_config) ''messages'' = None" by (simp add: wire_config_def)
  have "length wire_sample = 3" by (simp add: wire_sample_def)
  then show ?thesis using q wire_is_whitelisted [OF q x] by force
qed

text \<open>The reasoning of the sample does reach the wire, in the one message it belongs to.\<close>

lemma wire_sample_reasoning:
  "map (\<lambda>m. dget m ''reasoning_content'')
     (wire_messages wire_sample (plan_replay \<lparr>rt_provider_id = ''x'', rt_model = ''m'', rt_protocol = ''openai''\<rparr> wire_sample))
   = [PNone, PStr ''hm'', PNone]"
  by code_simp

text \<open>
  A chain that a finished answer follows is replayed too, although the comment of \<open>plan_replay\<close>
  counts it as history.
\<close>

lemma finished_chain_is_replayed:
  "map fst (plan_replay \<lparr>rt_provider_id = ''x'', rt_model = ''m'', rt_protocol = ''openai''\<rparr>
     (wire_sample @ [[(''role'', PStr ''assistant''), (''content'', PStr ''the answer'')]])) = [1]"
  by code_simp

end
