(* ===== verification/Providers_Responses.thy ===== *)
theory Providers_Responses
  imports Providers_Openai
begin

section \<open>The responses protocol\<close>

text \<open>
  The module \<open>avid/providers/responses.py\<close>: messages become items, an output array or a stream of
  typed events becomes a turn. The helpers for partial calls are copies of those of
  \<open>openai_compat.py\<close>, so the records of \<open>Providers_Openai\<close> stand for both. \<open>None\<close> is an exception
  nobody names.
\<close>

subsection \<open>The request\<close>

definition input_block :: "pyval \<Rightarrow> pyval list" where
  "input_block part =
     (case part of
        PDict d \<Rightarrow>
          (if dget d ''type'' = PStr ''image''
           then [PDict [(''type'', PStr ''input_image''), (''image_url'', PStr (image_data_url d))]]
           else case dget d ''text'' of
             PStr t \<Rightarrow> [PDict [(''type'', PStr ''input_text''), (''text'', PStr t)]]
           | _ \<Rightarrow> [])
      | _ \<Rightarrow> [])"

definition responses_user_content :: "pyval \<Rightarrow> pyval" where
  "responses_user_content raw =
     (case content_parts raw of
        None \<Rightarrow> PStr (str_or raw)
      | Some parts \<Rightarrow> PList (concat (map input_block parts)))"

definition call_item :: "pyval \<Rightarrow> pydict option" where
  "call_item call =
     (case call of
        PDict c \<Rightarrow>
          map_option (\<lambda>f.
            [(''type'', PStr ''function_call''), (''call_id'', PStr (str_or (dget c ''id''))),
             (''name'', PStr (str_or (dget f ''name''))), (''arguments'', PStr (str_or (dget f ''arguments'')))])
            (dict_or (dget c ''function''))
      | _ \<Rightarrow> None)"

definition message_items :: "pydict \<Rightarrow> pydict list option" where
  "message_items m =
     (let role = (if truthy (dget m ''role'') then py_str (dget m ''role'') else ''user'') in
      if role = ''tool'' then
        Some [[(''type'', PStr ''function_call_output''), (''call_id'', PStr (str_or (dget m ''tool_call_id''))),
               (''output'', PStr (str_or (dget m ''content'')))]]
      else if role = ''assistant'' then
        (let t = content_text (dget m ''content'');
             said = (if t \<noteq> [] then [[(''role'', PStr ''assistant''), (''content'', PStr t)]] else [])
         in case iter_or (dget m ''tool_calls'') of
              None \<Rightarrow> None
            | Some calls \<Rightarrow> map_option ((@) said) (those (map call_item calls)))
      else Some [[(''role'', PStr role), (''content'', responses_user_content (dget m ''content''))]])"

definition input_items :: "pydict list \<Rightarrow> pydict list option" where
  "input_items ms = map_option concat (those (map message_items ms))"

definition flat_tool :: "pyval \<Rightarrow> pyval option" where
  "flat_tool item =
     (case item of
        PDict d \<Rightarrow>
          map_option (\<lambda>f. PDict
            ([(''type'', PStr ''function''), (''name'', dget_or f ''name'' (PStr '''')),
              (''parameters'', if truthy (dget f ''parameters'') then dget f ''parameters''
                               else PDict [(''type'', PStr ''object''), (''properties'', PDict [])])] @
             (if truthy (dget f ''description'') then [(''description'', dget f ''description'')] else [])))
            (dict_or (dget d ''function''))
      | _ \<Rightarrow> None)"

definition responses_request ::
  "provider_config \<Rightarrow> pydict list \<Rightarrow> string option \<Rightarrow> pyval list \<Rightarrow> int option \<Rightarrow> provider_error + pydict" where
  "responses_request cf ms system tools max_tokens =
     (case (input_items ms, those (map flat_tool tools)) of
        (Some items, Some ts) \<Rightarrow>
          Inr (dict_update
            ([(''model'', PStr (cf_model cf)), (''input'', PList (map PDict items))] @
             (if given_str system then [(''instructions'', PStr (the system))] else []) @
             (case max_tokens of None \<Rightarrow> [] | Some n \<Rightarrow> [(''max_output_tokens'', PInt n)]) @
             (if ts \<noteq> [] then [(''tools'', PList ts)] else []) @
             (if given_str (cf_reasoning_effort cf)
              then [(''reasoning'', PDict [(''effort'', PStr (the (cf_reasoning_effort cf)))])] else []))
            (cf_extra_body cf))
      | _ \<Rightarrow> Inl Crashed)"

definition responses_url :: "provider_config \<Rightarrow> string" where
  "responses_url cf = rstrip_slash (cf_base_url cf) @ ''/responses''"

subsection \<open>A whole response\<close>

definition dicts_of :: "string \<Rightarrow> pyval list \<Rightarrow> pydict list" where
  "dicts_of ty items =
     concat (map (\<lambda>v. case v of PDict d \<Rightarrow> (if dget d ''type'' = PStr ty then [d] else []) | _ \<Rightarrow> []) items)"

definition summary_text :: "pyval list \<Rightarrow> string" where
  "summary_text pieces =
     concat (map (\<lambda>v. case v of PDict d \<Rightarrow> (case dget d ''text'' of PStr t \<Rightarrow> t | _ \<Rightarrow> []) | _ \<Rightarrow> []) pieces)"

definition items_text :: "string \<Rightarrow> (pyval list \<Rightarrow> string) \<Rightarrow> pydict list \<Rightarrow> string option" where
  "items_text key f items =
     map_option concat (those (map (\<lambda>d. map_option f (iter_or (dget d key))) items))"

definition responses_reasoning_text :: "pyval list \<Rightarrow> string option" where
  "responses_reasoning_text items = items_text ''summary'' summary_text (dicts_of ''reasoning'' items)"

definition output_text :: "pyval list \<Rightarrow> string option" where
  "output_text items =
     items_text ''content'' (\<lambda>ps. concat (map (\<lambda>d. str_or (dget d ''text'')) (dicts_of ''output_text'' ps)))
       (dicts_of ''message'' items)"

definition output_tool_calls :: "pyval list \<Rightarrow> pyval list" where
  "output_tool_calls items =
     map (\<lambda>d. call_dict
            \<lparr>pt_id = (if truthy (dget d ''call_id'') then py_str (dget d ''call_id'') else str_or (dget d ''id'')),
             pt_type = ''function'', pt_name = str_or (dget d ''name''), pt_args = str_or (dget d ''arguments'')\<rparr>)
       (dicts_of ''function_call'' items)"

definition responses_finish :: "string \<Rightarrow> pydict \<Rightarrow> string option" where
  "responses_finish status d =
     (if status = ''incomplete'' then
        map_option (\<lambda>details. if truthy (dget details ''reason'') then py_str (dget details ''reason'') else ''incomplete'')
          (dict_or (dget d ''incomplete_details''))
      else Some (if status = ''completed'' then ''stop'' else status))"

definition responses_turn ::
  "string \<Rightarrow> pyval list \<Rightarrow> usage \<Rightarrow> string \<Rightarrow> string \<Rightarrow> string \<Rightarrow> turn" where
  "responses_turn t calls usage model finish thinking =
     \<lparr>tn_message = assistant_message t calls, tn_text = t, tn_tool_calls = calls, tn_usage = usage,
      tn_model = model, tn_finish_reason = finish, tn_reasoning = thinking,
      tn_reasoning_blocks = openai_reasoning_blocks thinking\<rparr>"

definition responses_parse_turn :: "pydict \<Rightarrow> provider_error + turn" where
  "responses_parse_turn d =
     (case dget d ''output'' of
        PList items \<Rightarrow>
          (case (output_text items, responses_finish (str_or (dget d ''status'')) d, responses_reasoning_text items) of
             (Some t, Some finish, Some thinking) \<Rightarrow>
               Inr (responses_turn t (output_tool_calls items) (normalize_usage (PDict d))
                      (py_str (dget_or d ''model'' (PStr ''''))) finish thinking)
           | _ \<Rightarrow> Inl Crashed)
      | _ \<Rightarrow> Inl (LLMError (''no output array: '' @ take 300 (py_repr (PDict d)))))"

subsection \<open>A stream\<close>

definition responses_to_turn :: "openai_state \<Rightarrow> turn" where
  "responses_to_turn s =
     responses_turn (os_content s) (map call_dict (filter (\<lambda>c. pt_name c \<noteq> []) (os_calls s)))
       (case os_usage s of Some u \<Rightarrow> u | None \<Rightarrow> bare_usage 0) (os_model s) (os_finish s) (os_reasoning s)"

definition event_index :: "pydict \<Rightarrow> nat \<Rightarrow> nat" where
  "event_index chunk otherwise =
     (case as_int (dget chunk ''output_index'') of
        Some i \<Rightarrow> (if 0 \<le> i then nat i else otherwise)
      | None \<Rightarrow> otherwise)"

definition add_call :: "pydict \<Rightarrow> pydict \<Rightarrow> call_part list \<Rightarrow> call_part list" where
  "add_call chunk item calls =
     (let i = event_index chunk (length calls);
          calls = padded (Suc i) calls;
          streamed = pt_args (calls ! i)
      in calls[i := \<lparr>pt_id = str_or (dget item ''call_id''), pt_type = ''function'', pt_name = str_or (dget item ''name''),
                     pt_args = (if streamed \<noteq> [] then streamed else str_or (dget item ''arguments''))\<rparr>])"

definition add_arguments :: "pydict \<Rightarrow> call_part list \<Rightarrow> call_part list" where
  "add_arguments chunk calls =
     (let i = event_index chunk (length calls - 1);
          calls = padded (Suc i) calls
      in calls[i := (calls ! i)\<lparr>pt_args := pt_args (calls ! i) @ str_or (dget chunk ''delta'')\<rparr>])"

definition end_response :: "string \<Rightarrow> pydict \<Rightarrow> openai_state \<Rightarrow> openai_state option" where
  "end_response kind response s =
     (let status = (if kind = ''response.incomplete'' then ''incomplete'' else ''completed'')
      in map_option (\<lambda>finish.
           s\<lparr>os_usage := (if truthy (dget response ''usage'') then Some (normalize_usage (PDict response)) else os_usage s),
             os_model := (if truthy (dget response ''model'') then py_str (dget response ''model'') else os_model s),
             os_finish := finish\<rparr>)
         (responses_finish status response))"

definition THINKING_DELTAS :: "string list" where
  "THINKING_DELTAS = [''response.reasoning_summary_text.delta'', ''response.reasoning_text.delta'']"

definition END_KINDS :: "string list" where
  "END_KINDS = [''response.completed'', ''response.incomplete'', ''response.failed'']"

definition responses_merge :: "openai_state \<Rightarrow> pydict \<Rightarrow> openai_state option" where
  "responses_merge s chunk =
     (let kind = str_or (dget chunk ''type'') in
      if kind = ''response.output_text.delta'' then
        Some (s\<lparr>os_content := os_content s @ str_or (dget chunk ''delta'')\<rparr>)
      else if kind \<in> set THINKING_DELTAS then
        Some (s\<lparr>os_reasoning := os_reasoning s @ str_or (dget chunk ''delta'')\<rparr>)
      else if kind = ''response.output_item.added'' then
        (case dget chunk ''item'' of
           PDict item \<Rightarrow>
             (if dget item ''type'' = PStr ''function_call''
              then Some (s\<lparr>os_calls := add_call chunk item (os_calls s)\<rparr>) else Some s)
         | _ \<Rightarrow> Some s)
      else if kind = ''response.function_call_arguments.delta'' then
        Some (s\<lparr>os_calls := add_arguments chunk (os_calls s)\<rparr>)
      else if kind \<in> set END_KINDS then
        (let response = dget chunk ''response'' in
         if \<not> truthy response then end_response kind [] s
         else case response of PDict d \<Rightarrow> end_response kind d s | _ \<Rightarrow> Some s)
      else Some s)"

definition responses_delta_text :: "pydict \<Rightarrow> string" where
  "responses_delta_text chunk =
     (if str_or (dget chunk ''type'') = ''response.output_text.delta'' then str_or (dget chunk ''delta'') else [])"

definition responses_delta_reasoning :: "pydict \<Rightarrow> string" where
  "responses_delta_reasoning chunk =
     (if str_or (dget chunk ''type'') \<in> set THINKING_DELTAS then str_or (dget chunk ''delta'') else [])"

lemma end_response_keeps:
  "end_response kind d s = Some s' \<Longrightarrow>
     os_content s' = os_content s \<and> os_reasoning s' = os_reasoning s \<and> os_calls s' = os_calls s"
  by (auto simp: end_response_def Let_def)

lemma responses_merge_said:
  assumes "responses_merge s c = Some s'"
  shows "os_content s' = os_content s @ responses_delta_text c"
    "os_reasoning s' = os_reasoning s @ responses_delta_reasoning c"
  using assms
  by (auto simp: responses_merge_def responses_delta_text_def responses_delta_reasoning_def Let_def
      THINKING_DELTAS_def END_KINDS_def split: if_splits pyval.splits dest: end_response_keeps)

interpretation res: told_stream responses_merge os_content os_reasoning responses_delta_text responses_delta_reasoning
  by unfold_locales (simp_all add: responses_merge_said)

subsection \<open>Streaming and not streaming agree, except on a failure\<close>

text \<open>An output item as an endpoint sends it in pieces: as events at its index, and as a whole.\<close>

datatype out_item =
    OutText "string list"
  | OutThought "string list"
  | OutCall string string "string list"

definition added_event :: "nat \<Rightarrow> pydict \<Rightarrow> pydict" where
  "added_event i item =
     [(''type'', PStr ''response.output_item.added''), (''output_index'', PInt (int i)), (''item'', PDict item)]"

definition piece_event :: "string \<Rightarrow> nat \<Rightarrow> string \<Rightarrow> pydict" where
  "piece_event ty i p = [(''type'', PStr ty), (''output_index'', PInt (int i)), (''delta'', PStr p)]"

fun item_events :: "nat \<Rightarrow> out_item \<Rightarrow> pydict list" where
  "item_events i (OutText ps) =
     added_event i [(''type'', PStr ''message'')] # map (piece_event ''response.output_text.delta'' i) ps"
| "item_events i (OutThought ps) =
     added_event i [(''type'', PStr ''reasoning'')] # map (piece_event ''response.reasoning_summary_text.delta'' i) ps"
| "item_events i (OutCall c name ps) =
     added_event i [(''type'', PStr ''function_call''), (''call_id'', PStr c), (''name'', PStr name),
                    (''arguments'', PStr '''')] #
     map (piece_event ''response.function_call_arguments.delta'' i) ps"

fun items_events :: "nat \<Rightarrow> out_item list \<Rightarrow> pydict list" where
  "items_events i [] = []"
| "items_events i (x # xs) = item_events i x @ items_events (Suc i) xs"

fun whole_item :: "out_item \<Rightarrow> pydict" where
  "whole_item (OutText ps) =
     [(''type'', PStr ''message''),
      (''content'', PList [PDict [(''type'', PStr ''output_text''), (''text'', PStr (concat ps))]])]"
| "whole_item (OutThought ps) =
     [(''type'', PStr ''reasoning''), (''summary'', PList [PDict [(''text'', PStr (concat ps))]])]"
| "whole_item (OutCall c name ps) =
     [(''type'', PStr ''function_call''), (''call_id'', PStr c), (''name'', PStr name),
      (''arguments'', PStr (concat ps))]"

definition whole_response :: "string \<Rightarrow> string \<Rightarrow> out_item list \<Rightarrow> pydict \<Rightarrow> pydict" where
  "whole_response status model xs usage =
     [(''model'', PStr model), (''status'', PStr status), (''output'', PList (map (PDict \<circ> whole_item) xs)),
      (''usage'', PDict usage)]"

definition responses_stream_of :: "string \<Rightarrow> string \<Rightarrow> out_item list \<Rightarrow> pydict \<Rightarrow> pydict list" where
  "responses_stream_of status model xs usage =
     items_events 0 xs @
     [[(''type'', PStr (''response.'' @ status)), (''response'', PDict (whole_response status model xs usage))]]"

fun named_call :: "out_item \<Rightarrow> bool" where
  "named_call (OutCall c name ps) \<longleftrightarrow> c \<noteq> [] \<and> name \<noteq> []"
| "named_call _ \<longleftrightarrow> True"

text \<open>What an item adds to the text, the reasoning and the calls.\<close>

fun item_said :: "out_item \<Rightarrow> string" where "item_said (OutText ps) = concat ps" | "item_said _ = []"
fun item_thought :: "out_item \<Rightarrow> string" where "item_thought (OutThought ps) = concat ps" | "item_thought _ = []"
fun item_slot :: "out_item \<Rightarrow> call_part" where
  "item_slot (OutCall c name ps) = \<lparr>pt_id = c, pt_type = ''function'', pt_name = name, pt_args = concat ps\<rparr>"
| "item_slot _ = blank_call"

definition slots_hold :: "out_item list \<Rightarrow> call_part list \<Rightarrow> bool" where
  "slots_hold xs calls \<longleftrightarrow> length calls \<le> length xs \<and> padded (length xs) calls = map item_slot xs"

lemma merge_added_other:
  "dget item ''type'' \<noteq> PStr ''function_call'' \<Longrightarrow> responses_merge s (added_event i item) = Some s"
  by (simp add: responses_merge_def added_event_def THINKING_DELTAS_def END_KINDS_def)

lemma fold_text_pieces:
  "fold_events responses_merge s (map (piece_event ''response.output_text.delta'' i) ps) =
     Some (s\<lparr>os_content := os_content s @ concat ps\<rparr>)"
  by (induction ps arbitrary: s) (simp_all add: responses_merge_def piece_event_def)

lemma fold_thought_pieces:
  "fold_events responses_merge s (map (piece_event ''response.reasoning_summary_text.delta'' i) ps) =
     Some (s\<lparr>os_reasoning := os_reasoning s @ concat ps\<rparr>)"
  by (induction ps arbitrary: s) (simp_all add: responses_merge_def piece_event_def THINKING_DELTAS_def)

lemma add_arguments_at:
  "i < length calls \<Longrightarrow>
     add_arguments (piece_event ty i p) calls = calls[i := (calls ! i)\<lparr>pt_args := pt_args (calls ! i) @ p\<rparr>]"
  by (simp add: add_arguments_def piece_event_def event_index_def padded_def Let_def)

lemma fold_argument_pieces:
  "i < length (os_calls s) \<Longrightarrow>
   fold_events responses_merge s (map (piece_event ''response.function_call_arguments.delta'' i) ps) =
     Some (s\<lparr>os_calls := (os_calls s)[i := (os_calls s ! i)\<lparr>pt_args := pt_args (os_calls s ! i) @ concat ps\<rparr>]\<rparr>)"
proof (induction ps arbitrary: s)
  case (Cons p ps)
  have "responses_merge s (piece_event ''response.function_call_arguments.delta'' i p) =
      Some (s\<lparr>os_calls := (os_calls s)[i := (os_calls s ! i)\<lparr>pt_args := pt_args (os_calls s ! i) @ p\<rparr>]\<rparr>)"
    using add_arguments_at [OF Cons.prems, of "''response.function_call_arguments.delta''" p]
    by (simp add: responses_merge_def piece_event_def THINKING_DELTAS_def)
  then show ?case using Cons by simp
qed simp

lemma padded_length: "length calls \<le> n \<Longrightarrow> length (padded n calls) = n"
  by (simp add: padded_def)

lemma padded_Suc: "length calls \<le> n \<Longrightarrow> padded (Suc n) calls = padded n calls @ [blank_call]"
  by (simp add: padded_def Suc_diff_le replicate_append_same)

lemma padded_self: "padded (length calls) calls = calls"
  by (simp add: padded_def)

lemma slots_other:
  "\<lbrakk>slots_hold xs calls; item_slot x = blank_call\<rbrakk> \<Longrightarrow> slots_hold (xs @ [x]) calls"
  by (simp add: slots_hold_def padded_Suc)

lemma fold_item:
  assumes "slots_hold xs (os_calls s)"
  shows "\<exists>calls. slots_hold (xs @ [x]) calls \<and>
    fold_events responses_merge s (item_events (length xs) x) =
      Some (s\<lparr>os_content := os_content s @ item_said x, os_reasoning := os_reasoning s @ item_thought x,
              os_calls := calls\<rparr>)"
proof (cases x)
  case (OutCall c name ps)
  let ?i = "length xs"
  let ?c = "\<lparr>pt_id = c, pt_type = ''function'', pt_name = name, pt_args = []\<rparr>"
  let ?calls = "map item_slot xs @ [?c]"
  have p: "padded (Suc ?i) (os_calls s) = map item_slot xs @ [blank_call]"
    using assms by (simp add: slots_hold_def padded_Suc)
  have "add_call (added_event ?i [(''type'', PStr ''function_call''), (''call_id'', PStr c), (''name'', PStr name),
      (''arguments'', PStr '''')]) [(''type'', PStr ''function_call''), (''call_id'', PStr c), (''name'', PStr name),
      (''arguments'', PStr '''')] (os_calls s) = ?calls"
    by (simp add: add_call_def added_event_def event_index_def p nth_append blank_call_def list_update_append)
  then have start: "responses_merge s (added_event ?i [(''type'', PStr ''function_call''), (''call_id'', PStr c),
      (''name'', PStr name), (''arguments'', PStr '''')]) = Some (s\<lparr>os_calls := ?calls\<rparr>)"
    by (simp add: responses_merge_def added_event_def THINKING_DELTAS_def)
  have "slots_hold (xs @ [x]) (map item_slot (xs @ [x]))"
    using padded_self [of "map item_slot (xs @ [x])"] by (simp add: slots_hold_def)
  moreover have "fold_events responses_merge s (item_events ?i x) =
      Some (s\<lparr>os_calls := map item_slot (xs @ [x])\<rparr>)"
    using fold_argument_pieces [of ?i "s\<lparr>os_calls := ?calls\<rparr>" ps]
    by (simp add: OutCall start nth_append list_update_append)
  ultimately show ?thesis using OutCall by auto
qed (use slots_other [OF assms, of x] in \<open>auto simp: merge_added_other fold_text_pieces fold_thought_pieces\<close>)

lemma fold_items:
  assumes "slots_hold xs (os_calls s)"
  shows "\<exists>calls. slots_hold (xs @ ys) calls \<and>
    fold_events responses_merge s (items_events (length xs) ys) =
      Some (s\<lparr>os_content := os_content s @ concat (map item_said ys),
              os_reasoning := os_reasoning s @ concat (map item_thought ys), os_calls := calls\<rparr>)"
  using assms
proof (induction ys arbitrary: xs s)
  case Nil
  then show ?case by (intro exI [of _ "os_calls s"]) simp
next
  case (Cons y ys)
  obtain calls where c: "slots_hold (xs @ [y]) calls"
    "fold_events responses_merge s (item_events (length xs) y) =
      Some (s\<lparr>os_content := os_content s @ item_said y, os_reasoning := os_reasoning s @ item_thought y,
              os_calls := calls\<rparr>)"
    using fold_item [OF Cons.prems] by blast
  show ?case
    using Cons.IH [of "xs @ [y]" "s\<lparr>os_content := os_content s @ item_said y,
        os_reasoning := os_reasoning s @ item_thought y, os_calls := calls\<rparr>"] c
    by (auto simp: fold_events_append)
qed

lemma slots_named:
  assumes "slots_hold xs calls"
  shows "filter (\<lambda>c. pt_name c \<noteq> []) calls = filter (\<lambda>c. pt_name c \<noteq> []) (map item_slot xs)"
proof -
  have "filter (\<lambda>c. pt_name c \<noteq> []) (map item_slot xs) =
      filter (\<lambda>c. pt_name c \<noteq> []) (calls @ replicate (length xs - length calls) blank_call)"
    using assms by (simp add: slots_hold_def padded_def)
  then show ?thesis by (simp add: blank_call_def filter_replicate)
qed

lemma dicts_of_Cons:
  "dicts_of ty (PDict d # vs) = (if dget d ''type'' = PStr ty then [d] else []) @ dicts_of ty vs"
  by (simp add: dicts_of_def)

lemma dicts_of_Nil [simp]: "dicts_of ty [] = []"
  by (simp add: dicts_of_def)

lemma items_text_Nil [simp]: "items_text key f [] = Some []"
  by (simp add: items_text_def)

lemma items_text_Cons:
  "dget d key = PList vs \<Longrightarrow> items_text key f (d # ds) = map_option ((@) (f vs)) (items_text key f ds)"
  by (simp add: items_text_def option.map_comp comp_def)

lemma whole_texts:
  "output_text (map (PDict \<circ> whole_item) xs) = Some (concat (map item_said xs))"
  "responses_reasoning_text (map (PDict \<circ> whole_item) xs) = Some (concat (map item_thought xs))"
proof (induction xs)
  case (Cons x xs)
  note defs = output_text_def responses_reasoning_text_def dicts_of_Cons
  case 1 show ?case using Cons
    by (cases x) (simp_all add: defs items_text_Cons)
  case 2 show ?case using Cons
    by (cases x) (simp_all add: defs items_text_Cons summary_text_def)
qed (simp_all add: output_text_def responses_reasoning_text_def)

lemma whole_calls:
  "list_all named_call xs \<Longrightarrow>
     output_tool_calls (map (PDict \<circ> whole_item) xs) =
       map call_dict (filter (\<lambda>c. pt_name c \<noteq> []) (map item_slot xs))"
proof (induction xs)
  case (Cons x xs)
  then show ?case
    by (cases x) (simp_all add: output_tool_calls_def dicts_of_Cons blank_call_def)
qed (simp add: output_tool_calls_def)

definition native_end :: "string \<Rightarrow> string" where
  "native_end status = (if status = ''incomplete'' then ''incomplete'' else ''stop'')"

lemma fold_response:
  assumes "model \<noteq> []" "usage \<noteq> []" "list_all named_call xs"
    and "status \<in> {''completed'', ''incomplete'', ''failed''}"
  shows "\<exists>s. fold_events responses_merge openai_start (responses_stream_of status model xs usage) = Some s \<and>
    responses_to_turn s =
      responses_turn (concat (map item_said xs)) (output_tool_calls (map (PDict \<circ> whole_item) xs))
        (normalize_usage (PDict (whole_response status model xs usage))) model (native_end status)
        (concat (map item_thought xs))"
proof -
  let ?r = "whole_response status model xs usage"
  have "slots_hold [] (os_calls openai_start)"
    by (simp add: slots_hold_def openai_start_def padded_def)
  then obtain calls where calls: "slots_hold xs calls"
    and items: "fold_events responses_merge openai_start (items_events 0 xs) =
      Some (openai_start\<lparr>os_content := concat (map item_said xs), os_reasoning := concat (map item_thought xs),
              os_calls := calls\<rparr>)"
    using fold_items [of "[]" openai_start xs] by (auto simp: openai_start_def)
  let ?s = "openai_start\<lparr>os_content := concat (map item_said xs), os_reasoning := concat (map item_thought xs),
              os_calls := calls\<rparr>"
  let ?e = "[(''type'', PStr (''response.'' @ status)), (''response'', PDict ?r)]"
  have r: "?r \<noteq> []" "dget ?r ''usage'' = PDict usage" "dget ?r ''model'' = PStr model"
    "dget ?r ''incomplete_details'' = PNone"
    by (simp_all add: whole_response_def)
  have "end_response (''response.'' @ status) ?r ?s =
      Some (?s\<lparr>os_usage := Some (normalize_usage (PDict ?r)), os_model := model, os_finish := native_end status\<rparr>)"
    using r assms by (auto simp: end_response_def responses_finish_def native_end_def dict_or_def Let_def)
  moreover have "responses_merge ?s ?e = end_response (''response.'' @ status) ?r ?s"
    using assms(4) r(1) by (auto simp: responses_merge_def THINKING_DELTAS_def END_KINDS_def Let_def)
  ultimately have e: "responses_merge ?s ?e =
      Some (?s\<lparr>os_usage := Some (normalize_usage (PDict ?r)), os_model := model, os_finish := native_end status\<rparr>)"
    by simp
  have "fold_events responses_merge openai_start (responses_stream_of status model xs usage) =
      Some (?s\<lparr>os_usage := Some (normalize_usage (PDict ?r)), os_model := model, os_finish := native_end status\<rparr>)"
    unfolding responses_stream_of_def fold_events_append items option.case fold_events.simps e ..
  then show ?thesis
    by (intro exI conjI) (assumption, simp add: responses_to_turn_def whole_calls [OF assms(3)] slots_named [OF calls])
qed

lemma parse_whole:
  assumes "status \<in> {''completed'', ''incomplete'', ''failed''}"
  shows "responses_parse_turn (whole_response status model xs usage) =
    Inr (responses_turn (concat (map item_said xs)) (output_tool_calls (map (PDict \<circ> whole_item) xs))
      (normalize_usage (PDict (whole_response status model xs usage))) model
      (if status = ''failed'' then ''failed'' else native_end status) (concat (map item_thought xs)))"
proof -
  let ?r = "whole_response status model xs usage"
  have r: "dget ?r ''output'' = PList (map (PDict \<circ> whole_item) xs)" "str_or (dget ?r ''status'') = status"
    "py_str (dget_or ?r ''model'' (PStr '''')) = model" "dget ?r ''incomplete_details'' = PNone"
    by (simp_all add: whole_response_def)
  have f: "responses_finish status ?r = Some (if status = ''failed'' then ''failed'' else native_end status)"
    using assms r(4) by (auto simp: responses_finish_def native_end_def dict_or_def)
  show ?thesis
    unfolding responses_parse_turn_def r pyval.case whole_texts f by simp
qed

text \<open>
  C21. However an endpoint cuts the items of a response into events, a response that is completed or
  incomplete gives the same turn as a stream and as a whole, and the callbacks were told its text
  and its reasoning.
\<close>

theorem responses_stream_is_response:
  assumes "model \<noteq> []" "usage \<noteq> []" "list_all named_call xs" "status \<in> {''completed'', ''incomplete''}"
  shows "\<exists>s. folded responses_merge openai_start (responses_stream_of status model xs usage, None) = Inr s \<and>
    responses_parse_turn (whole_response status model xs usage) = Inr (responses_to_turn s) \<and>
    concat (map responses_delta_text (responses_stream_of status model xs usage)) = tn_text (responses_to_turn s) \<and>
    concat (map responses_delta_reasoning (responses_stream_of status model xs usage)) =
      tn_reasoning (responses_to_turn s)"
proof -
  have st: "status \<in> {''completed'', ''incomplete'', ''failed''}" "status \<noteq> ''failed''" using assms(4) by auto
  obtain s where s: "fold_events responses_merge openai_start (responses_stream_of status model xs usage) = Some s"
    "responses_to_turn s = responses_turn (concat (map item_said xs))
       (output_tool_calls (map (PDict \<circ> whole_item) xs))
       (normalize_usage (PDict (whole_response status model xs usage))) model (native_end status)
       (concat (map item_thought xs))"
    using fold_response [OF assms(1-3) st(1)] by blast
  have f: "folded responses_merge openai_start (responses_stream_of status model xs usage, None) = Inr s"
    using s(1) by (simp add: folded_def)
  have "concat (map responses_delta_text (responses_stream_of status model xs usage)) = os_content s"
    "concat (map responses_delta_reasoning (responses_stream_of status model xs usage)) = os_reasoning s"
    using res.folded_tells [OF f] by (simp_all add: openai_start_def)
  then show ?thesis
    using f s(2) parse_whole [OF st(1), of model xs usage] st(2)
    by (intro exI [of _ s]) (simp add: responses_to_turn_def responses_turn_def)
qed

text \<open>
  But a response that failed is told apart only as a whole: its stream ends like a finished answer,
  with whatever text and calls had arrived.
\<close>

theorem failed_stream_looks_finished:
  assumes "model \<noteq> []" "usage \<noteq> []" "list_all named_call xs"
  shows "\<exists>t. map_sum id responses_to_turn
        (folded responses_merge openai_start (responses_stream_of ''failed'' model xs usage, None)) = Inr t \<and>
      tn_finish_reason t = ''stop'' \<and>
      responses_parse_turn (whole_response ''failed'' model xs usage) = Inr (t\<lparr>tn_finish_reason := ''failed''\<rparr>)"
proof -
  obtain s where s: "fold_events responses_merge openai_start (responses_stream_of ''failed'' model xs usage) = Some s"
    "responses_to_turn s = responses_turn (concat (map item_said xs))
       (output_tool_calls (map (PDict \<circ> whole_item) xs))
       (normalize_usage (PDict (whole_response ''failed'' model xs usage))) model (native_end ''failed'')
       (concat (map item_thought xs))"
    using fold_response [OF assms, of "''failed''"] by auto
  then show ?thesis
    using parse_whole [of "''failed''" model xs usage]
    by (intro exI [of _ "responses_to_turn s"]) (simp add: folded_def responses_turn_def native_end_def)
qed

theorem responses_stream_is_response_witness:
  "\<exists>s. folded responses_merge openai_start (responses_stream_of ''completed'' ''m''
      [OutThought [''t''], OutText [''a'', ''b''], OutCall ''c'' ''f'' [''{'', ''}'']] [(''total_tokens'', PInt 9)], None) = Inr s \<and>
    responses_parse_turn (whole_response ''completed'' ''m''
      [OutThought [''t''], OutText [''a'', ''b''], OutCall ''c'' ''f'' [''{'', ''}'']] [(''total_tokens'', PInt 9)]) =
      Inr (responses_to_turn s)"
  using responses_stream_is_response [of "''m''" "[(''total_tokens'', PInt 9)]"
      "[OutThought [''t''], OutText [''a'', ''b''], OutCall ''c'' ''f'' [''{'', ''}'']]" "''completed''"]
  by auto

theorem failed_stream_looks_finished_witness:
  "\<exists>t. responses_parse_turn (whole_response ''failed'' ''m'' [OutText [''a'']] [(''total_tokens'', PInt 9)]) =
      Inr (t\<lparr>tn_finish_reason := ''failed''\<rparr>) \<and> tn_finish_reason t = ''stop''"
  using failed_stream_looks_finished [of "''m''" "[(''total_tokens'', PInt 9)]" "[OutText [''a'']]"]
  by auto

end
