(* ===== verification/Providers_Client.thy ===== *)
theory Providers_Client
  imports Providers_Anthropic Providers_Responses
begin

section \<open>Calls to a model\<close>

text \<open>
  The module \<open>avid/providers/client.py\<close> and the functions \<open>chat\<close>, \<open>stream\<close> and \<open>list_models\<close> of the
  three protocol modules: the request is sent with its retries, the answer becomes a turn or an
  error, and a stream tells its callbacks every piece as it arrives. The endpoint is a parameter.
\<close>

subsection \<open>One exchange\<close>

text \<open>\<open>send\<close> and the refusal of every status but 200, as the modules repeat it.\<close>

definition ask_endpoint ::
  "'e endpoint \<Rightarrow> http_request \<Rightarrow> bool \<Rightarrow> bool \<Rightarrow> 'e \<Rightarrow> (provider_error + http_response) \<times> 'e" where
  "ask_endpoint http q effort replay e =
     (let (r, waits, e') = send http DEFAULT_ATTEMPTS q e
      in (case r of
            Inl x \<Rightarrow> Inl x
          | Inr resp \<Rightarrow>
              (if hr_status resp \<noteq> 200 then Inl (refusal (hr_status resp) (hr_text resp) effort replay)
               else Inr resp), e'))"

definition json_of :: "http_response \<Rightarrow> provider_error + pyval" where
  "json_of resp =
     (case loads (hr_text resp) of
        None \<Rightarrow> Inl (LLMError (''not JSON: '' @ take 200 (hr_text resp)))
      | Some v \<Rightarrow> Inr v)"

text \<open>A result that only continues when it is there.\<close>

definition and_then :: "'x + 'a \<Rightarrow> ('a \<Rightarrow> 'x + 'b) \<Rightarrow> 'x + 'b" where
  "and_then r f = (case r of Inl x \<Rightarrow> Inl x | Inr v \<Rightarrow> f v)"

definition POST :: "string \<Rightarrow> pydict \<Rightarrow> pydict \<Rightarrow> http_request" where
  "POST url headers body = \<lparr>hq_method = ''POST'', hq_url = url, hq_headers = headers, hq_body = body\<rparr>"

definition chat_with ::
  "'e endpoint \<Rightarrow> provider_error + pydict \<Rightarrow> string \<Rightarrow> pydict \<Rightarrow> bool \<Rightarrow> (pydict \<Rightarrow> bool) \<Rightarrow>
   (pyval \<Rightarrow> provider_error + turn) \<Rightarrow> provider_config \<Rightarrow> 'e \<Rightarrow> (provider_error + turn) \<times> 'e" where
  "chat_with http request url headers effort carried parse cf e =
     (case request of
        Inl x \<Rightarrow> (Inl x, e)
      | Inr body \<Rightarrow>
          (let (r, e') = ask_endpoint http (POST url headers body) effort (carried body) e
           in (and_then (and_then (and_then r json_of) parse) (record_turn cf), e')))"

definition openai_chat ::
  "'e endpoint \<Rightarrow> provider_config \<Rightarrow> pydict list \<Rightarrow> string option \<Rightarrow> pyval list \<Rightarrow> int option \<Rightarrow> 'e \<Rightarrow>
   (provider_error + turn) \<times> 'e" where
  "openai_chat http cf ms system tools cap e =
     chat_with http (openai_request cf ms system tools cap) (chat_completions_url cf) (openai_headers cf False)
       (given_str (cf_reasoning_effort cf)) openai_carried_reasoning openai_parse_turn cf e"

definition anthropic_chat ::
  "'e endpoint \<Rightarrow> provider_config \<Rightarrow> pydict list \<Rightarrow> string option \<Rightarrow> pyval list \<Rightarrow> int option \<Rightarrow> 'e \<Rightarrow>
   (provider_error + turn) \<times> 'e" where
  "anthropic_chat http cf ms system tools cap e =
     chat_with http (anthropic_request cf ms system tools cap) (messages_url cf) (anthropic_headers cf)
       (given_str (cf_reasoning_effort cf)) anthropic_carried_reasoning anthropic_parse_turn cf e"

definition responses_parse :: "pyval \<Rightarrow> provider_error + turn" where
  "responses_parse v = (case v of PDict d \<Rightarrow> responses_parse_turn d | _ \<Rightarrow> Inl Crashed)"

definition responses_chat ::
  "'e endpoint \<Rightarrow> provider_config \<Rightarrow> pydict list \<Rightarrow> string option \<Rightarrow> pyval list \<Rightarrow> int option \<Rightarrow> 'e \<Rightarrow>
   (provider_error + turn) \<times> 'e" where
  "responses_chat http cf ms system tools cap e =
     chat_with http (responses_request cf ms system tools cap) (responses_url cf) (openai_headers cf False)
       (given_str (cf_reasoning_effort cf)) (\<lambda>_. False) responses_parse cf e"

subsection \<open>One stream\<close>

text \<open>The frames that were folded before an exception, and the pieces a callback is told of them.\<close>

fun fed :: "('s \<Rightarrow> pydict \<Rightarrow> 's option) \<Rightarrow> 's \<Rightarrow> pydict list \<Rightarrow> pydict list" where
  "fed feed s [] = []"
| "fed feed s (c # cs) = (case feed s c of None \<Rightarrow> [] | Some s' \<Rightarrow> c # fed feed s' cs)"

definition pieces_told :: "('s \<Rightarrow> pydict \<Rightarrow> 's option) \<Rightarrow> 's \<Rightarrow> (pydict \<Rightarrow> string) \<Rightarrow> pydict list \<Rightarrow> string list" where
  "pieces_told feed s tells cs = filter (\<lambda>p. p \<noteq> []) (map tells (fed feed s cs))"

record told_turn =
  tt_turn :: "provider_error + turn"
  tt_said :: "string list"
  tt_thought :: "string list"

definition failed_stream :: "provider_error \<Rightarrow> told_turn" where
  "failed_stream x = \<lparr>tt_turn = Inl x, tt_said = [], tt_thought = []\<rparr>"

definition stream_with ::
  "'e endpoint \<Rightarrow> provider_error + pydict \<Rightarrow> string \<Rightarrow> pydict \<Rightarrow> bool \<Rightarrow> (pydict \<Rightarrow> bool) \<Rightarrow>
   (pydict list \<times> provider_error option \<Rightarrow> told_turn) \<Rightarrow> 'e \<Rightarrow> told_turn \<times> 'e" where
  "stream_with http request url headers effort carried read e =
     (case request of
        Inl x \<Rightarrow> (failed_stream x, e)
      | Inr body \<Rightarrow>
          (let (r, e') = ask_endpoint http (POST url headers body) effort (carried body) e
           in (case r of
                 Inl x \<Rightarrow> failed_stream x
               | Inr resp \<Rightarrow> read (iter_sse_events (hr_broken resp) (hr_lines resp)), e')))"

definition streaming :: "pydict \<Rightarrow> pydict \<Rightarrow> pydict" where
  "streaming extra body = dict_update body ((''stream'', PBool True) # extra)"

definition openai_read :: "provider_config \<Rightarrow> pydict list \<times> provider_error option \<Rightarrow> told_turn" where
  "openai_read cf frames =
     \<lparr>tt_turn = and_then (folded openai_merge openai_start frames) (record_turn cf \<circ> openai_to_turn),
      tt_said = pieces_told openai_merge openai_start openai_delta_text (fst frames),
      tt_thought = pieces_told openai_merge openai_start openai_delta_reasoning (fst frames)\<rparr>"

definition responses_read :: "provider_config \<Rightarrow> pydict list \<times> provider_error option \<Rightarrow> told_turn" where
  "responses_read cf frames =
     \<lparr>tt_turn = and_then (folded responses_merge openai_start frames) (record_turn cf \<circ> responses_to_turn),
      tt_said = pieces_told responses_merge openai_start responses_delta_text (fst frames),
      tt_thought = pieces_told responses_merge openai_start responses_delta_reasoning (fst frames)\<rparr>"

text \<open>The accumulator of the messages protocol tells the pieces itself.\<close>

fun anthropic_told :: "accumulator \<Rightarrow> pydict list \<Rightarrow> (string \<times> string) list" where
  "anthropic_told a [] = []"
| "anthropic_told a (c # cs) =
     (case anthropic_feed a c of None \<Rightarrow> [] | Some (a', told) \<Rightarrow> told # anthropic_told a' cs)"

definition anthropic_read :: "provider_config \<Rightarrow> pydict list \<times> provider_error option \<Rightarrow> told_turn" where
  "anthropic_read cf frames =
     \<lparr>tt_turn =
        and_then (folded (\<lambda>a c. map_option fst (anthropic_feed a c)) fresh_accumulator frames)
          (record_turn cf \<circ> anthropic_to_turn),
      tt_said = filter (\<lambda>p. p \<noteq> []) (map fst (anthropic_told fresh_accumulator (fst frames))),
      tt_thought = filter (\<lambda>p. p \<noteq> []) (map snd (anthropic_told fresh_accumulator (fst frames)))\<rparr>"

definition openai_stream ::
  "'e endpoint \<Rightarrow> provider_config \<Rightarrow> pydict list \<Rightarrow> string option \<Rightarrow> pyval list \<Rightarrow> int option \<Rightarrow> 'e \<Rightarrow> told_turn \<times> 'e" where
  "openai_stream http cf ms system tools cap e =
     stream_with http
       (map_sum id (streaming [(''stream_options'', PDict [(''include_usage'', PBool True)])])
          (openai_request cf ms system tools cap))
       (chat_completions_url cf) (openai_headers cf True) (given_str (cf_reasoning_effort cf))
       openai_carried_reasoning (openai_read cf) e"

definition anthropic_stream ::
  "'e endpoint \<Rightarrow> provider_config \<Rightarrow> pydict list \<Rightarrow> string option \<Rightarrow> pyval list \<Rightarrow> int option \<Rightarrow> 'e \<Rightarrow> told_turn \<times> 'e" where
  "anthropic_stream http cf ms system tools cap e =
     stream_with http (map_sum id (streaming []) (anthropic_request cf ms system tools cap))
       (messages_url cf) (AList.update ''Accept'' (PStr ''text/event-stream'') (anthropic_headers cf))
       (given_str (cf_reasoning_effort cf)) anthropic_carried_reasoning (anthropic_read cf) e"

definition responses_stream ::
  "'e endpoint \<Rightarrow> provider_config \<Rightarrow> pydict list \<Rightarrow> string option \<Rightarrow> pyval list \<Rightarrow> int option \<Rightarrow> 'e \<Rightarrow> told_turn \<times> 'e" where
  "responses_stream http cf ms system tools cap e =
     stream_with http (map_sum id (streaming []) (responses_request cf ms system tools cap))
       (responses_url cf) (openai_headers cf True) (given_str (cf_reasoning_effort cf))
       (\<lambda>_. False) (responses_read cf) e"

subsection \<open>The facade\<close>

definition output_cap :: "provider_config \<Rightarrow> int option \<Rightarrow> int option" where
  "output_cap cf max_tokens = (case max_tokens of Some n \<Rightarrow> Some n | None \<Rightarrow> cf_max_output cf)"

definition chat_completion ::
  "'e endpoint \<Rightarrow> provider_config \<Rightarrow> pydict list \<Rightarrow> string option \<Rightarrow> pyval list \<Rightarrow> int option \<Rightarrow> 'e \<Rightarrow>
   (provider_error + turn) \<times> 'e" where
  "chat_completion http cf ms system tools max_tokens e =
     (case resolved_provider cf of
        Inl x \<Rightarrow> (Inl x, e)
      | Inr p \<Rightarrow>
          (if p = ''openai'' then openai_chat else if p = ''anthropic'' then anthropic_chat else responses_chat)
            http cf ms system tools (output_cap cf max_tokens) e)"

definition stream_completion ::
  "'e endpoint \<Rightarrow> provider_config \<Rightarrow> pydict list \<Rightarrow> string option \<Rightarrow> pyval list \<Rightarrow> int option \<Rightarrow> 'e \<Rightarrow> told_turn \<times> 'e" where
  "stream_completion http cf ms system tools max_tokens e =
     (case resolved_provider cf of
        Inl x \<Rightarrow> (failed_stream x, e)
      | Inr p \<Rightarrow>
          (if p = ''openai'' then openai_stream else if p = ''anthropic'' then anthropic_stream else responses_stream)
            http cf ms system tools (output_cap cf max_tokens) e)"

definition WINDOW_KEYS :: "string list" where
  "WINDOW_KEYS = [''context_length'', ''context_window'', ''max_model_len'', ''max_context_length'']"

definition window_of :: "pydict \<Rightarrow> int option" where
  "window_of item =
     (case concat (map (\<lambda>k. case dget item k of PInt n \<Rightarrow> (if 0 < n then [n] else []) | _ \<Rightarrow> []) WINDOW_KEYS) of
        [] \<Rightarrow> None | n # _ \<Rightarrow> Some n)"

definition ask_context_length :: "'e endpoint \<Rightarrow> provider_config \<Rightarrow> 'e \<Rightarrow> int option \<times> 'e" where
  "ask_context_length http cf e =
     (let (r, e') = http \<lparr>hq_method = ''GET'', hq_url = rstrip_slash (cf_base_url cf) @ ''/models'',
             hq_headers = [(''Authorization'', PStr (''Bearer '' @ cf_api_key cf))], hq_body = []\<rparr> e
      in (case r of
            Inl _ \<Rightarrow> None
          | Inr resp \<Rightarrow>
              (if hr_status resp \<noteq> 200 then None
               else case loads (hr_text resp) of
                 Some (PDict d) \<Rightarrow>
                   (case dget d ''data'' of
                      PList items \<Rightarrow>
                        (case concat (map (\<lambda>v. case v of
                                 PDict i \<Rightarrow> (if py_str (dget i ''id'') = cf_model cf then [i] else []) | _ \<Rightarrow> []) items) of
                           [] \<Rightarrow> None | i # _ \<Rightarrow> window_of i)
                    | _ \<Rightarrow> None)
               | _ \<Rightarrow> None), e'))"

type_synonym window_cache = "((string \<times> string) \<times> int option) list"

definition fetch_context_length ::
  "'e endpoint \<Rightarrow> string option \<Rightarrow> provider_config \<Rightarrow> window_cache \<Rightarrow> 'e \<Rightarrow>
   (provider_error + int option) \<times> window_cache \<times> 'e" where
  "fetch_context_length http switch cf cache e =
     (if \<not> model_info_enabled switch then (Inr None, cache, e)
      else case resolved_provider cf of
        Inl x \<Rightarrow> (Inl x, cache, e)
      | Inr p \<Rightarrow>
          (if p \<notin> {''openai'', ''responses''} then (Inr None, cache, e)
           else
             (let key = (cf_base_url cf, cf_model cf)
              in case map_of cache key of
                   Some found \<Rightarrow> (Inr found, cache, e)
                 | None \<Rightarrow>
                     (let (found, e') = ask_context_length http cf e
                      in (Inr found, AList.update key found cache, e')))))"

subsection \<open>What a caller gets\<close>

lemma fed_all: "fold_events feed s cs = Some s' \<Longrightarrow> fed feed s cs = cs"
  by (induction cs arbitrary: s) (auto split: option.splits)

lemma concat_nonempty: "concat (filter (\<lambda>p. p \<noteq> []) ps) = concat ps"
  by (induction ps) auto

lemma record_turn_texts:
  "record_turn cf t = Inr t' \<Longrightarrow> tn_text t' = tn_text t \<and> tn_reasoning t' = tn_reasoning t"
  by (auto simp: record_turn_def)

lemma and_then_Inr [simp]: "and_then r f = Inr v \<longleftrightarrow> (\<exists>w. r = Inr w \<and> f w = Inr v)"
  by (cases r) (auto simp: and_then_def)

lemma and_then_Inl: "and_then r f = Inl x \<Longrightarrow> r = Inl x \<or> (\<exists>w. r = Inr w \<and> f w = Inl x)"
  by (cases r) (auto simp: and_then_def)

lemma told_by_fold:
  assumes "folded feed s frames = Inr s'"
  shows "concat (pieces_told feed s tells (fst frames)) = concat (map tells (fst frames))"
  using assms fed_all [of feed s "fst frames"]
  by (auto simp: folded_def pieces_told_def concat_nonempty split: option.splits)

lemma start_empty: "os_content openai_start = []" "os_reasoning openai_start = []"
  by (simp_all add: openai_start_def)

lemma openai_read_tells:
  assumes "tt_turn (openai_read cf frames) = Inr t"
  shows "concat (tt_said (openai_read cf frames)) = tn_text t \<and>
    concat (tt_thought (openai_read cf frames)) = tn_reasoning t"
proof -
  obtain s where s: "folded openai_merge openai_start frames = Inr s" "record_turn cf (openai_to_turn s) = Inr t"
    using assms by (auto simp: openai_read_def)
  show ?thesis
    using oai.folded_tells [OF s(1)] record_turn_texts [OF s(2)]
    by (simp add: openai_read_def told_by_fold [OF s(1)] openai_to_turn_def start_empty)
qed

lemma responses_read_tells:
  assumes "tt_turn (responses_read cf frames) = Inr t"
  shows "concat (tt_said (responses_read cf frames)) = tn_text t \<and>
    concat (tt_thought (responses_read cf frames)) = tn_reasoning t"
proof -
  obtain s where s: "folded responses_merge openai_start frames = Inr s" "record_turn cf (responses_to_turn s) = Inr t"
    using assms by (auto simp: responses_read_def)
  show ?thesis
    using res.folded_tells [OF s(1)] record_turn_texts [OF s(2)]
    by (simp add: responses_read_def told_by_fold [OF s(1)] responses_to_turn_def responses_turn_def start_empty)
qed

lemma stream_with_turn:
  assumes "stream_with http request url headers effort carried read e = (tt, e')" "tt_turn tt = Inr t"
  shows "\<exists>broken ls. tt = read (iter_sse_events broken ls)"
  using assms by (auto simp: stream_with_def failed_stream_def Let_def split: sum.splits prod.splits)

text \<open>
  C23. What a stream told its callbacks is what its turn records: on the chat completions and the
  responses protocol the streamed pieces, put together, are the text and the reasoning of the turn,
  whatever the endpoint sends.
\<close>

theorem stream_tells_its_turn:
  assumes "stream_completion http cf ms system tools cap e = (tt, e')" "tt_turn tt = Inr t"
    and "resolved_provider cf = Inr p" "p \<noteq> ''anthropic''"
  shows "concat (tt_said tt) = tn_text t \<and> concat (tt_thought tt) = tn_reasoning t"
proof (cases "p = ''openai''")
  case True
  then have "fst (openai_stream http cf ms system tools (output_cap cf cap) e) = tt"
    using assms(1,3) by (simp add: stream_completion_def)
  then obtain frames where "tt = openai_read cf frames"
    using stream_with_turn [OF _ assms(2)] unfolding openai_stream_def by (metis prod.collapse)
  then show ?thesis using openai_read_tells assms(2) by blast
next
  case False
  then have "fst (responses_stream http cf ms system tools (output_cap cf cap) e) = tt"
    using assms(1,3,4) by (simp add: stream_completion_def)
  then obtain frames where "tt = responses_read cf frames"
    using stream_with_turn [OF _ assms(2)] unfolding responses_stream_def by (metis prod.collapse)
  then show ?thesis using responses_read_tells assms(2) by blast
qed

text \<open>The exchange a call ended with, after retries that were all due.\<close>

definition last_exchange :: "'e endpoint \<Rightarrow> 'e \<Rightarrow> http_request \<Rightarrow> nat \<Rightarrow> 'e \<Rightarrow> bool" where
  "last_exchange http e q k e' \<longleftrightarrow>
     k < 3 \<and> e' = world_after http q (Suc k) e \<and> (\<forall>i<k. try_again (exchange http q i e))"

lemma ask_endpoint_outcome:
  "\<exists>k. last_exchange http e q k (snd (ask_endpoint http q effort replay e)) \<and>
     (case fst (ask_endpoint http q effort replay e) of
        Inr resp \<Rightarrow> exchange http q k e = Inr resp \<and> hr_status resp = 200
      | Inl (PromptTooLongError w) \<Rightarrow>
          (\<exists>resp. exchange http q k e = Inr resp \<and> prompt_too_long (hr_status resp) (hr_text resp))
      | Inl _ \<Rightarrow> True)"
proof -
  obtain k where k: "k \<le> 2" "\<forall>i<k. try_again (exchange http q i e)"
    "fst (send http DEFAULT_ATTEMPTS q e) = map_sum LLMError id (exchange http q k e)"
    "snd (snd (send http DEFAULT_ATTEMPTS q e)) = world_after http q (Suc k) e"
    using send_from_retries [of "DEFAULT_ATTEMPTS - 1" http q e 1 "[]"]
    by (auto simp: send_def DEFAULT_ATTEMPTS_def)
  have "last_exchange http e q k (snd (ask_endpoint http q effort replay e))"
    using k by (auto simp: last_exchange_def ask_endpoint_def Let_def split: prod.splits)
  moreover have "case fst (ask_endpoint http q effort replay e) of
        Inr resp \<Rightarrow> exchange http q k e = Inr resp \<and> hr_status resp = 200
      | Inl (PromptTooLongError w) \<Rightarrow>
          (\<exists>resp. exchange http q k e = Inr resp \<and> prompt_too_long (hr_status resp) (hr_text resp))
      | Inl _ \<Rightarrow> True"
    using k(3)
    by (cases "exchange http q k e")
      (auto simp: ask_endpoint_def refusal_def http_error_def Let_def split: prod.splits)
  ultimately show ?thesis by blast
qed

text \<open>
  Either no request was sent and there is an error, or the call ended with an exchange: a turn only
  if its status was 200, the error of a prompt that is too long only if it said so.
\<close>

definition call_outcome :: "'e endpoint \<Rightarrow> 'e \<Rightarrow> provider_error + turn \<Rightarrow> 'e \<Rightarrow> bool" where
  "call_outcome http e r e' \<longleftrightarrow>
    (e' = e \<and> (\<exists>x. r = Inl x)) \<or>
    (\<exists>q k. last_exchange http e q k e' \<and>
       (\<forall>t. r = Inr t \<longrightarrow> (\<exists>resp. exchange http q k e = Inr resp \<and> hr_status resp = 200)) \<and>
       (\<forall>w. r = Inl (PromptTooLongError w) \<longrightarrow>
          (\<exists>resp. exchange http q k e = Inr resp \<and> prompt_too_long (hr_status resp) (hr_text resp))))"

lemma chat_with_outcome:
  assumes "\<And>v w. parse v \<noteq> Inl (PromptTooLongError w)"
  shows "case chat_with http request url headers effort carried parse cf e of (r, e') \<Rightarrow>
    call_outcome http e r e'"
proof (cases request)
  case (Inl x)
  then show ?thesis by (simp add: chat_with_def call_outcome_def)
next
  case (Inr body)
  let ?q = "POST url headers body"
  obtain r e' where a: "ask_endpoint http ?q effort (carried body) e = (r, e')"
    by (cases "ask_endpoint http ?q effort (carried body) e")
  obtain k where k: "last_exchange http e ?q k e'"
    "case r of
        Inr resp \<Rightarrow> exchange http ?q k e = Inr resp \<and> hr_status resp = 200
      | Inl (PromptTooLongError w) \<Rightarrow>
          (\<exists>resp. exchange http ?q k e = Inr resp \<and> prompt_too_long (hr_status resp) (hr_text resp))
      | Inl _ \<Rightarrow> True"
    using ask_endpoint_outcome [of http e ?q effort "carried body"] unfolding a by auto
  let ?r = "and_then (and_then (and_then r json_of) parse) (record_turn cf)"
  have out: "chat_with http request url headers effort carried parse cf e = (?r, e')"
    by (simp add: chat_with_def Inr a)
  have "\<exists>resp. exchange http ?q k e = Inr resp \<and> hr_status resp = 200" if "?r = Inr t" for t
    using that k(2) by auto
  moreover have "r = Inl (PromptTooLongError w)" if "?r = Inl (PromptTooLongError w)" for w
    using that assms
    by (auto dest!: and_then_Inl simp: record_turn_def route_of_def resolved_provider_def json_of_def Let_def
        split: option.splits if_splits)
  ultimately show ?thesis
    unfolding out call_outcome_def using k by (fastforce split: sum.splits)
qed

lemma parse_never_too_long:
  "openai_parse_turn v \<noteq> Inl (PromptTooLongError w)" "anthropic_parse_turn v \<noteq> Inl (PromptTooLongError w)"
  "responses_parse v \<noteq> Inl (PromptTooLongError w)"
  by (auto simp: openai_parse_turn_def anthropic_parse_turn_def responses_parse_def responses_parse_turn_def Let_def
      split: option.splits pyval.splits)

text \<open>
  C22. A call costs at most three requests, the repetitions only after network errors and retryable
  statuses; a turn always comes from an answer with status 200, and the error that makes the kernel
  compact its history and try again only from a refusal that names the length of the prompt.
  A call whose request cannot be built sends none.
\<close>

theorem call_is_bounded:
  "case chat_completion http cf ms system tools cap e of (r, e') \<Rightarrow>
    call_outcome http e r e'"
proof (cases "resolved_provider cf")
  case (Inl x)
  then show ?thesis by (simp add: chat_completion_def call_outcome_def)
next
  case (Inr p)
  note outcome = chat_with_outcome [OF parse_never_too_long(1), where http = http and cf = cf and e = e]
    chat_with_outcome [OF parse_never_too_long(2), where http = http and cf = cf and e = e]
    chat_with_outcome [OF parse_never_too_long(3), where http = http and cf = cf and e = e]
  show ?thesis
    unfolding chat_completion_def Inr sum.case
    by (simp add: openai_chat_def anthropic_chat_def responses_chat_def outcome)
qed

subsection \<open>Samples\<close>

definition sample_config :: "string \<Rightarrow> provider_config" where
  "sample_config p =
     \<lparr>cf_api_key = ''k'', cf_base_url = ''http://h/v1/'', cf_model = ''m'', cf_provider = Some p,
      cf_provider_id = Some ''x'', cf_extra_headers = [], cf_extra_body = [], cf_max_output = None,
      cf_reasoning_effort = None\<rparr>"

text \<open>An endpoint that is busy once and then streams two pieces.\<close>

definition sample_endpoint :: "nat endpoint" where
  "sample_endpoint q n =
     (Inr \<lparr>hr_status = (if n = 0 then 503 else 200), hr_text = ''{}'', hr_retry_after = False,
       hr_lines = [''data: {\"choices\": [{\"delta\": {\"content\": \"ab\"}}]}'', '''',
                   ''data: {\"choices\": [{\"delta\": {\"content\": \"c\"}}]}'', '''', ''data: [DONE]'', ''''],
       hr_broken = None\<rparr>, Suc n)"

definition sample_told :: told_turn where
  "sample_told = fst (stream_completion sample_endpoint (sample_config ''openai'') [] None [] None 0)"

theorem stream_tells_its_turn_witness:
  "concat (tt_said sample_told) = ''abc'' \<and>
   (\<exists>t. tt_turn sample_told = Inr t \<and> concat (tt_said sample_told) = tn_text t)"
proof -
  have r: "resolved_provider (sample_config ''openai'') = Inr ''openai''" by code_simp
  have n: "''openai'' \<noteq> ''anthropic''" by simp
  have said: "concat (tt_said sample_told) = ''abc''" by code_simp
  have "(case tt_turn sample_told of Inl _ \<Rightarrow> False | Inr _ \<Rightarrow> True)" by code_simp
  then obtain t where t: "tt_turn sample_told = Inr t" by (cases "tt_turn sample_told") auto
  have "stream_completion sample_endpoint (sample_config ''openai'') [] None [] None 0 =
      (sample_told, snd (stream_completion sample_endpoint (sample_config ''openai'') [] None [] None 0))"
    by (simp add: sample_told_def)
  from stream_tells_its_turn [OF this t r n] show ?thesis using said t by auto
qed

theorem call_is_bounded_witness:
  "call_outcome sample_endpoint 0
     (fst (chat_completion sample_endpoint (sample_config ''openai'') [] None [] None 0)) 2"
proof -
  have "snd (chat_completion sample_endpoint (sample_config ''openai'') [] None [] None 0) = 2" by code_simp
  then show ?thesis
    using call_is_bounded [where http = sample_endpoint and cf = "sample_config ''openai''" and ms = "[]"
        and system = None and tools = "[]" and cap = None and e = 0]
    by (simp add: case_prod_beta)
qed

end
