(* ===== verification/Security_Lexer.thy ===== *)
theory Security_Lexer
  imports Avid_Prelude
begin

section \<open>Cutting a shell command into tokens\<close>

text \<open>
  The lexical half of \<open>avid/security/command_parse.py\<close>: \<open>_lex\<close>, which is the state machine of
  Python's \<open>shlex\<close> in POSIX mode with the punctuation \<open>;&|()<>\<close>, without comments and with
  \<open>whitespace_split\<close>; \<open>_nested_substitutions\<close>; and \<open>_script_blocks\<close>. The \<open>ValueError\<close> of an open
  quotation or a trailing escape is \<open>None\<close>.
\<close>

subsection \<open>The tokens\<close>

definition LF_CHAR :: char where "LF_CHAR = CHR 10"

definition lex_space :: "char \<Rightarrow> bool" where
  "lex_space c \<longleftrightarrow> c \<in> {CHR '' '', CHR 9, CHR 13, LF_CHAR}"

definition lex_punct :: "char \<Rightarrow> bool" where
  "lex_punct c \<longleftrightarrow> c \<in> set '';&|()<>''"

definition SQUOTE :: char where "SQUOTE = CHR 0x27"
definition DQUOTE :: char where "DQUOTE = CHR 0x22"
definition BACKSLASH :: char where "BACKSLASH = CHR 0x5C"
definition BACKTICK :: char where "BACKTICK = CHR 0x60"

lemmas special_chars = LF_CHAR_def SQUOTE_def DQUOTE_def BACKSLASH_def BACKTICK_def

definition lex_quote :: "char \<Rightarrow> bool" where
  "lex_quote c \<longleftrightarrow> c = SQUOTE \<or> c = DQUOTE"

text \<open>
  The states of \<open>read_token\<close>: between tokens, in a word, in a run of punctuation, in a quotation, and
  after a backslash in a word or in a double quotation.
\<close>

datatype lex_state = Blank | InWord | InPunct | InQuote char | EscWord | EscQuote

text \<open>
  \<open>tok\<close> is the token so far, reversed, and \<open>quoted\<close> whether a quotation was part of it: an empty
  token is one only if it was quoted. A character that ends a token without being white space is
  pushed back.
\<close>

definition emit_token :: "bool \<Rightarrow> string \<Rightarrow> string list \<Rightarrow> string list" where
  "emit_token quoted tok ts = (if tok \<noteq> [] \<or> quoted then rev tok # ts else ts)"

function lex_from :: "lex_state \<Rightarrow> bool \<Rightarrow> string \<Rightarrow> string \<Rightarrow> string list option" where
  "lex_from Blank quoted tok [] = Some []"
| "lex_from Blank quoted tok (c # cs) =
     (if lex_space c then lex_from Blank False [] cs
      else if c = BACKSLASH then lex_from EscWord False [] cs
      else if lex_punct c then lex_from InPunct False [c] cs
      else if lex_quote c then lex_from (InQuote c) False [] cs
      else lex_from InWord False [c] cs)"
| "lex_from InWord quoted tok [] = Some (emit_token quoted tok [])"
| "lex_from InWord quoted tok (c # cs) =
     (if lex_space c then map_option (emit_token quoted tok) (lex_from Blank False [] cs)
      else if lex_quote c then lex_from (InQuote c) quoted tok cs
      else if c = BACKSLASH then lex_from EscWord quoted tok cs
      else if lex_punct c then map_option (emit_token quoted tok) (lex_from Blank False [] (c # cs))
      else lex_from InWord quoted (c # tok) cs)"
| "lex_from InPunct quoted tok [] = Some (emit_token quoted tok [])"
| "lex_from InPunct quoted tok (c # cs) =
     (if lex_space c then map_option (emit_token quoted tok) (lex_from Blank False [] cs)
      else if lex_punct c then lex_from InPunct quoted (c # tok) cs
      else map_option (emit_token quoted tok) (lex_from Blank False [] (c # cs)))"
| "lex_from (InQuote q) quoted tok [] = None"
| "lex_from (InQuote q) quoted tok (c # cs) =
     (if c = q then lex_from InWord True tok cs
      else if c = BACKSLASH \<and> q = DQUOTE then lex_from EscQuote True tok cs
      else lex_from (InQuote q) True (c # tok) cs)"
| "lex_from EscWord quoted tok [] = None"
| "lex_from EscWord quoted tok (c # cs) = lex_from InWord quoted (c # tok) cs"
| "lex_from EscQuote quoted tok [] = None"
| "lex_from EscQuote quoted tok (c # cs) =
     lex_from (InQuote DQUOTE) quoted
       (if c \<noteq> BACKSLASH \<and> c \<noteq> DQUOTE then c # BACKSLASH # tok else c # tok) cs"
  by pat_completeness auto
termination
  by (relation "measure (\<lambda>(st, _, _, cs). 2 * length cs + (if st = Blank then 0 else 1))") auto

definition shell_lex :: "string \<Rightarrow> string list option" where
  "shell_lex command = lex_from Blank False [] command"

text \<open>
  The characters of the tokens are characters of the command: taken together the tokens are not
  longer than the text they are cut from.
\<close>

definition text_size :: "string list \<Rightarrow> nat" where
  "text_size ws = sum_list (map length ws)"

lemma text_size_simps [simp]:
  "text_size [] = 0"
  "text_size (w # ws) = length w + text_size ws"
  "text_size (ws @ vs) = text_size ws + text_size vs"
  by (simp_all add: text_size_def)

lemma text_size_emit: "text_size (emit_token q tok ts) = length tok + text_size ts"
  by (simp add: emit_token_def)

lemma lex_from_size:
  assumes "lex_from st quoted tok cs = Some ts" and "st = Blank \<longrightarrow> tok = []"
  shows "text_size ts \<le> length tok + length cs + (if st = EscQuote then 1 else 0)"
  using assms
proof (induction st quoted tok cs arbitrary: ts rule: lex_from.induct)
  case (2 quoted tok c cs)
  then show ?case by (auto split: if_splits)
next
  case (4 quoted tok c cs)
  then show ?case by (auto simp del: lex_from.simps(1,2) simp: text_size_emit split: if_splits)
next
  case (6 quoted tok c cs)
  then show ?case by (auto simp del: lex_from.simps(1,2) simp: text_size_emit split: if_splits)
next
  case (8 q quoted tok c cs)
  then show ?case by (auto split: if_splits)
next
  case (10 quoted tok c cs)
  then show ?case by fastforce
next
  case (12 quoted tok c cs)
  then show ?case by (fastforce split: if_splits)
qed (auto simp: text_size_emit)

lemma shell_lex_size: "shell_lex c = Some ts \<Longrightarrow> text_size ts \<le> length c"
  unfolding shell_lex_def using lex_from_size [of Blank False "[]" c ts] by simp

text \<open>Outside quotations and escapes a line break is like any other white space.\<close>

definition flat_char :: "char \<Rightarrow> char" where
  "flat_char c = (if c = LF_CHAR then CHR '' '' else c)"

definition plain_text :: "string \<Rightarrow> bool" where
  "plain_text s \<longleftrightarrow> SQUOTE \<notin> set s \<and> DQUOTE \<notin> set s \<and> BACKSLASH \<notin> set s"

lemma flat_char_simps [simp]:
  "lex_space (flat_char c) = lex_space c"
  "lex_punct (flat_char c) = lex_punct c"
  "lex_quote (flat_char c) = lex_quote c"
  "flat_char c = BACKSLASH \<longleftrightarrow> c = BACKSLASH"
  by (auto simp: flat_char_def lex_space_def lex_punct_def lex_quote_def special_chars)

lemma flat_char_id: "\<not> lex_space c \<Longrightarrow> flat_char c = c"
  by (auto simp: flat_char_def lex_space_def)

lemma lex_from_flat:
  assumes "plain_text cs" and "st \<in> {Blank, InWord, InPunct}"
  shows "lex_from st quoted tok (map flat_char cs) = lex_from st quoted tok cs"
  using assms
proof (induction st quoted tok cs rule: lex_from.induct)
  case (2 quoted tok c cs)
  then show ?case by (auto simp: plain_text_def lex_quote_def flat_char_id)
next
  case (4 quoted tok c cs)
  then show ?case by (auto simp: plain_text_def lex_quote_def flat_char_id simp del: lex_from.simps(1,2))
next
  case (6 quoted tok c cs)
  then show ?case by (auto simp: plain_text_def flat_char_id simp del: lex_from.simps(1,2))
qed auto

subsection \<open>Command substitutions\<close>

text \<open>\<open>command.find\<close> of a backtick, with the text before and after it.\<close>

fun until_tick :: "string \<Rightarrow> (string \<times> string) option" where
  "until_tick [] = None"
| "until_tick (c # cs) =
     (if c = BACKTICK then Some ([], cs)
      else map_option (map_prod ((#) c) id) (until_tick cs))"

text \<open>The inner loop: up to the parenthesis that closes the depth.\<close>

fun until_close :: "nat \<Rightarrow> string \<Rightarrow> (string \<times> string) option" where
  "until_close depth [] = None"
| "until_close depth (c # cs) =
     (if c = CHR '')'' then
        (if depth \<le> 1 then Some ([], cs)
         else map_option (map_prod ((#) c) id) (until_close (depth - 1) cs))
      else map_option (map_prod ((#) c) id)
             (until_close (if c = CHR ''('' then depth + 1 else depth) cs))"

lemma until_tick_size: "until_tick cs = Some (a, b) \<Longrightarrow> length a + length b < length cs"
  by (induction cs arbitrary: a b) (fastforce split: if_splits)+

lemma until_close_size: "until_close d cs = Some (a, b) \<Longrightarrow> length a + length b < length cs"
  by (induction d cs arbitrary: a b rule: until_close.induct) (fastforce split: if_splits)+

definition opens_substitution :: "string \<Rightarrow> bool" where
  "opens_substitution cs \<longleftrightarrow> take 2 cs \<in> {''$('', ''<('', ''>(''}"

function nested_substitutions :: "string \<Rightarrow> string list \<times> bool" where
  "nested_substitutions [] = ([], False)"
| "nested_substitutions (c # cs) =
     (if c = BACKTICK then
        (case until_tick cs of
           None \<Rightarrow> ([], True)
         | Some (inner, rest) \<Rightarrow> map_prod ((#) inner) id (nested_substitutions rest))
      else if opens_substitution (c # cs) then
        (case until_close 1 (tl cs) of
           None \<Rightarrow> ([], True)
         | Some (inner, rest) \<Rightarrow> map_prod ((#) inner) id (nested_substitutions rest))
      else nested_substitutions cs)"
  by pat_completeness auto
termination
  by (relation "measure length") (auto dest!: until_tick_size until_close_size)

lemma nested_substitutions_size:
  "t \<in> set (fst (nested_substitutions c)) \<Longrightarrow> length t \<le> length c"
proof (induction c rule: nested_substitutions.induct)
  case (2 c cs)
  then show ?case
    by (fastforce dest: until_tick_size until_close_size split: if_splits option.splits prod.splits)
qed simp

subsection \<open>Script blocks\<close>

text \<open>
  The loop of \<open>_script_blocks\<close>. \<open>start\<close> is the text of the block read so far, reversed, or \<open>None\<close>
  outside a block (the program keeps the index where it began and cuts it out at the end); a
  backslash outside quotations and a backtick anywhere hide the character after them.
\<close>

definition keep_raw :: "string \<Rightarrow> string option \<Rightarrow> string option" where
  "keep_raw cs start = map_option (\<lambda>b. rev cs @ b) start"

fun blocks_from :: "nat \<Rightarrow> string option \<Rightarrow> bool \<Rightarrow> bool \<Rightarrow> string \<Rightarrow> string list \<times> bool" where
  "blocks_from depth start in_single in_double [] = ([], depth \<noteq> 0)"
| "blocks_from depth start in_single in_double (c # cs) =
     (if (c = BACKSLASH \<and> \<not> in_single \<and> \<not> in_double) \<or> c = BACKTICK then
        (case cs of
           [] \<Rightarrow> blocks_from depth (keep_raw [c] start) in_single in_double []
         | d # ds \<Rightarrow> blocks_from depth (keep_raw [c, d] start) in_single in_double ds)
      else if c = SQUOTE \<and> \<not> in_double then
        blocks_from depth (keep_raw [c] start) (\<not> in_single) in_double cs
      else if c = DQUOTE \<and> \<not> in_single then
        blocks_from depth (keep_raw [c] start) in_single (\<not> in_double) cs
      else if \<not> in_single \<and> \<not> in_double \<and> c = CHR ''{'' then
        blocks_from (depth + 1) (if depth = 0 then Some [] else keep_raw [c] start) in_single in_double cs
      else if \<not> in_single \<and> \<not> in_double \<and> c = CHR ''}'' then
        (if depth = 0 then
           map_prod id (\<lambda>_. True) (blocks_from depth start in_single in_double cs)
         else if depth = 1 then
           (case start of
              Some b \<Rightarrow> map_prod ((#) (rev b)) id (blocks_from 0 None in_single in_double cs)
            | None \<Rightarrow> blocks_from 0 None in_single in_double cs)
         else blocks_from (depth - 1) (keep_raw [c] start) in_single in_double cs)
      else blocks_from depth (keep_raw [c] start) in_single in_double cs)"

definition script_blocks :: "string \<Rightarrow> string list \<times> bool" where
  "script_blocks command = blocks_from 0 None False False command"

end
