(* ===== verification/Security_Commands.thy ===== *)
theory Security_Commands
  imports Security_Lexer Security_Engine "HOL-Library.Multiset"
begin

section \<open>What a shell command may do\<close>

text \<open>
  The analysis of \<open>avid/security/command_parse.py\<close>: \<open>parse_shell\<close> cuts a command into segments,
  reads off the capabilities each program implies, and descends into script blocks, the text of an
  interpreter call and command substitutions; \<open>is_read_only\<close> decides whether a command may share a
  parallel segment. The segments of an interpreter's text are appended to the list that is being
  walked, so the walk is a worklist: \<open>seg_loop\<close> is a \<open>partial_function\<close>, and that it ends is a
  property. The set of capabilities is a set of the model.
\<close>

subsection \<open>The tables\<close>

definition READ_COMMANDS :: "string list" where
  "READ_COMMANDS =
     [''ls'', ''pwd'', ''cat'', ''rg'', ''grep'', ''git'', ''find'', ''sed'', ''awk'',
      ''base64'', ''head'', ''tail'', ''wc'', ''stat'', ''echo'', ''printf'', ''true'',
      ''false'', ''test'', ''date'', ''whoami'',
      ''gci'', ''gi'', ''sls'', ''gps'', ''gsv'']"

definition NETWORK_COMMANDS :: "string list" where
  "NETWORK_COMMANDS =
     [''curl'', ''wget'', ''ssh'', ''scp'', ''sftp'', ''rsync'', ''nc'', ''ncat'', ''telnet'',
      ''ftp'', ''iwr'', ''irm'', ''socat'']"

definition WRITE_COMMANDS :: "string list" where
  "WRITE_COMMANDS =
     [''rm'', ''rmdir'', ''mv'', ''cp'', ''touch'', ''mkdir'', ''ln'', ''install'', ''chmod'',
      ''chown'', ''chgrp'', ''tee'', ''truncate'', ''dd'', ''del'', ''erase'', ''ri'', ''rd'',
      ''ni'', ''cpi'', ''mi'', ''rni'', ''ac'']"

definition DELETE_PROGRAMS :: "string list" where
  "DELETE_PROGRAMS =
     [''rm'', ''rmdir'', ''del'', ''erase'', ''ri'', ''rd'']"

definition INTERPRETERS :: "string list" where
  "INTERPRETERS =
     [''bash'', ''sh'', ''zsh'', ''powershell'', ''pwsh'']"

definition RUN_PROGRAMS :: "string list" where
  "RUN_PROGRAMS =
     [''invoke-expression'', ''start-process'', ''invoke-command'', ''start-job'',
      ''set-executionpolicy'', ''systemctl'', ''service'', ''crontab'', ''at'', ''docker'',
      ''podman'', ''kubectl'', ''helm'']"

definition CONTROL_PROGRAMS :: "string list" where
  "CONTROL_PROGRAMS =
     [''stop-process'', ''stop-service'', ''set-service'', ''kill'', ''pkill'', ''killall'']"

definition POWERSHELL_READ :: "string list" where
  "POWERSHELL_READ =
     [''get-childitem'', ''get-content'', ''get-item'', ''get-itemproperty'', ''get-location'',
      ''get-process'', ''get-service'', ''get-command'', ''get-member'', ''get-date'',
      ''get-random'', ''select-string'', ''measure-object'', ''test-path'', ''split-path'',
      ''join-path'', ''resolve-path'', ''compare-object'', ''write-output'', ''write-host'',
      ''out-string'', ''format-table'', ''format-list'', ''where-object'', ''foreach-object'',
      ''select-object'', ''sort-object'', ''convertto-json'', ''convertfrom-json'']"

definition POWERSHELL_WRITE :: "string list" where
  "POWERSHELL_WRITE =
     [''set-content'', ''add-content'', ''new-item'', ''copy-item'', ''move-item'',
      ''rename-item'', ''out-file'', ''set-itemproperty'', ''new-itemproperty'', ''export-csv'',
      ''export-clixml'']"

definition POWERSHELL_DELETE :: "string list" where
  "POWERSHELL_DELETE =
     [''remove-item'', ''clear-content'', ''clear-item'']"

definition POWERSHELL_NETWORK :: "string list" where
  "POWERSHELL_NETWORK =
     [''invoke-webrequest'', ''invoke-restmethod'', ''send-mailmessage'']"

definition POWERSHELL_NAV :: "string list" where
  "POWERSHELL_NAV =
     [''set-location'', ''push-location'', ''pop-location'']"

definition READ_ONLY_PROGRAMS :: "string list" where
  "READ_ONLY_PROGRAMS =
     [''ls'', ''pwd'', ''cat'', ''head'', ''tail'', ''wc'', ''stat'', ''file'', ''tree'', ''du'',
      ''df'', ''which'', ''rg'', ''grep'', ''diff'', ''sort'', ''uniq'', ''cut'', ''tr'', ''nl'',
      ''jq'', ''basename'', ''dirname'', ''realpath'', ''readlink'', ''date'', ''whoami'',
      ''id'', ''md5sum'', ''sha1sum'', ''sha256sum'', ''git'']"


definition OTHER_PROGRAMS :: "string list" where
  "OTHER_PROGRAMS =
     [''git'', ''python'', ''python3'', ''node'', ''npm'', ''pnpm'', ''yarn'', ''pip'', ''pip3'',
      ''uv'', ''cargo'', ''go'', ''sudo'', ''su'', ''doas'', ''pkexec'', ''cd'']"

definition KNOWN_PROGRAMS :: "string list" where
  "KNOWN_PROGRAMS =
     READ_COMMANDS @ WRITE_COMMANDS @ NETWORK_COMMANDS @ INTERPRETERS @ RUN_PROGRAMS @
     CONTROL_PROGRAMS @ OTHER_PROGRAMS @ POWERSHELL_READ @ POWERSHELL_WRITE @ POWERSHELL_DELETE @
     POWERSHELL_NETWORK @ POWERSHELL_NAV"

definition SEPARATORS :: "string list" where
  "SEPARATORS = ['';'', ''&&'', ''||'', ''|'', ''&'', ''('', '')'', [LF_CHAR]]"

datatype capability =
    Filesystem_read | Filesystem_write | Filesystem_delete | Network_connect | Network_listen
  | Shell_execute | Process_spawn | Privilege_escalation | External_side_effect | Device_access
  | Secret_access | Credential_access

definition STATE_CAPS :: "capability set" where
  "STATE_CAPS =
     {Filesystem_write, Filesystem_delete, Network_connect, Shell_execute, Privilege_escalation,
      External_side_effect, Device_access, Secret_access, Credential_access}"

definition UNSAFE_FOR_PARALLEL :: "capability set" where
  "UNSAFE_FOR_PARALLEL =
     {Filesystem_write, Filesystem_delete, Network_connect, Network_listen, Shell_execute,
      Privilege_escalation, Device_access, External_side_effect}"

record shell_facts =
  sf_segments :: "string list list"
  sf_capabilities :: "capability set"
  sf_programs :: "string list"
  sf_uncertain :: bool
  sf_unknown_program :: bool

definition opaque_facts :: shell_facts where
  "opaque_facts =
     \<lparr>sf_segments = [], sf_capabilities = {Shell_execute}, sf_programs = [], sf_uncertain = True,
      sf_unknown_program = False\<rparr>"

subsection \<open>Patterns\<close>

definition in_range :: "nat \<Rightarrow> nat \<Rightarrow> char \<Rightarrow> bool" where
  "in_range lo hi c \<longleftrightarrow> lo \<le> (of_char c :: nat) \<and> (of_char c :: nat) \<le> hi"

definition ident_start :: "char \<Rightarrow> bool" where
  "ident_start c \<longleftrightarrow> in_range 65 90 c \<or> in_range 97 122 c \<or> c = CHR ''_''"

definition ident_char :: "char \<Rightarrow> bool" where
  "ident_char c \<longleftrightarrow> ident_start c \<or> in_range 48 57 c"

text \<open>The pattern \<open>_ASSIGNMENT\<close>.\<close>

definition is_assignment :: "string \<Rightarrow> bool" where
  "is_assignment w =
     (case w of
        [] \<Rightarrow> False
      | c # cs \<Rightarrow> ident_start c \<and> take 1 (dropWhile ident_char cs) = ''='')"

text \<open>\<open>(?:\..*)?$\<close>: the end, or a dot and a tail on one line; a final line break does not count.\<close>

definition env_tail :: "string \<Rightarrow> bool" where
  "env_tail r =
     (r = [] \<or> r = [LF_CHAR] \<or>
      (case r of
         [] \<Rightarrow> False
       | c # t \<Rightarrow> c = CHR ''.'' \<and> dropWhile (\<lambda>x. x \<noteq> LF_CHAR) t \<in> {[], [LF_CHAR]}))"

text \<open>
  The pattern of a secret file name: at the start of the word or after a separator, any one character
  (the dot of the pattern is not escaped), \<open>env\<close>, and the tail.
\<close>

definition env_here :: "string \<Rightarrow> bool" where
  "env_here s =
     (case s of
        [] \<Rightarrow> False
      | c # cs \<Rightarrow> c \<noteq> LF_CHAR \<and> has_prefix ''env'' cs \<and> env_tail (drop 3 cs))"

fun env_search :: "bool \<Rightarrow> string \<Rightarrow> bool" where
  "env_search at_start [] = False"
| "env_search at_start (c # cs) =
     ((at_start \<and> env_here (c # cs)) \<or> env_search (c = CHR ''/'' \<or> c = BACKSLASH) cs)"

definition names_secret :: "string \<Rightarrow> bool" where "names_secret w = env_search True w"

definition names_credential :: "string \<Rightarrow> bool" where
  "names_credential w =
     (\<exists>p\<in>set [''/.ssh/'', ''/.aws/'', ''/.config/'', ''id_rsa'', ''credentials'']. has_part p w)"

definition device_here :: "string \<Rightarrow> bool" where
  "device_here s \<longleftrightarrow>
     has_prefix ''/dev/'' s \<and>
     (\<exists>p\<in>set [''sd'', ''hd'', ''vd'', ''nvme'', ''mmcblk'']. has_prefix p (drop 5 s))"

fun device_search :: "bool \<Rightarrow> string \<Rightarrow> bool" where
  "device_search at_start [] = False"
| "device_search at_start (c # cs) =
     ((at_start \<and> device_here (c # cs)) \<or> device_search (c = CHR ''='' \<or> c = CHR ''/'') cs)"

definition names_device :: "string \<Rightarrow> bool" where "names_device w = device_search True w"

text \<open>\<open>\b\<close> is a change between word characters and others, here those of Latin-1.\<close>

definition word_char :: "char \<Rightarrow> bool" where
  "word_char c \<longleftrightarrow>
     ident_char c \<or> c \<in> {CHR 170, CHR 178, CHR 179, CHR 181, CHR 185, CHR 186} \<or> in_range 188 190 c \<or>
     in_range 192 214 c \<or> in_range 216 246 c \<or> in_range 248 255 c"

fun whole_word :: "string \<Rightarrow> bool \<Rightarrow> string \<Rightarrow> bool" where
  "whole_word p prev [] = False"
| "whole_word p prev (c # cs) =
     ((\<not> prev \<and> has_prefix p (c # cs) \<and>
         (case drop (length p) (c # cs) of [] \<Rightarrow> True | d # _ \<Rightarrow> \<not> word_char d)) \<or>
      whole_word p (word_char c) cs)"

subsection \<open>From a segment to its program\<close>

function drop_wrappers :: "string list \<Rightarrow> string list" where
  "drop_wrappers [] = []"
| "drop_wrappers (w # ws) =
     (if w \<in> {''env'', ''command'', ''nohup'', ''time'', ''nice''}
      then drop_wrappers (dropWhile is_assignment ws) else w # ws)"
  by pat_completeness auto
termination
  by (relation "measure length") (auto intro: le_less_trans [OF length_dropWhile_le])

definition is_option :: "string \<Rightarrow> bool" where "is_option w = has_prefix ''-'' w"

definition drop_sudo :: "string list \<Rightarrow> bool \<times> string list" where
  "drop_sudo words =
     (case words of
        [] \<Rightarrow> (False, [])
      | w # ws \<Rightarrow>
          (if w \<in> {''sudo'', ''doas'', ''pkexec''} then (True, dropWhile is_option ws) else (False, words)))"

definition drop_timeout :: "string list \<Rightarrow> string list" where
  "drop_timeout words =
     (case words of
        [] \<Rightarrow> []
      | w # ws \<Rightarrow> (if w = ''timeout'' then drop 1 (dropWhile is_option ws) else words))"

definition strip_words :: "string list \<Rightarrow> bool \<times> string list" where
  "strip_words segment =
     map_prod id drop_timeout (drop_sudo (drop_wrappers (dropWhile is_assignment segment)))"

definition last_part :: "char \<Rightarrow> string \<Rightarrow> string" where
  "last_part sep w = rev (takeWhile (\<lambda>c. c \<noteq> sep) (rev w))"

definition program_of :: "string \<Rightarrow> string" where
  "program_of w = map lower_char (last_part BACKSLASH (last_part (CHR ''/'') w))"

subsection \<open>Capabilities of one program call\<close>

definition given :: "bool \<Rightarrow> capability set \<Rightarrow> capability set" where
  "given b caps = (if b then caps else {})"

definition mentions :: "string list \<Rightarrow> string list \<Rightarrow> bool" where
  "mentions table args \<longleftrightarrow> (\<exists>a\<in>set args. a \<in> set table)"

definition REDIRECTIONS :: "string list" where
  "REDIRECTIONS = [''>'', ''>>'', ''>&'', ''<>'']"

text \<open>What the words say, whatever the program is.\<close>

definition word_caps :: "string list \<Rightarrow> capability set" where
  "word_caps words =
     {Process_spawn} \<union>
     given (list_ex names_secret words) {Secret_access} \<union>
     given (list_ex names_credential words) {Credential_access} \<union>
     given (list_ex names_device words) {Device_access} \<union>
     given (mentions REDIRECTIONS words) {Filesystem_write}"

text \<open>What the program's table and its arguments say.\<close>

definition table_caps :: "string \<Rightarrow> capability set" where
  "table_caps program =
     given (program \<in> set READ_COMMANDS) {Filesystem_read} \<union>
     given (program \<in> set POWERSHELL_READ) {Filesystem_read} \<union>
     given (program \<in> set POWERSHELL_WRITE) {Filesystem_write} \<union>
     given (program \<in> set POWERSHELL_DELETE) {Filesystem_delete} \<union>
     given (program \<in> set POWERSHELL_NETWORK) {Network_connect} \<union>
     given (program \<in> set WRITE_COMMANDS) {Filesystem_write} \<union>
     given (program \<in> set DELETE_PROGRAMS) {Filesystem_delete} \<union>
     given (program \<in> set NETWORK_COMMANDS) {Network_connect} \<union>
     given (program \<in> {''sudo'', ''su'', ''doas'', ''pkexec''}) {Privilege_escalation} \<union>
     given (program \<in> set RUN_PROGRAMS) {Shell_execute} \<union>
     given (program \<in> set CONTROL_PROGRAMS) {External_side_effect}"

definition option_caps :: "string \<Rightarrow> string list \<Rightarrow> string list \<Rightarrow> capability set" where
  "option_caps program args words =
     given (program \<in> {''nc'', ''ncat'', ''socat''} \<and> mentions [''-l'', ''--listen'', ''-lp''] args)
       {Network_listen} \<union>
     given (program = ''find'' \<and> mentions [''-delete''] args) {Filesystem_delete} \<union>
     given (program = ''sed'' \<and> list_ex (has_prefix ''-i'') args) {Filesystem_write} \<union>
     given (program = ''find'' \<and> mentions [''-exec'', ''-execdir'', ''-ok''] args) {Shell_execute} \<union>
     given (program = ''base64'' \<and> mentions [''-o'', ''--output''] args) {Filesystem_write} \<union>
     given (program \<in> {''npm'', ''pnpm'', ''yarn'', ''pip'', ''pip3'', ''uv'', ''cargo'', ''go''} \<and>
            mentions [''install'', ''add'', ''publish'', ''update'', ''get''] args)
       {Network_connect, Filesystem_write} \<union>
     given (program \<in> {''python'', ''python3'', ''node''} \<and> mentions [''-c'', ''-e'', ''--eval''] args)
       {Shell_execute} \<union>
     given (program \<in> {''awk'', ''gawk'', ''perl''} \<and>
            (whole_word ''system'' False (join_with '' '' words) \<or>
             whole_word ''getline'' False (join_with '' '' words)))
       {Shell_execute}"

fun git_rest :: "string list \<Rightarrow> string list" where
  "git_rest [] = []"
| "git_rest [a] = (if a \<in> {''-C'', ''--git-dir'', ''--work-tree''} then [] else [a])"
| "git_rest (a # b # rest) =
     (if a \<in> {''-C'', ''--git-dir'', ''--work-tree''} then git_rest rest else a # b # rest)"

definition git_verb :: "string list \<Rightarrow> string" where
  "git_verb args = (case git_rest args of [] \<Rightarrow> '''' | verb # _ \<Rightarrow> verb)"

definition GIT_VERBS :: "string list" where
  "GIT_VERBS =
     [''status'', ''diff'', ''log'', ''show'', ''rev-parse'', ''ls-files'', ''fetch'', ''pull'', ''push'',
      ''clone'', ''ls-remote'', ''add'', ''commit'', ''reset'', ''clean'', ''restore'', ''checkout'']"

definition git_caps :: "string \<Rightarrow> string list \<Rightarrow> capability set" where
  "git_caps program args =
     (if program \<noteq> ''git'' then {}
      else
        given (git_verb args \<in> {''fetch'', ''pull'', ''push'', ''clone'', ''ls-remote''}) {Network_connect} \<union>
        given (git_verb args \<in> {''push'', ''commit'', ''reset'', ''clean'', ''restore'', ''checkout''})
          {External_side_effect} \<union>
        given (git_verb args \<in> {''add'', ''commit'', ''reset'', ''clean'', ''restore'', ''checkout''})
          {Filesystem_write} \<union>
        given (git_verb args = ''clean'') {Filesystem_delete})"

definition git_uncertain :: "string \<Rightarrow> string list \<Rightarrow> bool" where
  "git_uncertain program args \<longleftrightarrow> program = ''git'' \<and> git_verb args \<notin> set GIT_VERBS"

text \<open>The text an interpreter call runs: none, one that cannot be seen, or a text.\<close>

datatype interpreter_text = NoText | OpaqueText | ChildText string

definition is_command_flag :: "string \<Rightarrow> bool" where
  "is_command_flag arg \<longleftrightarrow>
     (has_prefix ''-'' arg \<and> CHR ''c'' \<in> set (drop 1 arg)) \<or>
     map lower_char arg \<in> {''-command'', ''-encodedcommand''}"

definition interpreter_call :: "string \<Rightarrow> string list \<Rightarrow> interpreter_text" where
  "interpreter_call program args =
     (if program \<notin> set INTERPRETERS then NoText
      else case dropWhile (\<lambda>a. \<not> is_command_flag a) args of
        [] \<Rightarrow> NoText
      | [flag] \<Rightarrow> OpaqueText
      | flag # text # _ \<Rightarrow>
          (if map lower_char flag = ''-encodedcommand'' then OpaqueText else ChildText text))"

subsection \<open>The walk over the segments\<close>

definition add_caps :: "capability set \<Rightarrow> shell_facts \<Rightarrow> shell_facts" where
  "add_caps caps f = f\<lparr>sf_capabilities := sf_capabilities f \<union> caps\<rparr>"

definition add_program :: "string \<Rightarrow> shell_facts \<Rightarrow> shell_facts" where
  "add_program program f = f\<lparr>sf_programs := sf_programs f @ [program]\<rparr>"

definition add_uncertain :: "bool \<Rightarrow> shell_facts \<Rightarrow> shell_facts" where
  "add_uncertain b f = f\<lparr>sf_uncertain := (sf_uncertain f \<or> b)\<rparr>"

text \<open>Adopting the facts of a child text: its segments, capabilities and uncertainty.\<close>

definition adopt_child :: "shell_facts \<Rightarrow> shell_facts \<Rightarrow> shell_facts" where
  "adopt_child child f =
     f\<lparr>sf_segments := sf_segments f @ sf_segments child,
       sf_capabilities := sf_capabilities f \<union> sf_capabilities child,
       sf_uncertain := (sf_uncertain f \<or> sf_uncertain child)\<rparr>"

text \<open>The end of a round: an unknown program, and a \<open>$\<close> in a command that changes state.\<close>

definition judge_words :: "string \<Rightarrow> string list \<Rightarrow> shell_facts \<Rightarrow> shell_facts" where
  "judge_words program words f =
     (let f1 = (if program \<in> set KNOWN_PROGRAMS then f
                else f\<lparr>sf_uncertain := True,
                       sf_unknown_program := (sf_unknown_program f \<or> \<not> has_prefix ''$_'' program)\<rparr>)
      in add_uncertain
           (sf_capabilities f1 \<inter> STATE_CAPS \<noteq> {} \<and> (\<exists>w\<in>set words. CHR ''$'' \<in> set w)) f1)"

definition call_caps :: "string \<Rightarrow> string list \<Rightarrow> capability set" where
  "call_caps program words =
     word_caps words \<union> table_caps program \<union> option_caps program (tl words) words \<union>
     git_caps program (tl words)"

definition seg_step ::
  "(string \<Rightarrow> shell_facts option) \<Rightarrow> string list \<Rightarrow> shell_facts \<Rightarrow>
   (shell_facts \<times> string list list) option" where
  "seg_step child segment f =
     (let (privilege, words) = strip_words segment;
          f1 = add_caps (given privilege {Privilege_escalation}) f
      in case words of
           [] \<Rightarrow> Some (f1, [])
         | w # args \<Rightarrow>
             (let program = program_of w;
                  f2 = add_uncertain (git_uncertain program args)
                         (add_caps (call_caps program words) (add_program program f1))
              in case interpreter_call program args of
                   NoText \<Rightarrow> Some (judge_words program words f2, [])
                 | OpaqueText \<Rightarrow>
                     Some (judge_words program words
                             (add_uncertain True (add_caps {Shell_execute} f2)), [])
                 | ChildText text \<Rightarrow>
                     map_option
                       (\<lambda>c. (judge_words program words (adopt_child c (add_caps {Shell_execute} f2)),
                             sf_segments c))
                       (child text)))"

partial_function (option) seg_loop ::
  "(string \<Rightarrow> shell_facts option) \<Rightarrow> string list list \<Rightarrow> shell_facts \<Rightarrow> shell_facts option" where
  "seg_loop child pending f =
     (case pending of
        [] \<Rightarrow> Some f
      | segment # rest \<Rightarrow>
          Option.bind (seg_step child segment f)
            (\<lambda>(f', extra). seg_loop child (rest @ extra) f'))"

declare seg_loop.simps [code]

subsection \<open>The whole command\<close>

fun split_segments :: "string list \<Rightarrow> string list \<Rightarrow> string list list" where
  "split_segments current [] = (if current = [] then [] else [current])"
| "split_segments current (t # ts) =
     (if t \<in> set SEPARATORS
      then (if current = [] then split_segments [] ts else current # split_segments [] ts)
      else split_segments (current @ [t]) ts)"

fun scan_blocks ::
  "(string \<Rightarrow> shell_facts option) \<Rightarrow> string list \<Rightarrow> shell_facts \<Rightarrow> shell_facts option" where
  "scan_blocks child [] f = Some f"
| "scan_blocks child (block # blocks) f =
     Option.bind (child block)
       (\<lambda>inner. scan_blocks child blocks
          (add_uncertain (sf_unknown_program inner)
             (add_caps (sf_capabilities inner \<inter> STATE_CAPS) f)))"

fun scan_nested ::
  "(string \<Rightarrow> shell_facts option) \<Rightarrow> string list \<Rightarrow> shell_facts \<Rightarrow> shell_facts option" where
  "scan_nested child [] f = Some f"
| "scan_nested child (text # texts) f =
     Option.bind (child text)
       (\<lambda>c. scan_nested child texts (add_caps {Shell_execute} (adopt_child c f)))"

definition parse_tokens ::
  "(string \<Rightarrow> shell_facts option) \<Rightarrow> string \<Rightarrow> string list \<Rightarrow> shell_facts option" where
  "parse_tokens child command tokens =
     (let segments = split_segments [] tokens;
          (blocks, brace_uncertain) = script_blocks command;
          (nested, incomplete) = nested_substitutions command
      in Option.bind
           (scan_blocks child blocks
              \<lparr>sf_segments = segments, sf_capabilities = {}, sf_programs = [],
               sf_uncertain = brace_uncertain, sf_unknown_program = False\<rparr>)
           (\<lambda>f1. Option.bind (seg_loop child segments f1)
              (\<lambda>f2. scan_nested child nested (add_uncertain incomplete f2))))"

text \<open>
  \<open>parse_shell\<close> by the levels that are left: \<open>depth\<close> is 7 minus the level, so that the test
  \<open>depth > 6\<close> is level 0.
\<close>

fun parse_level :: "nat \<Rightarrow> string \<Rightarrow> shell_facts option" where
  "parse_level 0 command = Some opaque_facts"
| "parse_level (Suc n) command =
     (case shell_lex command of
        None \<Rightarrow> Some opaque_facts
      | Some tokens \<Rightarrow> parse_tokens (parse_level n) command tokens)"

definition parse_shell :: "string \<Rightarrow> shell_facts option" where
  "parse_shell command = parse_level 7 command"

definition is_read_only :: "pyval \<Rightarrow> bool option" where
  "is_read_only command =
     (case command of
        PStr s \<Rightarrow>
          (if py_strip s = [] then Some False
           else map_option
             (\<lambda>f. \<not> sf_uncertain f \<and> sf_programs f \<noteq> [] \<and>
                  sf_capabilities f \<inter> UNSAFE_FOR_PARALLEL = {} \<and>
                  (\<forall>p\<in>set (sf_programs f). p \<in> set READ_ONLY_PROGRAMS))
             (parse_shell s))
      | _ \<Rightarrow> Some False)"

subsection \<open>The walk ends\<close>

lemma text_size_dropWhile: "text_size (dropWhile P ws) \<le> text_size ws"
  by (induction ws) auto

lemma text_size_drop_wrappers: "text_size (drop_wrappers ws) \<le> text_size ws"
proof (induction ws rule: drop_wrappers.induct)
  case (2 w ws)
  then show ?case
    using text_size_dropWhile [of is_assignment ws] by (auto split: if_splits)
qed simp

lemma text_size_drop_one: "text_size (drop 1 ws) \<le> text_size ws"
  by (cases ws) auto

lemma text_size_strip: "text_size (snd (strip_words segment)) \<le> text_size segment"
proof -
  have t: "text_size (drop_timeout ws) \<le> text_size ws" for ws
  proof (cases ws)
    case (Cons w us)
    have "text_size (drop 1 (dropWhile is_option us)) \<le> text_size us"
      using text_size_drop_one text_size_dropWhile le_trans by blast
    then show ?thesis by (simp add: drop_timeout_def Cons)
  qed (simp add: drop_timeout_def)
  have s: "text_size (snd (drop_sudo ws)) \<le> text_size ws" for ws
    using text_size_dropWhile [of is_option "tl ws"] by (cases ws) (auto simp: drop_sudo_def)
  show ?thesis
    using t [of "snd (drop_sudo (drop_wrappers (dropWhile is_assignment segment)))"]
      s [of "drop_wrappers (dropWhile is_assignment segment)"]
      text_size_drop_wrappers [of "dropWhile is_assignment segment"]
      text_size_dropWhile [of is_assignment segment]
    by (simp add: strip_words_def)
qed

lemma text_size_member: "w \<in> set ws \<Longrightarrow> length w \<le> text_size ws"
  by (induction ws) auto

lemma child_text_smaller:
  assumes "strip_words segment = (privilege, w # args)"
    and "interpreter_call (program_of w) args = ChildText text"
  shows "length text < text_size segment"
proof -
  have "program_of w \<in> set INTERPRETERS"
    using assms(2) by (auto simp: interpreter_call_def split: if_splits)
  then have "w \<noteq> []" by (auto simp: INTERPRETERS_def program_of_def last_part_def)
  have "text \<in> set args"
  proof -
    obtain flag rest where d: "dropWhile (\<lambda>a. \<not> is_command_flag a) args = flag # text # rest"
      using assms(2) by (auto simp: interpreter_call_def split: if_splits list.splits)
    then show ?thesis using set_dropWhileD [of "text" "\<lambda>a. \<not> is_command_flag a" args] by simp
  qed
  then have "length text \<le> text_size args" by (rule text_size_member)
  moreover have "1 \<le> length w" using \<open>w \<noteq> []\<close> by (cases w) simp_all
  ultimately show ?thesis using text_size_strip [of segment] assms(1) by simp
qed

definition good_facts :: "string \<Rightarrow> shell_facts \<Rightarrow> bool" where
  "good_facts text f \<longleftrightarrow> (\<forall>s\<in>set (sf_segments f). text_size s \<le> length text)"

definition good_child :: "(string \<Rightarrow> shell_facts option) \<Rightarrow> bool" where
  "good_child child \<longleftrightarrow> (\<forall>text. \<exists>f. child text = Some f \<and> good_facts text f)"

lemma adopt_fields [simp]:
  "sf_segments (adopt_child c f) = sf_segments f @ sf_segments c"
  "sf_segments (add_caps caps f) = sf_segments f"
  "sf_segments (add_program p f) = sf_segments f"
  "sf_segments (add_uncertain b f) = sf_segments f"
  "sf_segments (judge_words p ws f) = sf_segments f"
  by (simp_all add: adopt_child_def add_caps_def add_program_def add_uncertain_def judge_words_def Let_def)

text \<open>A step returns, and what it appends to the work is smaller than what it has done.\<close>

lemma seg_step_returns:
  assumes "good_child child"
  shows "\<exists>f' extra. seg_step child segment f = Some (f', extra) \<and>
    sf_segments f' = sf_segments f @ extra \<and> (\<forall>s\<in>set extra. text_size s < text_size segment)"
proof (cases "strip_words segment")
  case (Pair privilege words)
  show ?thesis
  proof (cases words)
    case Nil
    then show ?thesis using Pair by (simp add: seg_step_def)
  next
    case (Cons w args)
    show ?thesis
    proof (cases "interpreter_call (program_of w) args")
      case (ChildText u)
      obtain c where c: "child u = Some c" "good_facts u c"
        using assms by (auto simp: good_child_def)
      have "length u < text_size segment"
        using child_text_smaller [OF _ ChildText] Pair Cons by simp
      then have "\<forall>s\<in>set (sf_segments c). text_size s < text_size segment"
        using c(2) by (auto simp: good_facts_def)
      then show ?thesis using Pair Cons ChildText c by (simp add: seg_step_def Let_def)
    qed (use Pair Cons in \<open>simp_all add: seg_step_def Let_def\<close>)
  qed
qed

definition work_order :: "(string list list \<times> string list list) set" where
  "work_order = inv_image (mult less_than) (\<lambda>pending. mset (map text_size pending))"

lemma wf_work_order: "wf work_order"
  by (simp add: work_order_def wf_mult)

lemma work_smaller:
  assumes "\<forall>s\<in>set extra. text_size s < text_size segment"
  shows "(rest @ extra, segment # rest) \<in> work_order"
proof -
  have "(mset (map text_size rest) + mset (map text_size extra),
         mset (map text_size rest) + {#text_size segment#}) \<in> mult less_than"
    by (rule one_step_implies_mult) (use assms in auto)
  then show ?thesis by (simp add: work_order_def)
qed

lemma seg_loop_returns:
  assumes "good_child child" and "\<forall>s\<in>set pending. text_size s \<le> n"
    and "\<forall>s\<in>set (sf_segments f). text_size s \<le> n"
  shows "\<exists>r. seg_loop child pending f = Some r \<and> (\<forall>s\<in>set (sf_segments r). text_size s \<le> n)"
  using assms(2,3)
proof (induction pending arbitrary: f rule: wf_induct_rule [OF wf_work_order])
  case (1 pending)
  show ?case
  proof (cases pending)
    case Nil
    then show ?thesis using 1 by (simp add: seg_loop.simps)
  next
    case (Cons segment rest)
    obtain f' extra where s: "seg_step child segment f = Some (f', extra)"
        "sf_segments f' = sf_segments f @ extra" "\<forall>s\<in>set extra. text_size s < text_size segment"
      using seg_step_returns [OF assms(1)] by blast
    have small: "\<forall>s\<in>set extra. text_size s \<le> n"
      using s(3) 1(2) Cons by (meson less_le_trans less_imp_le list.set_intros(1))
    have "\<exists>r. seg_loop child (rest @ extra) f' = Some r \<and> (\<forall>s\<in>set (sf_segments r). text_size s \<le> n)"
    proof (rule 1(1))
      show "(rest @ extra, pending) \<in> work_order" unfolding Cons by (rule work_smaller [OF s(3)])
    qed (use small 1(2,3) Cons s(2) in auto)
    then show ?thesis using Cons s(1) by (simp add: seg_loop.simps [of child "segment # rest"])
  qed
qed

lemma scan_blocks_returns:
  assumes "good_child child"
  shows "\<exists>r. scan_blocks child blocks f = Some r \<and> sf_segments r = sf_segments f"
proof (induction blocks arbitrary: f)
  case (Cons b blocks)
  obtain c where "child b = Some c" using assms by (auto simp: good_child_def)
  then show ?case
    using Cons.IH [of "add_uncertain (sf_unknown_program c) (add_caps (sf_capabilities c \<inter> STATE_CAPS) f)"]
    by simp
qed simp

lemma scan_nested_returns:
  assumes "good_child child" and "\<forall>t\<in>set texts. length t \<le> n"
    and "\<forall>s\<in>set (sf_segments f). text_size s \<le> n"
  shows "\<exists>r. scan_nested child texts f = Some r \<and> (\<forall>s\<in>set (sf_segments r). text_size s \<le> n)"
  using assms(2,3)
proof (induction texts arbitrary: f)
  case (Cons t texts)
  obtain c where c: "child t = Some c" "good_facts t c" using assms(1) by (auto simp: good_child_def)
  have "\<forall>s\<in>set (sf_segments (add_caps {Shell_execute} (adopt_child c f))). text_size s \<le> n"
    using Cons.prems c(2) by (auto simp: good_facts_def)
  then show ?case using Cons.IH Cons.prems(1) c(1) by simp
qed simp

lemma split_segments_size:
  "s \<in> set (split_segments current ts) \<Longrightarrow> text_size s \<le> text_size current + text_size ts"
  by (induction current ts rule: split_segments.induct) (fastforce split: if_splits)+

lemma parse_level_good: "good_child (parse_level n)"
proof (induction n)
  case 0
  then show ?case by (simp add: good_child_def good_facts_def opaque_facts_def)
next
  case (Suc n)
  show ?case unfolding good_child_def
  proof (intro allI)
    fix command
    show "\<exists>f. parse_level (Suc n) command = Some f \<and> good_facts command f"
    proof (cases "shell_lex command")
      case None
      then show ?thesis by (simp add: good_facts_def opaque_facts_def)
    next
      case (Some tokens)
      let ?segs = "split_segments [] tokens" and ?m = "length command"
      let ?f0 = "\<lparr>sf_segments = ?segs, sf_capabilities = {}, sf_programs = [],
        sf_uncertain = snd (script_blocks command), sf_unknown_program = False\<rparr>"
      have segs: "\<forall>s\<in>set ?segs. text_size s \<le> ?m"
        using split_segments_size [of _ "[]" tokens] shell_lex_size [OF Some] by fastforce
      obtain f1 where f1: "scan_blocks (parse_level n) (fst (script_blocks command)) ?f0 = Some f1"
          "sf_segments f1 = ?segs"
        using scan_blocks_returns [OF Suc] by fastforce
      obtain f2 where f2: "seg_loop (parse_level n) ?segs f1 = Some f2"
          "\<forall>s\<in>set (sf_segments f2). text_size s \<le> ?m"
        using seg_loop_returns [OF Suc segs] f1(2) segs by metis
      obtain f3 where f3: "scan_nested (parse_level n) (fst (nested_substitutions command))
            (add_uncertain (snd (nested_substitutions command)) f2) = Some f3"
          "\<forall>s\<in>set (sf_segments f3). text_size s \<le> ?m"
        using scan_nested_returns [OF Suc, of "fst (nested_substitutions command)" ?m
            "add_uncertain (snd (nested_substitutions command)) f2"]
          nested_substitutions_size f2(2) by auto
      show ?thesis
        using Some f1 f2 f3
        by (simp add: parse_tokens_def Let_def case_prod_beta good_facts_def)
    qed
  qed
qed

subsection \<open>What the facts of a command say\<close>

text \<open>Facts only grow, and a segment that was walked over has left its marks.\<close>

definition facts_le :: "shell_facts \<Rightarrow> shell_facts \<Rightarrow> bool" where
  "facts_le f g \<longleftrightarrow>
     sf_capabilities f \<subseteq> sf_capabilities g \<and> set (sf_programs f) \<subseteq> set (sf_programs g) \<and>
     (sf_uncertain f \<longrightarrow> sf_uncertain g)"

lemma facts_le_refl [simp]: "facts_le f f"
  by (simp add: facts_le_def)

lemma facts_le_trans: "facts_le f g \<Longrightarrow> facts_le g h \<Longrightarrow> facts_le f h"
  by (auto simp: facts_le_def)

lemma facts_le_ops [simp]:
  "facts_le f (add_caps caps f)" "facts_le f (add_program p f)" "facts_le f (add_uncertain b f)"
  "facts_le f (adopt_child c f)" "facts_le f (judge_words p ws f)"
  by (auto simp: facts_le_def add_caps_def add_program_def add_uncertain_def adopt_child_def
      judge_words_def Let_def)

lemma facts_le_steps:
  "facts_le f g \<Longrightarrow> facts_le f (add_caps caps g)" "facts_le f g \<Longrightarrow> facts_le f (add_program p g)"
  "facts_le f g \<Longrightarrow> facts_le f (add_uncertain b g)" "facts_le f g \<Longrightarrow> facts_le f (adopt_child c g)"
  "facts_le f g \<Longrightarrow> facts_le f (judge_words p ws g)"
  using facts_le_ops facts_le_trans by blast+

definition seg_seen :: "string list \<Rightarrow> shell_facts \<Rightarrow> bool" where
  "seg_seen segment f \<longleftrightarrow>
     (fst (strip_words segment) \<longrightarrow> Privilege_escalation \<in> sf_capabilities f) \<and>
     (case snd (strip_words segment) of
        [] \<Rightarrow> True
      | w # args \<Rightarrow>
          program_of w \<in> set (sf_programs f) \<and> call_caps (program_of w) (w # args) \<subseteq> sf_capabilities f)"

lemma seg_seen_mono: "seg_seen segment f \<Longrightarrow> facts_le f g \<Longrightarrow> seg_seen segment g"
  by (auto simp: seg_seen_def facts_le_def split: list.splits)

lemma seg_step_seen:
  assumes "seg_step child segment f = Some (f', extra)"
  shows "facts_le f f' \<and> seg_seen segment f'"
proof (cases "strip_words segment")
  case (Pair privilege words)
  let ?f1 = "add_caps (given privilege {Privilege_escalation}) f"
  show ?thesis
  proof (cases words)
    case Nil
    then show ?thesis
      using Pair assms by (auto simp: seg_step_def seg_seen_def given_def add_caps_def facts_le_def)
  next
    case (Cons w args)
    let ?f2 = "add_uncertain (git_uncertain (program_of w) args)
      (add_caps (call_caps (program_of w) words) (add_program (program_of w) ?f1))"
    have "facts_le ?f2 f'"
      using assms Pair Cons
      by (cases "interpreter_call (program_of w) args")
         (auto simp: seg_step_def Let_def facts_le_steps)
    moreover have "facts_le f ?f2"
      by (intro facts_le_steps facts_le_refl)
    moreover have "seg_seen segment ?f2"
      using Pair Cons
      by (auto simp: seg_seen_def given_def add_caps_def add_uncertain_def add_program_def)
    ultimately show ?thesis by (blast intro: facts_le_trans seg_seen_mono)
  qed
qed

lemma seg_loop_seen:
  assumes "seg_loop child pending f = Some r"
  shows "facts_le f r \<and> (\<forall>segment\<in>set pending. seg_seen segment r)"
proof (rule seg_loop.raw_induct [OF _ assms])
  fix walk child pending f r
  assume ih: "\<And>child pending f r. walk child pending f = Some r \<Longrightarrow>
      facts_le f r \<and> (\<forall>segment\<in>set pending. seg_seen segment r)"
    and round: "(case pending of [] \<Rightarrow> Some f
      | segment # rest \<Rightarrow> Option.bind (seg_step child segment f)
          (\<lambda>(f', extra). walk child (rest @ extra) f')) = Some r"
  show "facts_le f r \<and> (\<forall>segment\<in>set pending. seg_seen segment r)"
  proof (cases pending)
    case Nil
    then show ?thesis using round by simp
  next
    case (Cons segment rest)
    obtain f' extra where s: "seg_step child segment f = Some (f', extra)"
        "walk child (rest @ extra) f' = Some r"
      using round Cons by (auto simp: bind_eq_Some_conv)
    have st: "facts_le f f'" "seg_seen segment f'" using seg_step_seen [OF s(1)] by blast+
    show ?thesis
      using ih [OF s(2)] st facts_le_trans [OF st(1)] seg_seen_mono [OF st(2)]
      by (auto simp: Cons)
  qed
qed

lemma scan_nested_le:
  "scan_nested child texts f = Some r \<Longrightarrow>
   facts_le f r \<and> (texts \<noteq> [] \<longrightarrow> Shell_execute \<in> sf_capabilities r)"
proof (induction texts arbitrary: f)
  case (Cons t texts)
  then obtain c where c: "scan_nested child texts (add_caps {Shell_execute} (adopt_child c f)) = Some r"
    by (auto simp: bind_eq_Some_conv)
  have "facts_le f (add_caps {Shell_execute} (adopt_child c f))"
    by (rule facts_le_trans [OF facts_le_ops(4) facts_le_ops(1)])
  moreover have "Shell_execute \<in> sf_capabilities (add_caps {Shell_execute} (adopt_child c f))"
    by (simp add: add_caps_def)
  ultimately show ?case using Cons.IH [OF c] by (auto simp: facts_le_def)
qed simp

lemma parse_tokens_seen:
  assumes "parse_tokens child command tokens = Some f"
  shows "(\<forall>segment\<in>set (split_segments [] tokens). seg_seen segment f) \<and>
    (fst (nested_substitutions command) \<noteq> [] \<longrightarrow> Shell_execute \<in> sf_capabilities f) \<and>
    (snd (nested_substitutions command) \<longrightarrow> sf_uncertain f)"
proof -
  obtain f1 f2 where l: "seg_loop child (split_segments [] tokens) f1 = Some f2"
      and n: "scan_nested child (fst (nested_substitutions command))
            (add_uncertain (snd (nested_substitutions command)) f2) = Some f"
    using assms by (auto simp: parse_tokens_def Let_def case_prod_beta bind_eq_Some_conv)
  have "facts_le f2 f"
    using scan_nested_le [OF n] facts_le_ops(3) facts_le_trans by blast
  moreover have "snd (nested_substitutions command) \<longrightarrow> sf_uncertain f"
    using scan_nested_le [OF n] by (auto simp: facts_le_def add_uncertain_def)
  ultimately show ?thesis
    using seg_loop_seen [OF l] scan_nested_le [OF n] seg_seen_mono by blast
qed

subsection \<open>Properties\<close>

text \<open>
  The analysis of a command always ends with a result, although the walk appends the segments of an
  interpreter's text to the list it is walking; every segment of the result is made of at most as many
  characters as the command has, and the decision whether the command is read-only is made as well.
\<close>

theorem parse_shell_returns:
  "(\<exists>f. parse_shell command = Some f \<and>
      list_all (\<lambda>s. text_size s \<le> length command) (sf_segments f)) \<and>
   (\<exists>b. is_read_only (PStr command) = Some b)"
proof -
  obtain f where f: "parse_level 7 command = Some f" "good_facts command f"
    using parse_level_good [of 7] by (auto simp: good_child_def)
  then show ?thesis by (auto simp: parse_shell_def is_read_only_def good_facts_def list_all_iff)
qed



text \<open>
  A line break separates nothing: in a text without quotations and escapes the tokens are those of
  the same text on one line, so the analysis takes the second line of a script for arguments of
  the first. A deleting second line, a redirection written \<open>>|\<close> and a pipe written \<open>|&\<close> all pass as
  read-only.
\<close>

theorem second_line_is_not_seen:
  "(plain_text command \<longrightarrow> shell_lex (map flat_char command) = shell_lex command) \<and>
   is_read_only (PStr (''ls'' @ [LF_CHAR] @ ''rm -rf x'')) = Some True \<and>
   is_read_only (PStr ''cat a >| b'') = Some True \<and>
   is_read_only (PStr ''cat a |& tee b'') = Some True \<and>
   is_read_only (PStr ''cat a > b'') = Some False"
proof (intro conjI impI)
  assume "plain_text command"
  then show "shell_lex (map flat_char command) = shell_lex command"
    unfolding shell_lex_def by (rule lex_from_flat) simp
qed code_simp+

theorem second_line_is_not_seen_witness:
  "shell_lex (map flat_char (''ls'' @ [LF_CHAR] @ ''rm x'')) = Some [''ls'', ''rm'', ''x'']"
proof -
  have "plain_text (''ls'' @ [LF_CHAR] @ ''rm x'')" by code_simp
  moreover have "shell_lex (''ls'' @ [LF_CHAR] @ ''rm x'') = Some [''ls'', ''rm'', ''x'']" by code_simp
  ultimately show ?thesis using second_line_is_not_seen [of "''ls'' @ [LF_CHAR] @ ''rm x''"] by simp
qed

end
