(* ===== verification/Services_Approvals.thy ===== *)
theory Services_Approvals
  imports Avid_Prelude
begin

section \<open>The table of pending approvals and questions\<close>

text \<open>
  The class \<open>ApprovalTable\<close> of \<open>avid/services/approvals.py\<close>: what blocks a run on a human. The run
  thread registers an item and polls it in a loop (\<open>request\<close>, \<open>ask\<close>, \<open>_await\<close>), request threads
  answer it (\<open>resolve\<close>, \<open>answer\<close>), the run's end closes the table; each of these is one step under
  the condition's lock. An item is an object that the waiter and the table share: \<open>at_items\<close> is the
  store of these objects by id, \<open>at_pending\<close> the ids of \<open>_pending\<close> in order. Ids, the clock and the
  cancellation flag are arguments; status changes and events are logged in \<open>at_log\<close>.
\<close>

definition MAX_QUESTION_CHARS :: nat where "MAX_QUESTION_CHARS = 500"
definition MAX_OPTION_CHARS :: nat where "MAX_OPTION_CHARS = 80"
definition MAX_OPTIONS :: nat where "MAX_OPTIONS = 6"

datatype pending_kind = KIND_APPROVAL | KIND_QUESTION
datatype answer_value = Allow | Deny | Answered | Unanswered

record pending_approval =
  pa_tool :: string
  pa_arguments :: pydict
  pa_reason :: string
  pa_created_at :: int
  pa_expires_at :: int
  pa_kind :: pending_kind
  pa_options :: "string list"
  pa_decision :: "answer_value option"
  pa_answer :: "string option"
  pa_resolved_at :: "int option"
  pa_resolved_reason :: "string option"
  pa_expired :: bool

record decided_item =
  di_decision :: answer_value
  di_reason :: string
  di_expired :: bool
  di_answer :: "string option"

record resolution =
  rs_accepted :: bool
  rs_decision :: answer_value
  rs_reason :: string

datatype approval_error = ApprovalNotFound | ApprovalExpired | ApprovalConflict | InvalidRequest

datatype table_event =
    Status string
  | Requested string
  | Resolved string answer_value string

record approval_table =
  at_items :: "string \<Rightarrow> pending_approval option"
  at_pending :: "string list"
  at_decided :: "string \<Rightarrow> decided_item option"
  at_closed :: bool
  at_log :: "table_event list"

definition new_table :: approval_table where
  "new_table = \<lparr>at_items = (\<lambda>_. None), at_pending = [], at_decided = (\<lambda>_. None),
                at_closed = False, at_log = []\<rparr>"

subsection \<open>The run thread\<close>

definition register_item :: "string \<Rightarrow> pending_approval \<Rightarrow> string \<Rightarrow> approval_table \<Rightarrow> approval_table" where
  "register_item i item status t =
     t\<lparr>at_items := (at_items t)(i \<mapsto> item), at_pending := at_pending t @ [i],
       at_log := at_log t @ [Status status, Requested i]\<rparr>"

text \<open>\<open>request\<close> up to the wait: \<open>None\<close> is the refusal before anything is registered.\<close>

definition request_open ::
  "string \<Rightarrow> bool \<Rightarrow> int \<Rightarrow> int \<Rightarrow> string \<Rightarrow> pydict \<Rightarrow> string \<Rightarrow> approval_table \<Rightarrow> approval_table option"
where
  "request_open i cancelled now timeout_ms tool_name arguments reason t =
     (if cancelled \<or> at_closed t then None
      else Some (register_item i
        \<lparr>pa_tool = tool_name, pa_arguments = arguments, pa_reason = reason, pa_created_at = now,
         pa_expires_at = now + timeout_ms, pa_kind = KIND_APPROVAL, pa_options = [],
         pa_decision = None, pa_answer = None, pa_resolved_at = None, pa_resolved_reason = None,
         pa_expired = False\<rparr> ''awaiting_approval'' t))"

definition fold_text :: "string \<Rightarrow> string" where
  "fold_text s = join_with '' '' (py_split s)"

definition question_text :: "string \<Rightarrow> string" where
  "question_text q = take MAX_QUESTION_CHARS (fold_text q)"

definition question_options :: "string list \<Rightarrow> string list" where
  "question_options options =
     map (\<lambda>o'. take MAX_OPTION_CHARS (fold_text o'))
       (filter (\<lambda>o'. py_strip o' \<noteq> []) (take MAX_OPTIONS options))"

definition ask_open ::
  "string \<Rightarrow> bool \<Rightarrow> int \<Rightarrow> int \<Rightarrow> string \<Rightarrow> string list \<Rightarrow> approval_table \<Rightarrow> approval_table option" where
  "ask_open i cancelled now timeout_ms question options t =
     (let text = question_text question; choices = question_options options
      in if text = [] then None
         else if cancelled \<or> at_closed t then None
         else Some (register_item i
           \<lparr>pa_tool = ''ask_user'',
            pa_arguments = [(''question'', PStr text), (''options'', PList (map PStr choices))],
            pa_reason = text, pa_created_at = now, pa_expires_at = now + timeout_ms,
            pa_kind = KIND_QUESTION, pa_options = choices, pa_decision = None, pa_answer = None,
            pa_resolved_at = None, pa_resolved_reason = None, pa_expired = False\<rparr>
           ''awaiting_input'' t))"

text \<open>\<open>_finish\<close>, on an item of the store.\<close>

definition finish_item ::
  "string \<Rightarrow> pending_approval \<Rightarrow> int \<Rightarrow> answer_value \<Rightarrow> string \<Rightarrow> approval_table \<Rightarrow> approval_table" where
  "finish_item i item now d reason t =
     (let item' = item\<lparr>pa_decision := Some d, pa_resolved_at := Some now,
                       pa_resolved_reason := Some reason\<rparr>
      in t\<lparr>at_items := (at_items t)(i \<mapsto> item'), at_pending := removeAll i (at_pending t),
           at_decided := (at_decided t)(i \<mapsto>
             \<lparr>di_decision = d, di_reason = reason, di_expired = pa_expired item',
              di_answer = pa_answer item'\<rparr>)\<rparr>)"

definition fallback_of :: "pending_approval \<Rightarrow> answer_value" where
  "fallback_of item = (if pa_kind item = KIND_QUESTION then Unanswered else Deny)"

definition settled :: "pending_approval \<Rightarrow> bool" where
  "settled item \<longleftrightarrow> pa_decision item \<noteq> None \<or> pa_answer item \<noteq> None"

text \<open>
  One round of the loop of \<open>_await\<close>: \<open>None\<close> is going to sleep again, otherwise the decision and
  the reason it returns.
\<close>

definition await_outcome :: "pending_approval \<Rightarrow> answer_value \<times> string" where
  "await_outcome item =
     (case pa_decision item of None \<Rightarrow> fallback_of item | Some d \<Rightarrow> d,
      case pa_resolved_reason item of
        None \<Rightarrow> ''unknown'' | Some r \<Rightarrow> if r = [] then ''unknown'' else r)"

definition await_poll ::
  "string \<Rightarrow> bool \<Rightarrow> int \<Rightarrow> approval_table \<Rightarrow> (answer_value \<times> string) option \<times> approval_table" where
  "await_poll i cancelled now t =
     (case at_items t i of
        None \<Rightarrow> (None, t)
      | Some item \<Rightarrow>
          (if settled item then (Some (await_outcome item), t)
           else if at_closed t then
             (Some (fallback_of item, ''run_ended''),
              finish_item i item now (fallback_of item) ''run_ended'' t)
           else if cancelled then
             (Some (fallback_of item, ''cancelled''),
              finish_item i item now (fallback_of item) ''cancelled'' t)
           else if pa_expires_at item - now \<le> 0 then
             (Some (fallback_of item, ''timeout''),
              finish_item i (item\<lparr>pa_expired := True\<rparr>) now (fallback_of item) ''timeout'' t)
           else (None, t)))"

text \<open>What \<open>request\<close> and \<open>ask\<close> do after the wait, and what they return.\<close>

definition announce_outcome :: "string \<Rightarrow> answer_value \<times> string \<Rightarrow> approval_table \<Rightarrow> approval_table" where
  "announce_outcome i out t =
     t\<lparr>at_log := at_log t @ [Resolved i (fst out) (snd out), Status ''running'']\<rparr>"

definition request_close ::
  "string \<Rightarrow> answer_value \<times> string \<Rightarrow> approval_table \<Rightarrow> bool \<times> approval_table" where
  "request_close i out t = (fst out = Allow, announce_outcome i out t)"

definition ask_close ::
  "string \<Rightarrow> answer_value \<times> string \<Rightarrow> approval_table \<Rightarrow> string option \<times> approval_table" where
  "ask_close i out t =
     (case at_items t i of None \<Rightarrow> None | Some item \<Rightarrow> pa_answer item, announce_outcome i out t)"

subsection \<open>Request threads and the end of the run\<close>

definition resolve ::
  "string \<Rightarrow> answer_value \<Rightarrow> int \<Rightarrow> approval_table \<Rightarrow> (approval_error + resolution) \<times> approval_table"
where
  "resolve i d now t =
     (if d \<notin> {Allow, Deny} then (Inl InvalidRequest, t)
      else case (if i \<in> set (at_pending t) then at_items t i else None) of
        Some item \<Rightarrow>
          (if pa_kind item \<noteq> KIND_APPROVAL then (Inl ApprovalConflict, t)
           else (Inr \<lparr>rs_accepted = True, rs_decision = d, rs_reason = ''user''\<rparr>,
                 finish_item i item now d ''user'' t))
      | None \<Rightarrow>
          (case at_decided t i of
             None \<Rightarrow> (Inl ApprovalNotFound, t)
           | Some previous \<Rightarrow>
               (if di_expired previous then (Inl ApprovalExpired, t)
                else if di_decision previous \<noteq> d then (Inl ApprovalConflict, t)
                else (Inr \<lparr>rs_accepted = False, rs_decision = di_decision previous,
                           rs_reason = di_reason previous\<rparr>, t))))"

definition answer_question ::
  "string \<Rightarrow> string \<Rightarrow> int \<Rightarrow> approval_table \<Rightarrow> (approval_error + resolution) \<times> approval_table" where
  "answer_question i text now t =
     (let v = take MAX_QUESTION_CHARS text
      in case (if i \<in> set (at_pending t) then at_items t i else None) of
           Some item \<Rightarrow>
             (if pa_kind item \<noteq> KIND_QUESTION then (Inl ApprovalConflict, t)
              else (Inr \<lparr>rs_accepted = True, rs_decision = Answered, rs_reason = ''user''\<rparr>,
                    finish_item i (item\<lparr>pa_answer := Some v\<rparr>) now Answered ''user'' t))
         | None \<Rightarrow>
             (case at_decided t i of
                None \<Rightarrow> (Inl ApprovalNotFound, t)
              | Some previous \<Rightarrow>
                  (if di_expired previous then (Inl ApprovalExpired, t)
                   else if di_decision previous \<noteq> Answered then (Inl ApprovalConflict, t)
                   else if di_answer previous \<noteq> Some v then (Inl ApprovalConflict, t)
                   else (Inr \<lparr>rs_accepted = False, rs_decision = di_decision previous,
                              rs_reason = di_reason previous\<rparr>, t))))"

definition close_table :: "approval_table \<Rightarrow> approval_table" where
  "close_table t = t\<lparr>at_closed := True\<rparr>"

definition table_pending :: "approval_table \<Rightarrow> pending_approval list" where
  "table_pending t = map (\<lambda>i. the (at_items t i)) (at_pending t)"

subsection \<open>The table as a state machine\<close>

datatype approval_step =
    RequestOpen string bool int int string pydict string
  | AskOpen string bool int int string "string list"
  | Poll string bool int
  | Resolve string answer_value int
  | AnswerQuestion string string int
  | Close

fun approval_apply :: "approval_step \<Rightarrow> approval_table \<Rightarrow> approval_table" where
  "approval_apply (RequestOpen i c now ms nm args r) t =
     (case request_open i c now ms nm args r t of None \<Rightarrow> t | Some t' \<Rightarrow> t')"
| "approval_apply (AskOpen i c now ms q os) t =
     (case ask_open i c now ms q os t of None \<Rightarrow> t | Some t' \<Rightarrow> t')"
| "approval_apply (Poll i c now) t = snd (await_poll i c now t)"
| "approval_apply (Resolve i d now) t = snd (resolve i d now t)"
| "approval_apply (AnswerQuestion i text now) t = snd (answer_question i text now t)"
| "approval_apply Close t = close_table t"

text \<open>Ids are fresh when an item is registered.\<close>

fun approval_allowed :: "approval_step \<Rightarrow> approval_table \<Rightarrow> bool" where
  "approval_allowed (RequestOpen i c now ms nm args r) t \<longleftrightarrow> at_items t i = None"
| "approval_allowed (AskOpen i c now ms q os) t \<longleftrightarrow> at_items t i = None"
| "approval_allowed _ t \<longleftrightarrow> True"

inductive approval_reach :: "approval_table \<Rightarrow> bool" where
  reach_new: "approval_reach new_table"
| reach_step: "\<lbrakk>approval_reach t; approval_allowed s t\<rbrakk> \<Longrightarrow> approval_reach (approval_apply s t)"

definition item_matches :: "pending_approval \<Rightarrow> decided_item \<Rightarrow> bool" where
  "item_matches item d \<longleftrightarrow>
     pa_decision item = Some (di_decision d) \<and> pa_resolved_reason item = Some (di_reason d) \<and>
     pa_answer item = di_answer d \<and> pa_expired item = di_expired d \<and>
     (di_decision d \<in> {Allow, Answered} \<longrightarrow> di_reason d = ''user'') \<and>
     di_reason d \<noteq> [] \<and>
     (pa_kind item = KIND_APPROVAL \<longrightarrow> di_decision d \<in> {Allow, Deny} \<and> di_answer d = None) \<and>
     (pa_kind item = KIND_QUESTION \<longrightarrow>
        (if di_decision d = Answered then di_answer d \<noteq> None
         else di_decision d = Unanswered \<and> di_answer d = None))"

definition item_fresh :: "pending_approval \<Rightarrow> bool" where
  "item_fresh item \<longleftrightarrow> pa_decision item = None \<and> pa_answer item = None \<and> \<not> pa_expired item"

definition table_inv :: "approval_table \<Rightarrow> bool" where
  "table_inv t \<longleftrightarrow>
     distinct (at_pending t) \<and>
     (\<forall>i. case at_items t i of
        None \<Rightarrow> i \<notin> set (at_pending t) \<and> at_decided t i = None
      | Some item \<Rightarrow>
          (case at_decided t i of
             None \<Rightarrow> i \<in> set (at_pending t) \<and> item_fresh item
           | Some d \<Rightarrow> i \<notin> set (at_pending t) \<and> item_matches item d))"

definition item_inv :: "approval_table \<Rightarrow> string \<Rightarrow> bool" where
  "item_inv t i \<longleftrightarrow>
     (case at_items t i of
        None \<Rightarrow> i \<notin> set (at_pending t) \<and> at_decided t i = None
      | Some item \<Rightarrow>
          (case at_decided t i of
             None \<Rightarrow> i \<in> set (at_pending t) \<and> item_fresh item
           | Some d \<Rightarrow> i \<notin> set (at_pending t) \<and> item_matches item d))"

lemma table_inv_iff: "table_inv t \<longleftrightarrow> distinct (at_pending t) \<and> (\<forall>i. item_inv t i)"
  by (simp add: table_inv_def item_inv_def)

lemma table_inv_register:
  assumes "table_inv t" and "at_items t i = None" and "item_fresh item"
  shows "table_inv (register_item i item st t)"
proof -
  have new: "i \<notin> set (at_pending t)" "at_decided t i = None"
    using assms(1,2) by (auto simp: table_inv_iff item_inv_def dest: spec [of _ i])
  have "item_inv (register_item i item st t) j" for j
  proof -
    from assms(1) have "item_inv t j" by (simp add: table_inv_iff)
    then show ?thesis using new assms(2,3) by (cases "j = i") (auto simp: item_inv_def register_item_def split: option.splits)
  qed
  then show ?thesis using assms(1) new by (simp add: table_inv_iff register_item_def)
qed

lemma table_inv_finish:
  assumes "table_inv t"
    and "item_matches (item\<lparr>pa_decision := Some d, pa_resolved_at := Some now, pa_resolved_reason := Some r\<rparr>)
           \<lparr>di_decision = d, di_reason = r, di_expired = pa_expired item, di_answer = pa_answer item\<rparr>"
  shows "table_inv (finish_item i item now d r t)"
proof -
  have "item_inv (finish_item i item now d r t) j" for j
  proof -
    from assms(1) have "item_inv t j" by (simp add: table_inv_iff)
    then show ?thesis using assms(2)
      by (cases "j = i") (auto simp: item_inv_def finish_item_def Let_def split: option.splits)
  qed
  then show ?thesis
    using assms(1) by (simp add: table_inv_iff finish_item_def Let_def distinct_removeAll)
qed

lemma table_inv_item:
  assumes "table_inv t" and "at_items t i = Some item"
  shows "(at_decided t i = None \<and> i \<in> set (at_pending t) \<and> item_fresh item) \<or>
    (\<exists>d. at_decided t i = Some d \<and> i \<notin> set (at_pending t) \<and> item_matches item d)"
proof -
  have "item_inv t i" using assms(1) by (simp add: table_inv_iff)
  then show ?thesis using assms(2) by (cases "at_decided t i") (auto simp: item_inv_def)
qed

lemma table_inv_poll:
  assumes "table_inv t"
  shows "table_inv (snd (await_poll i c now t))"
proof (cases "at_items t i")
  case (Some item)
  show ?thesis
  proof (cases "settled item")
    case False
    then have f: "item_fresh item"
      using table_inv_item [OF assms Some] by (auto simp: settled_def item_matches_def)
    show ?thesis
      using Some False assms f
      by (cases "pa_kind item")
         (auto simp: await_poll_def intro!: table_inv_finish simp: item_matches_def fallback_of_def item_fresh_def)
  qed (use assms Some in \<open>simp add: await_poll_def\<close>)
qed (use assms in \<open>simp add: await_poll_def\<close>)

lemma table_inv_resolve:
  assumes "table_inv t"
  shows "table_inv (snd (resolve i d now t))"
proof (cases "d \<in> {Allow, Deny} \<and> i \<in> set (at_pending t) \<and> at_items t i \<noteq> None")
  case True
  then obtain item where item: "at_items t i = Some item" by auto
  then have "item_fresh item" using table_inv_item [OF assms item] True by auto
  then show ?thesis
    using True item assms
    by (auto simp: resolve_def intro!: table_inv_finish simp: item_matches_def item_fresh_def)
next
  case False
  then have "snd (resolve i d now t) = t"
    by (auto simp: resolve_def split: option.splits)
  then show ?thesis using assms by simp
qed

lemma table_inv_answer:
  assumes "table_inv t"
  shows "table_inv (snd (answer_question i text now t))"
proof (cases "i \<in> set (at_pending t) \<and> at_items t i \<noteq> None")
  case True
  then obtain item where item: "at_items t i = Some item" by auto
  then have "item_fresh item" using table_inv_item [OF assms item] True by auto
  then show ?thesis
    using True item assms
    by (auto simp: answer_question_def Let_def intro!: table_inv_finish
        simp: item_matches_def item_fresh_def)
next
  case False
  then have "snd (answer_question i text now t) = t"
    by (auto simp: answer_question_def Let_def split: option.splits)
  then show ?thesis using assms by simp
qed

lemma approval_reach_inv: "approval_reach t \<Longrightarrow> table_inv t"
proof (induction rule: approval_reach.induct)
  case reach_new
  then show ?case by (simp add: table_inv_def new_table_def)
next
  case (reach_step t s)
  show ?case
  proof (cases s)
    case (RequestOpen i c now ms nm args r)
    then show ?thesis using reach_step
      by (auto simp: request_open_def item_fresh_def intro: table_inv_register)
  next
    case (AskOpen i c now ms q os)
    then show ?thesis using reach_step
      by (auto simp: ask_open_def Let_def item_fresh_def intro: table_inv_register)
  next
    case Close
    have "item_inv (close_table t) j = item_inv t j" for j
      by (cases "at_items t j"; cases "at_decided t j") (simp_all add: item_inv_def close_table_def)
    then show ?thesis using reach_step Close by (simp add: table_inv_iff) (simp add: close_table_def)
  qed (use reach_step in \<open>simp_all add: table_inv_poll table_inv_resolve table_inv_answer\<close>)
qed

text \<open>A settled item stays settled, with the same outcome.\<close>

lemma finish_other [simp]: "j \<noteq> i \<Longrightarrow> at_decided (finish_item i item now d r t) j = at_decided t j"
  "j \<noteq> i \<Longrightarrow> at_items (finish_item i item now d r t) j = at_items t j"
  by (simp_all add: finish_item_def Let_def)

lemma decided_stays:
  assumes "table_inv t" and "approval_allowed s t" and "at_decided t i = Some d"
  shows "at_decided (approval_apply s t) i = Some d \<and> at_items (approval_apply s t) i = at_items t i"
proof -
  have "item_inv t i" using assms(1) by (simp add: table_inv_iff)
  then obtain item where item: "at_items t i = Some item" "i \<notin> set (at_pending t)" "item_matches item d"
    using assms(3) by (cases "at_items t i") (simp_all add: item_inv_def)
  have done': "settled item" using item(3) by (simp add: item_matches_def settled_def)
  show ?thesis
  proof (cases s)
    case (RequestOpen j c now ms nm args r)
    then show ?thesis using assms item by (auto simp: request_open_def register_item_def)
  next
    case (AskOpen j c now ms q os)
    then show ?thesis using assms item by (auto simp: ask_open_def Let_def register_item_def)
  next
    case (Poll j c now)
    then show ?thesis
      using assms item done' by (cases "j = i") (auto simp: await_poll_def split: option.splits)
  next
    case (Resolve j e now)
    then show ?thesis
      using assms item by (cases "j = i") (auto simp: resolve_def split: option.splits)
  next
    case (AnswerQuestion j v now)
    then show ?thesis
      using assms item by (cases "j = i") (auto simp: answer_question_def Let_def split: option.splits)
  qed (use assms in \<open>simp add: close_table_def\<close>)
qed

text \<open>What a poll of an unanswered item returns and leaves.\<close>

lemma await_fresh:
  assumes "at_items t i = Some item" and "item_fresh item"
  shows "(if at_closed t \<or> c \<or> pa_expires_at item \<le> now
     then (\<exists>r. fst (await_poll i c now t) = Some (fallback_of item, r))
     else fst (await_poll i c now t) = None) \<and>
    (\<exists>item'. at_items (snd (await_poll i c now t)) i = Some item' \<and> pa_answer item' = None)"
  using assms by (simp add: await_poll_def settled_def item_fresh_def finish_item_def Let_def)

lemma poll_undecided:
  assumes "at_items t i = Some item" and "item_fresh item" and "at_decided t i = None"
  shows "(fst (request_close i out t) \<longrightarrow> fst (await_poll i c now t) = Some out \<longrightarrow>
        (\<exists>d. at_decided t i = Some d \<and> di_decision d = Allow \<and> di_reason d = ''user'')) \<and>
    (at_closed t \<or> c \<or> pa_expires_at item \<le> now \<longrightarrow> fst (await_poll i c now t) \<noteq> None) \<and>
    (at_decided t i = None \<longrightarrow> fst (await_poll i c now t) \<noteq> None \<longrightarrow>
       fst (the (fst (await_poll i c now t))) =
         (if pa_kind item = KIND_QUESTION then Unanswered else Deny) \<and>
       fst (ask_close i out (snd (await_poll i c now t))) = None)"
proof (cases "at_closed t \<or> c \<or> pa_expires_at item \<le> now")
  case True
  from await_fresh [OF assms(1,2), of c now] True
  have "\<exists>r. fst (await_poll i c now t) = Some (fallback_of item, r)" by (simp only: if_True)
  then obtain r where r: "fst (await_poll i c now t) = Some (fallback_of item, r)" by (elim exE)
  from await_fresh [OF assms(1,2), of c now]
  obtain item' where i': "at_items (snd (await_poll i c now t)) i = Some item'" "pa_answer item' = None"
    by (elim conjE exE)
  show ?thesis unfolding r ask_close_def request_close_def fst_conv i' option.case
    by (auto simp: fallback_of_def assms(3) i'(2))
next
  case False
  then have "fst (await_poll i c now t) = None"
    using await_fresh [OF assms(1,2), of c now] by (simp only: if_False)
  then show ?thesis using False by simp
qed

lemma poll_decided:
  assumes "at_items t i = Some item" and "at_decided t i = Some d" and "item_matches item d"
  shows "(fst (request_close i out t) \<longrightarrow> fst (await_poll i c now t) = Some out \<longrightarrow>
        (\<exists>d. at_decided t i = Some d \<and> di_decision d = Allow \<and> di_reason d = ''user'')) \<and>
    (at_closed t \<or> c \<or> pa_expires_at item \<le> now \<longrightarrow> fst (await_poll i c now t) \<noteq> None) \<and>
    (at_decided t i = None \<longrightarrow> fst (await_poll i c now t) \<noteq> None \<longrightarrow>
       fst (the (fst (await_poll i c now t))) =
         (if pa_kind item = KIND_QUESTION then Unanswered else Deny) \<and>
       fst (ask_close i out (snd (await_poll i c now t))) = None)"
proof -
  have m: "pa_decision item = Some (di_decision d)"
    "di_decision d = Allow \<Longrightarrow> di_reason d = ''user''"
    using assms(3) by (simp_all add: item_matches_def)
  have "settled item" using m(1) by (simp add: settled_def)
  then have "fst (await_poll i c now t) = Some (await_outcome item)"
    using assms(1) by (simp add: await_poll_def)
  moreover have "fst (await_outcome item) = di_decision d" using m(1) by (simp add: await_outcome_def)
  ultimately show ?thesis
    using assms(2) m(2) by (simp add: request_close_def) metis
qed

subsection \<open>Properties\<close>

text \<open>
  C39. An item is settled once: in every reachable table, an outcome that has been recorded, with its
  reason and answer, is the same after every further step of any thread, and the object the waiting
  run reads does not change either.
\<close>

theorem settled_once:
  assumes "approval_reach t" and "approval_allowed s t" and "at_decided t i = Some d"
  shows "at_decided (approval_apply s t) i = Some d \<and> at_items (approval_apply s t) i = at_items t i"
  by (rule decided_stays [OF approval_reach_inv [OF assms(1)] assms(2,3)])

definition asked_table :: approval_table where
  "asked_table = approval_apply (RequestOpen ''ap1'' False 100 50 ''bash'' [] ''wipes'') new_table"

definition allowed_table :: approval_table where
  "allowed_table = approval_apply (Resolve ''ap1'' Allow 120) asked_table"

lemma sample_tables_reachable: "approval_reach asked_table" "approval_reach allowed_table"
proof -
  show a: "approval_reach asked_table"
    unfolding asked_table_def by (rule reach_step [OF reach_new]) (simp add: new_table_def)
  show "approval_reach allowed_table"
    unfolding allowed_table_def by (rule reach_step [OF a]) simp
qed

lemma allowed_decided: "at_decided allowed_table ''ap1'' =
    Some \<lparr>di_decision = Allow, di_reason = ''user'', di_expired = False, di_answer = None\<rparr>"
  by code_simp

theorem settled_once_witness:
  "at_decided (approval_apply (Poll ''ap1'' False 999) allowed_table) ''ap1'' =
     Some \<lparr>di_decision = Allow, di_reason = ''user'', di_expired = False, di_answer = None\<rparr>"
  using settled_once [OF sample_tables_reachable(2) _ allowed_decided, of "Poll ''ap1'' False 999"]
  by simp

text \<open>
  Waiting fails closed: a run is told to go ahead, or is given an answer, only if a user said so
  for this very item; a closed table, a cancelled run or a passed deadline always ends the wait, and
  for an item not answered by then as a denial or as no answer.
\<close>

theorem waiting_fails_closed:
  assumes "approval_reach t" and "at_items t i = Some item"
  shows "(fst (request_close i out t) \<longrightarrow> fst (await_poll i c now t) = Some out \<longrightarrow>
        (\<exists>d. at_decided t i = Some d \<and> di_decision d = Allow \<and> di_reason d = ''user'')) \<and>
    (at_closed t \<or> c \<or> pa_expires_at item \<le> now \<longrightarrow> fst (await_poll i c now t) \<noteq> None) \<and>
    (at_decided t i = None \<longrightarrow> fst (await_poll i c now t) \<noteq> None \<longrightarrow>
       fst (the (fst (await_poll i c now t))) =
         (if pa_kind item = KIND_QUESTION then Unanswered else Deny) \<and>
       fst (ask_close i out (snd (await_poll i c now t))) = None)"
proof -
  from table_inv_item [OF approval_reach_inv [OF assms(1)] assms(2)]
  have "(at_decided t i = None \<and> item_fresh item) \<or>
      (\<exists>d. at_decided t i = Some d \<and> item_matches item d)" by blast
  then show ?thesis
  proof (elim disjE exE conjE)
    assume d: "at_decided t i = None" and f: "item_fresh item"
    show ?thesis by (rule poll_undecided [OF assms(2) f d])
  next
    fix d assume "at_decided t i = Some d" and "item_matches item d"
    then show ?thesis by (rule poll_decided [OF assms(2)])
  qed
qed

theorem waiting_fails_closed_witness:
  "fst (the (fst (await_poll ''ap1'' False 150 asked_table))) = Deny \<and>
   fst (await_poll ''ap1'' False 149 asked_table) = None"
proof -
  have item: "at_items asked_table ''ap1'' = Some (the (at_items asked_table ''ap1''))" by code_simp
  have none: "at_decided asked_table ''ap1'' = None" by code_simp
  have exp: "pa_expires_at (the (at_items asked_table ''ap1'')) = 150"
      "pa_kind (the (at_items asked_table ''ap1'')) = KIND_APPROVAL" by code_simp+
  have "fst (await_poll ''ap1'' False 149 asked_table) = None" by code_simp
  moreover have "fst (the (fst (await_poll ''ap1'' False 150 asked_table))) = Deny"
    using waiting_fails_closed [OF sample_tables_reachable(1) item, of undefined False 150] none exp
    by simp
  ultimately show ?thesis by blast
qed

text \<open>
  Answering is idempotent: the first answer to a pending approval is accepted; after that the same
  answer is confirmed without effect, the other one is a conflict, and neither changes the table.
\<close>

theorem resolve_idempotent:
  assumes "resolve i d now t = (Inr r, t1)" and "rs_accepted r" and "e \<in> {Allow, Deny}"
    and "approval_reach t"
  shows "resolve i e now2 t1 =
    (if e = d then Inr \<lparr>rs_accepted = False, rs_decision = d, rs_reason = ''user''\<rparr>
     else Inl ApprovalConflict, t1)"
proof -
  from assms(1,2) obtain item where item: "i \<in> set (at_pending t)" "at_items t i = Some item"
      "t1 = finish_item i item now d ''user'' t"
    by (auto simp: resolve_def split: if_splits option.splits)
  have "\<not> pa_expired item"
    using table_inv_item [OF approval_reach_inv [OF assms(4)] item(2)] item(1)
    by (auto simp: item_fresh_def)
  then show ?thesis
    using assms(3) item by (auto simp: resolve_def finish_item_def Let_def)
qed

theorem resolve_idempotent_witness:
  "resolve ''ap1'' Deny 130 allowed_table = (Inl ApprovalConflict, allowed_table)"
proof -
  have r: "resolve ''ap1'' Allow 120 asked_table =
      (Inr \<lparr>rs_accepted = True, rs_decision = Allow, rs_reason = ''user''\<rparr>, allowed_table)"
  proof -
    have "fst (resolve ''ap1'' Allow 120 asked_table) =
      Inr \<lparr>rs_accepted = True, rs_decision = Allow, rs_reason = ''user''\<rparr>" by code_simp
    then show ?thesis by (simp add: allowed_table_def prod_eq_iff)
  qed
  from resolve_idempotent [OF r _ _ sample_tables_reachable(1), of Deny] show ?thesis by simp
qed

text \<open>
  The end of the run does not settle a pending item by itself: between \<open>close\<close> and the waiter's
  next look at the table an \<open>allow\<close> is still accepted, and the run is then told to go ahead.
\<close>

theorem allow_accepted_after_close:
  "fst (await_poll ''ap1'' False 130
      (approval_apply (Resolve ''ap1'' Allow 120) (approval_apply Close asked_table))) =
     Some (Allow, ''user'')"
  by code_simp

end
