(* ===== verification/Services_Stream.thy ===== *)
theory Services_Stream
  imports Avid_Prelude
begin

section \<open>The event stream of a run\<close>

text \<open>
  The event names of \<open>avid/agent/events.py\<close>, and the replay buffer and the subscribers of
  \<open>avid/services/runs.py\<close>: \<open>emit\<close>, \<open>emit_delta\<close>, \<open>_trim\<close>, \<open>_replay_from\<close>, \<open>_follow_snapshot_raw\<close>,
  \<open>subscribe\<close> and \<open>subscribe_async\<close>. A step is one critical section of the run's condition, so that
  what happens between two of them is an interleaving of steps: a subscriber reads \<open>terminal\<close> after
  it has released the lock, and reads the index of the buffer after the section that emitted its
  resync. The payload of an event and the clock are arguments.
\<close>

definition DELTA_EVENT_TYPES :: "string list" where
  "DELTA_EVENT_TYPES = [''assistant_delta'', ''reasoning_delta'']"

definition DURABLE_EVENT_TYPES :: "string list" where
  "DURABLE_EVENT_TYPES =
     [''run_started'', ''user_message'', ''assistant_message'', ''tool_result_message'',
      ''tool_call_started'', ''tool_call_finished'', ''tool_call_denied'', ''approval_requested'',
      ''approval_resolved'', ''context_compacted'', ''stop_nudge'', ''run_finished'', ''run_failed'',
      ''run_cancelled'', ''resync'']"

definition TERMINAL_EVENT_TYPES :: "string list" where
  "TERMINAL_EVENT_TYPES = [''run_finished'', ''run_failed'', ''run_cancelled'']"

definition RESYNC :: string where "RESYNC = ''resync''"

text \<open>A run event; \<open>ev_seq = None\<close> means it is outside the replay.\<close>

record stream_event =
  ev_type :: string
  ev_data :: pydict
  ev_run_id :: string
  ev_seq :: "int option"
  ev_ts :: int

text \<open>The buffer fields of \<open>RunRecord\<close>, and the status that is read together with them.\<close>

record run_stream =
  rs_run_id :: string
  rs_status :: string
  rs_events :: "stream_event list"
  rs_dropped :: nat
  rs_durable_index :: "nat list"
  rs_evicted_upto :: int
  rs_next_seq :: int

record buffer_conf =
  bc_buffer_size :: int
  bc_max_events :: nat

definition new_stream :: "string \<Rightarrow> run_stream" where
  "new_stream run_id =
     \<lparr>rs_run_id = run_id, rs_status = ''running'', rs_events = [], rs_dropped = 0,
      rs_durable_index = [], rs_evicted_upto = 0, rs_next_seq = 1\<rparr>"

definition terminal :: "run_stream \<Rightarrow> bool" where
  "terminal s \<longleftrightarrow> rs_status s \<in> set [''finished'', ''failed'', ''cancelled'']"

definition absolute_index :: "run_stream \<Rightarrow> nat" where
  "absolute_index s = rs_dropped s + length (rs_events s)"

subsection \<open>Eviction\<close>

definition with_seq :: "stream_event \<Rightarrow> int \<Rightarrow> int" where
  "with_seq e upper = (case ev_seq e of None \<Rightarrow> upper | Some n \<Rightarrow> max upper n)"

definition trim_durable :: "int \<Rightarrow> run_stream \<Rightarrow> run_stream" where
  "trim_durable limit s =
     (let overflow = length (rs_durable_index s) - nat limit in
      if 0 < limit \<and> 0 < overflow then
        (let last_dropped = rs_durable_index s ! (overflow - 1);
             dropped_event = rs_events s ! (last_dropped - rs_dropped s);
             cut = last_dropped + 1 - rs_dropped s
         in s\<lparr>rs_evicted_upto := with_seq dropped_event (rs_evicted_upto s),
              rs_durable_index := drop overflow (rs_durable_index s),
              rs_events := drop cut (rs_events s), rs_dropped := last_dropped + 1\<rparr>)
      else s)"

fun evict_below :: "nat \<Rightarrow> nat \<Rightarrow> stream_event list \<Rightarrow> nat list \<Rightarrow> int \<Rightarrow> nat list \<times> int" where
  "evict_below head dropped events [] upper = ([], upper)"
| "evict_below head dropped events (a # idx) upper =
     (if a < head then evict_below head dropped events idx (with_seq (events ! (a - dropped)) upper)
      else (a # idx, upper))"

definition trim_events :: "nat \<Rightarrow> run_stream \<Rightarrow> run_stream" where
  "trim_events max_events s =
     (if max_events \<noteq> 0 \<and> max_events < length (rs_events s) then
        (let cut = length (rs_events s) - max_events;
             head = rs_dropped s + cut;
             (idx, upper) = evict_below head (rs_dropped s) (rs_events s) (rs_durable_index s)
                             (rs_evicted_upto s)
         in s\<lparr>rs_evicted_upto := upper, rs_durable_index := idx,
              rs_events := drop cut (rs_events s), rs_dropped := head\<rparr>)
      else s)"

definition trim :: "buffer_conf \<Rightarrow> run_stream \<Rightarrow> run_stream" where
  "trim bc s = trim_events (bc_max_events bc) (trim_durable (bc_buffer_size bc) s)"

subsection \<open>Emission\<close>

definition emit ::
  "buffer_conf \<Rightarrow> string \<Rightarrow> pydict \<Rightarrow> int \<Rightarrow> run_stream \<Rightarrow> stream_event \<times> run_stream" where
  "emit bc ty data now s =
     (let durable = ty \<in> set DURABLE_EVENT_TYPES;
          event = \<lparr>ev_type = ty, ev_data = data, ev_run_id = rs_run_id s,
                   ev_seq = (if durable then Some (rs_next_seq s) else None), ev_ts = now\<rparr>
      in (event,
          trim bc (s\<lparr>rs_next_seq := (if durable then rs_next_seq s + 1 else rs_next_seq s),
                     rs_events := rs_events s @ [event],
                     rs_durable_index := (if durable then rs_durable_index s @ [absolute_index s]
                                          else rs_durable_index s)\<rparr>)))"

definition emit_delta :: "buffer_conf \<Rightarrow> string \<Rightarrow> string \<Rightarrow> int \<Rightarrow> run_stream \<Rightarrow> run_stream" where
  "emit_delta bc ty body now s =
     trim bc (s\<lparr>rs_events := rs_events s @
       [\<lparr>ev_type = ty, ev_data = [(''text'', PStr body)], ev_run_id = rs_run_id s, ev_seq = None,
         ev_ts = now\<rparr>]\<rparr>)"

text \<open>The last section of \<open>_finish\<close>: the status and the terminal event change together.\<close>

definition terminal_status :: "string \<Rightarrow> string" where
  "terminal_status ty =
     (if ty = ''run_finished'' then ''finished''
      else if ty = ''run_cancelled'' then ''cancelled'' else ''failed'')"

definition announce_end :: "buffer_conf \<Rightarrow> string \<Rightarrow> pydict \<Rightarrow> int \<Rightarrow> run_stream \<Rightarrow> run_stream" where
  "announce_end bc ty data now s = snd (emit bc ty data now (s\<lparr>rs_status := terminal_status ty\<rparr>))"

subsection \<open>Subscribers\<close>

definition has_gap :: "run_stream \<Rightarrow> int \<Rightarrow> bool" where
  "has_gap s after \<longleftrightarrow> after < rs_evicted_upto s"

definition replayed_events :: "run_stream \<Rightarrow> int \<Rightarrow> stream_event list" where
  "replayed_events s after =
     filter (\<lambda>e. ev_type e \<notin> set DELTA_EVENT_TYPES \<and>
                (case ev_seq e of None \<Rightarrow> True | Some n \<Rightarrow> after < n)) (rs_events s)"

definition highest_seq :: "stream_event list \<Rightarrow> int \<Rightarrow> int" where
  "highest_seq es after = fold with_seq es after"

text \<open>\<open>_follow_snapshot_raw\<close>: the gap flag, what is new, and the next index.\<close>

definition follow_snapshot :: "run_stream \<Rightarrow> int \<Rightarrow> nat \<Rightarrow> bool \<times> stream_event list \<times> nat" where
  "follow_snapshot s delivered index =
     (if delivered < rs_evicted_upto s then (True, [], index)
      else if index < rs_dropped s then (False, [], absolute_index s)
      else (False, drop (index - rs_dropped s) (rs_events s), absolute_index s))"

text \<open>The loop over what is new: what is yielded, the cursor, and whether the stream ended.\<close>

fun deliver_fresh :: "bool \<Rightarrow> int \<Rightarrow> stream_event list \<Rightarrow> stream_event list \<times> int \<times> bool" where
  "deliver_fresh deltas delivered [] = ([], delivered, False)"
| "deliver_fresh deltas delivered (e # es) =
     (if ev_type e \<in> set DELTA_EVENT_TYPES \<and> \<not> deltas then deliver_fresh deltas delivered es
      else case ev_seq e of
        Some n \<Rightarrow>
          (if n \<le> delivered then deliver_fresh deltas delivered es
           else if ev_type e \<in> set TERMINAL_EVENT_TYPES then ([e], n, True)
           else map_prod ((#) e) id (deliver_fresh deltas n es))
      | None \<Rightarrow>
          (if ev_type e \<in> set TERMINAL_EVENT_TYPES then ([e], delivered, True)
           else map_prod ((#) e) id (deliver_fresh deltas delivered es)))"

text \<open>
  Where a subscriber stands between two critical sections. \<open>Deciding\<close>: the snapshot was empty and
  the lock is released. \<open>Replaying\<close>: there was no gap and the buffer is still to be read.
  \<open>Announcing\<close>: it saw a gap; \<open>Indexing\<close>: its resync is emitted and the index
  is still to be read. \<open>Waiting\<close> is the synchronous wait inside the section of the snapshot.
\<close>

datatype sub_phase = Opening | Replaying | Announcing | Indexing | Following | Waiting | Deciding | Stopped

datatype sub_item = Sent stream_event | Heartbeat

record subscriber =
  sb_async :: bool
  sb_deltas :: bool
  sb_phase :: sub_phase
  sb_delivered :: int
  sb_index :: nat
  sb_resync :: "stream_event option"
  sb_out :: "sub_item list"

definition new_subscriber :: "bool \<Rightarrow> bool \<Rightarrow> int \<Rightarrow> subscriber" where
  "new_subscriber async deltas after =
     \<lparr>sb_async = async, sb_deltas = deltas, sb_phase = Opening, sb_delivered = after, sb_index = 0,
      sb_resync = None, sb_out = []\<rparr>"

text \<open>What follows a snapshot in either subscriber once it does not wait.\<close>

definition after_snapshot :: "bool \<times> stream_event list \<times> nat \<Rightarrow> subscriber \<Rightarrow> subscriber" where
  "after_snapshot snap sb =
     (let (stale, fresh, index) = snap; sb = sb\<lparr>sb_index := index\<rparr> in
      if stale then sb\<lparr>sb_phase := Announcing\<rparr>
      else if fresh = [] then sb\<lparr>sb_phase := Deciding\<rparr>
      else (let (sent, delivered, ended) = deliver_fresh (sb_deltas sb) (sb_delivered sb) fresh
            in sb\<lparr>sb_phase := (if ended then Stopped else Following), sb_delivered := delivered,
                  sb_out := sb_out sb @ map Sent sent\<rparr>))"

definition must_wait :: "run_stream \<Rightarrow> bool \<times> stream_event list \<times> nat \<Rightarrow> bool" where
  "must_wait s snap \<longleftrightarrow> fst (snd snap) = [] \<and> \<not> terminal s \<and> \<not> fst snap"

definition sub_step ::
  "buffer_conf \<Rightarrow> int \<Rightarrow> run_stream \<Rightarrow> subscriber \<Rightarrow> run_stream \<times> subscriber" where
  "sub_step bc now s sb =
     (case sb_phase sb of
        Opening \<Rightarrow>
          (s, sb\<lparr>sb_phase := (if has_gap s (sb_delivered sb) then Announcing else Replaying)\<rparr>)
      | Replaying \<Rightarrow>
          (let replayed = replayed_events s (sb_delivered sb)
           in (s, sb\<lparr>sb_phase := Following, sb_delivered := highest_seq replayed (sb_delivered sb),
                     sb_index := absolute_index s,
                     sb_out := sb_out sb @ map Sent replayed\<rparr>))
      | Announcing \<Rightarrow>
          (let (resync, s') = emit bc RESYNC
                 [(''after'', PInt (sb_delivered sb)), (''reason'', PStr ''buffer_evicted'')] now s
           in (s', sb\<lparr>sb_phase := Indexing, sb_delivered := with_seq resync (sb_delivered sb),
                      sb_resync := Some resync\<rparr>))
      | Indexing \<Rightarrow>
          (s, sb\<lparr>sb_phase := Following, sb_index := absolute_index s, sb_resync := None,
                 sb_out := sb_out sb @ (case sb_resync sb of None \<Rightarrow> [] | Some e \<Rightarrow> [Sent e])\<rparr>)
      | Following \<Rightarrow>
          (let snap = follow_snapshot s (sb_delivered sb) (sb_index sb) in
           if must_wait s snap
           then (s, sb\<lparr>sb_index := snd (snd snap),
                       sb_phase := (if sb_async sb then Following else Waiting)\<rparr>)
           else (s, after_snapshot snap sb))
      | Waiting \<Rightarrow> (s, after_snapshot (follow_snapshot s (sb_delivered sb) (sb_index sb)) sb)
      | Deciding \<Rightarrow>
          (if terminal s then (s, sb\<lparr>sb_phase := Stopped\<rparr>)
           else (s, sb\<lparr>sb_phase := Following, sb_out := sb_out sb @ [Heartbeat]\<rparr>))
      | Stopped \<Rightarrow> (s, sb))"

subsection \<open>What the buffer holds\<close>

fun durable_positions :: "nat \<Rightarrow> stream_event list \<Rightarrow> nat list" where
  "durable_positions n [] = []"
| "durable_positions n (e # es) =
     (if ev_seq e = None then durable_positions (Suc n) es else n # durable_positions (Suc n) es)"

definition seqs :: "stream_event list \<Rightarrow> int list" where
  "seqs es = List.map_filter ev_seq es"

text \<open>
  The index lists the positions of the durable events, and their sequence numbers are all the
  numbers from the last evicted one to the next one, in order.
\<close>

definition stream_ok :: "run_stream \<Rightarrow> bool" where
  "stream_ok s \<longleftrightarrow>
     rs_durable_index s = durable_positions (rs_dropped s) (rs_events s) \<and>
     seqs (rs_events s) = [rs_evicted_upto s + 1 .. rs_next_seq s - 1] \<and>
     0 \<le> rs_evicted_upto s \<and> rs_evicted_upto s < rs_next_seq s \<and>
     (\<forall>e\<in>set (rs_events s). (ev_seq e \<noteq> None) = (ev_type e \<in> set DURABLE_EVENT_TYPES))"

lemma seqs_simps [simp]:
  "seqs [] = []" "seqs (e # es) = (case ev_seq e of None \<Rightarrow> seqs es | Some n \<Rightarrow> n # seqs es)"
  "seqs (xs @ ys) = seqs xs @ seqs ys"
  by (simp_all add: seqs_def List.map_filter_def split: option.split)

lemma set_seqs: "n \<in> set (seqs es) \<longleftrightarrow> (\<exists>e\<in>set es. ev_seq e = Some n)"
  by (induction es) (auto split: option.splits)

lemma positions_append [simp]:
  "durable_positions n (xs @ ys) = durable_positions n xs @ durable_positions (n + length xs) ys"
  by (induction xs arbitrary: n) auto

lemma length_positions: "length (durable_positions n es) = length (seqs es)"
  by (induction es arbitrary: n) (auto split: option.split)

lemma positions_ge: "p \<in> set (durable_positions n es) \<Longrightarrow> n \<le> p \<and> p < n + length es"
  by (induction es arbitrary: n) (force split: if_splits)+

lemma positions_nth:
  "i < length (seqs es) \<Longrightarrow>
     n \<le> durable_positions n es ! i \<and> durable_positions n es ! i - n < length es \<and>
     ev_seq (es ! (durable_positions n es ! i - n)) = Some (seqs es ! i) \<and>
     length (seqs (take (Suc (durable_positions n es ! i - n)) es)) = Suc i"
proof (induction es arbitrary: n i)
  case (Cons e es)
  show ?case
  proof (cases "ev_seq e")
    case None
    with Cons have "Suc n \<le> durable_positions (Suc n) es ! i \<and>
        durable_positions (Suc n) es ! i - Suc n < length es \<and>
        ev_seq (es ! (durable_positions (Suc n) es ! i - Suc n)) = Some (seqs es ! i) \<and>
        length (seqs (take (Suc (durable_positions (Suc n) es ! i - Suc n)) es)) = Suc i"
      by simp
    moreover from this have "durable_positions (Suc n) es ! i - n = Suc (durable_positions (Suc n) es ! i - Suc n)"
      by arith
    ultimately show ?thesis using None by simp
  next
    case (Some m)
    show ?thesis
    proof (cases i)
      case (Suc j)
      with Some Cons have "Suc n \<le> durable_positions (Suc n) es ! j \<and>
          durable_positions (Suc n) es ! j - Suc n < length es \<and>
          ev_seq (es ! (durable_positions (Suc n) es ! j - Suc n)) = Some (seqs es ! j) \<and>
          length (seqs (take (Suc (durable_positions (Suc n) es ! j - Suc n)) es)) = Suc j"
        by simp
      moreover from this have "durable_positions (Suc n) es ! j - n = Suc (durable_positions (Suc n) es ! j - Suc n)"
        by arith
      ultimately show ?thesis using Some Suc by simp
    qed (simp add: Some)
  qed
qed simp

definition cut_to :: "nat \<Rightarrow> run_stream \<Rightarrow> run_stream" where
  "cut_to k s = s\<lparr>rs_evicted_upto := rs_evicted_upto s + int (length (seqs (take k (rs_events s)))),
                  rs_durable_index := durable_positions (rs_dropped s + k) (drop k (rs_events s)),
                  rs_events := drop k (rs_events s), rs_dropped := rs_dropped s + k\<rparr>"

lemma cut_to_simps [simp]:
  "rs_events (cut_to k s) = drop k (rs_events s)" "rs_dropped (cut_to k s) = rs_dropped s + k"
  "rs_next_seq (cut_to k s) = rs_next_seq s" "rs_status (cut_to k s) = rs_status s"
  "rs_run_id (cut_to k s) = rs_run_id s"
  "rs_evicted_upto (cut_to k s) = rs_evicted_upto s + int (length (seqs (take k (rs_events s))))"
  by (simp_all add: cut_to_def)

lemma upto_append:
  assumes "xs @ ys = [a .. b]"
  shows "xs = [a .. a + int (length xs) - 1] \<and> ys = [a + int (length xs) .. b]"
  using assms
proof (induction xs arbitrary: a)
  case (Cons x xs)
  from Cons.prems have "a \<le> b" by (metis append_Cons list.distinct(1) upto_empty not_le)
  with Cons.prems have "x = a" and t: "xs @ ys = [a + 1 .. b]" by (simp_all add: upto_rec1)
  from Cons.IH [OF t] have "xs = [a + 1 .. a + 1 + int (length xs) - 1]" and
    "ys = [a + 1 + int (length xs) .. b]" by blast+
  with \<open>x = a\<close> show ?case by (auto simp: upto_rec1 algebra_simps)
qed simp

lemma seqs_take_drop: "seqs es = seqs (take k es) @ seqs (drop k es)"
  by (metis append_take_drop_id seqs_simps(3))

lemma cut_to_ok:
  assumes "stream_ok s"
  shows "stream_ok (cut_to k s)"
proof -
  from assms have "seqs (take k (rs_events s)) @ seqs (drop k (rs_events s)) =
      [rs_evicted_upto s + 1 .. rs_next_seq s - 1]"
    by (simp add: stream_ok_def flip: seqs_take_drop)
  note u = upto_append [OF this]
  have "int (length (seqs (take k (rs_events s)))) \<le> rs_next_seq s - 1 - rs_evicted_upto s"
  proof -
    have "length (seqs (take k (rs_events s))) \<le> length (seqs (rs_events s))"
      by (subst (2) seqs_take_drop [where k = k]) simp
    with assms show ?thesis by (simp add: stream_ok_def le_nat_iff)
  qed
  with assms u show ?thesis
    by (auto simp: stream_ok_def cut_to_def algebra_simps dest: in_set_dropD)
qed

lemma positions_drop:
  "durable_positions (n + k) (drop k es) = drop (length (seqs (take k es))) (durable_positions n es)"
  if "k \<le> length es"
proof -
  have "durable_positions n es = durable_positions n (take k es) @ durable_positions (n + k) (drop k es)"
    using positions_append [of n "take k es" "drop k es"] that by simp
  then show ?thesis by (simp add: length_positions)
qed

lemma cut_cut:
  assumes "stream_ok s" and "k \<le> length (rs_events s)"
  shows "cut_to j (cut_to k s) = cut_to (k + j) s"
proof -
  have "take (k + j) (rs_events s) = take k (rs_events s) @ take j (drop k (rs_events s))"
    by (simp add: take_add)
  then show ?thesis
    by (simp add: cut_to_def algebra_simps)
qed

lemma seqs_nth:
  assumes "stream_ok s" and "i < length (seqs (rs_events s))"
  shows "seqs (rs_events s) ! i = rs_evicted_upto s + 1 + int i"
proof -
  from assms have u: "seqs (rs_events s) = [rs_evicted_upto s + 1 .. rs_next_seq s - 1]"
    by (simp add: stream_ok_def)
  with assms(2) show ?thesis by (simp add: nth_upto)
qed

lemma trim_durable_cut:
  assumes ok: "stream_ok s"
  shows "\<exists>k\<le>length (rs_events s). trim_durable limit s = cut_to k s \<and>
     (0 < limit \<longrightarrow> length (seqs (drop k (rs_events s))) \<le> nat limit) \<and>
     (k = 0 \<or> drop k (rs_events s) \<noteq> [])"
proof (cases "0 < limit \<and> 0 < length (rs_durable_index s) - nat limit")
  case True
  define i where "i = length (rs_durable_index s) - nat limit - 1"
  define p where "p = rs_durable_index s ! i"
  let ?es = "rs_events s" and ?d = "rs_dropped s"
  from ok have ix: "rs_durable_index s = durable_positions ?d ?es" by (simp add: stream_ok_def)
  from True have i: "i < length (seqs ?es)" by (auto simp: i_def ix length_positions)
  from positions_nth [OF i, of ?d]
  have p: "?d \<le> p" "p - ?d < length ?es" "ev_seq (?es ! (p - ?d)) = Some (seqs ?es ! i)"
    "length (seqs (take (Suc (p - ?d)) ?es)) = Suc i"
    by (simp_all add: p_def ix)
  define k where "k = Suc (p - ?d)"
  from p(1,2) have k: "k \<le> length ?es" "p + 1 - ?d = k" "p + 1 = ?d + k" by (auto simp: k_def)
  from True have n: "length (rs_durable_index s) - nat limit = Suc i" unfolding i_def by arith
  have up: "with_seq (?es ! (p - ?d)) (rs_evicted_upto s) = rs_evicted_upto s + int (Suc i)"
    using seqs_nth [OF ok i] by (simp add: with_seq_def p(3))
  have pi: "rs_durable_index s ! (Suc i - 1) = p"
    by (simp add: p_def)
  have "trim_durable limit s =
      s\<lparr>rs_evicted_upto := with_seq (?es ! (p - ?d)) (rs_evicted_upto s),
        rs_durable_index := drop (Suc i) (rs_durable_index s),
        rs_events := drop k ?es, rs_dropped := ?d + k\<rparr>"
    using True by (simp only: trim_durable_def Let_def pi n k(2) simp_thms if_True flip: k(3))
  also have "\<dots> = cut_to k s"
    using p(4) positions_drop [OF k(1), of ?d] by (simp add: cut_to_def up ix k_def)
  finally have "trim_durable limit s = cut_to k s" .
  moreover have "length (seqs (drop k ?es)) = nat limit"
  proof -
    have "length (seqs ?es) = Suc i + length (seqs (drop k ?es))"
      using p(4) by (subst seqs_take_drop [where k = k]) (simp add: k_def)
    with n True show ?thesis by (simp add: ix length_positions)
  qed
  moreover have "drop k ?es \<noteq> []"
  proof
    assume "drop k ?es = []"
    then have "length (seqs (drop k ?es)) = 0" by simp
    with \<open>length (seqs (drop k ?es)) = nat limit\<close> True show False by linarith
  qed
  ultimately show ?thesis using k(1) by (intro exI [of _ k]) simp
next
  case False
  from ok have "cut_to 0 s = s" by (simp add: cut_to_def stream_ok_def)
  moreover from False have "trim_durable limit s = s" by (auto simp: trim_durable_def Let_def)
  moreover from False ok have "0 < limit \<longrightarrow> length (seqs (rs_events s)) \<le> nat limit"
    by (auto simp: stream_ok_def length_positions)
  ultimately show ?thesis by (intro exI [of _ 0]) simp
qed

lemma evict_below_spec:
  "k \<le> length es \<Longrightarrow>
     evict_below (d + length pre + k) d (pre @ es) (durable_positions (d + length pre) es) m =
       (durable_positions (d + length pre + k) (drop k es), fold with_seq (take k es) m)"
proof (induction es arbitrary: pre k m)
  case (Cons e es)
  show ?case
  proof (cases k)
    case 0
    from positions_ge [of _ "Suc (d + length pre)" es]
    have "durable_positions (Suc (d + length pre)) es = a # l \<Longrightarrow> \<not> a < d + length pre" for a l
      by fastforce
    with 0 show ?thesis
      by (cases "durable_positions (Suc (d + length pre)) es") (simp_all split: if_splits)
  next
    case (Suc j)
    from Suc Cons.prems have "j \<le> length es" by simp
    note ih = Cons.IH [OF this, of "pre @ [e]" "with_seq e m"]
    from Suc ih show ?thesis by (cases "ev_seq e") (simp_all add: with_seq_def)
  qed
qed simp

lemma fold_with_seq:
  "\<lbrakk>seqs es = [a + 1 .. b]; a \<le> b\<rbrakk> \<Longrightarrow> fold with_seq es a = a + int (length (seqs es))"
proof (induction es arbitrary: a)
  case (Cons e es)
  show ?case
  proof (cases "ev_seq e")
    case (Some n)
    with Cons.prems have c: "n # seqs es = [a + 1 .. b]" by simp
    then have l: "a + 1 \<le> b" by (metis list.distinct(1) upto_empty not_le)
    with c have "n = a + 1" "seqs es = [(a + 1) + 1 .. b]" by (simp_all add: upto_rec1)
    with Cons.IH [of "a + 1"] l Some show ?thesis by (simp add: with_seq_def)
  qed (use Cons in \<open>simp add: with_seq_def\<close>)
qed simp

lemma trim_events_cut:
  assumes ok: "stream_ok s"
  shows "\<exists>k\<le>length (rs_events s). trim_events m s = cut_to k s \<and>
     (m \<noteq> 0 \<longrightarrow> length (drop k (rs_events s)) \<le> m) \<and> (k = 0 \<or> drop k (rs_events s) \<noteq> [])"
proof (cases "m \<noteq> 0 \<and> m < length (rs_events s)")
  case True
  let ?es = "rs_events s" and ?k = "length (rs_events s) - m"
  from ok have ix: "rs_durable_index s = durable_positions (rs_dropped s) ?es" by (simp add: stream_ok_def)
  have k: "?k \<le> length ?es" by simp
  from ok have "seqs (take ?k ?es) @ seqs (drop ?k ?es) = [rs_evicted_upto s + 1 .. rs_next_seq s - 1]"
    by (simp add: stream_ok_def flip: seqs_take_drop)
  from conjunct1 [OF upto_append [OF this]]
  have "fold with_seq (take ?k ?es) (rs_evicted_upto s) =
      rs_evicted_upto s + int (length (seqs (take ?k ?es)))"
    by (intro fold_with_seq [of _ _ "rs_evicted_upto s + int (length (seqs (take ?k ?es)))"]) simp_all
  with True evict_below_spec [OF k, of "rs_dropped s" "[]"]
  have "trim_events m s = cut_to ?k s"
    by (simp add: trim_events_def Let_def ix cut_to_def)
  moreover from True have "\<not> length ?es \<le> ?k" by arith
  ultimately show ?thesis using True by (intro exI [of _ ?k]) simp
next
  case False
  from ok have "cut_to 0 s = s" by (simp add: cut_to_def stream_ok_def)
  with False show ?thesis by (intro exI [of _ 0]) (auto simp: trim_events_def)
qed

lemma length_seqs_drop: "length (seqs (drop j es)) \<le> length (seqs es)"
  by (subst (2) seqs_take_drop [where k = j]) simp

lemma trim_cut:
  assumes ok: "stream_ok s"
  obtains k where "k \<le> length (rs_events s)" "trim bc s = cut_to k s"
    "0 < bc_buffer_size bc \<longrightarrow> length (seqs (drop k (rs_events s))) \<le> nat (bc_buffer_size bc)"
    "bc_max_events bc \<noteq> 0 \<longrightarrow> length (rs_events s) - k \<le> bc_max_events bc"
    "k = 0 \<or> k < length (rs_events s)"
proof -
  from trim_durable_cut [OF ok, of "bc_buffer_size bc"] obtain k where k: "k \<le> length (rs_events s)"
    "trim_durable (bc_buffer_size bc) s = cut_to k s"
    "0 < bc_buffer_size bc \<longrightarrow> length (seqs (drop k (rs_events s))) \<le> nat (bc_buffer_size bc)"
    "k = 0 \<or> drop k (rs_events s) \<noteq> []" by blast
  from trim_events_cut [OF cut_to_ok [OF ok, of k], of "bc_max_events bc"] obtain j where
    "j \<le> length (rs_events (cut_to k s))"
    and j2: "trim_events (bc_max_events bc) (cut_to k s) = cut_to j (cut_to k s)"
    and "bc_max_events bc \<noteq> 0 \<longrightarrow> length (drop j (rs_events (cut_to k s))) \<le> bc_max_events bc"
    and ne: "j = 0 \<or> drop j (rs_events (cut_to k s)) \<noteq> []"
    by blast
  then have j: "j \<le> length (rs_events s) - k"
    "bc_max_events bc \<noteq> 0 \<longrightarrow> length (rs_events s) - (k + j) \<le> bc_max_events bc"
    by (simp_all add: add.commute)
  have le: "length (seqs (drop (k + j) (rs_events s))) \<le> length (seqs (drop k (rs_events s)))"
    using length_seqs_drop [of j "drop k (rs_events s)"] by (simp add: add.commute)
  have size: "0 < bc_buffer_size bc \<longrightarrow>
      length (seqs (drop (k + j) (rs_events s))) \<le> nat (bc_buffer_size bc)"
    using k(3) le le_trans by blast
  have cut: "trim bc s = cut_to (k + j) s"
    by (simp add: trim_def k(2) j2 cut_cut [OF ok k(1)])
  have len: "k + j \<le> length (rs_events s)" using k(1) j(1) by linarith
  have pos: "k + j = 0 \<or> k + j < length (rs_events s)"
  proof (cases "j = 0")
    case False
    with ne have "drop j (drop k (rs_events s)) \<noteq> []" by simp
    then show ?thesis by (simp add: add.commute)
  qed (use k(4) in auto)
  show ?thesis by (rule that [OF len cut size j(2) pos])
qed

subsection \<open>Emission keeps the buffer exact\<close>

definition push :: "stream_event \<Rightarrow> run_stream \<Rightarrow> run_stream" where
  "push e s = s\<lparr>rs_next_seq := (if ev_seq e = None then rs_next_seq s else rs_next_seq s + 1),
                rs_events := rs_events s @ [e],
                rs_durable_index := rs_durable_index s @ (if ev_seq e = None then [] else [absolute_index s])\<rparr>"

definition next_event :: "run_stream \<Rightarrow> stream_event \<Rightarrow> bool" where
  "next_event s e \<longleftrightarrow>
     (if ev_type e \<in> set DURABLE_EVENT_TYPES then ev_seq e = Some (rs_next_seq s) else ev_seq e = None)"

lemma push_simps [simp]:
  "rs_events (push e s) = rs_events s @ [e]" "rs_dropped (push e s) = rs_dropped s"
  "rs_evicted_upto (push e s) = rs_evicted_upto s" "rs_status (push e s) = rs_status s"
  "rs_next_seq (push e s) = (if ev_seq e = None then rs_next_seq s else rs_next_seq s + 1)"
  by (simp_all add: push_def)

lemma push_ok: "\<lbrakk>stream_ok s; next_event s e\<rbrakk> \<Longrightarrow> stream_ok (push e s)"
  by (auto simp: stream_ok_def push_def next_event_def absolute_index_def upto_rec2 split: if_splits)

lemma emit_push:
  "emit bc ty data now s = (e, s') \<Longrightarrow>
     next_event s e \<and> s' = trim bc (push e s) \<and> ev_type e = ty \<and> ev_data e = data"
  by (auto simp: emit_def Let_def next_event_def push_def split: if_splits)

lemma emit_delta_push:
  "ty \<in> set DELTA_EVENT_TYPES \<Longrightarrow> \<exists>e. next_event s e \<and> emit_delta bc ty body now s = trim bc (push e s)"
  by (rule exI [of _ "\<lparr>ev_type = ty, ev_data = [(''text'', PStr body)], ev_run_id = rs_run_id s,
        ev_seq = None, ev_ts = now\<rparr>"])
    (auto simp: emit_delta_def next_event_def push_def DELTA_EVENT_TYPES_def DURABLE_EVENT_TYPES_def)

text \<open>One emission: a prefix of the extended buffer is gone.\<close>

lemma trim_push:
  assumes "stream_ok s" and "next_event s e"
  obtains k where "k \<le> Suc (length (rs_events s))" "trim bc (push e s) = cut_to k (push e s)"
    "stream_ok (cut_to k (push e s))"
    "0 < bc_buffer_size bc \<longrightarrow> length (seqs (drop k (rs_events s @ [e]))) \<le> nat (bc_buffer_size bc)"
    "bc_max_events bc \<noteq> 0 \<longrightarrow> length (rs_events s) + 1 - k \<le> bc_max_events bc"
    "k \<le> length (rs_events s)"
proof -
  from trim_cut [OF push_ok [OF assms], of bc] obtain k where k: "k \<le> length (rs_events (push e s))"
    "trim bc (push e s) = cut_to k (push e s)"
    "0 < bc_buffer_size bc \<longrightarrow> length (seqs (drop k (rs_events (push e s)))) \<le> nat (bc_buffer_size bc)"
    "bc_max_events bc \<noteq> 0 \<longrightarrow> length (rs_events (push e s)) - k \<le> bc_max_events bc"
    "k = 0 \<or> k < length (rs_events (push e s))" by blast
  show ?thesis
    by (rule that [OF _ k(2) cut_to_ok [OF push_ok [OF assms]]]) (use k in \<open>auto simp del: seqs_simps drop_append\<close>)
qed

definition fits :: "buffer_conf \<Rightarrow> run_stream \<Rightarrow> bool" where
  "fits bc s \<longleftrightarrow>
     (0 < bc_buffer_size bc \<longrightarrow> length (rs_durable_index s) \<le> nat (bc_buffer_size bc)) \<and>
     (bc_max_events bc \<noteq> 0 \<longrightarrow> length (rs_events s) \<le> bc_max_events bc)"

lemma trim_push_ok:
  assumes "stream_ok s" and "next_event s e"
  shows "stream_ok (trim bc (push e s)) \<and> fits bc (trim bc (push e s))"
proof -
  from trim_push [OF assms, of bc] obtain k where "trim bc (push e s) = cut_to k (push e s)"
    "stream_ok (cut_to k (push e s))"
    "0 < bc_buffer_size bc \<longrightarrow> length (seqs (drop k (rs_events s @ [e]))) \<le> nat (bc_buffer_size bc)"
    "bc_max_events bc \<noteq> 0 \<longrightarrow> length (rs_events s) + 1 - k \<le> bc_max_events bc" by blast
  then show ?thesis by (auto simp: fits_def cut_to_def length_positions)
qed

subsection \<open>A run and one of its subscribers\<close>

text \<open>
  The steps of a history: what the run (or another subscriber) emits, and the steps of the
  subscriber. \<open>sy_slipped\<close> is a ghost: it records that the subscriber passed over a durable event
  in one of the four places where the code lets it.
\<close>

datatype stream_action =
    Emit string pydict int
  | EmitDelta string string int
  | End string pydict int
  | SetStatus string
  | Sub int

record stream_system =
  sy_stream :: run_stream
  sy_sub :: subscriber
  sy_slipped :: bool

definition slips :: "run_stream \<Rightarrow> subscriber \<Rightarrow> bool" where
  "slips s sb \<longleftrightarrow>
     (case sb_phase sb of
        Replaying \<Rightarrow> has_gap s (sb_delivered sb)
      | Indexing \<Rightarrow> sb_delivered sb < rs_next_seq s - 1
      | Following \<Rightarrow> \<not> has_gap s (sb_delivered sb) \<and> sb_index sb < rs_dropped s \<and>
                     sb_delivered sb < rs_next_seq s - 1
      | Waiting \<Rightarrow> \<not> has_gap s (sb_delivered sb) \<and> sb_index sb < rs_dropped s \<and>
                     sb_delivered sb < rs_next_seq s - 1
      | Deciding \<Rightarrow> terminal s \<and> sb_delivered sb < rs_next_seq s - 1
      | _ \<Rightarrow> False)"

definition system_step :: "buffer_conf \<Rightarrow> stream_action \<Rightarrow> stream_system \<Rightarrow> stream_system" where
  "system_step bc a sy =
     (case a of
        Emit ty data now \<Rightarrow> sy\<lparr>sy_stream := snd (emit bc ty data now (sy_stream sy))\<rparr>
      | EmitDelta ty body now \<Rightarrow> sy\<lparr>sy_stream := emit_delta bc ty body now (sy_stream sy)\<rparr>
      | End ty data now \<Rightarrow> sy\<lparr>sy_stream := announce_end bc ty data now (sy_stream sy)\<rparr>
      | SetStatus st \<Rightarrow> sy\<lparr>sy_stream := (sy_stream sy)\<lparr>rs_status := st\<rparr>\<rparr>
      | Sub now \<Rightarrow>
          (let (s, sb) = sub_step bc now (sy_stream sy) (sy_sub sy)
           in \<lparr>sy_stream = s, sy_sub = sb, sy_slipped = (sy_slipped sy \<or> slips (sy_stream sy) (sy_sub sy))\<rparr>))"

fun possible :: "stream_action \<Rightarrow> bool" where
  "possible (EmitDelta ty body now) \<longleftrightarrow> ty \<in> set DELTA_EVENT_TYPES"
| "possible (End ty data now) \<longleftrightarrow> ty \<in> set TERMINAL_EVENT_TYPES"
| "possible _ \<longleftrightarrow> True"

text \<open>A subscriber may open at any time, with any cursor.\<close>

inductive stream_run :: "buffer_conf \<Rightarrow> int \<Rightarrow> run_stream \<Rightarrow> stream_system \<Rightarrow> bool"
  for bc :: buffer_conf and after :: int and s0 :: run_stream where
  opened: "stream_run bc after s0
     \<lparr>sy_stream = s0, sy_sub = new_subscriber async deltas after, sy_slipped = False\<rparr>"
| moved: "\<lbrakk>stream_run bc after s0 sy; possible a\<rbrakk> \<Longrightarrow> stream_run bc after s0 (system_step bc a sy)"

definition items :: "subscriber \<Rightarrow> stream_event set" where
  "items sb = {e. Sent e \<in> set (sb_out sb)} \<union> (case sb_resync sb of None \<Rightarrow> {} | Some e \<Rightarrow> {e})"

text \<open>The durable event \<open>n\<close> was sent, or a resync told the client that it is missing.\<close>

definition announces :: "int \<Rightarrow> stream_event \<Rightarrow> bool" where
  "announces n e \<longleftrightarrow>
     (\<exists>m. ev_seq e = Some m \<and>
        (n = m \<or> ev_type e = RESYNC \<and> n \<le> m \<and> (\<exists>g. dget (ev_data e) ''after'' = PInt g \<and> g < n)))"

definition accounted :: "subscriber \<Rightarrow> int \<Rightarrow> bool" where
  "accounted sb n \<longleftrightarrow> (\<exists>e\<in>items sb. announces n e)"

definition unread_from :: "run_stream \<Rightarrow> subscriber \<Rightarrow> bool" where
  "unread_from s sb \<longleftrightarrow>
     sb_index sb \<le> absolute_index s \<and>
     (rs_evicted_upto s \<le> sb_delivered sb \<longrightarrow>
        (\<forall>n\<in>set (seqs (take (sb_index sb - rs_dropped s) (rs_events s))). n \<le> sb_delivered sb))"

definition sub_ok :: "int \<Rightarrow> run_stream \<Rightarrow> subscriber \<Rightarrow> bool" where
  "sub_ok after s sb \<longleftrightarrow>
     (\<forall>n. after < n \<and> n \<le> sb_delivered sb \<longrightarrow> accounted sb n) \<and>
     after \<le> sb_delivered sb \<and> (sb_delivered sb = after \<or> sb_delivered sb < rs_next_seq s) \<and>
     (sb_phase sb \<noteq> Indexing \<longrightarrow> sb_resync sb = None) \<and>
     (sb_phase sb \<in> {Following, Waiting, Deciding} \<longrightarrow> unread_from s sb)"

lemma set_seqs_drop: "set (seqs (drop k es)) \<subseteq> set (seqs es)"
  by (fastforce simp: set_seqs dest: in_set_dropD)

lemma unread_push:
  assumes "unread_from s sb" and "k \<le> Suc (length (rs_events s))"
  shows "unread_from (cut_to k (push e s)) sb"
proof -
  let ?i = "sb_index sb - rs_dropped s"
  from assms(1) have i: "?i \<le> length (rs_events s)" by (auto simp: unread_from_def absolute_index_def)
  have "take (?i - k) (drop k (rs_events s @ [e])) = drop k (take ?i (rs_events s @ [e]))"
    by (simp only: drop_take)
  also have "\<dots> = drop k (take ?i (rs_events s))" using i by simp
  finally have t: "take (sb_index sb - (rs_dropped s + k)) (drop k (rs_events s @ [e])) =
      drop k (take ?i (rs_events s))" by (simp only: diff_diff_left)
  have "rs_evicted_upto s \<le> rs_evicted_upto (cut_to k (push e s))" by simp
  with assms t set_seqs_drop [of k "take ?i (rs_events s)"] show ?thesis
    unfolding unread_from_def by (auto simp: absolute_index_def simp del: take_append drop_append)
qed

lemma sub_ok_push:
  assumes "sub_ok after s sb" and "k \<le> Suc (length (rs_events s))"
  shows "sub_ok after (cut_to k (push e s)) sb"
  using assms unread_push [OF _ assms(2)] by (auto simp: sub_ok_def)

lemma sub_ok_trim_push:
  assumes "stream_ok s" and "next_event s e" and "sub_ok after s sb"
  shows "sub_ok after (trim bc (push e s)) sb"
  using trim_push [OF assms(1,2), of bc] sub_ok_push [OF assms(3)] by metis

lemma status_ok [simp]: "stream_ok (s\<lparr>rs_status := st\<rparr>) = stream_ok s"
  by (simp add: stream_ok_def)

lemma status_sub_ok [simp]: "sub_ok after (s\<lparr>rs_status := st\<rparr>) sb = sub_ok after s sb"
  by (simp add: sub_ok_def unread_from_def absolute_index_def)

lemma seqs_bounds:
  assumes "stream_ok s" and "n \<in> set (seqs (rs_events s))"
  shows "rs_evicted_upto s < n" and "n < rs_next_seq s"
  using assms by (auto simp: stream_ok_def)

lemma in_seqs: "\<lbrakk>stream_ok s; rs_evicted_upto s < n; n < rs_next_seq s\<rbrakk> \<Longrightarrow> n \<in> set (seqs (rs_events s))"
  by (simp add: stream_ok_def)

lemma highest_seq_bounds:
  "d \<le> highest_seq es d \<and> (\<forall>n\<in>set (seqs es). n \<le> highest_seq es d) \<and>
     (highest_seq es d = d \<or> highest_seq es d \<in> set (seqs es))"
  unfolding highest_seq_def
proof (induction es arbitrary: d)
  case (Cons e es)
  from Cons.IH [of "with_seq e d"] show ?case
    by (cases "ev_seq e") (auto simp: with_seq_def max_def split: if_splits)
qed simp

lemma deliver_fresh_spec:
  assumes "sorted_wrt (<) (seqs es)"
    and "\<forall>e\<in>set es. ev_seq e \<noteq> None \<longrightarrow> ev_type e \<notin> set DELTA_EVENT_TYPES"
    and "deliver_fresh deltas d es = (sent, D, ended)"
  shows "d \<le> D \<and> (D = d \<or> D \<in> set (seqs es)) \<and> (\<not> ended \<longrightarrow> (\<forall>n\<in>set (seqs es). n \<le> D)) \<and>
     (\<forall>n\<in>set (seqs es). d < n \<and> n \<le> D \<longrightarrow> (\<exists>e\<in>set sent. ev_seq e = Some n)) \<and>
     (ended \<longrightarrow> sent \<noteq> [] \<and> ev_type (last sent) \<in> set TERMINAL_EVENT_TYPES)"
  using assms
proof (induction es arbitrary: d sent D ended)
  case (Cons e es)
  have s: "sorted_wrt (<) (seqs es)" using Cons.prems(1) by (auto split: option.splits)
  have t: "\<forall>e\<in>set es. ev_seq e \<noteq> None \<longrightarrow> ev_type e \<notin> set DELTA_EVENT_TYPES"
    using Cons.prems(2) by simp
  note ih = Cons.IH [OF s t]
  show ?case
  proof (cases "ev_seq e")
    case None
    show ?thesis
    proof (cases "ev_type e \<in> set DELTA_EVENT_TYPES \<and> \<not> deltas")
      case True
      with Cons.prems(3) have "deliver_fresh deltas d es = (sent, D, ended)" by simp
      from ih [OF this] None show ?thesis by simp
    next
      case False
      show ?thesis
      proof (cases "ev_type e \<in> set TERMINAL_EVENT_TYPES")
        case True
        with False None Cons.prems(3) have "sent = [e]" "D = d" "ended" by (auto split: if_splits)
        with True None show ?thesis by simp
      next
        case nt: False
        obtain sent' where d: "deliver_fresh deltas d es = (sent', D, ended)" "sent = e # sent'"
          using False None nt Cons.prems(3)
          by (cases "deliver_fresh deltas d es") (auto split: if_splits)
        from ih [OF d(1)] None d(2) show ?thesis by (auto split: if_splits)
      qed
    qed
  next
    case (Some n)
    with Cons.prems(2) have nd: "ev_type e \<notin> set DELTA_EVENT_TYPES" by simp
    from Some Cons.prems(1) have lt: "\<forall>m\<in>set (seqs es). n < m" by simp
    show ?thesis
    proof (cases "n \<le> d")
      case True
      with nd Some Cons.prems(3) have "deliver_fresh deltas d es = (sent, D, ended)" by simp
      from ih [OF this] Some True show ?thesis by auto
    next
      case new: False
      show ?thesis
      proof (cases "ev_type e \<in> set TERMINAL_EVENT_TYPES")
        case True
        with nd Some new Cons.prems(3) have "sent = [e]" "D = n" "ended" by auto
        with True Some new lt show ?thesis by auto
      next
        case False
        obtain sent' where d: "deliver_fresh deltas n es = (sent', D, ended)" "sent = e # sent'"
          using nd Some new False Cons.prems(3) by (cases "deliver_fresh deltas n es") auto
        from ih [OF d(1)] Some d(2) new lt show ?thesis by auto
      qed
    qed
  qed
qed auto

lemma durable_not_delta: "ty \<in> set DURABLE_EVENT_TYPES \<Longrightarrow> ty \<notin> set DELTA_EVENT_TYPES"
  by (auto simp: DURABLE_EVENT_TYPES_def DELTA_EVENT_TYPES_def)

lemma buffered_durable:
  assumes "stream_ok s" and "e \<in> set (rs_events s)" and "ev_seq e = Some n"
  shows "ev_type e \<notin> set DELTA_EVENT_TYPES"
proof -
  from assms have "ev_type e \<in> set DURABLE_EVENT_TYPES"
    unfolding stream_ok_def by (metis option.distinct(1))
  then show ?thesis by (rule durable_not_delta)
qed

lemma accounted_sent: "\<lbrakk>Sent e \<in> set (sb_out sb); ev_seq e = Some n\<rbrakk> \<Longrightarrow> accounted sb n"
  unfolding accounted_def items_def announces_def by blast

lemma accounted_more:
  "\<lbrakk>accounted sb n; items sb \<subseteq> items sb'\<rbrakk> \<Longrightarrow> accounted sb' n"
  unfolding accounted_def by blast

lemma unread_at_end:
  assumes "stream_ok s" and "rs_next_seq s - 1 \<le> sb_delivered sb" and "sb_index sb = absolute_index s"
  shows "unread_from s sb"
  using assms seqs_bounds(2) [OF assms(1)] by (fastforce simp: unread_from_def absolute_index_def)

lemma sub_ok_replaying:
  assumes st: "stream_ok s" and ok: "sub_ok after s sb" and ph: "sb_phase sb = Replaying"
    and gap: "\<not> has_gap s (sb_delivered sb)"
  shows "sub_ok after s (snd (sub_step bc now s sb))"
proof -
  let ?d = "sb_delivered sb"
  define es where "es = replayed_events s ?d"
  define D where "D = highest_seq es ?d"
  define sb' where "sb' = snd (sub_step bc now s sb)"
  have sb': "sb' = sb\<lparr>sb_phase := Following, sb_delivered := D, sb_index := absolute_index s,
      sb_out := sb_out sb @ map Sent es\<rparr>"
    by (simp add: sb'_def sub_step_def ph Let_def es_def D_def)
  have sub: "set (seqs es) \<subseteq> set (seqs (rs_events s))"
    by (auto simp: es_def replayed_events_def set_seqs)
  have all: "e \<in> set es" if "e \<in> set (rs_events s)" "ev_seq e = Some n" "?d < n" for e n
    using that buffered_durable [OF st that(1,2)] by (simp add: es_def replayed_events_def)
  from highest_seq_bounds [of ?d es] have D: "?d \<le> D" "\<forall>n\<in>set (seqs es). n \<le> D"
    "D = ?d \<or> D \<in> set (seqs es)" by (simp_all add: D_def)
  have i: "items sb \<subseteq> items sb'" by (auto simp: items_def sb')
  have "accounted sb' n" if "after < n" "n \<le> D" for n
  proof (cases "n \<le> ?d")
    case True
    with ok that have "accounted sb n" by (simp add: sub_ok_def)
    then show ?thesis using i by (rule accounted_more)
  next
    case False
    with D(3) sub that(2) seqs_bounds(2) [OF st] have "n < rs_next_seq s" by fastforce
    with False gap in_seqs [OF st, of n] obtain e where "e \<in> set (rs_events s)" "ev_seq e = Some n"
      by (auto simp: has_gap_def set_seqs)
    with all [of e n] False show ?thesis by (intro accounted_sent [of e]) (auto simp: sb')
  qed
  moreover have "unread_from s sb'"
  proof -
    have "n \<le> D" if "n \<in> set (seqs (rs_events s))" for n
      using that all D(1,2) by (fastforce simp: set_seqs)
    then show ?thesis by (auto simp: unread_from_def sb' absolute_index_def)
  qed
  moreover have "D = ?d \<or> D < rs_next_seq s" using D(3) sub seqs_bounds(2) [OF st] by blast
  moreover have "sb_phase sb' = Following" "sb_delivered sb' = D" "sb_resync sb' = None"
    using ok ph by (simp_all add: sb' sub_ok_def)
  ultimately show ?thesis
    using ok D(1) unfolding sub_ok_def sb'_def [symmetric] by auto
qed

lemma sub_ok_announcing:
  assumes st: "stream_ok s" and ok: "sub_ok after s sb" and ph: "sb_phase sb = Announcing"
  shows "sub_ok after (fst (sub_step bc now s sb)) (snd (sub_step bc now s sb))"
proof -
  let ?d = "sb_delivered sb"
  obtain e s' where e: "emit bc RESYNC [(''after'', PInt ?d), (''reason'', PStr ''buffer_evicted'')] now s = (e, s')"
    by fastforce
  from emit_push [OF e] have n: "next_event s e" "s' = trim bc (push e s)" "ev_type e = RESYNC"
    "ev_data e = [(''after'', PInt ?d), (''reason'', PStr ''buffer_evicted'')]" by simp_all
  from n(1,3) have q: "ev_seq e = Some (rs_next_seq s)"
    by (simp add: next_event_def RESYNC_def DURABLE_EVENT_TYPES_def)
  from trim_push [OF st n(1), of bc] obtain k where "trim bc (push e s) = cut_to k (push e s)" by blast
  with n(2) q have nx: "rs_next_seq s' = rs_next_seq s + 1" by simp
  define sb' where "sb' = snd (sub_step bc now s sb)"
  have sb': "sb' = sb\<lparr>sb_phase := Indexing, sb_delivered := max ?d (rs_next_seq s), sb_resync := Some e\<rparr>"
    and s': "fst (sub_step bc now s sb) = s'"
    by (simp_all add: sb'_def sub_step_def ph Let_def e with_seq_def q)
  have "accounted sb' n" if "after < n" "n \<le> max ?d (rs_next_seq s)" for n
  proof (cases "n \<le> ?d")
    case True
    with ok that have "accounted sb n" by (simp add: sub_ok_def)
    moreover have "items sb \<subseteq> items sb'" using ok ph by (auto simp: sub_ok_def items_def sb')
    ultimately show ?thesis by (rule accounted_more)
  next
    case False
    with that have "n \<le> rs_next_seq s" by simp
    with False n q show ?thesis by (auto simp: accounted_def items_def sb' announces_def)
  qed
  with ok nx show ?thesis by (auto simp: sub_ok_def sb' s' simp flip: sb'_def)
qed

lemma sub_ok_indexing:
  assumes st: "stream_ok s" and ok: "sub_ok after s sb" and ph: "sb_phase sb = Indexing"
    and slip: "\<not> sb_delivered sb < rs_next_seq s - 1"
  shows "sub_ok after s (snd (sub_step bc now s sb))"
proof -
  define sb' where "sb' = snd (sub_step bc now s sb)"
  have sb': "sb' = sb\<lparr>sb_phase := Following, sb_index := absolute_index s, sb_resync := None,
      sb_out := sb_out sb @ (case sb_resync sb of None \<Rightarrow> [] | Some e \<Rightarrow> [Sent e])\<rparr>"
    by (simp add: sb'_def sub_step_def ph)
  have "items sb' = items sb" by (auto simp: sb' items_def split: option.splits)
  then have a: "accounted sb' n = accounted sb n" for n by (simp add: accounted_def)
  have "unread_from s sb'" by (rule unread_at_end [OF st]) (use slip in \<open>simp_all add: sb'\<close>)
  with ok a show ?thesis by (auto simp: sub_ok_def sb' simp flip: sb'_def)
qed

text \<open>What comes of a snapshot that lost nothing.\<close>

lemma sub_ok_snapshot:
  assumes st: "stream_ok s" and ok: "sub_ok after s sb" and ph: "sb_phase sb \<in> {Following, Waiting}"
    and slip: "\<not> slips s sb"
  shows "sub_ok after s (after_snapshot (follow_snapshot s (sb_delivered sb) (sb_index sb)) sb)"
    and "must_wait s (follow_snapshot s (sb_delivered sb) (sb_index sb)) \<Longrightarrow> ph' \<in> {Following, Waiting, Deciding} \<Longrightarrow>
      sub_ok after s (sb\<lparr>sb_index := snd (snd (follow_snapshot s (sb_delivered sb) (sb_index sb))), sb_phase := ph'\<rparr>)"
proof -
  let ?d = "sb_delivered sb" and ?i = "sb_index sb"
  define snap where "snap = follow_snapshot s ?d ?i"
  from ok ph have u: "unread_from s sb" and r: "sb_resync sb = None" by (auto simp: sub_ok_def)
  have quiet: "sub_ok after s (sb\<lparr>sb_index := snd (snd snap), sb_phase := q\<rparr>)"
    if e: "fst (snd snap) = []" "\<not> fst snap" and "q \<in> {Following, Waiting, Deciding}" for q
  proof -
    have ng: "\<not> ?d < rs_evicted_upto s" using e(2) by (auto simp: snap_def follow_snapshot_def split: if_splits)
    let ?sb = "sb\<lparr>sb_index := snd (snd snap), sb_phase := q\<rparr>"
    have ix: "snd (snd snap) = absolute_index s"
      using ng by (simp add: snap_def follow_snapshot_def)
    have "unread_from s ?sb"
    proof (cases "?i < rs_dropped s")
      case True
      with ph slip ng have "rs_next_seq s - 1 \<le> ?d" by (auto simp: slips_def has_gap_def)
      then show ?thesis by (intro unread_at_end [OF st]) (simp_all add: ix)
    next
      case False
      with e(1) ng have "length (rs_events s) \<le> ?i - rs_dropped s"
        by (simp add: snap_def follow_snapshot_def)
      with u ng show ?thesis by (simp add: unread_from_def ix absolute_index_def)
    qed
    with ok that(3) r show ?thesis by (auto simp: sub_ok_def accounted_def items_def)
  qed
  show "sub_ok after s (sb\<lparr>sb_index := snd (snd (follow_snapshot s ?d ?i)), sb_phase := ph'\<rparr>)"
    if "must_wait s (follow_snapshot s ?d ?i)" "ph' \<in> {Following, Waiting, Deciding}"
    using quiet [OF _ _ that(2)] that(1) by (simp add: must_wait_def snap_def)
  consider (stale) "fst snap" | (empty) "\<not> fst snap" "fst (snd snap) = []"
    | (fresh) "\<not> fst snap" "fst (snd snap) \<noteq> []" by blast
  then show "sub_ok after s (after_snapshot (follow_snapshot s ?d ?i) sb)"
  proof cases
    case stale
    with ok ph r show ?thesis
      by (auto simp: sub_ok_def after_snapshot_def accounted_def items_def split_beta Let_def simp flip: snap_def)
  next
    case empty
    with quiet [of Deciding] show ?thesis
      by (simp add: after_snapshot_def split_beta Let_def flip: snap_def)
  next
    case fresh
    define es where "es = drop (?i - rs_dropped s) (rs_events s)"
    from fresh have ng: "\<not> ?d < rs_evicted_upto s" and ge: "\<not> ?i < rs_dropped s"
      by (auto simp: snap_def follow_snapshot_def split: if_splits)
    then have snap: "snap = (False, es, absolute_index s)" by (simp add: snap_def follow_snapshot_def es_def)
    obtain sent D ended where del: "deliver_fresh (sb_deltas sb) ?d es = (sent, D, ended)"
      by (metis prod_cases3)
    have parts: "seqs (rs_events s) = seqs (take (?i - rs_dropped s) (rs_events s)) @ seqs es"
      by (simp add: es_def flip: seqs_take_drop)
    have "sorted_wrt (<) (seqs (rs_events s))" using st by (simp add: stream_ok_def)
    then have so: "sorted_wrt (<) (seqs es)" by (simp add: parts sorted_wrt_append)
    have nd: "\<forall>e\<in>set es. ev_seq e \<noteq> None \<longrightarrow> ev_type e \<notin> set DELTA_EVENT_TYPES"
      using buffered_durable [OF st] by (auto simp: es_def dest: in_set_dropD)
    note dl = deliver_fresh_spec [OF so nd del]
    define sb' where "sb' = after_snapshot snap sb"
    have sb': "sb' = sb\<lparr>sb_index := absolute_index s, sb_phase := (if ended then Stopped else Following),
        sb_delivered := D, sb_out := sb_out sb @ map Sent sent\<rparr>"
      using fresh(2) by (simp add: sb'_def after_snapshot_def snap del Let_def)
    have i: "items sb \<subseteq> items sb'" by (auto simp: items_def sb')
    have old: "n \<le> ?d" if "n \<in> set (seqs (take (?i - rs_dropped s) (rs_events s)))" for n
      using u ng that by (auto simp: unread_from_def)
    have "accounted sb' n" if "after < n" "n \<le> D" for n
    proof (cases "n \<le> ?d")
      case True
      with ok that have "accounted sb n" by (simp add: sub_ok_def)
      then show ?thesis using i by (rule accounted_more)
    next
      case False
      with dl that have "D \<in> set (seqs (rs_events s))" by (auto simp: parts)
      with that(2) seqs_bounds(2) [OF st] have "n < rs_next_seq s" by fastforce
      with False ng in_seqs [OF st, of n] have "n \<in> set (seqs (rs_events s))" by simp
      with old False have "n \<in> set (seqs es)" by (auto simp: parts)
      moreover from dl have "\<forall>n\<in>set (seqs es). ?d < n \<and> n \<le> D \<longrightarrow> (\<exists>e\<in>set sent. ev_seq e = Some n)"
        by (elim conjE)
      moreover have "?d < n" "n \<le> D" using False that(2) by simp_all
      ultimately obtain e where "e \<in> set sent" "ev_seq e = Some n" by blast
      then show ?thesis by (intro accounted_sent [of e]) (auto simp: sb')
    qed
    moreover have "unread_from s sb'" if e: "\<not> ended"
    proof -
      have "n \<le> D" if "n \<in> set (seqs (rs_events s))" for n
      proof (cases "n \<in> set (seqs es)")
        case True
        with dl e show ?thesis by blast
      next
        case False
        with that have "n \<in> set (seqs (take (?i - rs_dropped s) (rs_events s)))" by (simp add: parts)
        from old [OF this] dl show ?thesis by linarith
      qed
      then show ?thesis by (auto simp: unread_from_def sb' absolute_index_def)
    qed
    moreover have "D = ?d \<or> D < rs_next_seq s"
      using dl seqs_bounds(2) [OF st] by (auto simp: parts)
    moreover have "sb_phase sb' = (if ended then Stopped else Following)" "sb_delivered sb' = D"
      "sb_resync sb' = None" using r by (simp_all add: sb')
    ultimately show ?thesis
      using ok dl unfolding sub_ok_def snap_def [symmetric] sb'_def [symmetric] by auto
  qed
qed

lemma sub_ok_step:
  assumes st: "stream_ok s" and ok: "sub_ok after s sb" and slip: "\<not> slips s sb"
  shows "sub_ok after (fst (sub_step bc now s sb)) (snd (sub_step bc now s sb))"
proof (cases "sb_phase sb")
  case Opening
  with ok show ?thesis by (auto simp: sub_step_def sub_ok_def accounted_def items_def)
next
  case Replaying
  with slip have "\<not> has_gap s (sb_delivered sb)" by (simp add: slips_def)
  with sub_ok_replaying [OF st ok Replaying] show ?thesis by (simp add: sub_step_def Replaying Let_def)
next
  case Announcing
  with sub_ok_announcing [OF st ok] show ?thesis by simp
next
  case Indexing
  with slip have "\<not> sb_delivered sb < rs_next_seq s - 1" by (simp add: slips_def)
  with sub_ok_indexing [OF st ok Indexing] show ?thesis by (simp add: sub_step_def Indexing)
next
  case Following
  with sub_ok_snapshot [OF st ok _ slip] show ?thesis by (simp add: sub_step_def Let_def)
next
  case Waiting
  with sub_ok_snapshot(1) [OF st ok _ slip] show ?thesis by (simp add: sub_step_def)
next
  case Deciding
  with ok show ?thesis
    by (auto simp: sub_step_def sub_ok_def accounted_def items_def unread_from_def)
next
  case Stopped
  with ok show ?thesis by (simp add: sub_step_def)
qed

lemma stream_ok_step: "stream_ok s \<Longrightarrow> stream_ok (fst (sub_step bc now s sb))"
  using trim_push_ok emit_push
  by (fastforce simp: sub_step_def Let_def split: sub_phase.split prod.split)

lemma stream_ok_action:
  assumes "stream_ok (sy_stream sy)" and "possible a"
  shows "stream_ok (sy_stream (system_step bc a sy))"
proof (cases a)
  case (Emit ty data now)
  obtain e s' where e: "emit bc ty data now (sy_stream sy) = (e, s')" by fastforce
  from emit_push [OF e] trim_push_ok [OF assms(1)] show ?thesis by (simp add: system_step_def Emit e)
next
  case (EmitDelta ty body now)
  with emit_delta_push [of ty "sy_stream sy" bc body now] assms trim_push_ok [OF assms(1)]
  show ?thesis by (auto simp: system_step_def)
next
  case (End ty data now)
  obtain e s' where e: "emit bc ty data now ((sy_stream sy)\<lparr>rs_status := terminal_status ty\<rparr>) = (e, s')"
    by fastforce
  from emit_push [OF e] trim_push_ok [of "(sy_stream sy)\<lparr>rs_status := terminal_status ty\<rparr>"] assms(1)
  show ?thesis by (simp add: system_step_def End announce_end_def e)
next
  case (SetStatus st)
  with assms(1) show ?thesis by (simp add: system_step_def)
next
  case (Sub now)
  with stream_ok_step [OF assms(1), of bc now "sy_sub sy"] show ?thesis
    by (simp add: system_step_def split_beta Let_def)
qed

lemma sub_ok_action:
  assumes st: "stream_ok (sy_stream sy)" and ok: "sub_ok after (sy_stream sy) (sy_sub sy)"
    and "possible a" and ns: "\<not> sy_slipped (system_step bc a sy)"
  shows "sub_ok after (sy_stream (system_step bc a sy)) (sy_sub (system_step bc a sy))"
proof (cases a)
  case (Emit ty data now)
  obtain e s' where e: "emit bc ty data now (sy_stream sy) = (e, s')" by fastforce
  from emit_push [OF e] sub_ok_trim_push [OF st _ ok] show ?thesis by (simp add: system_step_def Emit e)
next
  case (EmitDelta ty body now)
  with emit_delta_push [of ty "sy_stream sy" bc body now] assms(3) sub_ok_trim_push [OF st _ ok]
  show ?thesis by (auto simp: system_step_def)
next
  case (End ty data now)
  let ?s = "(sy_stream sy)\<lparr>rs_status := terminal_status ty\<rparr>"
  obtain e s' where e: "emit bc ty data now ?s = (e, s')" by fastforce
  from emit_push [OF e] sub_ok_trim_push [of ?s e after "sy_sub sy" bc] st ok
  show ?thesis by (simp add: system_step_def End announce_end_def e)
next
  case (SetStatus x)
  with ok show ?thesis by (simp add: system_step_def)
next
  case (Sub now)
  with ns have "\<not> slips (sy_stream sy) (sy_sub sy)" by (simp add: system_step_def split_beta Let_def)
  from sub_ok_step [OF st ok this] Sub show ?thesis by (simp add: system_step_def split_beta Let_def)
qed

lemma slipped_stays: "sy_slipped sy \<Longrightarrow> sy_slipped (system_step bc a sy)"
  by (simp add: system_step_def Let_def split_beta split: stream_action.split)

lemma stream_run_inv:
  assumes "stream_run bc after s0 sy" and "stream_ok s0"
  shows "stream_ok (sy_stream sy) \<and> (\<not> sy_slipped sy \<longrightarrow> sub_ok after (sy_stream sy) (sy_sub sy))"
  using assms
proof (induction)
  case (opened async deltas)
  then show ?case by (auto simp: sub_ok_def new_subscriber_def)
next
  case (moved sy a)
  then show ?case using stream_ok_action sub_ok_action slipped_stays by blast
qed

lemma new_stream_ok: "stream_ok (new_stream r)"
  by (simp add: stream_ok_def new_stream_def)

lemma fits_action:
  assumes "stream_ok (sy_stream sy)" and "fits bc (sy_stream sy)" and "possible a"
  shows "fits bc (sy_stream (system_step bc a sy))"
proof (cases a)
  case (Emit ty data now)
  obtain e s' where e: "emit bc ty data now (sy_stream sy) = (e, s')" by fastforce
  from emit_push [OF e] trim_push_ok [OF assms(1)] show ?thesis by (simp add: system_step_def Emit e)
next
  case (EmitDelta ty body now)
  with emit_delta_push [of ty "sy_stream sy" bc body now] assms trim_push_ok [OF assms(1)]
  show ?thesis by (auto simp: system_step_def)
next
  case (End ty data now)
  obtain e s' where e: "emit bc ty data now ((sy_stream sy)\<lparr>rs_status := terminal_status ty\<rparr>) = (e, s')"
    by fastforce
  from emit_push [OF e] trim_push_ok [of "(sy_stream sy)\<lparr>rs_status := terminal_status ty\<rparr>"] assms(1)
  show ?thesis by (simp add: system_step_def End announce_end_def e)
next
  case (SetStatus st)
  with assms(2) show ?thesis by (simp add: system_step_def fits_def)
next
  case (Sub now)
  have "fits bc (fst (sub_step bc now (sy_stream sy) (sy_sub sy)))"
  proof (cases "sb_phase (sy_sub sy) = Announcing")
    case True
    obtain e s' where e: "emit bc RESYNC [(''after'', PInt (sb_delivered (sy_sub sy))),
        (''reason'', PStr ''buffer_evicted'')] now (sy_stream sy) = (e, s')" by fastforce
    from emit_push [OF e] trim_push_ok [OF assms(1)] show ?thesis by (simp add: sub_step_def True e)
  next
    case False
    with assms(2) show ?thesis by (auto simp: sub_step_def Let_def split: sub_phase.split)
  qed
  with Sub show ?thesis by (simp add: system_step_def split_beta Let_def)
qed

lemma stream_run_fits:
  "\<lbrakk>stream_run bc after s0 sy; stream_ok s0; fits bc s0\<rbrakk> \<Longrightarrow> fits bc (sy_stream sy)"
proof (induction rule: stream_run.induct)
  case (moved sy a)
  then show ?case using fits_action [OF conjunct1 [OF stream_run_inv]] by blast
qed simp

lemma new_stream_fits: "fits bc (new_stream r)"
  by (simp add: fits_def new_stream_def)

lemma seqs_filter:
  assumes "\<forall>e\<in>set es. ev_seq e \<noteq> None \<longrightarrow> ev_type e \<notin> set DELTA_EVENT_TYPES"
  shows "seqs (filter (\<lambda>e. ev_type e \<notin> set DELTA_EVENT_TYPES \<and>
      (case ev_seq e of None \<Rightarrow> True | Some n \<Rightarrow> c < n)) es) = filter (\<lambda>n. c < n) (seqs es)"
  using assms by (induction es) (auto split: option.splits)

lemma filter_upto: "a \<le> c + 1 \<Longrightarrow> filter (\<lambda>n. c < n) [a .. b] = [c + 1 .. b]" for a b c :: int
proof (induction a b rule: upto.induct)
  case (1 a b)
  show ?case
  proof (cases "a \<le> b")
    case True
    show ?thesis
    proof (cases "a = c + 1")
      case True
      then have "filter (\<lambda>n. c < n) [a .. b] = [a .. b]" by (intro filter_True) simp
      with True show ?thesis by simp
    next
      case False
      with 1 True show ?thesis by (simp add: upto_rec1 [of a b])
    qed
  qed (use 1 in simp)
qed

lemma replayed_seqs:
  assumes st: "stream_ok s" and "\<not> has_gap s c"
  shows "seqs (replayed_events s c) = [c + 1 .. rs_next_seq s - 1]"
proof -
  have "seqs (replayed_events s c) = filter (\<lambda>n. c < n) (seqs (rs_events s))"
    using buffered_durable [OF st] unfolding replayed_events_def by (intro seqs_filter) auto
  with assms filter_upto [of "rs_evicted_upto s + 1" c "rs_next_seq s - 1"] show ?thesis
    by (simp add: stream_ok_def has_gap_def)
qed

text \<open>
  C20. The replay buffer is exact: in every history of a run, a reconnecting client is told of a gap
  if and only if a durable event after its cursor is no longer buffered, otherwise it is replayed
  exactly the durable events after its cursor, each once and in order; and the buffer stays within
  the two limits it was configured with.
\<close>

theorem replay_buffer_is_exact:
  assumes "stream_run bc after (new_stream r) sy" and "0 \<le> c"
  shows "(has_gap (sy_stream sy) c \<longleftrightarrow>
       (\<exists>n. c < n \<and> n < rs_next_seq (sy_stream sy) \<and> n \<notin> set (seqs (rs_events (sy_stream sy))))) \<and>
     (\<not> has_gap (sy_stream sy) c \<longrightarrow>
       seqs (replayed_events (sy_stream sy) c) = [c + 1 .. rs_next_seq (sy_stream sy) - 1]) \<and>
     (0 < bc_buffer_size bc \<longrightarrow> length (rs_durable_index (sy_stream sy)) \<le> nat (bc_buffer_size bc)) \<and>
     (bc_max_events bc \<noteq> 0 \<longrightarrow> length (rs_events (sy_stream sy)) \<le> bc_max_events bc)"
proof -
  define s where "s = sy_stream sy"
  from stream_run_inv [OF assms(1) new_stream_ok] have st: "stream_ok s" by (simp add: s_def)
  have "has_gap s c \<longleftrightarrow> (\<exists>n. c < n \<and> n < rs_next_seq s \<and> n \<notin> set (seqs (rs_events s)))"
  proof
    assume "has_gap s c"
    with st show "\<exists>n. c < n \<and> n < rs_next_seq s \<and> n \<notin> set (seqs (rs_events s))"
      by (intro exI [of _ "rs_evicted_upto s"]) (simp add: has_gap_def stream_ok_def)
  next
    assume "\<exists>n. c < n \<and> n < rs_next_seq s \<and> n \<notin> set (seqs (rs_events s))"
    then obtain n where "c < n" "n < rs_next_seq s" "n \<notin> set (seqs (rs_events s))" by blast
    with in_seqs [OF st, of n] show "has_gap s c" by (cases "rs_evicted_upto s < n") (auto simp: has_gap_def)
  qed
  moreover from stream_run_fits [OF assms(1) new_stream_ok new_stream_fits] have "fits bc s"
    by (simp add: s_def)
  ultimately show ?thesis using replayed_seqs [OF st, of c] by (simp add: fits_def s_def)
qed

fun run_actions :: "buffer_conf \<Rightarrow> stream_action list \<Rightarrow> stream_system \<Rightarrow> stream_system" where
  "run_actions bc [] sy = sy"
| "run_actions bc (a # as) sy = run_actions bc as (system_step bc a sy)"

definition opened_at :: "run_stream \<Rightarrow> bool \<Rightarrow> int \<Rightarrow> stream_system" where
  "opened_at s async after =
     \<lparr>sy_stream = s, sy_sub = new_subscriber async False after, sy_slipped = False\<rparr>"

lemma stream_run_actions:
  "\<lbrakk>stream_run bc after s0 sy; \<forall>a\<in>set as. possible a\<rbrakk> \<Longrightarrow> stream_run bc after s0 (run_actions bc as sy)"
  by (induction as arbitrary: sy) (auto intro: stream_run.moved)

lemma stream_run_opened: "stream_run bc after s (opened_at s async after)"
  unfolding opened_at_def by (rule stream_run.opened)

definition small_buffer :: buffer_conf where
  "small_buffer = \<lparr>bc_buffer_size = 2, bc_max_events = 4\<rparr>"

definition three_messages :: "stream_action list" where
  "three_messages = [Emit ''run_started'' [] 1, Emit ''user_message'' [] 2, Emit ''assistant_message'' [] 3]"

lemma three_messages_possible [simp]: "\<forall>a\<in>set three_messages. possible a"
  by (simp add: three_messages_def)

lemmas stream_eval = system_step_def emit_def emit_delta_def announce_end_def trim_def trim_durable_def
  trim_events_def with_seq_def absolute_index_def sub_step_def has_gap_def replayed_events_def
  highest_seq_def follow_snapshot_def must_wait_def after_snapshot_def terminal_def slips_def
  new_stream_def new_subscriber_def opened_at_def DURABLE_EVENT_TYPES_def DELTA_EVENT_TYPES_def
  TERMINAL_EVENT_TYPES_def RESYNC_def terminal_status_def small_buffer_def three_messages_def Let_def

theorem replay_buffer_is_exact_witness:
  "has_gap (sy_stream (run_actions small_buffer three_messages (opened_at (new_stream ''r'') True 0))) 0 \<and>
   seqs (replayed_events (sy_stream (run_actions small_buffer three_messages (opened_at (new_stream ''r'') True 0))) 1)
     = [2, 3]"
proof -
  let ?sy = "run_actions small_buffer three_messages (opened_at (new_stream ''r'') True 0)"
  have run: "stream_run small_buffer 0 (new_stream ''r'') ?sy"
    by (intro stream_run_actions stream_run_opened three_messages_possible)
  have e: "rs_next_seq (sy_stream ?sy) = 4" "has_gap (sy_stream ?sy) 0" "\<not> has_gap (sy_stream ?sy) 1"
    by (simp_all add: stream_eval)
  have "[1 + 1 .. 4 - 1] = [2, 3 :: int]" by (simp add: upto_rec1)
  with replay_buffer_is_exact [OF run, of 1] e show ?thesis by simp
qed

text \<open>What was sent lies below the cursor.\<close>

lemma deliver_fresh_below:
  "deliver_fresh deltas d es = (sent, D, ended) \<Longrightarrow> d \<le> D \<and> (\<forall>n\<in>set (seqs sent). n \<le> D)"
proof (induction es arbitrary: d sent D ended)
  case (Cons e es)
  obtain s1 D1 e1 where r1: "deliver_fresh deltas d es = (s1, D1, e1)" by (metis prod_cases3)
  show ?case
  proof (cases "ev_seq e")
    case None
    with Cons.prems r1 Cons.IH [OF r1] show ?thesis by (auto split: if_splits)
  next
    case (Some n)
    obtain s2 D2 e2 where r2: "deliver_fresh deltas n es = (s2, D2, e2)" by (metis prod_cases3)
    from Cons.prems Some r1 r2 Cons.IH [OF r1] Cons.IH [OF r2] show ?thesis
      by (auto split: if_splits)
  qed
qed simp

definition sent_seqs :: "subscriber \<Rightarrow> int set" where
  "sent_seqs sb = {n. \<exists>e\<in>items sb. ev_seq e = Some n}"

lemma after_snapshot_below:
  assumes "\<forall>n\<in>sent_seqs sb. n \<le> sb_delivered sb"
  shows "\<forall>n\<in>sent_seqs (after_snapshot snap sb). n \<le> sb_delivered (after_snapshot snap sb)"
proof -
  obtain stale fresh index where snap: "snap = (stale, fresh, index)" by (metis prod_cases3)
  obtain sent D ended where d: "deliver_fresh (sb_deltas sb) (sb_delivered sb) fresh = (sent, D, ended)"
    by (metis prod_cases3)
  from deliver_fresh_below [OF d] assms show ?thesis
    by (auto simp: after_snapshot_def snap d Let_def sent_seqs_def items_def set_seqs)
qed

lemma sub_step_below:
  assumes "\<forall>n\<in>sent_seqs sb. n \<le> sb_delivered sb"
  shows "\<forall>n\<in>sent_seqs (snd (sub_step bc now s sb)). n \<le> sb_delivered (snd (sub_step bc now s sb))"
proof (cases "sb_phase sb")
  case Replaying
  from highest_seq_bounds [of "sb_delivered sb" "replayed_events s (sb_delivered sb)"] assms show ?thesis
    by (auto simp: sub_step_def Replaying Let_def sent_seqs_def items_def set_seqs)
next
  case Announcing
  obtain e s' where e: "emit bc RESYNC [(''after'', PInt (sb_delivered sb)),
      (''reason'', PStr ''buffer_evicted'')] now s = (e, s')" by fastforce
  from assms show ?thesis
    by (auto simp: sub_step_def Announcing e with_seq_def sent_seqs_def items_def split: option.splits)
next
  case Following
  with assms after_snapshot_below [OF assms] show ?thesis
    by (auto simp: sub_step_def Let_def sent_seqs_def items_def)
next
  case Waiting
  with after_snapshot_below [OF assms] show ?thesis by (simp add: sub_step_def)
qed (use assms in \<open>auto simp: sub_step_def sent_seqs_def items_def split: option.splits\<close>)

lemma stream_run_below:
  "stream_run bc after s0 sy \<Longrightarrow> \<forall>n\<in>sent_seqs (sy_sub sy). n \<le> sb_delivered (sy_sub sy)"
proof (induction rule: stream_run.induct)
  case (opened async deltas)
  then show ?case by (simp add: sent_seqs_def items_def new_subscriber_def)
next
  case (moved sy a)
  with sub_step_below [OF moved.IH] show ?case
    by (cases a) (auto simp: system_step_def split_beta Let_def)
qed

text \<open>
  C6. No silent gap: however the run and its subscriber interleave, as long as the subscriber did
  not pass over a durable event in one of the four places of \<open>slips\<close>, every durable event after the
  client's cursor and up to the newest one it was sent either was sent as well or is covered by a
  resync that was sent.
\<close>

theorem no_silent_gap:
  assumes "stream_run bc after (new_stream r) sy" and "\<not> sy_slipped sy"
    and "Sent e \<in> set (sb_out (sy_sub sy))" and "ev_seq e = Some m" and "after < n" and "n \<le> m"
  shows "accounted (sy_sub sy) n"
proof -
  from assms(3,4) have "m \<in> sent_seqs (sy_sub sy)" by (auto simp: sent_seqs_def items_def)
  with stream_run_below [OF assms(1)] have "m \<le> sb_delivered (sy_sub sy)" by blast
  with stream_run_inv [OF assms(1) new_stream_ok] assms(2,5,6) show ?thesis by (simp add: sub_ok_def)
qed

definition late_subscription :: "stream_action list" where
  "late_subscription = three_messages @ [Sub 4, Sub 5, Sub 6]"

text \<open>A client that comes after the first event was evicted gets a resync over all three.\<close>

theorem no_silent_gap_witness:
  "accounted (sy_sub (run_actions small_buffer late_subscription (opened_at (new_stream ''r'') True 0))) 2"
proof -
  let ?sy = "run_actions small_buffer late_subscription (opened_at (new_stream ''r'') True 0)"
  have run: "stream_run small_buffer 0 (new_stream ''r'') ?sy"
    by (intro stream_run_actions stream_run_opened) (simp add: late_subscription_def three_messages_def)
  have o: "sb_out (sy_sub ?sy) = [Sent \<lparr>ev_type = ''resync'', ev_data = [(''after'', PInt 0),
        (''reason'', PStr ''buffer_evicted'')], ev_run_id = ''r'', ev_seq = Some 4, ev_ts = 5\<rparr>]"
    by (simp add: stream_eval late_subscription_def)
  have s: "\<not> sy_slipped ?sy"
    by (simp add: stream_eval late_subscription_def)
  let ?e = "\<lparr>ev_type = ''resync'', ev_data = [(''after'', PInt 0), (''reason'', PStr ''buffer_evicted'')],
      ev_run_id = ''r'', ev_seq = Some 4, ev_ts = 5\<rparr>"
  from no_silent_gap [OF run s, of ?e 4 2] o show ?thesis by simp
qed

subsection \<open>A subscriber of an ended run\<close>

definition quiet_step :: "buffer_conf \<Rightarrow> int \<Rightarrow> stream_system \<Rightarrow> stream_system" where
  "quiet_step bc now = system_step bc (Sub now)"

definition stops_in :: "buffer_conf \<Rightarrow> int \<Rightarrow> nat \<Rightarrow> stream_system \<Rightarrow> bool" where
  "stops_in bc now k sy \<longleftrightarrow> sb_phase (sy_sub ((quiet_step bc now ^^ k) sy)) = Stopped"

lemma stops_step: "stops_in bc now k (quiet_step bc now sy) \<Longrightarrow> stops_in bc now (Suc k) sy"
  by (simp add: stops_in_def funpow_swap1)

lemma stops_now: "sb_phase (sy_sub sy) = Stopped \<Longrightarrow> stops_in bc now k sy"
proof (induction k arbitrary: sy)
  case (Suc k)
  then show ?case
    by (intro stops_step) (simp add: quiet_step_def system_step_def sub_step_def)
qed (simp add: stops_in_def)

lemma stops_mono: "\<lbrakk>stops_in bc now k sy; k \<le> k'\<rbrakk> \<Longrightarrow> stops_in bc now k' sy"
proof (induction k arbitrary: sy k')
  case 0
  then show ?case using stops_now by (simp add: stops_in_def)
next
  case (Suc k)
  from Suc.prems(1) have "stops_in bc now k (quiet_step bc now sy)" by (simp add: stops_in_def funpow_swap1)
  from Suc.prems(2) obtain j where "k' = Suc j" "k \<le> j" by (cases k') auto
  with Suc.IH [OF \<open>stops_in bc now k (quiet_step bc now sy)\<close>] stops_step show ?case by blast
qed

lemma stops_deciding:
  "\<lbrakk>sb_phase (sy_sub sy) = Deciding; terminal (sy_stream sy)\<rbrakk> \<Longrightarrow> stops_in bc now 1 sy"
  by (simp add: stops_in_def quiet_step_def system_step_def sub_step_def)

lemma quiet_snapshot:
  assumes "sb_phase (sy_sub sy) \<in> {Following, Waiting}" and "terminal (sy_stream sy)"
  shows "sy_stream (quiet_step bc now sy) = sy_stream sy"
    and "sy_sub (quiet_step bc now sy) = after_snapshot
       (follow_snapshot (sy_stream sy) (sb_delivered (sy_sub sy)) (sb_index (sy_sub sy))) (sy_sub sy)"
  using assms by (auto simp: quiet_step_def system_step_def sub_step_def must_wait_def Let_def)

lemma stops_nothing_new:
  assumes "sb_phase (sy_sub sy) \<in> {Following, Waiting}" and "terminal (sy_stream sy)"
    and "\<not> has_gap (sy_stream sy) (sb_delivered (sy_sub sy))"
    and "sb_index (sy_sub sy) < rs_dropped (sy_stream sy) \<or> absolute_index (sy_stream sy) \<le> sb_index (sy_sub sy)"
  shows "stops_in bc now 2 sy"
proof -
  from assms(3,4) have "follow_snapshot (sy_stream sy) (sb_delivered (sy_sub sy)) (sb_index (sy_sub sy)) =
      (False, [], absolute_index (sy_stream sy))"
    by (auto simp: follow_snapshot_def has_gap_def absolute_index_def)
  with quiet_snapshot [OF assms(1,2), of bc now]
  have "sb_phase (sy_sub (quiet_step bc now sy)) = Deciding" "terminal (sy_stream (quiet_step bc now sy))"
    using assms(2) by (simp_all add: after_snapshot_def)
  from stops_step [OF stops_deciding [OF this]] show ?thesis by (simp add: numeral_2_eq_2)
qed

lemma stops_no_gap:
  assumes "sb_phase (sy_sub sy) \<in> {Following, Waiting}" and "terminal (sy_stream sy)"
    and "\<not> has_gap (sy_stream sy) (sb_delivered (sy_sub sy))"
  shows "stops_in bc now 3 sy"
proof (cases "sb_index (sy_sub sy) < rs_dropped (sy_stream sy) \<or>
    absolute_index (sy_stream sy) \<le> sb_index (sy_sub sy)")
  case True
  from stops_nothing_new [OF assms True] show ?thesis by (rule stops_mono) simp
next
  case False
  let ?s = "sy_stream sy" and ?sb = "sy_sub sy"
  define es where "es = drop (sb_index ?sb - rs_dropped ?s) (rs_events ?s)"
  from False assms(3) have f: "follow_snapshot ?s (sb_delivered ?sb) (sb_index ?sb) =
      (False, es, absolute_index ?s)" "es \<noteq> []"
    by (auto simp: follow_snapshot_def has_gap_def absolute_index_def es_def)
  obtain sent D ended where d: "deliver_fresh (sb_deltas ?sb) (sb_delivered ?sb) es = (sent, D, ended)"
    by (metis prod_cases3)
  define sy' where "sy' = quiet_step bc now sy"
  from quiet_snapshot [OF assms(1,2), of bc now] f d
  have s': "sy_stream sy' = ?s" "sb_phase (sy_sub sy') = (if ended then Stopped else Following)"
    "sb_delivered (sy_sub sy') = D" "sb_index (sy_sub sy') = absolute_index ?s"
    by (simp_all add: sy'_def after_snapshot_def)
  from deliver_fresh_below [OF d] assms(3) have "\<not> has_gap ?s D" by (simp add: has_gap_def)
  then have "stops_in bc now 2 sy'"
    using stops_nothing_new [of sy' bc now] stops_now [of sy' bc now 2] s' assms(2) by (cases ended) simp_all
  from stops_step [OF this [unfolded sy'_def]] show ?thesis by (simp add: numeral_3_eq_3 numeral_2_eq_2)
qed

lemma stops_indexing_no_gap:
  assumes "sb_phase (sy_sub sy) = Indexing" and "terminal (sy_stream sy)"
    and "\<not> has_gap (sy_stream sy) (sb_delivered (sy_sub sy))"
  shows "stops_in bc now 3 sy"
proof -
  have "stops_in bc now 2 (quiet_step bc now sy)"
    using assms by (intro stops_nothing_new)
      (simp_all add: quiet_step_def system_step_def sub_step_def absolute_index_def)
  from stops_step [OF this] show ?thesis by (simp add: numeral_3_eq_3 numeral_2_eq_2)
qed

lemma stops_announcing:
  assumes "sb_phase (sy_sub sy) = Announcing" and "terminal (sy_stream sy)" and "stream_ok (sy_stream sy)"
  shows "stops_in bc now 4 sy"
proof -
  let ?s = "sy_stream sy" and ?sb = "sy_sub sy"
  obtain e s' where e: "emit bc RESYNC [(''after'', PInt (sb_delivered ?sb)),
      (''reason'', PStr ''buffer_evicted'')] now ?s = (e, s')" by fastforce
  from emit_push [OF e] have n: "next_event ?s e" "s' = trim bc (push e ?s)" "ev_type e = RESYNC" by simp_all
  then have q: "ev_seq e = Some (rs_next_seq ?s)"
    by (simp add: next_event_def RESYNC_def DURABLE_EVENT_TYPES_def)
  from trim_push [OF assms(3) n(1), of bc] obtain k where
    k: "trim bc (push e ?s) = cut_to k (push e ?s)" "stream_ok (cut_to k (push e ?s))" by blast
  with n(2) q assms(2) have s': "rs_next_seq s' = rs_next_seq ?s + 1" "terminal s'" "stream_ok s'"
    by (simp_all add: terminal_def)
  then have "rs_evicted_upto s' \<le> rs_next_seq ?s" by (simp add: stream_ok_def)
  then have "stops_in bc now 3 (quiet_step bc now sy)"
    using s' by (intro stops_indexing_no_gap)
      (simp_all add: quiet_step_def system_step_def sub_step_def assms(1) e with_seq_def q has_gap_def)
  from stops_step [OF this] show ?thesis by (simp add: eval_nat_numeral)
qed

lemma stops_following:
  assumes "sb_phase (sy_sub sy) \<in> {Following, Waiting}" and "terminal (sy_stream sy)"
    and "stream_ok (sy_stream sy)"
  shows "stops_in bc now 5 sy"
proof (cases "has_gap (sy_stream sy) (sb_delivered (sy_sub sy))")
  case True
  then have "follow_snapshot (sy_stream sy) (sb_delivered (sy_sub sy)) (sb_index (sy_sub sy)) =
      (True, [], sb_index (sy_sub sy))" by (simp add: follow_snapshot_def has_gap_def)
  with quiet_snapshot [OF assms(1,2), of bc now] assms(2,3)
  have "stops_in bc now 4 (quiet_step bc now sy)"
    by (intro stops_announcing) (simp_all add: after_snapshot_def)
  from stops_step [OF this] show ?thesis by (simp add: eval_nat_numeral)
next
  case False
  from stops_no_gap [OF assms(1,2) False] show ?thesis by (rule stops_mono) simp
qed

lemma quiet_replaying:
  assumes "sb_phase (sy_sub sy) = Replaying"
  shows "sy_stream (quiet_step bc now sy) = sy_stream sy"
    and "sb_phase (sy_sub (quiet_step bc now sy)) = Following"
    and "sb_delivered (sy_sub (quiet_step bc now sy)) =
      highest_seq (replayed_events (sy_stream sy) (sb_delivered (sy_sub sy))) (sb_delivered (sy_sub sy))"
  using assms by (simp_all add: quiet_step_def system_step_def sub_step_def Let_def)

lemma stops_in_six:
  assumes t: "terminal (sy_stream sy)" and ok: "stream_ok (sy_stream sy)"
  shows "stops_in bc now 6 sy"
proof -
  let ?s = "sy_stream sy" and ?sb = "sy_sub sy" and ?sy = "quiet_step bc now sy"
  have six: "stops_in bc now 6 sy" if "stops_in bc now 5 ?sy"
    using stops_step [OF that] by (simp add: eval_nat_numeral)
  show ?thesis
  proof (cases "sb_phase ?sb")
    case Opening
    then have s: "sy_stream ?sy = ?s" "sb_delivered (sy_sub ?sy) = sb_delivered ?sb"
      "sb_phase (sy_sub ?sy) = (if has_gap ?s (sb_delivered ?sb) then Announcing else Replaying)"
      by (simp_all add: quiet_step_def system_step_def sub_step_def)
    show ?thesis
    proof (cases "has_gap ?s (sb_delivered ?sb)")
      case True
      have "stops_in bc now 4 ?sy" by (rule stops_announcing) (simp_all only: s True t ok if_True)
      then have "stops_in bc now 5 ?sy" by (rule stops_mono) simp
      then show ?thesis by (rule six)
    next
      case False
      let ?sy2 = "quiet_step bc now ?sy" and ?es = "replayed_events ?s (sb_delivered ?sb)"
      have s2: "sy_stream ?sy2 = ?s" "sb_phase (sy_sub ?sy2) = Following"
        "sb_delivered (sy_sub ?sy2) = highest_seq ?es (sb_delivered ?sb)"
        using quiet_replaying [of ?sy bc now] s False by simp_all
      from False highest_seq_bounds [of "sb_delivered ?sb" ?es]
      have "\<not> has_gap ?s (highest_seq ?es (sb_delivered ?sb))" by (simp add: has_gap_def)
      with stops_no_gap [of ?sy2 bc now] s2 t have "stops_in bc now 3 ?sy2" by simp
      from stops_step [OF this] have "stops_in bc now 4 ?sy" by (simp add: eval_nat_numeral)
      then have "stops_in bc now 5 ?sy" by (rule stops_mono) simp
      then show ?thesis by (rule six)
    qed
  next
    case Announcing
    from stops_announcing [OF Announcing t ok] show ?thesis by (rule stops_mono) simp
  next
    case Deciding
    from stops_deciding [OF Deciding t] show ?thesis by (rule stops_mono) simp
  next
    case Stopped
    then show ?thesis by (rule stops_now)
  next
    case Following
    with stops_following [OF _ t ok, of bc now] have "stops_in bc now 5 sy" by simp
    then show ?thesis by (rule stops_mono) simp
  next
    case Waiting
    with stops_following [OF _ t ok, of bc now] have "stops_in bc now 5 sy" by simp
    then show ?thesis by (rule stops_mono) simp
  next
    case Replaying
    have "stops_in bc now 5 ?sy"
      by (rule stops_following) (simp_all add: quiet_replaying [OF Replaying] t ok)
    then show ?thesis by (rule six)
  next
    case Indexing
    have "stops_in bc now 5 ?sy"
      by (rule stops_following) (simp_all add: quiet_step_def system_step_def sub_step_def Indexing t ok)
    then show ?thesis by (rule six)
  qed
qed

definition ended_well :: "stream_system \<Rightarrow> bool" where
  "ended_well sy \<longleftrightarrow>
     (\<exists>e. sb_out (sy_sub sy) \<noteq> [] \<and> last (sb_out (sy_sub sy)) = Sent e \<and>
        ev_type e \<in> set TERMINAL_EVENT_TYPES) \<or>
     rs_next_seq (sy_stream sy) - 1 \<le> sb_delivered (sy_sub sy)"

lemma snapshot_ends_well:
  assumes "sb_phase sb \<noteq> Stopped" and "sb_phase (after_snapshot snap sb) = Stopped"
  shows "\<exists>e. sb_out (after_snapshot snap sb) \<noteq> [] \<and> last (sb_out (after_snapshot snap sb)) = Sent e \<and>
    ev_type e \<in> set TERMINAL_EVENT_TYPES"
proof -
  have last_terminal: "\<exists>e. sent \<noteq> [] \<and> last (map Sent sent) = Sent e \<and> ev_type e \<in> set TERMINAL_EVENT_TYPES"
    if "deliver_fresh deltas d es = (sent, D, True)" for deltas d es sent D
    using that
  proof (induction es arbitrary: d sent D)
    case (Cons e es)
    obtain s1 D1 e1 where r1: "deliver_fresh deltas d es = (s1, D1, e1)" by (metis prod_cases3)
    show ?case
    proof (cases "ev_seq e")
      case None
      with Cons.prems r1 Cons.IH [of d] show ?thesis by (auto split: if_splits)
    next
      case (Some n)
      obtain s2 D2 e2 where r2: "deliver_fresh deltas n es = (s2, D2, e2)" by (metis prod_cases3)
      from Cons.prems Some r1 r2 Cons.IH [of d] Cons.IH [of n] show ?thesis by (auto split: if_splits)
    qed
  qed simp
  obtain stale fresh index where snap: "snap = (stale, fresh, index)" by (metis prod_cases3)
  obtain sent D ended where d: "deliver_fresh (sb_deltas sb) (sb_delivered sb) fresh = (sent, D, ended)"
    by (metis prod_cases3)
  from assms snap d have "\<not> stale" "fresh \<noteq> []" "ended" by (auto simp: after_snapshot_def Let_def split: if_splits)
  with last_terminal d snap show ?thesis by (simp add: after_snapshot_def)
qed

lemma quiet_stop_ends_well:
  assumes "sb_phase (sy_sub sy) \<noteq> Stopped" and "sb_phase (sy_sub (quiet_step bc now sy)) = Stopped"
    and "terminal (sy_stream sy)" and "\<not> sy_slipped (quiet_step bc now sy)"
  shows "ended_well (quiet_step bc now sy)"
proof (cases "sb_phase (sy_sub sy)")
  case Following
  with assms snapshot_ends_well [OF assms(1)] quiet_snapshot(2) [of sy bc now] show ?thesis
    by (auto simp: ended_well_def)
next
  case Waiting
  with assms snapshot_ends_well [OF assms(1)] quiet_snapshot(2) [of sy bc now] show ?thesis
    by (auto simp: ended_well_def)
next
  case Deciding
  with assms show ?thesis
    by (auto simp: quiet_step_def system_step_def sub_step_def slips_def ended_well_def)
qed (use assms in \<open>auto simp: quiet_step_def system_step_def sub_step_def Let_def split_beta split: if_splits\<close>)

lemma terminal_stays: "terminal (sy_stream sy) \<Longrightarrow> terminal (sy_stream (quiet_step bc now sy))"
  if "stream_ok (sy_stream sy)"
proof -
  assume t: "terminal (sy_stream sy)"
  show ?thesis
  proof (cases "sb_phase (sy_sub sy) = Announcing")
    case True
    obtain e s' where e: "emit bc RESYNC [(''after'', PInt (sb_delivered (sy_sub sy))),
        (''reason'', PStr ''buffer_evicted'')] now (sy_stream sy) = (e, s')" by fastforce
    from emit_push [OF e] have n: "next_event (sy_stream sy) e" "s' = trim bc (push e (sy_stream sy))" by simp_all
    from trim_push [OF that n(1), of bc] obtain k where "trim bc (push e (sy_stream sy)) = cut_to k (push e (sy_stream sy))"
      by blast
    with t n(2) True e show ?thesis
      by (simp add: quiet_step_def system_step_def sub_step_def terminal_def)
  next
    case False
    with t show ?thesis
      by (auto simp: quiet_step_def system_step_def sub_step_def Let_def split_beta split: sub_phase.split)
  qed
qed

lemma slipped_stays_quiet: "sy_slipped sy \<Longrightarrow> sy_slipped ((quiet_step bc now ^^ k) sy)"
  by (induction k) (simp_all add: quiet_step_def slipped_stays)

lemma quiet_ends_well:
  assumes "stream_ok (sy_stream sy)" and "terminal (sy_stream sy)"
    and "sb_phase (sy_sub sy) = Stopped \<longrightarrow> ended_well sy"
    and "\<not> sy_slipped ((quiet_step bc now ^^ k) sy)"
    and "sb_phase (sy_sub ((quiet_step bc now ^^ k) sy)) = Stopped"
  shows "ended_well ((quiet_step bc now ^^ k) sy)"
  using assms
proof (induction k arbitrary: sy)
  case (Suc k)
  let ?sy = "quiet_step bc now sy"
  have ns: "\<not> sy_slipped ?sy" if "\<not> sy_slipped ((quiet_step bc now ^^ j) ?sy)" for j
    using that slipped_stays_quiet by blast
  from Suc.prems(4) have s: "\<not> sy_slipped ((quiet_step bc now ^^ k) ?sy)" by (simp add: funpow_swap1)
  have "sb_phase (sy_sub ?sy) = Stopped \<longrightarrow> ended_well ?sy"
  proof (cases "sb_phase (sy_sub sy) = Stopped")
    case True
    with Suc.prems(3) show ?thesis
      by (simp add: quiet_step_def system_step_def sub_step_def ended_well_def)
  next
    case False
    with quiet_stop_ends_well Suc.prems(2) ns [OF s] show ?thesis by blast
  qed
  with Suc.IH [of ?sy] Suc.prems stream_ok_action [OF Suc.prems(1), of "Sub now" bc]
    terminal_stays [OF Suc.prems(1,2)] show ?case
    by (simp add: funpow_swap1 quiet_step_def)
qed simp

text \<open>
  C33. A subscriber of an ended run comes to an end: once the run has announced its end and nothing
  more is emitted, the stream ends within six steps of the subscriber, wherever it stands; and when
  it passed over nothing, either the last thing it sent is the terminal event or every durable
  event after its cursor was sent or covered by a resync.
\<close>

theorem ended_run_ends_its_streams:
  assumes "stream_run bc after (new_stream r) sy" and "terminal (sy_stream sy)"
    and "sb_phase (sy_sub sy) \<noteq> Stopped"
  shows "sb_phase (sy_sub ((quiet_step bc now ^^ 6) sy)) = Stopped \<and>
     (sy_slipped ((quiet_step bc now ^^ 6) sy) \<or>
      (\<exists>e. sb_out (sy_sub ((quiet_step bc now ^^ 6) sy)) \<noteq> [] \<and>
         last (sb_out (sy_sub ((quiet_step bc now ^^ 6) sy))) = Sent e \<and>
         ev_type e \<in> set TERMINAL_EVENT_TYPES) \<or>
      (\<forall>n. after < n \<and> n < rs_next_seq (sy_stream ((quiet_step bc now ^^ 6) sy)) \<longrightarrow>
         accounted (sy_sub ((quiet_step bc now ^^ 6) sy)) n))"
proof -
  let ?sy = "(quiet_step bc now ^^ 6) sy"
  from stream_run_inv [OF assms(1) new_stream_ok] have st: "stream_ok (sy_stream sy)" by simp
  from stops_in_six [OF assms(2) st] have stop: "sb_phase (sy_sub ?sy) = Stopped" by (simp add: stops_in_def)
  have "stream_run bc after (new_stream r) ((quiet_step bc now ^^ k) sy)" for k
    by (induction k) (auto simp: quiet_step_def intro: assms(1) stream_run.moved)
  from stream_run_inv [OF this new_stream_ok] have ok: "\<not> sy_slipped ?sy \<Longrightarrow> sub_ok after (sy_stream ?sy) (sy_sub ?sy)"
    by blast
  show ?thesis
  proof (cases "sy_slipped ?sy")
    case False
    from quiet_ends_well [OF st assms(2) _ False stop] assms(3) have "ended_well ?sy" by blast
    with stop ok [OF False] show ?thesis unfolding ended_well_def sub_ok_def by fastforce
  qed (simp add: stop)
qed

definition ended_run :: "stream_action list" where
  "ended_run = three_messages @ [End ''run_finished'' [] 4]"

theorem ended_run_ends_its_streams_witness:
  "sb_phase (sy_sub ((quiet_step small_buffer 9 ^^ 6)
     (run_actions small_buffer ended_run (opened_at (new_stream ''r'') True 0)))) = Stopped"
proof -
  let ?sy = "run_actions small_buffer ended_run (opened_at (new_stream ''r'') True 0)"
  have run: "stream_run small_buffer 0 (new_stream ''r'') ?sy"
    by (intro stream_run_actions stream_run_opened)
      (simp add: ended_run_def three_messages_def TERMINAL_EVENT_TYPES_def)
  have "terminal (sy_stream ?sy)" "sb_phase (sy_sub ?sy) \<noteq> Stopped"
    by (simp_all add: stream_eval ended_run_def)
  from ended_run_ends_its_streams [OF run this, of 9] show ?thesis by blast
qed

subsection \<open>Where the code passes over an event\<close>

text \<open>
  A subscriber that fell behind the head of the buffer while only deltas were evicted continues at
  the end of the buffer, past the durable events that are still in it.
\<close>

definition overtaken :: "stream_action list" where
  "overtaken =
     [Sub 0, Sub 0, EmitDelta ''assistant_delta'' ''a'' 1, EmitDelta ''assistant_delta'' ''b'' 1,
      EmitDelta ''assistant_delta'' ''c'' 1, EmitDelta ''assistant_delta'' ''d'' 1,
      End ''run_finished'' [] 2, Sub 3, Sub 3]"

text \<open>
  A slow subscriber loses the end of the run: there is a history in which a subscriber that was
  connected from the first moment stops without having been sent anything, neither the terminal
  event, which is still in the buffer, nor a resync, for either kind of subscriber.
\<close>

theorem slow_subscriber_loses_the_end:
  "\<exists>sy e. stream_run small_buffer 0 (new_stream ''r'') sy \<and> sb_async (sy_sub sy) = async \<and>
     sb_phase (sy_sub sy) = Stopped \<and> sb_out (sy_sub sy) = [] \<and>
     e \<in> set (rs_events (sy_stream sy)) \<and> ev_seq e = Some 1 \<and> ev_type e \<in> set TERMINAL_EVENT_TYPES \<and>
     \<not> has_gap (sy_stream sy) 0"
proof -
  let ?sy = "run_actions small_buffer overtaken (opened_at (new_stream ''r'') async 0)"
  let ?e = "\<lparr>ev_type = ''run_finished'', ev_data = [], ev_run_id = ''r'', ev_seq = Some 1, ev_ts = 2\<rparr>"
  have run: "stream_run small_buffer 0 (new_stream ''r'') ?sy"
    by (intro stream_run_actions stream_run_opened)
      (simp add: overtaken_def TERMINAL_EVENT_TYPES_def DELTA_EVENT_TYPES_def)
  have "sb_async (sy_sub ?sy) = async" "sb_phase (sy_sub ?sy) = Stopped" "sb_out (sy_sub ?sy) = []"
    "?e \<in> set (rs_events (sy_stream ?sy))" "\<not> has_gap (sy_stream ?sy) 0"
    by (simp_all add: stream_eval overtaken_def)
  with run show ?thesis
    by (intro exI [of _ ?sy] exI [of _ ?e]) (simp add: TERMINAL_EVENT_TYPES_def)
qed

text \<open>Between the emission of a resync and the reading of the index an event passes unseen.\<close>

definition resync_window :: "stream_action list" where
  "resync_window = three_messages @ [Sub 4, Sub 5, Emit ''tool_call_started'' [] 6, Sub 7, Sub 8]"

lemma resync_window_loses_event:
  "\<exists>sy. stream_run small_buffer 0 (new_stream ''r'') sy \<and> sb_phase (sy_sub sy) = Following \<and>
     5 \<in> set (seqs (rs_events (sy_stream sy))) \<and> \<not> accounted (sy_sub sy) 5 \<and>
     follow_snapshot (sy_stream sy) (sb_delivered (sy_sub sy)) (sb_index (sy_sub sy)) =
       (False, [], sb_index (sy_sub sy))"
proof -
  let ?sy = "run_actions small_buffer resync_window (opened_at (new_stream ''r'') True 0)"
  have run: "stream_run small_buffer 0 (new_stream ''r'') ?sy"
    by (intro stream_run_actions stream_run_opened) (simp add: resync_window_def three_messages_def)
  have "sb_out (sy_sub ?sy) = [Sent \<lparr>ev_type = ''resync'', ev_data = [(''after'', PInt 0),
        (''reason'', PStr ''buffer_evicted'')], ev_run_id = ''r'', ev_seq = Some 4, ev_ts = 5\<rparr>]"
    "sb_resync (sy_sub ?sy) = None"
    by (simp_all add: stream_eval resync_window_def)
  then have "\<not> accounted (sy_sub ?sy) 5" by (simp add: accounted_def items_def announces_def)
  moreover have "sb_phase (sy_sub ?sy) = Following" "5 \<in> set (seqs (rs_events (sy_stream ?sy)))"
    "follow_snapshot (sy_stream ?sy) (sb_delivered (sy_sub ?sy)) (sb_index (sy_sub ?sy)) =
       (False, [], sb_index (sy_sub ?sy))"
    by (simp_all add: stream_eval resync_window_def)
  ultimately show ?thesis using run by blast
qed

text \<open>
  The synchronous subscriber reads \<open>terminal\<close> after it released the lock: a run that ends in
  between ends the stream without its terminal event.
\<close>

definition terminal_window :: "stream_action list" where
  "terminal_window = [Sub 0, Sub 0, Sub 1, Sub 16, End ''run_finished'' [] 17, Sub 17]"

lemma terminal_window_loses_the_end:
  "\<exists>sy. stream_run small_buffer 0 (new_stream ''r'') sy \<and> \<not> sb_async (sy_sub sy) \<and>
     sb_phase (sy_sub sy) = Stopped \<and> sb_out (sy_sub sy) = [] \<and> seqs (rs_events (sy_stream sy)) = [1]"
proof -
  let ?sy = "run_actions small_buffer terminal_window (opened_at (new_stream ''r'') False 0)"
  have run: "stream_run small_buffer 0 (new_stream ''r'') ?sy"
    by (intro stream_run_actions stream_run_opened) (simp add: terminal_window_def TERMINAL_EVENT_TYPES_def)
  have "\<not> sb_async (sy_sub ?sy)" "sb_phase (sy_sub ?sy) = Stopped" "sb_out (sy_sub ?sy) = []"
    "seqs (rs_events (sy_stream ?sy)) = [1]"
    by (simp_all add: stream_eval terminal_window_def)
  with run show ?thesis by blast
qed

subsection \<open>Heartbeats\<close>

text \<open>
  An idle run: with nothing to send, each of the synchronous subscriber's rounds (snapshot,
  wait, decision) ends in a heartbeat; the asynchronous subscriber, which serves the web clients,
  sends no heartbeat however often its wait times out.
\<close>

theorem idle_stream_heartbeats:
  assumes "\<not> terminal (sy_stream sy)" and "sb_phase (sy_sub sy) = Following"
    and "\<not> has_gap (sy_stream sy) (sb_delivered (sy_sub sy))"
    and "sb_index (sy_sub sy) = absolute_index (sy_stream sy)"
  shows "sb_out (sy_sub ((quiet_step bc now ^^ (if sb_async (sy_sub sy) then k else 3 * k)) sy)) =
     sb_out (sy_sub sy) @ (if sb_async (sy_sub sy) then [] else replicate k Heartbeat)"
proof -
  define idle where "idle sy' \<longleftrightarrow> \<not> terminal (sy_stream sy') \<and> sb_phase (sy_sub sy') = Following \<and>
    \<not> has_gap (sy_stream sy') (sb_delivered (sy_sub sy')) \<and>
    sb_index (sy_sub sy') = absolute_index (sy_stream sy') \<and>
    sb_async (sy_sub sy') = sb_async (sy_sub sy)" for sy' :: stream_system
  have snap: "follow_snapshot (sy_stream x) (sb_delivered (sy_sub x)) (sb_index (sy_sub x)) =
      (False, [], absolute_index (sy_stream x))" if "idle x" for x
    using that by (auto simp: idle_def follow_snapshot_def has_gap_def absolute_index_def)
  show ?thesis
  proof (cases "sb_async (sy_sub sy)")
    case True
    have "idle (quiet_step bc now x) \<and> sb_out (sy_sub (quiet_step bc now x)) = sb_out (sy_sub x)" if "idle x" for x
      using snap [OF that] that True
      by (simp add: idle_def quiet_step_def system_step_def sub_step_def must_wait_def)
    then have "idle ((quiet_step bc now ^^ k) sy) \<and> sb_out (sy_sub ((quiet_step bc now ^^ k) sy)) = sb_out (sy_sub sy)"
      using assms by (induction k) (auto simp: idle_def)
    with True show ?thesis by simp
  next
    case False
    have round: "idle ((quiet_step bc now ^^ 3) x) \<and>
        sb_out (sy_sub ((quiet_step bc now ^^ 3) x)) = sb_out (sy_sub x) @ [Heartbeat]" if "idle x" for x
      using snap [OF that] that False
      by (simp add: numeral_3_eq_3 idle_def quiet_step_def system_step_def sub_step_def must_wait_def
          after_snapshot_def follow_snapshot_def has_gap_def absolute_index_def terminal_def)
    have "idle ((quiet_step bc now ^^ (3 * k)) sy) \<and>
        sb_out (sy_sub ((quiet_step bc now ^^ (3 * k)) sy)) = sb_out (sy_sub sy) @ replicate k Heartbeat"
    proof (induction k)
      case (Suc k)
      from round [OF conjunct1 [OF Suc.IH]] Suc.IH show ?case
        by (simp only: mult_Suc_right funpow_add o_apply) (simp add: replicate_append_same)
    qed (use assms in \<open>simp add: idle_def\<close>)
    with False show ?thesis by simp
  qed
qed

theorem idle_stream_heartbeats_witness:
  "sb_out (sy_sub ((quiet_step small_buffer 9 ^^ 7)
     (run_actions small_buffer [Sub 0, Sub 0] (opened_at (new_stream ''r'') True 0)))) = []"
proof -
  let ?sy = "run_actions small_buffer [Sub 0, Sub 0] (opened_at (new_stream ''r'') True 0)"
  have "\<not> terminal (sy_stream ?sy)" "sb_phase (sy_sub ?sy) = Following"
    "\<not> has_gap (sy_stream ?sy) (sb_delivered (sy_sub ?sy))"
    "sb_index (sy_sub ?sy) = absolute_index (sy_stream ?sy)" "sb_async (sy_sub ?sy)" "sb_out (sy_sub ?sy) = []"
    by (simp_all add: stream_eval)
  with idle_stream_heartbeats [where sy = ?sy and bc = small_buffer and now = 9 and k = 7] show ?thesis by simp
qed

end
