(* ===== verification/Services_Inbox.thy ===== *)
theory Services_Inbox
  imports Attachments
begin

section \<open>The inbox of a session\<close>

text \<open>
  The class \<open>SessionInbox\<close> of \<open>avid/services/inbox.py\<close>: inputs that were received and not adopted
  yet. The instance lock makes every method one step; the new id and the clock are arguments. The
  second half runs the methods as a history with two ghost lists, the ids accepted and the ids that
  left the queue, to state that nothing accepted is ever lost or taken twice.
\<close>

definition MODE_NOW :: string where "MODE_NOW = ''now''"
definition MODE_AFTER :: string where "MODE_AFTER = ''after''"
definition MODES :: "string list" where "MODES = [MODE_NOW, MODE_AFTER]"

lemma modes_differ [simp]: "MODE_NOW \<noteq> MODE_AFTER" "MODE_AFTER \<noteq> MODE_NOW"
  by (simp_all add: MODE_NOW_def MODE_AFTER_def)

record pending_input =
  in_id :: string
  in_mode :: string
  in_content :: pyval
  in_params :: pydict
  in_client_id :: "string option"
  in_created_at :: int
  in_missed :: bool

definition input_to_dict :: "pending_input \<Rightarrow> pydict" where
  "input_to_dict i =
     [(''input_id'', PStr (in_id i)), (''mode'', PStr (in_mode i)),
      (''text'', PStr (render_content_text (in_content i))),
      (''images'', PInt (int (image_count (in_content i)))),
      (''client_id'', case in_client_id i of None \<Rightarrow> PNone | Some c \<Rightarrow> PStr c),
      (''created_at'', PInt (in_created_at i)), (''missed'', PBool (in_missed i))]"

type_synonym inbox = "pending_input list"

text \<open>\<open>None\<close> is the \<open>ValueError\<close> of an unknown mode.\<close>

definition inbox_add ::
  "string \<Rightarrow> int \<Rightarrow> string \<Rightarrow> pyval \<Rightarrow> pydict \<Rightarrow> string option \<Rightarrow> inbox \<Rightarrow>
   (pending_input \<times> inbox) option" where
  "inbox_add fresh now mode content params client box =
     (if mode \<notin> set MODES then None
      else case (if client \<noteq> None \<and> client \<noteq> Some []
                 then find (\<lambda>i. in_client_id i = client) box else None) of
        Some existing \<Rightarrow> Some (existing, box)
      | None \<Rightarrow>
          (let item = \<lparr>in_id = fresh, in_mode = mode, in_content = content, in_params = params,
                       in_client_id = client, in_created_at = now, in_missed = False\<rparr>
           in Some (item, box @ [item])))"

definition inbox_take_steers :: "inbox \<Rightarrow> pending_input list \<times> inbox" where
  "inbox_take_steers box =
     (filter (\<lambda>i. in_mode i = MODE_NOW) box, filter (\<lambda>i. in_mode i \<noteq> MODE_NOW) box)"

fun inbox_take_for_run :: "string \<Rightarrow> inbox \<Rightarrow> pending_input option \<times> inbox" where
  "inbox_take_for_run i [] = (None, [])"
| "inbox_take_for_run i (x # xs) =
     (if in_id x = i then (Some x, xs)
      else let (found, rest) = inbox_take_for_run i xs in (found, x # rest))"

definition downgrade :: "pending_input \<Rightarrow> pending_input" where
  "downgrade i = (if in_mode i = MODE_NOW then i\<lparr>in_mode := MODE_AFTER, in_missed := True\<rparr> else i)"

definition inbox_downgrade_steers :: "inbox \<Rightarrow> pending_input list \<times> inbox" where
  "inbox_downgrade_steers box =
     (map downgrade (filter (\<lambda>i. in_mode i = MODE_NOW) box), map downgrade box)"

definition inbox_restore :: "pending_input \<Rightarrow> inbox \<Rightarrow> inbox" where
  "inbox_restore item box = (if \<forall>x\<in>set box. in_id x \<noteq> in_id item then item # box else box)"

definition inbox_remove :: "string \<Rightarrow> inbox \<Rightarrow> bool \<times> inbox" where
  "inbox_remove i box = (let (found, rest) = inbox_take_for_run i box in (found \<noteq> None, rest))"

definition inbox_empty :: "inbox \<Rightarrow> bool" where
  "inbox_empty box \<longleftrightarrow> box = []"

subsection \<open>Histories\<close>

datatype inbox_event =
    Add string int string pyval pydict "string option"
  | TakeSteers
  | TakeForRun string
  | DowngradeSteers
  | Restore pending_input
  | Remove string

record inbox_history =
  ih_box :: inbox
  ih_accepted :: "string list"
  ih_gone :: "string list"

fun inbox_apply :: "inbox_event \<Rightarrow> inbox_history \<Rightarrow> inbox_history" where
  "inbox_apply (Add fresh now mode content params client) h =
     (case inbox_add fresh now mode content params client (ih_box h) of
        None \<Rightarrow> h
      | Some (item, box) \<Rightarrow>
          h\<lparr>ih_box := box,
            ih_accepted := (if box = ih_box h then ih_accepted h else in_id item # ih_accepted h)\<rparr>)"
| "inbox_apply TakeSteers h =
     (let (taken, box) = inbox_take_steers (ih_box h)
      in h\<lparr>ih_box := box, ih_gone := map in_id taken @ ih_gone h\<rparr>)"
| "inbox_apply (TakeForRun i) h =
     (let (found, box) = inbox_take_for_run i (ih_box h)
      in h\<lparr>ih_box := box, ih_gone := (case found of None \<Rightarrow> [] | Some x \<Rightarrow> [in_id x]) @ ih_gone h\<rparr>)"
| "inbox_apply DowngradeSteers h = h\<lparr>ih_box := snd (inbox_downgrade_steers (ih_box h))\<rparr>"
| "inbox_apply (Restore item) h =
     h\<lparr>ih_box := inbox_restore item (ih_box h), ih_gone := removeAll (in_id item) (ih_gone h)\<rparr>"
| "inbox_apply (Remove i) h =
     (let (found, box) = inbox_remove i (ih_box h)
      in h\<lparr>ih_box := box, ih_gone := (if found then [i] else []) @ ih_gone h\<rparr>)"

text \<open>Ids are fresh, and only an item that was claimed is put back.\<close>

fun inbox_allowed :: "inbox_event \<Rightarrow> inbox_history \<Rightarrow> bool" where
  "inbox_allowed (Add fresh now mode content params client) h \<longleftrightarrow> fresh \<notin> set (ih_accepted h)"
| "inbox_allowed (Restore item) h \<longleftrightarrow> in_id item \<in> set (ih_gone h)"
| "inbox_allowed _ h \<longleftrightarrow> True"

inductive inbox_run :: "inbox_event list \<Rightarrow> inbox_history \<Rightarrow> bool" where
  start: "inbox_run [] \<lparr>ih_box = [], ih_accepted = [], ih_gone = []\<rparr>"
| more: "\<lbrakk>inbox_run evs h; inbox_allowed ev h\<rbrakk> \<Longrightarrow> inbox_run (evs @ [ev]) (inbox_apply ev h)"

definition inbox_inv :: "inbox_history \<Rightarrow> bool" where
  "inbox_inv h \<longleftrightarrow>
     distinct (map in_id (ih_box h)) \<and> distinct (ih_gone h) \<and>
     set (map in_id (ih_box h)) \<inter> set (ih_gone h) = {} \<and>
     set (map in_id (ih_box h)) \<union> set (ih_gone h) = set (ih_accepted h)"

lemma downgrade_id [simp]: "in_id (downgrade i) = in_id i"
  by (simp add: downgrade_def)

lemma take_for_run_spec:
  "inbox_take_for_run i box =
     (find (\<lambda>x. in_id x = i) box,
      takeWhile (\<lambda>x. in_id x \<noteq> i) box @ tl (dropWhile (\<lambda>x. in_id x \<noteq> i) box))"
  by (induction box) auto

lemma take_for_run_id: "fst (inbox_take_for_run i box) = Some x \<Longrightarrow> in_id x = i"
  by (induction box) (auto simp: split_beta split: if_splits)

lemma take_for_run_none: "fst (inbox_take_for_run i box) = None \<Longrightarrow> snd (inbox_take_for_run i box) = box"
  by (induction box) (auto simp: split_beta split: if_splits)

lemma take_for_run_set:
  "in_id ` set box = in_id ` set (snd (inbox_take_for_run i box)) \<union>
     (case fst (inbox_take_for_run i box) of None \<Rightarrow> {} | Some x \<Rightarrow> {in_id x})"
proof (induction box)
  case (Cons x xs)
  then show ?case
    by (cases "fst (inbox_take_for_run i xs)") (simp_all add: split_beta insert_commute)
qed simp

lemma take_for_run_distinct:
  "distinct (map in_id box) \<Longrightarrow> distinct (map in_id (snd (inbox_take_for_run i box)))"
proof (induction box)
  case (Cons x xs)
  then show ?case using take_for_run_set [of xs i] by (auto simp: split_beta)
qed simp

lemma take_for_run_gone:
  "\<lbrakk>distinct (map in_id box); fst (inbox_take_for_run i box) = Some x\<rbrakk>
    \<Longrightarrow> i \<notin> in_id ` set (snd (inbox_take_for_run i box))"
proof (induction box)
  case (Cons y ys)
  then show ?case by (cases "in_id y = i") (auto simp: split_beta)
qed simp

lemma take_for_run_ids:
  assumes "distinct (map in_id box)" and "inbox_take_for_run i box = (found, rest)"
  shows "distinct (map in_id rest)"
    and "set (map in_id box) = set (map in_id rest) \<union> (case found of None \<Rightarrow> {} | Some x \<Rightarrow> {in_id x})"
    and "\<forall>x. found = Some x \<longrightarrow> in_id x = i \<and> i \<notin> set (map in_id rest)"
    and "found = None \<longrightarrow> rest = box"
  using take_for_run_distinct [OF assms(1), of i] take_for_run_set [of box i]
    take_for_run_id [of i box] take_for_run_gone [OF assms(1), of i] take_for_run_none [of i box]
  by (simp_all add: assms(2))

lemma inbox_inv_step:
  assumes "inbox_inv h" and "inbox_allowed ev h"
  shows "inbox_inv (inbox_apply ev h)"
proof (cases ev)
  case (Add fresh now mode content params client)
  then show ?thesis
    using assms
    by (auto simp: inbox_inv_def inbox_add_def Let_def split: option.splits if_splits)
next
  case TakeSteers
  have "in_id ` set (ih_box h) = in_id ` {x \<in> set (ih_box h). in_mode x = MODE_NOW} \<union>
      in_id ` {x \<in> set (ih_box h). in_mode x \<noteq> MODE_NOW}" by blast
  then show ?thesis
    using assms TakeSteers
    by (auto simp: inbox_inv_def inbox_take_steers_def distinct_map_filter distinct_map inj_on_def)
next
  case (TakeForRun i)
  obtain f r where r: "inbox_take_for_run i (ih_box h) = (f, r)" by fastforce
  from assms have d: "distinct (map in_id (ih_box h))" by (simp add: inbox_inv_def)
  show ?thesis
    using assms take_for_run_ids [OF d r] TakeForRun r
    by (cases f) (auto simp: inbox_inv_def)
next
  case DowngradeSteers
  have "map in_id (map downgrade xs) = map in_id xs" for xs by simp
  then show ?thesis
    using assms DowngradeSteers by (simp add: inbox_inv_def inbox_downgrade_steers_def comp_def)
next
  case (Restore item)
  then show ?thesis
    using assms by (auto simp: inbox_inv_def inbox_restore_def distinct_removeAll)
next
  case (Remove i)
  obtain f r where r: "inbox_take_for_run i (ih_box h) = (f, r)" by fastforce
  from assms have d: "distinct (map in_id (ih_box h))" by (simp add: inbox_inv_def)
  show ?thesis
    using assms take_for_run_ids [OF d r] Remove r
    by (cases f) (auto simp: inbox_inv_def inbox_remove_def)
qed

lemma inbox_run_inv: "inbox_run evs h \<Longrightarrow> inbox_inv h"
  by (induction rule: inbox_run.induct) (simp add: inbox_inv_def, rule inbox_inv_step)

subsection \<open>Properties\<close>

text \<open>
  C38. Through every history of the inbox, an accepted input is at each moment in exactly one place:
  still queued, once, or taken out by a claim or removal, once. Nothing is lost, duplicated, or there
  without having been accepted.
\<close>

theorem accepted_input_is_conserved:
  assumes "inbox_run evs h"
  shows "distinct (map in_id (ih_box h)) \<and> distinct (ih_gone h) \<and>
    set (map in_id (ih_box h)) \<inter> set (ih_gone h) = {} \<and>
    set (map in_id (ih_box h)) \<union> set (ih_gone h) = set (ih_accepted h)"
  using inbox_run_inv [OF assms] by (simp add: inbox_inv_def)

definition sample_events :: "inbox_event list" where
  "sample_events = [Add ''in1'' 1 MODE_NOW (PStr ''a'') [] None, Add ''in2'' 2 MODE_AFTER (PStr ''b'') [] None,
     TakeSteers]"

theorem accepted_input_is_conserved_witness:
  "set (map in_id (ih_box (fold inbox_apply sample_events \<lparr>ih_box = [], ih_accepted = [], ih_gone = []\<rparr>)))
     \<union> set (ih_gone (fold inbox_apply sample_events \<lparr>ih_box = [], ih_accepted = [], ih_gone = []\<rparr>)) =
   {''in1'', ''in2''}"
proof -
  let ?h0 = "\<lparr>ih_box = [], ih_accepted = [], ih_gone = []\<rparr>"
  let ?a = "Add ''in1'' 1 MODE_NOW (PStr ''a'') [] None"
  let ?b = "Add ''in2'' 2 MODE_AFTER (PStr ''b'') [] None"
  have "inbox_run ([] @ [?a]) (inbox_apply ?a ?h0)" by (rule more [OF start]) simp
  then have "inbox_run (([] @ [?a]) @ [?b]) (inbox_apply ?b (inbox_apply ?a ?h0))"
    by (rule more) code_simp
  then have r: "inbox_run ((([] @ [?a]) @ [?b]) @ [TakeSteers])
      (inbox_apply TakeSteers (inbox_apply ?b (inbox_apply ?a ?h0)))"
    by (rule more) simp
  have acc: "set (ih_accepted (inbox_apply TakeSteers (inbox_apply ?b (inbox_apply ?a ?h0)))) =
      {''in1'', ''in2''}" by code_simp
  from accepted_input_is_conserved [OF r] acc show ?thesis
    by (simp add: sample_events_def del: inbox_apply.simps)
qed

text \<open>
  When a run ends, every input it was to be steered by stays queued: the ids and their order are
  unchanged, none of them is urgent any more, exactly those that were are marked as missed, and a
  later run is not steered by them.
\<close>

theorem downgrade_loses_nothing:
  "map in_id (snd (inbox_downgrade_steers box)) = map in_id box \<and>
   fst (inbox_take_steers (snd (inbox_downgrade_steers box))) = [] \<and>
   map in_id (fst (inbox_downgrade_steers box)) = map in_id (fst (inbox_take_steers box)) \<and>
   map in_content (snd (inbox_downgrade_steers box)) = map in_content box"
  by (auto simp: inbox_downgrade_steers_def inbox_take_steers_def filter_empty_conv downgrade_def
      comp_def)

end
