(* ===== verification/Services_Runs.thy ===== *)
theory Services_Runs
  imports Services_Stream Services_Inbox Agent_State
begin

section \<open>Runs and their registry\<close>

text \<open>
  The run record and the operations of \<open>RunRegistry\<close> in \<open>avid/services/runs.py\<close> that are one
  critical section or run on one thread, and the command parser of \<open>avid/agent/commands.py\<close>. The
  session store is a world \<open>'e\<close> that the persisting operations change; the result of looking a
  session up, the skills, the model configuration, ids and the clock are arguments. The monotonic
  clock counts whole milliseconds. The usage in the payload of an event is left out, since its
  ratios are floats; the record keeps it. Chinese texts are ASCII stand-ins.
\<close>

definition TITLE_CHARS :: nat where "TITLE_CHARS = 24"

subsection \<open>Titles, parameters\<close>

definition title_text :: "pyval list \<Rightarrow> string" where
  "title_text parts = join_with [CHR 0x0A]
     (List.map_filter (\<lambda>p. case p of
        PDict d \<Rightarrow> if dget d ''type'' = PStr ''text''
                   then Some (if truthy (dget d ''text'') then py_str (dget d ''text'') else []) else None
      | _ \<Rightarrow> None) parts)"

definition title_of :: "string \<Rightarrow> bool \<Rightarrow> string option" where
  "title_of body has_image =
     (let line = join_with '' '' (py_split body) in
      if line = [] then (if has_image then Some ''(image)'' else None)
      else Some (if length line \<le> TITLE_CHARS then line else take TITLE_CHARS line @ ''~''))"

definition session_title :: "pyval \<Rightarrow> string option" where
  "session_title content =
     (case content of
        PStr s \<Rightarrow> title_of s False
      | PList parts \<Rightarrow>
          title_of (title_text parts)
            (\<exists>p\<in>set parts. case p of PDict d \<Rightarrow> dget d ''type'' = PStr ''image'' | _ \<Rightarrow> False)
      | _ \<Rightarrow> None)"

text \<open>\<open>(value or "").strip() or None\<close>, and one string switch of a queued item.\<close>

definition nonblank :: "string option \<Rightarrow> string option" where
  "nonblank v = (case v of None \<Rightarrow> None | Some s \<Rightarrow> if py_strip s = [] then None else Some (py_strip s))"

definition str_param :: "pending_input \<Rightarrow> string \<Rightarrow> string option" where
  "str_param item name =
     (case dget (in_params item) name of
        PStr s \<Rightarrow> if py_strip s = [] then None else Some s
      | _ \<Rightarrow> None)"

subsection \<open>Commands\<close>

datatype command_kind = KIND_COMMAND | KIND_SKILL | KIND_UNKNOWN

definition COMMANDS :: "string list" where "COMMANDS = [''compact'', ''rewind'']"

definition token_lower :: "char \<Rightarrow> bool" where
  "token_lower c \<longleftrightarrow> (let n = (of_char c :: nat) in 97 \<le> n \<and> n \<le> 122)"

definition name_char :: "char \<Rightarrow> bool" where
  "name_char c \<longleftrightarrow> token_lower c \<or> (let n = (of_char c :: nat) in 48 \<le> n \<and> n \<le> 57) \<or> c = CHR ''_'' \<or> c = CHR ''-''"

definition match_command :: "string \<Rightarrow> string list \<Rightarrow> (string \<times> command_kind) option" where
  "match_command body skills =
     (case py_strip body of
        s # c # cs \<Rightarrow>
          if s = CHR ''/'' \<and> token_lower c \<and> list_all name_char cs then
            Some (c # cs,
              if c # cs \<in> set COMMANDS then KIND_COMMAND
              else if c # cs \<in> set skills then KIND_SKILL else KIND_UNKNOWN)
          else None
      | _ \<Rightarrow> None)"

subsection \<open>The record\<close>

record run_record =
  rr_run_id :: string
  rr_session_id :: string
  rr_started_at :: int
  rr_round :: int
  rr_tokens :: int
  rr_usage :: "usage_numbers option"
  rr_text :: string
  rr_error :: "(string \<times> string) option"
  rr_reasoning_started :: "int option"
  rr_reasoning_last :: "int option"
  rr_cancel_requested :: bool
  rr_cancel_reason :: "string option"
  rr_finished_at :: "int option"
  rr_model :: "string option"
  rr_effort :: "string option"
  rr_command :: "string option"
  rr_stream :: run_stream
  rr_state :: "run_state option"
  rr_has_recorder :: bool
  rr_injected :: "(nat \<times> string) list"

definition new_record ::
  "string \<Rightarrow> string \<Rightarrow> int \<Rightarrow> string option \<Rightarrow> string option \<Rightarrow> string option \<Rightarrow> run_record" where
  "new_record run_id session_id now model effort command =
     \<lparr>rr_run_id = run_id, rr_session_id = session_id, rr_started_at = now, rr_round = 0,
      rr_tokens = 0, rr_usage = None, rr_text = '''', rr_error = None, rr_reasoning_started = None,
      rr_reasoning_last = None, rr_cancel_requested = False, rr_cancel_reason = None,
      rr_finished_at = None, rr_model = nonblank model, rr_effort = nonblank effort,
      rr_command = command, rr_stream = new_stream run_id, rr_state = None, rr_has_recorder = False,
      rr_injected = []\<rparr>"

abbreviation run_over :: "run_record \<Rightarrow> bool" where
  "run_over r \<equiv> terminal (rr_stream r)"

definition on_stream :: "(run_stream \<Rightarrow> run_stream) \<Rightarrow> run_record \<Rightarrow> run_record" where
  "on_stream f r = r\<lparr>rr_stream := f (rr_stream r)\<rparr>"

definition set_run_status :: "string \<Rightarrow> run_record \<Rightarrow> run_record" where
  "set_run_status st = on_stream (\<lambda>s. s\<lparr>rs_status := st\<rparr>)"

definition stamp_reasoning_ms :: "run_record \<Rightarrow> pydict \<Rightarrow> run_record \<times> pydict" where
  "stamp_reasoning_ms r message =
     (r\<lparr>rr_reasoning_started := None, rr_reasoning_last := None\<rparr>,
      case (dget message ''reasoning'', rr_reasoning_started r, rr_reasoning_last r) of
        (PDict d, Some started, Some finish) \<Rightarrow>
          AList.update ''reasoning''
            (PDict (AList.update ''ms'' (PInt (max 0 (finish - started))) d)) message
      | _ \<Rightarrow> message)"

definition record_delta :: "buffer_conf \<Rightarrow> string \<Rightarrow> string \<Rightarrow> int \<Rightarrow> int \<Rightarrow> run_record \<Rightarrow> run_record" where
  "record_delta bc ty body stamp now r =
     on_stream (emit_delta bc ty body now)
       (if ty = ''reasoning_delta''
        then r\<lparr>rr_reasoning_started := (case rr_reasoning_started r of None \<Rightarrow> Some stamp | s \<Rightarrow> s),
               rr_reasoning_last := Some stamp\<rparr>
        else r)"

text \<open>\<open>_ensure_vision\<close>: \<open>resolve\<close> yields \<open>None\<close> for a \<open>ConfigError\<close>, else the declared capability.\<close>

definition ensure_vision :: "(string option \<Rightarrow> bool option option) \<Rightarrow> pyval \<Rightarrow> string option \<Rightarrow> bool" where
  "ensure_vision resolve content model \<longleftrightarrow>
     image_count content = 0 \<or>
     (case resolve (nonblank model) of None \<Rightarrow> True | Some vision \<Rightarrow> vision \<noteq> Some False)"

subsection \<open>What the kernel reports, and the message sink\<close>

datatype observed =
    ObservedNudge "nat option"
  | ObservedStatus bool "int option" "int option" "usage_numbers option" pydict
  | ObservedOther string pydict

definition observe :: "buffer_conf \<Rightarrow> int \<Rightarrow> observed \<Rightarrow> run_record \<Rightarrow> run_record" where
  "observe bc now ev r =
     (case ev of
        ObservedNudge None \<Rightarrow> r
      | ObservedNudge (Some i) \<Rightarrow> r\<lparr>rr_injected := AList.update i ''nudge'' (rr_injected r)\<rparr>
      | ObservedStatus subagent round tokens usage data \<Rightarrow>
          (let r = (if subagent then r
                    else r\<lparr>rr_round := (case round of None \<Rightarrow> rr_round r | Some n \<Rightarrow> n),
                           rr_tokens := (case tokens of None \<Rightarrow> rr_tokens r | Some n \<Rightarrow> n),
                           rr_usage := (case usage of None \<Rightarrow> rr_usage r | u \<Rightarrow> u)\<rparr>)
           in on_stream (snd \<circ> Services_Stream.emit bc ''run_status'' data now) r)
      | ObservedOther ty data \<Rightarrow> on_stream (snd \<circ> Services_Stream.emit bc ty data now) r)"

definition message_event :: "pydict \<Rightarrow> string" where
  "message_event message =
     (let role = py_str (dget message ''role'') in
      if role = ''user'' then ''user_message''
      else if role = ''assistant'' then ''assistant_message''
      else if role = ''tool'' then ''tool_result_message'' else '''')"

text \<open>
  The sink stores the message through \<open>store entry_type message\<close>, whose result is the entry id
  (\<open>None\<close>: it raised), and emits one event for it.
\<close>

definition message_sink ::
  "buffer_conf \<Rightarrow> int \<Rightarrow> (string \<Rightarrow> pydict \<Rightarrow> 'e \<Rightarrow> string option \<times> 'e) \<Rightarrow> nat \<Rightarrow> pydict \<Rightarrow> run_record \<Rightarrow> 'e \<Rightarrow>
   string option \<times> run_record \<times> 'e" where
  "message_sink bc now store i message r e =
     (let (r, message) = (if dget message ''role'' = PStr ''assistant''
                          then stamp_reasoning_ms r message else (r, message));
          label = map_of (rr_injected r) i;
          r = r\<lparr>rr_injected := AList.delete i (rr_injected r)\<rparr>;
          nudge = (label = Some ''nudge'')
      in case store (if nudge then NOTICE_ENTRY else MESSAGE_ENTRY) message e of
        (None, e') \<Rightarrow> (None, r, e')
      | (Some entry_id, e') \<Rightarrow>
          (let ty = (if nudge then ''stop_nudge'' else message_event message);
               payload = [(''entry_id'', PStr entry_id), (''message'', PDict (strip_message_bytes message))] @
                 (if nudge then
                    [(''content'', PStr (if truthy (dget message ''content'')
                                         then py_str (dget message ''content'') else []))]
                  else case label of
                    Some l \<Rightarrow> if take 6 l = ''steer:'' then [(''input_id'', PStr (drop 6 l))] else []
                  | None \<Rightarrow> [])
           in (Some entry_id,
               if ty = [] then r else on_stream (snd \<circ> Services_Stream.emit bc ty payload now) r, e')))"

text \<open>The run claims its steers: the messages, tagged by the identities \<open>ids\<close> they will have.\<close>

definition take_run_steers ::
  "nat list \<Rightarrow> run_record \<Rightarrow> inbox \<Rightarrow> pydict list \<times> run_record \<times> inbox" where
  "take_run_steers ids r box =
     (let (items, box') = inbox_take_steers box
      in (map (\<lambda>item. [(''role'', PStr ''user''), (''content'', in_content item)]) items,
          r\<lparr>rr_injected := fold (\<lambda>(i, item). AList.update i (''steer:'' @ in_id item))
                                (zip ids items) (rr_injected r)\<rparr>,
          box'))"

subsection \<open>The end of a run\<close>

definition persist_usage ::
  "(usage_numbers \<Rightarrow> 'e \<Rightarrow> 'e) \<Rightarrow> run_record \<Rightarrow> 'e \<Rightarrow> run_record \<times> 'e" where
  "persist_usage save r e =
     (case rr_state r of
        None \<Rightarrow> (r, e)
      | Some st \<Rightarrow>
          (let report = usage_report st in
           if \<not> rr_has_recorder r \<or> (rp_tokens report = None \<and> rp_compactions report = 0) then (r, e)
           else (r\<lparr>rr_usage := Some report\<rparr>, save report e)))"

definition finish ::
  "buffer_conf \<Rightarrow> (usage_numbers \<Rightarrow> 'e \<Rightarrow> 'e) \<Rightarrow> int \<Rightarrow> string \<Rightarrow> pydict \<Rightarrow> run_record \<Rightarrow> inbox \<Rightarrow> 'e \<Rightarrow>
   run_record \<times> inbox \<times> 'e" where
  "finish bc save now ty data r box e =
     (let r = r\<lparr>rr_finished_at := Some now,
                rr_usage := (case rr_state r of None \<Rightarrow> rr_usage r | Some st \<Rightarrow> Some (usage_report st))\<rparr>;
          (r, e) = persist_usage save r e;
          box = snd (inbox_downgrade_steers box)
      in (on_stream (announce_end bc ty data now) r, box, e))"

definition record_failure ::
  "(string \<Rightarrow> pydict \<Rightarrow> 'e \<Rightarrow> string option \<times> 'e) \<Rightarrow> string \<Rightarrow> run_record \<Rightarrow> 'e \<Rightarrow> string option \<times> 'e" where
  "record_failure store body r e =
     (if \<not> rr_has_recorder r then (None, e)
      else store ERROR_ENTRY [(''role'', PStr ''assistant''), (''content'', PStr body)] e)"

definition FAILURE_PREFIX :: string where "FAILURE_PREFIX = ''run failed: ''"

definition fail_run ::
  "buffer_conf \<Rightarrow> (usage_numbers \<Rightarrow> 'e \<Rightarrow> 'e) \<Rightarrow> (string \<Rightarrow> pydict \<Rightarrow> 'e \<Rightarrow> string option \<times> 'e) \<Rightarrow> int \<Rightarrow>
   string \<Rightarrow> string \<Rightarrow> run_record \<Rightarrow> inbox \<Rightarrow> 'e \<Rightarrow> run_record \<times> inbox \<times> 'e" where
  "fail_run bc save store now code message r box e =
     (let body = FAILURE_PREFIX @ message;
          (entry_id, e) = record_failure store body r e
      in finish bc save now ''run_failed''
           [(''code'', PStr code), (''message'', PStr message), (''text'', PStr body),
            (''entry_id'', case entry_id of None \<Rightarrow> PNone | Some i \<Rightarrow> PStr i)]
           (r\<lparr>rr_error := Some (code, message)\<rparr>) box e)"

text \<open>How the body of a run ends, and what its handlers make of it.\<close>

datatype body_end =
    Completed string string
  | RaisedCancelled string
  | RaisedWorktree string
  | RaisedLLM string
  | RaisedConfig string
  | RaisedSession string
  | RaisedOther string string

definition settle ::
  "buffer_conf \<Rightarrow> (usage_numbers \<Rightarrow> 'e \<Rightarrow> 'e) \<Rightarrow> (string \<Rightarrow> pydict \<Rightarrow> 'e \<Rightarrow> string option \<times> 'e) \<Rightarrow> int \<Rightarrow>
   body_end \<Rightarrow> run_record \<Rightarrow> inbox \<Rightarrow> 'e \<Rightarrow> run_record \<times> inbox \<times> 'e" where
  "settle bc save store now ending r box e =
     (case ending of
        Completed body reason \<Rightarrow>
          finish bc save now ''run_finished'' [(''text'', PStr body), (''reason'', PStr reason)]
            (r\<lparr>rr_text := body\<rparr>) box e
      | RaisedCancelled why \<Rightarrow>
          (let why = (if why = [] then ''cancelled'' else why)
           in finish bc save now ''run_cancelled'' [(''reason'', PStr why)]
                (r\<lparr>rr_cancel_reason := Some why\<rparr>) box e)
      | RaisedWorktree why \<Rightarrow> fail_run bc save store now ''session_error'' why r box e
      | RaisedLLM why \<Rightarrow> fail_run bc save store now ''llm_error'' why r box e
      | RaisedConfig why \<Rightarrow> fail_run bc save store now ''config_error'' why r box e
      | RaisedSession why \<Rightarrow> fail_run bc save store now ''session_error'' why r box e
      | RaisedOther kind why \<Rightarrow> fail_run bc save store now ''internal'' (kind @ '': '' @ why) r box e)"

subsection \<open>The registry\<close>

definition SWEEP_MIN_AGE_MS :: int where "SWEEP_MIN_AGE_MS = 30000"

record registry_conf =
  gc_retention_ms :: int
  gc_max_runs :: nat

text \<open>\<open>_runs\<close>, \<open>_active\<close>, the runs that hold a handle, \<open>_inboxes\<close>, and the handle locks with their users.\<close>

record registry =
  rg_runs :: "(string \<times> run_record) list"
  rg_active :: "(string \<times> string) list"
  rg_handles :: "string list"
  rg_inboxes :: "(string \<times> inbox) list"
  rg_locks :: "string list"
  rg_lock_users :: "(string \<times> int) list"

definition session_active :: "registry \<Rightarrow> string \<Rightarrow> bool" where
  "session_active rg sid \<longleftrightarrow> map_of (rg_active rg) sid \<noteq> None"

datatype service_error =
    RunBusy string
  | RunNotFound string
  | RunAlreadyFinished string string
  | SessionNotFound string
  | SessionReadError string
  | InvalidRequest string
  | AttachmentRejected attachment_error
  | VisionRejected
  | UnhandledError string

definition get_run :: "string \<Rightarrow> registry \<Rightarrow> service_error + run_record" where
  "get_run i rg = (case map_of (rg_runs rg) i of None \<Rightarrow> Inl (RunNotFound i) | Some r \<Rightarrow> Inr r)"

definition active_runs :: "registry \<Rightarrow> string list" where
  "active_runs rg = map snd (rg_active rg)"

definition put_run :: "run_record \<Rightarrow> registry \<Rightarrow> registry" where
  "put_run r rg = rg\<lparr>rg_runs := AList.update (rr_run_id r) r (rg_runs rg)\<rparr>"

text \<open>\<open>cancel\<close>: the first reason stays.\<close>

definition cancel_run :: "string \<Rightarrow> registry \<Rightarrow> (service_error + run_record) \<times> registry" where
  "cancel_run i rg =
     (case get_run i rg of
        Inl e \<Rightarrow> (Inl e, rg)
      | Inr r \<Rightarrow>
          if run_over r then (Inl (RunAlreadyFinished i (rs_status (rr_stream r))), rg)
          else
            (let why = (case rr_cancel_reason r of None \<Rightarrow> ''user'' | Some w \<Rightarrow> if w = [] then ''user'' else w);
                 r = r\<lparr>rr_cancel_requested := True, rr_cancel_reason := Some why,
                       rr_state := map_option (Agent_State.cancel (Some why)) (rr_state r)\<rparr>
             in (Inr r, put_run r rg)))"

text \<open>The cancelling half of \<open>drain\<close>: every run in flight is asked, errors are passed over.\<close>

fun cancel_all :: "string list \<Rightarrow> registry \<Rightarrow> registry" where
  "cancel_all [] rg = rg"
| "cancel_all (i # is) rg = cancel_all is (snd (cancel_run i rg))"

text \<open>The run thread takes up the state; a cancellation that came earlier is replayed.\<close>

definition adopt_state :: "run_state \<Rightarrow> run_record \<Rightarrow> run_record" where
  "adopt_state st r =
     r\<lparr>rr_state := Some (if rr_cancel_requested r
         then Agent_State.cancel (Some (case rr_cancel_reason r of None \<Rightarrow> ''user'' | Some w \<Rightarrow> if w = [] then ''user'' else w)) st
         else st)\<rparr>"

definition box_of :: "string \<Rightarrow> registry \<Rightarrow> inbox" where
  "box_of sid rg = (case map_of (rg_inboxes rg) sid of None \<Rightarrow> [] | Some b \<Rightarrow> b)"

definition put_box :: "string \<Rightarrow> inbox \<Rightarrow> registry \<Rightarrow> registry" where
  "put_box sid b rg = rg\<lparr>rg_inboxes := AList.update sid b (rg_inboxes rg)\<rparr>"

subsection \<open>Starting\<close>

text \<open>What a prompt becomes: the content and the command; \<open>skill_text\<close> is \<open>commands.skill_text\<close>.\<close>

definition prepare_start ::
  "string list \<Rightarrow> (string \<Rightarrow> string option) \<Rightarrow> (string option \<Rightarrow> bool option option) \<Rightarrow>
   string \<Rightarrow> pydict list \<Rightarrow> pyval option \<Rightarrow> string option \<Rightarrow> service_error + pyval \<times> string option" where
  "prepare_start skills skill_text resolve prompt images content model =
     (case (case content of
              Some c \<Rightarrow> Inr c
            | None \<Rightarrow>
                (case build_user_content prompt images of
                   Inl e \<Rightarrow> Inl (AttachmentRejected e)
                 | Inr c \<Rightarrow> if ensure_vision resolve c model then Inr c else Inl VisionRejected)) of
        Inl e \<Rightarrow> Inl e
      | Inr c \<Rightarrow>
          if take 1 prompt = ''/'' \<and> images = [] then
            (case match_command prompt skills of
               None \<Rightarrow> Inr (c, None)
             | Some (name, KIND_SKILL) \<Rightarrow>
                 (case skill_text name of
                    None \<Rightarrow> Inr (c, None)
                  | Some body \<Rightarrow>
                      (case build_user_content body images of
                         Inl e \<Rightarrow> Inl (AttachmentRejected e)
                       | Inr c' \<Rightarrow> Inr (c', None)))
             | Some (name, KIND_COMMAND) \<Rightarrow> Inr (c, Some name)
             | Some (name, KIND_UNKNOWN) \<Rightarrow> Inr (c, Some ''unknown''))
          else Inr (c, None))"

text \<open>The section that reserves the slot of the session.\<close>

definition reserve_run ::
  "string \<Rightarrow> string \<Rightarrow> int \<Rightarrow> string option \<Rightarrow> string option \<Rightarrow> string option \<Rightarrow> registry \<Rightarrow>
   (service_error + run_record) \<times> registry" where
  "reserve_run fresh sid now model effort command rg =
     (case map_of (rg_active rg) sid of
        Some i \<Rightarrow> (Inl (RunBusy i), rg)
      | None \<Rightarrow>
          (let r = new_record fresh sid now model effort command
           in (Inr r, (put_run r rg)\<lparr>rg_active := AList.update sid fresh (rg_active rg)\<rparr>)))"

text \<open>
  The handle is opened: the outcomes are a handle, a \<open>SessionError\<close>, which frees the slot, and any
  other exception, which nothing handles.
\<close>

datatype open_outcome = HandleOpened | SessionRefused string | OtherFailure string

definition open_run :: "open_outcome \<Rightarrow> string \<Rightarrow> string \<Rightarrow> registry \<Rightarrow> (service_error + unit) \<times> registry" where
  "open_run res sid i rg =
     (case res of
        HandleOpened \<Rightarrow> (Inr (), rg\<lparr>rg_handles := i # rg_handles rg\<rparr>)
      | SessionRefused why \<Rightarrow>
          (Inl (SessionReadError why), rg\<lparr>rg_runs := AList.delete i (rg_runs rg), rg_active := AList.delete sid (rg_active rg)\<rparr>)
      | OtherFailure why \<Rightarrow> (Inl (UnhandledError why), rg))"

definition start_run ::
  "bool \<Rightarrow> (service_error + pyval \<times> string option) \<Rightarrow> open_outcome \<Rightarrow> string \<Rightarrow> int \<Rightarrow> string option \<Rightarrow>
   string option \<Rightarrow> string \<Rightarrow> registry \<Rightarrow> (service_error + run_record) \<times> registry" where
  "start_run found prepared res fresh now model effort sid rg =
     (if \<not> found then (Inl (SessionNotFound sid), rg)
      else case prepared of
        Inl e \<Rightarrow> (Inl e, rg)
      | Inr (content, command) \<Rightarrow>
          (case reserve_run fresh sid now model effort command rg of
             (Inl e, rg) \<Rightarrow> (Inl e, rg)
           | (Inr r, rg) \<Rightarrow>
               (case open_run res sid fresh rg of
                  (Inl e, rg) \<Rightarrow> (Inl e, rg)
                | (Inr (), rg) \<Rightarrow> (Inr r, rg))))"

text \<open>The last section of the run thread: the slot and the handle are given back.\<close>

definition detach_run :: "string \<Rightarrow> string \<Rightarrow> registry \<Rightarrow> registry" where
  "detach_run sid i rg =
     rg\<lparr>rg_handles := removeAll i (rg_handles rg), rg_active := AList.delete sid (rg_active rg),
        rg_runs := map (\<lambda>(k, r). (k, if k = i then r\<lparr>rr_has_recorder := False\<rparr> else r)) (rg_runs rg)\<rparr>"

subsection \<open>The input channel\<close>

definition drop_input :: "string \<Rightarrow> string \<Rightarrow> registry \<Rightarrow> (service_error + unit) \<times> registry" where
  "drop_input sid i rg =
     (let (gone, b) = inbox_remove i (box_of sid rg)
      in (if gone then Inr () else Inl (InvalidRequest i), put_box sid b rg))"

datatype submitted = AsRun string | Queued string string

text \<open>\<open>submit_input\<close> without interleaving; \<open>content\<close> is what the attachments made of the request.\<close>

definition submit_input ::
  "bool \<Rightarrow> string \<Rightarrow> (attachment_error + pyval) \<Rightarrow> (string option \<Rightarrow> bool option option) \<Rightarrow> open_outcome \<Rightarrow>
   string \<Rightarrow> string \<Rightarrow> int \<Rightarrow> pydict \<Rightarrow> string option \<Rightarrow> string option \<Rightarrow> string option \<Rightarrow> string \<Rightarrow> registry \<Rightarrow>
   (service_error + submitted) \<times> registry" where
  "submit_input found mode content resolve res run_id input_id now params model effort client sid rg =
     (if mode \<notin> set MODES then (Inl (InvalidRequest mode), rg)
      else if \<not> found then (Inl (SessionNotFound sid), rg)
      else case content of
        Inl e \<Rightarrow> (Inl (AttachmentRejected e), rg)
      | Inr c \<Rightarrow>
          if py_strip (render_content_text c) = [] \<and> image_count c = 0 then (Inl (InvalidRequest ''empty''), rg)
          else if \<not> ensure_vision resolve c model then (Inl VisionRejected, rg)
          else
            (let rg = put_box sid (box_of sid rg) rg;
                 queue = (\<lambda>m rg. case inbox_add input_id now m c params client (box_of sid rg) of
                   None \<Rightarrow> (Inl (InvalidRequest m), rg)
                 | Some (item, b) \<Rightarrow> (Inr (Queued (in_id item) (in_mode item)), put_box sid b rg))
             in if mode = MODE_NOW \<and> \<not> session_active rg sid then
                  (case start_run found (Inr (c, None)) res run_id now model effort sid rg of
                     (Inr r, rg) \<Rightarrow> (Inr (AsRun (rr_run_id r)), rg)
                   | (Inl (RunBusy i), rg) \<Rightarrow> queue MODE_AFTER rg
                   | (Inl e, rg) \<Rightarrow> (Inl e, rg))
                else queue mode rg))"

definition start_queued ::
  "bool \<Rightarrow> open_outcome \<Rightarrow> string \<Rightarrow> int \<Rightarrow> string \<Rightarrow> string \<Rightarrow> registry \<Rightarrow>
   (service_error + run_record) \<times> registry" where
  "start_queued found res run_id now sid i rg =
     (let (taken, b) = inbox_take_for_run i (box_of sid rg); rg = put_box sid b rg in
      case taken of
        None \<Rightarrow> (Inl (InvalidRequest i), rg)
      | Some item \<Rightarrow>
          (case start_run found (Inr (in_content item, None)) res run_id now
                  (str_param item ''model'') (str_param item ''effort'') sid rg of
             (Inr r, rg) \<Rightarrow> (Inr r, rg)
           | (Inl e, rg) \<Rightarrow> (Inl e, put_box sid (inbox_restore item (box_of sid rg)) rg)))"

subsection \<open>Sweeping\<close>

definition older_than :: "int \<Rightarrow> int \<Rightarrow> run_record \<Rightarrow> bool" where
  "older_than age now r \<longleftrightarrow>
     run_over r \<and> (case rr_finished_at r of None \<Rightarrow> False | Some f \<Rightarrow> age < now - f)"

definition sweep_victims :: "registry_conf \<Rightarrow> int \<Rightarrow> (string \<times> run_record) list \<Rightarrow> string list" where
  "sweep_victims gc now runs =
     (let victims = map fst (filter (\<lambda>(i, r). older_than (gc_retention_ms gc) now r) runs);
          extra = length runs - length victims - gc_max_runs gc;
          old_enough = sort_key (\<lambda>(i, r). case rr_finished_at r of None \<Rightarrow> 0 | Some f \<Rightarrow> f)
            (filter (\<lambda>(i, r). i \<notin> set victims \<and> older_than SWEEP_MIN_AGE_MS now r) runs)
      in victims @ (if 0 < extra then map fst (take extra old_enough) else []))"

definition sweep :: "registry_conf \<Rightarrow> int \<Rightarrow> registry \<Rightarrow> registry" where
  "sweep gc now rg =
     rg\<lparr>rg_runs := filter (\<lambda>(i, r). i \<notin> set (sweep_victims gc now (rg_runs rg))) (rg_runs rg),
        rg_locks := filter (\<lambda>s. map_of (rg_lock_users rg) s \<noteq> None \<or> session_active rg s) (rg_locks rg),
        rg_inboxes := filter (\<lambda>(s, b). session_active rg s \<or> \<not> inbox_empty b) (rg_inboxes rg)\<rparr>"

subsection \<open>The end is announced\<close>

lemma emit_last:
  assumes "stream_ok s" and e: "Services_Stream.emit bc ty data now s = (e, s')"
  shows "rs_events s' \<noteq> [] \<and> last (rs_events s') = e \<and> rs_status s' = rs_status s \<and>
    ev_type e = ty \<and> ev_data e = data \<and> stream_ok s' \<and>
    (ty \<in> set DURABLE_EVENT_TYPES \<longrightarrow> ev_seq e = Some (rs_next_seq s) \<and> rs_next_seq s' = rs_next_seq s + 1)"
proof -
  from emit_push [OF e] have n: "next_event s e" "s' = trim bc (push e s)" "ev_type e = ty" "ev_data e = data"
    by simp_all
  from trim_push [OF assms(1) n(1), of bc] obtain k where
    k: "trim bc (push e s) = cut_to k (push e s)" "stream_ok (cut_to k (push e s))" "k \<le> length (rs_events s)"
    by blast
  with n show ?thesis by (auto simp: next_event_def split: if_splits)
qed

lemma announce_end_facts:
  assumes "stream_ok s" and "ty \<in> set TERMINAL_EVENT_TYPES"
  shows "terminal (announce_end bc ty data now s) \<and> stream_ok (announce_end bc ty data now s) \<and>
    rs_status (announce_end bc ty data now s) = terminal_status ty \<and>
    rs_events (announce_end bc ty data now s) \<noteq> [] \<and>
    ev_type (last (rs_events (announce_end bc ty data now s))) = ty \<and>
    ev_data (last (rs_events (announce_end bc ty data now s))) = data \<and>
    ev_seq (last (rs_events (announce_end bc ty data now s))) = Some (rs_next_seq s) \<and>
    rs_next_seq (announce_end bc ty data now s) = rs_next_seq s + 1"
proof -
  obtain e s' where e: "Services_Stream.emit bc ty data now (s\<lparr>rs_status := terminal_status ty\<rparr>) = (e, s')"
    by fastforce
  have "ty \<in> set DURABLE_EVENT_TYPES"
    using assms(2) by (auto simp: TERMINAL_EVENT_TYPES_def DURABLE_EVENT_TYPES_def)
  from emit_last [OF _ e] assms(1) this have
    l: "rs_events s' \<noteq> []" "last (rs_events s') = e" "rs_status s' = terminal_status ty" "ev_type e = ty"
      "ev_data e = data" "stream_ok s'" "ev_seq e = Some (rs_next_seq s)" "rs_next_seq s' = rs_next_seq s + 1"
    by simp_all
  have a: "announce_end bc ty data now s = s'" by (simp add: announce_end_def e)
  have "terminal s'" by (simp add: terminal_def l(3) terminal_status_def)
  with l show ?thesis by (simp add: a)
qed

text \<open>How each way of ending is announced, and the code a failure carries.\<close>

fun end_event :: "body_end \<Rightarrow> string" where
  "end_event (Completed body reason) = ''run_finished''"
| "end_event (RaisedCancelled why) = ''run_cancelled''"
| "end_event _ = ''run_failed''"

fun end_code :: "body_end \<Rightarrow> (string \<times> string) option" where
  "end_code (RaisedWorktree why) = Some (''session_error'', why)"
| "end_code (RaisedLLM why) = Some (''llm_error'', why)"
| "end_code (RaisedConfig why) = Some (''config_error'', why)"
| "end_code (RaisedSession why) = Some (''session_error'', why)"
| "end_code (RaisedOther kind why) = Some (''internal'', kind @ '': '' @ why)"
| "end_code _ = None"

definition failure_world ::
  "(string \<Rightarrow> pydict \<Rightarrow> 'e \<Rightarrow> string option \<times> 'e) \<Rightarrow> body_end \<Rightarrow> run_record \<Rightarrow> 'e \<Rightarrow> 'e" where
  "failure_world store ending r e =
     (case end_code ending of
        Some (code, why) \<Rightarrow> snd (record_failure store (FAILURE_PREFIX @ why) r e)
      | None \<Rightarrow> e)"

lemma fail_run_finish:
  "\<exists>data. fail_run bc save store now code why r box e =
     finish bc save now ''run_failed'' data (r\<lparr>rr_error := Some (code, why)\<rparr>) box
       (snd (record_failure store (FAILURE_PREFIX @ why) r e))"
  by (auto simp: fail_run_def Let_def split_beta)

lemma settle_finish:
  obtains r0 data where
    "settle bc save store now ending r box e =
       finish bc save now (end_event ending) data r0 box (failure_world store ending r e)"
    "rr_stream r0 = rr_stream r" "rr_state r0 = rr_state r" "rr_has_recorder r0 = rr_has_recorder r"
    "rr_error r0 = (case end_code ending of None \<Rightarrow> rr_error r | c \<Rightarrow> c)"
proof (cases "end_code ending")
  case None
  show ?thesis
  proof (cases ending)
    case (Completed body reason)
    then show ?thesis
      by (intro that [of "[(''text'', PStr body), (''reason'', PStr reason)]" "r\<lparr>rr_text := body\<rparr>"])
        (simp_all add: settle_def failure_world_def)
  next
    case (RaisedCancelled why)
    let ?why = "if why = [] then ''cancelled'' else why"
    from RaisedCancelled show ?thesis
      by (intro that [of "[(''reason'', PStr ?why)]" "r\<lparr>rr_cancel_reason := Some ?why\<rparr>"])
        (simp_all add: settle_def failure_world_def Let_def)
  qed (use None in simp_all)
next
  case (Some c)
  obtain code why where c: "c = (code, why)" by fastforce
  with Some have "settle bc save store now ending r box e = fail_run bc save store now code why r box e"
    "end_event ending = ''run_failed''"
    by (cases ending; simp add: settle_def)+
  moreover from fail_run_finish [of bc save store now code why r box e] obtain data where
    "fail_run bc save store now code why r box e =
     finish bc save now ''run_failed'' data (r\<lparr>rr_error := Some (code, why)\<rparr>) box
       (snd (record_failure store (FAILURE_PREFIX @ why) r e))" ..
  ultimately show ?thesis
    by (intro that [of data "r\<lparr>rr_error := Some (code, why)\<rparr>"]) (simp_all add: failure_world_def Some c)
qed

lemma finish_facts:
  assumes "finish bc save now ty data r box e = (r', box', e')"
  shows "rr_stream r' = announce_end bc ty data now (rr_stream r) \<and> rr_finished_at r' = Some now \<and>
    rr_error r' = rr_error r \<and> box' = map downgrade box \<and>
    (\<forall>st. rr_state r = Some st \<longrightarrow> rr_usage r' = Some (usage_report st) \<and>
       e' = (if rr_has_recorder r \<and> (rp_tokens (usage_report st) \<noteq> None \<or> rp_compactions (usage_report st) \<noteq> 0)
             then save (usage_report st) e else e))"
  using assms
  by (cases "rr_state r")
    (auto simp: finish_def persist_usage_def Let_def on_stream_def inbox_downgrade_steers_def split: if_splits)


definition sample_record :: run_record where
  "sample_record = (new_record ''r1'' ''s'' 1 None None None)\<lparr>rr_has_recorder := True\<rparr>"


subsection \<open>What a sweep keeps\<close>

lemma length_without:
  assumes "distinct (map fst xs)" and "set ys \<subseteq> set xs" and "distinct ys"
  shows "length (filter (\<lambda>p. fst p \<notin> fst ` set ys) xs) = length xs - length ys"
proof -
  have inj: "inj_on fst (set xs)" and dx: "distinct xs" using assms(1) by (simp_all add: distinct_map)
  have "filter (\<lambda>p. fst p \<notin> fst ` set ys) xs = filter (\<lambda>p. p \<notin> set ys) xs"
    by (rule filter_cong) (use assms(2) inj in \<open>auto simp: inj_on_def\<close>)
  moreover have "length (filter (\<lambda>p. p \<in> set ys) xs) = length ys"
  proof -
    have "set (filter (\<lambda>p. p \<in> set ys) xs) = set ys" using assms(2) by auto
    with dx show ?thesis by (metis assms(3) distinct_card distinct_filter)
  qed
  moreover have "length (filter (\<lambda>p. p \<in> set ys) xs) + length (filter (\<lambda>p. p \<notin> set ys) xs) = length xs"
    by (rule sum_length_filter_compl)
  ultimately show ?thesis by (metis add_diff_cancel_left')
qed

definition expired_runs :: "registry_conf \<Rightarrow> int \<Rightarrow> (string \<times> run_record) list \<Rightarrow> (string \<times> run_record) list" where
  "expired_runs gc now runs = filter (\<lambda>(i, r). older_than (gc_retention_ms gc) now r) runs"

definition stale_runs :: "registry_conf \<Rightarrow> int \<Rightarrow> (string \<times> run_record) list \<Rightarrow> (string \<times> run_record) list" where
  "stale_runs gc now runs = sort_key (\<lambda>(i, r). case rr_finished_at r of None \<Rightarrow> 0 | Some f \<Rightarrow> f)
     (filter (\<lambda>(i, r). i \<notin> fst ` set (expired_runs gc now runs) \<and> older_than SWEEP_MIN_AGE_MS now r) runs)"

definition evicted_runs :: "registry_conf \<Rightarrow> int \<Rightarrow> (string \<times> run_record) list \<Rightarrow> (string \<times> run_record) list" where
  "evicted_runs gc now runs = expired_runs gc now runs @
     take (length runs - length (expired_runs gc now runs) - gc_max_runs gc) (stale_runs gc now runs)"

lemma sweep_victims_eq: "sweep_victims gc now runs = map fst (evicted_runs gc now runs)"
  by (simp add: sweep_victims_def evicted_runs_def expired_runs_def stale_runs_def Let_def case_prod_beta take_map)

lemma evicted_runs_facts:
  assumes "distinct (map fst runs)"
  shows "set (evicted_runs gc now runs) \<subseteq> set runs \<and> distinct (evicted_runs gc now runs) \<and>
    (\<forall>(i, r)\<in>set (evicted_runs gc now runs). older_than (gc_retention_ms gc) now r \<or> older_than SWEEP_MIN_AGE_MS now r)"
proof -
  have d: "distinct runs" using assms by (simp add: distinct_map)
  have "set (expired_runs gc now runs) \<subseteq> set runs" "set (stale_runs gc now runs) \<subseteq> set runs"
    "distinct (expired_runs gc now runs)" "distinct (stale_runs gc now runs)"
    using d by (auto simp: expired_runs_def stale_runs_def)
  moreover have "p \<notin> set (expired_runs gc now runs)" if "p \<in> set (stale_runs gc now runs)" for p
  proof -
    obtain i r where "p = (i, r)" by fastforce
    with that show ?thesis by (force simp: stale_runs_def)
  qed
  then have "set (expired_runs gc now runs) \<inter> set (stale_runs gc now runs) = {}" by blast
  moreover have "\<forall>(i, r)\<in>set (expired_runs gc now runs). older_than (gc_retention_ms gc) now r"
    "\<forall>(i, r)\<in>set (stale_runs gc now runs). older_than SWEEP_MIN_AGE_MS now r"
    by (auto simp: expired_runs_def stale_runs_def)
  moreover define T where
    "T = take (length runs - length (expired_runs gc now runs) - gc_max_runs gc) (stale_runs gc now runs)"
  moreover have "set T \<subseteq> set (stale_runs gc now runs)" unfolding T_def by (rule set_take_subset)
  moreover have "distinct T" unfolding T_def using calculation(4) by (rule distinct_take)
  ultimately show ?thesis unfolding evicted_runs_def T_def [symmetric] distinct_append set_append by blast
qed

text \<open>
  A sweep reclaims only what nobody needs: a run that is not over, or that ended less than the
  retention and less than thirty seconds ago, stays; afterwards either at most \<open>max_runs\<close> records are
  left or all that are left are still running or that recent; an input table that holds an input
  stays, and so does the handle lock of a session that somebody uses or that is active.
\<close>

theorem sweep_keeps_what_is_needed:
  assumes "distinct (map fst (rg_runs rg))"
  shows "(map_of (rg_runs rg) i = Some r \<and> \<not> older_than (min (gc_retention_ms gc) SWEEP_MIN_AGE_MS) now r
       \<longrightarrow> map_of (rg_runs (sweep gc now rg)) i = Some r) \<and>
     (length (rg_runs (sweep gc now rg)) \<le> gc_max_runs gc \<or>
      (\<forall>(i, r)\<in>set (rg_runs (sweep gc now rg)). \<not> older_than SWEEP_MIN_AGE_MS now r)) \<and>
     (box_of sid rg \<noteq> [] \<longrightarrow> box_of sid (sweep gc now rg) = box_of sid rg) \<and>
     (sid \<in> set (rg_locks rg) \<and> (map_of (rg_lock_users rg) sid \<noteq> None \<or> session_active rg sid)
       \<longrightarrow> sid \<in> set (rg_locks (sweep gc now rg)))"
proof (intro conjI)
  let ?runs = "rg_runs rg" and ?ev = "evicted_runs gc now (rg_runs rg)"
  note ev = evicted_runs_facts [OF assms, of gc now]
  have runs: "rg_runs (sweep gc now rg) = filter (\<lambda>p. fst p \<notin> fst ` set ?ev) ?runs"
    by (simp add: sweep_def sweep_victims_eq case_prod_unfold)
  have keep: "map_of (filter (\<lambda>p. fst p \<notin> K) xs) k = (if k \<in> K then None else map_of xs k)" for K k
    and xs :: "(string \<times> 'v) list"
    by (induction xs) auto
  show "map_of ?runs i = Some r \<and> \<not> older_than (min (gc_retention_ms gc) SWEEP_MIN_AGE_MS) now r
      \<longrightarrow> map_of (rg_runs (sweep gc now rg)) i = Some r"
  proof
    assume a: "map_of ?runs i = Some r \<and> \<not> older_than (min (gc_retention_ms gc) SWEEP_MIN_AGE_MS) now r"
    have "i \<notin> fst ` set ?ev"
    proof
      assume "i \<in> fst ` set ?ev"
      then obtain r' where r': "(i, r') \<in> set ?ev" by auto
      with ev have "(i, r') \<in> set ?runs" by blast
      with assms a have "r' = r" by (metis map_of_is_SomeI option.inject)
      with ev r' have "older_than (gc_retention_ms gc) now r \<or> older_than SWEEP_MIN_AGE_MS now r" by blast
      with a show False by (auto simp: older_than_def min_def split: option.splits if_splits)
    qed
    with a show "map_of (rg_runs (sweep gc now rg)) i = Some r" by (simp add: runs keep)
  qed
  show "length (rg_runs (sweep gc now rg)) \<le> gc_max_runs gc \<or>
      (\<forall>(i, r)\<in>set (rg_runs (sweep gc now rg)). \<not> older_than SWEEP_MIN_AGE_MS now r)"
  proof (cases "length ?runs - length (expired_runs gc now ?runs) - gc_max_runs gc \<le> length (stale_runs gc now ?runs)")
    case True
    have "length (rg_runs (sweep gc now rg)) = length ?runs - length ?ev"
      unfolding runs by (rule length_without) (use assms ev in auto)
    moreover have "length ?ev = length (expired_runs gc now ?runs) +
        (length ?runs - length (expired_runs gc now ?runs) - gc_max_runs gc)"
      using True by (simp add: evicted_runs_def)
    ultimately have "length (rg_runs (sweep gc now rg)) \<le> gc_max_runs gc" by arith
    then show ?thesis ..
  next
    case False
    then have all: "?ev = expired_runs gc now ?runs @ stale_runs gc now ?runs" by (simp add: evicted_runs_def)
    have "\<not> older_than SWEEP_MIN_AGE_MS now r" if "(i, r) \<in> set (rg_runs (sweep gc now rg))" for i r
    proof
      assume "older_than SWEEP_MIN_AGE_MS now r"
      moreover from that have "(i, r) \<in> set ?runs" "i \<notin> fst ` set (expired_runs gc now ?runs)"
        "i \<notin> fst ` set (stale_runs gc now ?runs)"
        by (auto simp: runs all)
      ultimately show False by (force simp: stale_runs_def)
    qed
    then show ?thesis by blast
  qed
  show "box_of sid rg \<noteq> [] \<longrightarrow> box_of sid (sweep gc now rg) = box_of sid rg"
  proof -
    have "map_of (filter (\<lambda>(s, b). A s \<or> \<not> inbox_empty b) xs) sid = map_of xs sid"
      if "map_of xs sid = Some b" "b \<noteq> []" for A b and xs :: "(string \<times> inbox) list"
      using that by (induction xs) (auto simp: inbox_empty_def)
    then show ?thesis by (auto simp: box_of_def sweep_def split: option.splits)
  qed
  show "sid \<in> set (rg_locks rg) \<and> (map_of (rg_lock_users rg) sid \<noteq> None \<or> session_active rg sid)
      \<longrightarrow> sid \<in> set (rg_locks (sweep gc now rg))"
    by (simp add: sweep_def)
qed

definition sample_registry :: registry where
  "sample_registry =
     \<lparr>rg_runs = [(''r1'', sample_record\<lparr>rr_stream := (new_stream ''r1'')\<lparr>rs_status := ''finished''\<rparr>,
                     rr_finished_at := Some 1000\<rparr>), (''r2'', new_record ''r2'' ''t'' 2 None None None)],
      rg_active = [(''t'', ''r2'')], rg_handles = [''r2''], rg_inboxes = [(''s'', [])],
      rg_locks = [''s'', ''t''], rg_lock_users = []\<rparr>"

theorem sweep_keeps_what_is_needed_witness:
  "length (rg_runs (sweep \<lparr>gc_retention_ms = 600000, gc_max_runs = 1\<rparr> 40000 sample_registry)) = 1 \<and>
   ''t'' \<in> set (rg_locks (sweep \<lparr>gc_retention_ms = 600000, gc_max_runs = 1\<rparr> 40000 sample_registry))"
proof -
  have "distinct (map fst (rg_runs sample_registry))" by (simp add: sample_registry_def)
  note k = sweep_keeps_what_is_needed [OF this, where gc = "\<lparr>gc_retention_ms = 600000, gc_max_runs = 1\<rparr>" and
      now = 40000 and i = "''r2''" and r = "new_record ''r2'' ''t'' 2 None None None" and sid = "''t''"]
  have "length (rg_runs (sweep \<lparr>gc_retention_ms = 600000, gc_max_runs = 1\<rparr> 40000 sample_registry)) = 1"
    by (simp add: sweep_def sweep_victims_def sample_registry_def older_than_def terminal_def
        sample_record_def new_record_def new_stream_def SWEEP_MIN_AGE_MS_def)
  moreover have "''t'' \<in> set (rg_locks sample_registry)" "session_active sample_registry ''t''"
    by (simp_all add: sample_registry_def session_active_def)
  ultimately show ?thesis using k by blast
qed

subsection \<open>A handle that fails to open\<close>

text \<open>
  A session file whose opening fails with anything but a \<open>SessionError\<close> (bytes that are no
  UTF-8 raise a \<open>ValueError\<close>) blocks its session: the slot of the run that never began stays taken,
  no sweep frees it and every later start is refused as busy; a refusal by the session layer, in
  contrast, leaves the registry as it was.
\<close>

theorem failed_open_blocks_session:
  assumes "map_of (rg_active rg) sid = None" and "map_of (rg_runs rg) fresh = None"
    and "start_run True (Inr (content, command)) (OtherFailure why) fresh now model effort sid rg = (res, rg1)"
  shows "res = Inl (UnhandledError why) \<and>
     start_run True prepared' open' fresh' now' model' effort' sid (sweep gc later rg1) =
       (case prepared' of Inl e \<Rightarrow> (Inl e, sweep gc later rg1)
        | Inr _ \<Rightarrow> (Inl (RunBusy fresh), sweep gc later rg1)) \<and>
     fst (start_run True (Inr (content, command)) (SessionRefused why) fresh now model effort sid rg) =
       Inl (SessionReadError why) \<and>
     rg_active (snd (start_run True (Inr (content, command)) (SessionRefused why) fresh now model effort sid rg)) =
       rg_active rg"
proof -
  have del: "map_of xs k = None \<Longrightarrow> AList.delete k (AList.update k v xs) = xs" for k v and xs :: "(string \<times> 'v) list"
    by (induction xs) (auto simp: AList.delete_eq split: if_splits)
  from assms have "res = Inl (UnhandledError why)" "rg_active rg1 = AList.update sid fresh (rg_active rg)"
    by (auto simp: start_run_def reserve_run_def open_run_def Let_def put_run_def)
  then have "map_of (rg_active (sweep gc later rg1)) sid = Some fresh"
    by (simp add: sweep_def)
  with \<open>res = Inl (UnhandledError why)\<close> show ?thesis
    using assms(1) del [OF assms(1), of fresh]
    by (auto simp: start_run_def reserve_run_def open_run_def Let_def put_run_def split: sum.split)
qed

theorem failed_open_blocks_session_witness:
  "fst (start_run True (Inr (PStr ''again'', None)) HandleOpened ''r9'' 99 None None ''s''
     (sweep \<lparr>gc_retention_ms = 600000, gc_max_runs = 1\<rparr> 50
       (snd (start_run True (Inr (PStr ''hi'', None)) (OtherFailure ''utf-8'') ''r8'' 8 None None ''s'' sample_registry))))
   = Inl (RunBusy ''r8'')"
proof -
  have a: "map_of (rg_active sample_registry) ''s'' = None" "map_of (rg_runs sample_registry) ''r8'' = None"
    by (simp_all add: sample_registry_def)
  obtain res rg1 where r: "start_run True (Inr (PStr ''hi'', None)) (OtherFailure ''utf-8'') ''r8'' 8 None None ''s''
      sample_registry = (res, rg1)" by fastforce
  from failed_open_blocks_session [OF a r, where prepared' = "Inr (PStr ''again'', None)" and
      open' = HandleOpened and fresh' = "''r9''" and now' = 99 and model' = None and effort' = None and
      gc = "\<lparr>gc_retention_ms = 600000, gc_max_runs = 1\<rparr>" and later = 50] r
  show ?thesis by simp
qed

lemma start_run_inboxes: "rg_inboxes (snd (start_run found prepared res fresh now model effort sid rg)) = rg_inboxes rg"
proof (cases prepared)
  case (Inr c)
  then show ?thesis
    by (cases "map_of (rg_active rg) sid"; cases res)
      (simp_all add: start_run_def reserve_run_def open_run_def Let_def put_run_def split_beta split: unit.split)
qed (simp add: start_run_def)

text \<open>A queued input that could not be started is back in the queue.\<close>

lemma start_queued_keeps_input:
  assumes "start_queued found res run_id now sid i rg = (Inl e, rg')"
    and "distinct (map in_id (box_of sid rg))"
  shows "set (map in_id (box_of sid rg')) = set (map in_id (box_of sid rg))"
proof -
  obtain taken b where t: "inbox_take_for_run i (box_of sid rg) = (taken, b)" by fastforce
  have upd [simp]: "box_of sid (put_box sid x r) = x" for x r by (simp add: box_of_def put_box_def)
  note ids = take_for_run_ids [OF assms(2) t]
  show ?thesis
  proof (cases taken)
    case None
    with assms(1) t ids(4) show ?thesis by (auto simp: start_queued_def)
  next
    case (Some item)
    obtain res' rg2 where s: "start_run found (Inr (in_content item, None)) res run_id now
        (str_param item ''model'') (str_param item ''effort'') sid (put_box sid b rg) = (res', rg2)" by fastforce
    have "rg_inboxes rg2 = rg_inboxes (put_box sid b rg)"
      using start_run_inboxes [of found "Inr (in_content item, None)" res run_id now _ _ sid "put_box sid b rg"] s
      by (metis snd_conv)
    then have "box_of sid rg2 = b" by (simp add: box_of_def put_box_def)
    with assms(1) t Some s have "box_of sid rg' = inbox_restore item b"
      by (auto simp: start_queued_def split: sum.splits)
    moreover from ids(3) Some have "in_id item \<notin> in_id ` set b" by auto
    then have "\<forall>x\<in>set b. in_id x \<noteq> in_id item" by (metis imageI)
    ultimately have "box_of sid rg' = item # b" by (simp add: inbox_restore_def)
    with ids(2) Some show ?thesis by auto
  qed
qed

end
