(* ===== verification/Services_Registry.thy ===== *)
theory Services_Registry
  imports Services_Runs
begin

section \<open>Threads at the run registry\<close>

text \<open>
  The handle locks of \<open>RunRegistry\<close> (\<open>session_lock\<close>, the lock half of \<open>_sweep\<close>) and who opens and
  closes session handles under them: \<open>start\<close>, the last section of \<open>_run\<close>, and the readers of
  \<open>SessionService._session\<close>. A visit is one execution of a \<open>with session_lock\<close> block; a step is one
  section of the registry's own lock, or taking or releasing the handle lock. The handle lock is
  reentrant: a thread may hold it in several visits. The second part has the input tables with
  their identities.
\<close>

datatype visit_phase = Arriving | Holding | Leaving

record visit =
  vs_id :: nat
  vs_thread :: nat
  vs_session :: string
  vs_lock :: nat
  vs_phase :: visit_phase

datatype holder = ByRun string | ByVisit nat

record hub =
  hb_locks :: "(string \<times> nat) list"
  hb_users :: "(string \<times> int) list"
  hb_next_lock :: nat
  hb_active :: "(string \<times> string) list"
  hb_visits :: "visit list"
  hb_open :: "(string \<times> holder) list"

definition empty_hub :: hub where
  "empty_hub = \<lparr>hb_locks = [], hb_users = [], hb_next_lock = 0, hb_active = [], hb_visits = [], hb_open = []\<rparr>"

text \<open>The first section of \<open>session_lock\<close>: find or make the lock, and count this user.\<close>

definition enter_lock :: "nat \<Rightarrow> nat \<Rightarrow> string \<Rightarrow> hub \<Rightarrow> hub" where
  "enter_lock v t sid h =
     (let (lock, h) =
        (case map_of (hb_locks h) sid of
           Some l \<Rightarrow> (l, h)
         | None \<Rightarrow> (hb_next_lock h, h\<lparr>hb_locks := AList.update sid (hb_next_lock h) (hb_locks h),
                                    hb_next_lock := Suc (hb_next_lock h)\<rparr>));
        users = (case map_of (hb_users h) sid of None \<Rightarrow> 0 | Some n \<Rightarrow> n) + 1
      in h\<lparr>hb_users := AList.update sid users (hb_users h),
           hb_visits := \<lparr>vs_id = v, vs_thread = t, vs_session = sid, vs_lock = lock, vs_phase = Arriving\<rparr>
                        # hb_visits h\<rparr>)"

definition set_phase :: "nat \<Rightarrow> visit_phase \<Rightarrow> hub \<Rightarrow> hub" where
  "set_phase v p h =
     h\<lparr>hb_visits := map (\<lambda>x. if vs_id x = v then x\<lparr>vs_phase := p\<rparr> else x) (hb_visits h)\<rparr>"

text \<open>The last section: the lock goes when nobody uses it and no run of the session is active.\<close>

definition leave_lock :: "nat \<Rightarrow> string \<Rightarrow> hub \<Rightarrow> hub" where
  "leave_lock v sid h =
     (let remaining = (case map_of (hb_users h) sid of None \<Rightarrow> 1 | Some n \<Rightarrow> n) - 1;
          h = h\<lparr>hb_visits := filter (\<lambda>x. vs_id x \<noteq> v) (hb_visits h)\<rparr>
      in if 0 < remaining then h\<lparr>hb_users := AList.update sid remaining (hb_users h)\<rparr>
         else h\<lparr>hb_users := AList.delete sid (hb_users h),
                hb_locks := (if map_of (hb_active h) sid = None then AList.delete sid (hb_locks h)
                             else hb_locks h)\<rparr>)"

definition sweep_locks :: "hub \<Rightarrow> hub" where
  "sweep_locks h =
     h\<lparr>hb_locks := filter (\<lambda>(s, l). map_of (hb_users h) s \<noteq> None \<or> map_of (hb_active h) s \<noteq> None) (hb_locks h)\<rparr>"

definition start_under_lock :: "string \<Rightarrow> string \<Rightarrow> hub \<Rightarrow> hub" where
  "start_under_lock sid r h =
     h\<lparr>hb_active := AList.update sid r (hb_active h), hb_open := (sid, ByRun r) # hb_open h\<rparr>"

definition detach_under_lock :: "string \<Rightarrow> string \<Rightarrow> hub \<Rightarrow> hub" where
  "detach_under_lock sid r h =
     h\<lparr>hb_active := AList.delete sid (hb_active h), hb_open := removeAll (sid, ByRun r) (hb_open h)\<rparr>"

definition open_in_visit :: "nat \<Rightarrow> string \<Rightarrow> hub \<Rightarrow> hub" where
  "open_in_visit v sid h = h\<lparr>hb_open := (sid, ByVisit v) # hb_open h\<rparr>"

definition close_in_visit :: "nat \<Rightarrow> string \<Rightarrow> hub \<Rightarrow> hub" where
  "close_in_visit v sid h = h\<lparr>hb_open := removeAll (sid, ByVisit v) (hb_open h)\<rparr>"

definition in_phase :: "visit_phase \<Rightarrow> visit \<Rightarrow> hub \<Rightarrow> bool" where
  "in_phase p x h \<longleftrightarrow> x \<in> set (hb_visits h) \<and> vs_phase x = p"

text \<open>
  The steps. A start and a detach happen in a visit that holds the lock; a reader opens a handle of
  its own only if no run is active, and closes it before it releases the lock. A failed start that
  gives the slot back is a start and a detach in the same visit.
\<close>

inductive hub_step :: "hub \<Rightarrow> hub \<Rightarrow> bool" where
  entered: "v \<notin> vs_id ` set (hb_visits h) \<Longrightarrow> hub_step h (enter_lock v t sid h)"
| taken: "\<lbrakk>in_phase Arriving x h;
    \<forall>y\<in>set (hb_visits h). vs_phase y = Holding \<and> vs_lock y = vs_lock x \<longrightarrow> vs_thread y = vs_thread x\<rbrakk>
    \<Longrightarrow> hub_step h (set_phase (vs_id x) Holding h)"
| started: "\<lbrakk>in_phase Holding x h; map_of (hb_active h) (vs_session x) = None\<rbrakk>
    \<Longrightarrow> hub_step h (start_under_lock (vs_session x) r h)"
| detached: "\<lbrakk>in_phase Holding x h; map_of (hb_active h) (vs_session x) = Some r\<rbrakk>
    \<Longrightarrow> hub_step h (detach_under_lock (vs_session x) r h)"
| reader_opened: "\<lbrakk>in_phase Holding x h; map_of (hb_active h) (vs_session x) = None\<rbrakk>
    \<Longrightarrow> hub_step h (open_in_visit (vs_id x) (vs_session x) h)"
| reader_closed: "\<lbrakk>in_phase Holding x h\<rbrakk> \<Longrightarrow> hub_step h (close_in_visit (vs_id x) (vs_session x) h)"
| released: "\<lbrakk>in_phase Holding x h; (vs_session x, ByVisit (vs_id x)) \<notin> set (hb_open h)\<rbrakk>
    \<Longrightarrow> hub_step h (set_phase (vs_id x) Leaving h)"
| left: "in_phase Leaving x h \<Longrightarrow> hub_step h (leave_lock (vs_id x) (vs_session x) h)"
| swept: "hub_step h (sweep_locks h)"

inductive hub_run :: "hub \<Rightarrow> bool" where
  begun: "hub_run empty_hub"
| stepped: "\<lbrakk>hub_run h; hub_step h h'\<rbrakk> \<Longrightarrow> hub_run h'"

definition visits_of :: "string \<Rightarrow> hub \<Rightarrow> visit list" where
  "visits_of sid h = filter (\<lambda>x. vs_session x = sid) (hb_visits h)"

definition hub_inv :: "hub \<Rightarrow> bool" where
  "hub_inv h \<longleftrightarrow>
     distinct (map vs_id (hb_visits h)) \<and>
     (\<forall>sid. map_of (hb_users h) sid =
        (if visits_of sid h = [] then None else Some (int (length (visits_of sid h))))) \<and>
     (\<forall>x\<in>set (hb_visits h). map_of (hb_locks h) (vs_session x) = Some (vs_lock x)) \<and>
     (\<forall>x\<in>set (hb_visits h). \<forall>y\<in>set (hb_visits h). vs_phase x = Holding \<and> vs_phase y = Holding \<and>
        vs_lock x = vs_lock y \<longrightarrow> vs_thread x = vs_thread y) \<and>
     (\<forall>sid r. (sid, ByRun r) \<in> set (hb_open h) \<longrightarrow> map_of (hb_active h) sid = Some r) \<and>
     (\<forall>sid v. (sid, ByVisit v) \<in> set (hb_open h) \<longrightarrow>
        (\<exists>x\<in>set (hb_visits h). vs_id x = v \<and> vs_session x = sid \<and> vs_phase x = Holding))"

lemma visits_of_Nil: "visits_of sid h = [] \<longleftrightarrow> (\<forall>x\<in>set (hb_visits h). vs_session x \<noteq> sid)"
  by (auto simp: visits_of_def filter_empty_conv)

lemma hub_invI:
  assumes "distinct (map vs_id (hb_visits h))"
    and "\<And>sid. map_of (hb_users h) sid =
        (if visits_of sid h = [] then None else Some (int (length (visits_of sid h))))"
    and "\<And>x. x \<in> set (hb_visits h) \<Longrightarrow> map_of (hb_locks h) (vs_session x) = Some (vs_lock x)"
    and "\<And>x y. \<lbrakk>x \<in> set (hb_visits h); y \<in> set (hb_visits h); vs_phase x = Holding; vs_phase y = Holding;
        vs_lock x = vs_lock y\<rbrakk> \<Longrightarrow> vs_thread x = vs_thread y"
    and "\<And>sid r. (sid, ByRun r) \<in> set (hb_open h) \<Longrightarrow> map_of (hb_active h) sid = Some r"
    and "\<And>sid v. (sid, ByVisit v) \<in> set (hb_open h) \<Longrightarrow>
        \<exists>x\<in>set (hb_visits h). vs_id x = v \<and> vs_session x = sid \<and> vs_phase x = Holding"
  shows "hub_inv h"
  unfolding hub_inv_def by (intro conjI allI ballI impI; (elim conjE)?; rule assms; assumption)

lemma hub_invD:
  assumes "hub_inv h"
  shows "distinct (map vs_id (hb_visits h))"
    and "map_of (hb_users h) sid =
        (if visits_of sid h = [] then None else Some (int (length (visits_of sid h))))"
    and "x \<in> set (hb_visits h) \<Longrightarrow> map_of (hb_locks h) (vs_session x) = Some (vs_lock x)"
    and "\<lbrakk>x \<in> set (hb_visits h); y \<in> set (hb_visits h); vs_phase x = Holding; vs_phase y = Holding;
        vs_lock x = vs_lock y\<rbrakk> \<Longrightarrow> vs_thread x = vs_thread y"
    and "(sid, ByRun r) \<in> set (hb_open h) \<Longrightarrow> map_of (hb_active h) sid = Some r"
    and "(sid, ByVisit v) \<in> set (hb_open h) \<Longrightarrow>
        \<exists>x\<in>set (hb_visits h). vs_id x = v \<and> vs_session x = sid \<and> vs_phase x = Holding"
proof -
  note parts = assms [unfolded hub_inv_def]
  show "distinct (map vs_id (hb_visits h))" using parts by (elim conjE)
  show "map_of (hb_users h) sid =
        (if visits_of sid h = [] then None else Some (int (length (visits_of sid h))))"
    using parts by (elim conjE) (rule spec)
  show "x \<in> set (hb_visits h) \<Longrightarrow> map_of (hb_locks h) (vs_session x) = Some (vs_lock x)"
    using parts by (elim conjE) (rule bspec)
  show "\<lbrakk>x \<in> set (hb_visits h); y \<in> set (hb_visits h); vs_phase x = Holding; vs_phase y = Holding;
        vs_lock x = vs_lock y\<rbrakk> \<Longrightarrow> vs_thread x = vs_thread y"
  proof -
    have "\<forall>x\<in>set (hb_visits h). \<forall>y\<in>set (hb_visits h). vs_phase x = Holding \<and> vs_phase y = Holding \<and>
        vs_lock x = vs_lock y \<longrightarrow> vs_thread x = vs_thread y" using parts by (elim conjE)
    then show "\<lbrakk>x \<in> set (hb_visits h); y \<in> set (hb_visits h); vs_phase x = Holding; vs_phase y = Holding;
        vs_lock x = vs_lock y\<rbrakk> \<Longrightarrow> vs_thread x = vs_thread y" by blast
  qed
  show "(sid, ByRun r) \<in> set (hb_open h) \<Longrightarrow> map_of (hb_active h) sid = Some r"
    using parts by (elim conjE) (drule spec, drule spec, erule (1) mp)
  show "(sid, ByVisit v) \<in> set (hb_open h) \<Longrightarrow>
        \<exists>x\<in>set (hb_visits h). vs_id x = v \<and> vs_session x = sid \<and> vs_phase x = Holding"
    using parts by (elim conjE) (drule spec, drule spec, erule (1) mp)
qed

lemma enter_lock_inv:
  assumes inv: "hub_inv h" and fresh: "v \<notin> vs_id ` set (hb_visits h)"
  shows "hub_inv (enter_lock v t sid h)"
proof -
  define lock where "lock = (case map_of (hb_locks h) sid of Some l \<Rightarrow> l | None \<Rightarrow> hb_next_lock h)"
  let ?x = "\<lparr>vs_id = v, vs_thread = t, vs_session = sid, vs_lock = lock, vs_phase = Arriving\<rparr>"
  have vis: "hb_visits (enter_lock v t sid h) = ?x # hb_visits h"
    and opn: "hb_open (enter_lock v t sid h) = hb_open h"
    and act: "hb_active (enter_lock v t sid h) = hb_active h"
    by (auto simp: enter_lock_def lock_def Let_def split: option.split)
  have lk: "map_of (hb_locks (enter_lock v t sid h)) s =
      (if s = sid then Some lock else map_of (hb_locks h) s)" for s
    by (auto simp: enter_lock_def lock_def Let_def split: option.split)
  have us: "map_of (hb_users (enter_lock v t sid h)) s =
      (if s = sid then Some ((case map_of (hb_users h) sid of None \<Rightarrow> 0 | Some n \<Rightarrow> n) + 1)
       else map_of (hb_users h) s)" for s
    by (auto simp: enter_lock_def Let_def split: option.split)
  have vo: "visits_of s (enter_lock v t sid h) = (if s = sid then [?x] else []) @ visits_of s h" for s
    by (simp add: visits_of_def vis)
  show ?thesis
  proof (rule hub_invI)
    show "distinct (map vs_id (hb_visits (enter_lock v t sid h)))"
      using fresh hub_invD(1) [OF inv] by (simp add: vis)
    show "map_of (hb_users (enter_lock v t sid h)) s =
        (if visits_of s (enter_lock v t sid h) = [] then None
         else Some (int (length (visits_of s (enter_lock v t sid h)))))" for s
      using hub_invD(2) [OF inv, of s] by (auto simp: us vo)
    show "map_of (hb_locks (enter_lock v t sid h)) (vs_session x) = Some (vs_lock x)"
      if "x \<in> set (hb_visits (enter_lock v t sid h))" for x
    proof (cases "x = ?x")
      case False
      with that have "x \<in> set (hb_visits h)" by (simp add: vis)
      from hub_invD(3) [OF inv this] show ?thesis by (auto simp: lk lock_def)
    qed (simp add: lk)
    show "vs_thread x = vs_thread y" if "x \<in> set (hb_visits (enter_lock v t sid h))"
      "y \<in> set (hb_visits (enter_lock v t sid h))" "vs_phase x = Holding" "vs_phase y = Holding"
      "vs_lock x = vs_lock y" for x y
      using that hub_invD(4) [OF inv, of x y] by (auto simp: vis)
    show "map_of (hb_active (enter_lock v t sid h)) s = Some r"
      if "(s, ByRun r) \<in> set (hb_open (enter_lock v t sid h))" for s r
      using that hub_invD(5) [OF inv] by (simp add: opn act)
    show "\<exists>x\<in>set (hb_visits (enter_lock v t sid h)). vs_id x = w \<and> vs_session x = s \<and> vs_phase x = Holding"
      if "(s, ByVisit w) \<in> set (hb_open (enter_lock v t sid h))" for s w
      using that hub_invD(6) [OF inv, of s w] by (auto simp: opn vis)
  qed
qed

lemma set_phase_simps [simp]:
  "hb_locks (set_phase v p h) = hb_locks h" "hb_users (set_phase v p h) = hb_users h"
  "hb_active (set_phase v p h) = hb_active h" "hb_open (set_phase v p h) = hb_open h"
  "hb_visits (set_phase v p h) = map (\<lambda>x. if vs_id x = v then x\<lparr>vs_phase := p\<rparr> else x) (hb_visits h)"
  by (simp_all add: set_phase_def)

lemma length_visits_set_phase: "length (visits_of sid (set_phase v p h)) = length (visits_of sid h)"
  by (induction "hb_visits h" arbitrary: h)
    (simp_all add: visits_of_def filter_map comp_def if_distrib cong: if_cong)

lemma set_phase_inv:
  assumes inv: "hub_inv h"
    and threads: "\<And>x y. \<lbrakk>p = Holding; x \<in> set (hb_visits h); vs_id x = v; y \<in> set (hb_visits h); vs_phase y = Holding;
        vs_lock y = vs_lock x\<rbrakk> \<Longrightarrow> vs_thread y = vs_thread x"
    and "p \<noteq> Holding \<Longrightarrow> \<forall>sid. (sid, ByVisit v) \<notin> set (hb_open h)"
  shows "hub_inv (set_phase v p h)"
proof (rule hub_invI)
  have ids: "map vs_id (hb_visits (set_phase v p h)) = map vs_id (hb_visits h)" by simp
  show "distinct (map vs_id (hb_visits (set_phase v p h)))" using hub_invD(1) [OF inv] by (simp only: ids)
  show "map_of (hb_users (set_phase v p h)) s =
      (if visits_of s (set_phase v p h) = [] then None else Some (int (length (visits_of s (set_phase v p h)))))" for s
    using hub_invD(2) [OF inv, of s] length_visits_set_phase [of s v p h]
    by (metis length_0_conv set_phase_simps(2))
  show "map_of (hb_locks (set_phase v p h)) (vs_session x) = Some (vs_lock x)"
    if "x \<in> set (hb_visits (set_phase v p h))" for x
    using that hub_invD(3) [OF inv] by auto
  show "vs_thread x = vs_thread y" if "x \<in> set (hb_visits (set_phase v p h))"
    "y \<in> set (hb_visits (set_phase v p h))" "vs_phase x = Holding" "vs_phase y = Holding"
    "vs_lock x = vs_lock y" for x y
  proof -
    from that obtain x' y' where x': "x' \<in> set (hb_visits h)" "x = (if vs_id x' = v then x'\<lparr>vs_phase := p\<rparr> else x')"
      and y': "y' \<in> set (hb_visits h)" "y = (if vs_id y' = v then y'\<lparr>vs_phase := p\<rparr> else y')" by auto
    have same: "x' = y'" if "vs_id x' = v" "vs_id y' = v"
      using that x'(1) y'(1) hub_invD(1) [OF inv] by (metis distinct_map inj_onD)
    have ph: "vs_id z = v \<or> vs_phase z = Holding" if "vs_phase (if vs_id z = v then z\<lparr>vs_phase := p\<rparr> else z) = Holding" for z
      using that by (auto split: if_splits)
    have lk: "vs_lock (if vs_id z = v then z\<lparr>vs_phase := p\<rparr> else z) = vs_lock z"
      "vs_thread (if vs_id z = v then z\<lparr>vs_phase := p\<rparr> else z) = vs_thread z" for z by simp_all
    have pv: "p = Holding" if "vs_id z = v" "vs_phase (if vs_id z = v then z\<lparr>vs_phase := p\<rparr> else z) = Holding" for z
      using that by simp
    from that(5) x'(2) y'(2) have l: "vs_lock x' = vs_lock y'" by (simp only: lk)
    have "vs_thread x' = vs_thread y'"
    proof (cases "vs_id x' = v")
      case True
      with that(3) x'(2) have "p = Holding" by simp
      show ?thesis
      proof (cases "vs_id y' = v")
        case False
        with that(4) y'(2) have "vs_phase y' = Holding" by simp
        from threads [OF \<open>p = Holding\<close> x'(1) True y'(1) this] l show ?thesis by simp
      qed (use same True in simp)
    next
      case False
      with that(3) x'(2) have hx: "vs_phase x' = Holding" by simp
      show ?thesis
      proof (cases "vs_id y' = v")
        case True
        with that(4) y'(2) have "p = Holding" by simp
        from threads [OF this y'(1) True x'(1) hx] l show ?thesis by simp
      next
        case nv: False
        with that(4) y'(2) have "vs_phase y' = Holding" by simp
        from hub_invD(4) [OF inv x'(1) y'(1) hx this l] show ?thesis .
      qed
    qed
    with x'(2) y'(2) show ?thesis by (simp only: lk)
  qed
  show "map_of (hb_active (set_phase v p h)) s = Some r" if "(s, ByRun r) \<in> set (hb_open (set_phase v p h))" for s r
    using that hub_invD(5) [OF inv] by simp
  show "\<exists>x\<in>set (hb_visits (set_phase v p h)). vs_id x = w \<and> vs_session x = s \<and> vs_phase x = Holding"
    if "(s, ByVisit w) \<in> set (hb_open (set_phase v p h))" for s w
  proof -
    from that obtain x where x: "x \<in> set (hb_visits h)" "vs_id x = w" "vs_session x = s" "vs_phase x = Holding"
      using hub_invD(6) [OF inv, of s w] by auto
    have "w = v \<Longrightarrow> p = Holding" using that assms(3) by auto
    with x show ?thesis by (intro bexI [of _ "if vs_id x = v then x\<lparr>vs_phase := p\<rparr> else x"]) auto
  qed
qed

text \<open>A step that leaves visits and users alone keeps the rest if it keeps the locks in use.\<close>

lemma same_visits_inv:
  assumes inv: "hub_inv h" and same: "hb_visits h' = hb_visits h" "hb_users h' = hb_users h"
    and "\<And>x. x \<in> set (hb_visits h) \<Longrightarrow> map_of (hb_locks h') (vs_session x) = map_of (hb_locks h) (vs_session x)"
    and "\<And>sid r. (sid, ByRun r) \<in> set (hb_open h') \<Longrightarrow> map_of (hb_active h') sid = Some r"
    and "\<And>sid v. (sid, ByVisit v) \<in> set (hb_open h') \<Longrightarrow>
      \<exists>x\<in>set (hb_visits h). vs_id x = v \<and> vs_session x = sid \<and> vs_phase x = Holding"
  shows "hub_inv h'"
proof (rule hub_invI)
  have "visits_of sid h' = visits_of sid h" for sid by (simp add: visits_of_def same)
  then show "map_of (hb_users h') sid =
      (if visits_of sid h' = [] then None else Some (int (length (visits_of sid h'))))" for sid
    using hub_invD(2) [OF inv, of sid] by (simp add: same)
  show "distinct (map vs_id (hb_visits h'))" using hub_invD(1) [OF inv] by (simp add: same)
  show "map_of (hb_locks h') (vs_session x) = Some (vs_lock x)" if "x \<in> set (hb_visits h')" for x
  proof -
    from that have x: "x \<in> set (hb_visits h)" by (simp only: same)
    with assms(4) [OF x] hub_invD(3) [OF inv x] show ?thesis by simp
  qed
  show "vs_thread x = vs_thread y" if "x \<in> set (hb_visits h')" "y \<in> set (hb_visits h')" "vs_phase x = Holding"
    "vs_phase y = Holding" "vs_lock x = vs_lock y" for x y
    by (rule hub_invD(4) [OF inv]) (use that in \<open>simp_all only: same\<close>)
qed (simp_all only: same assms(5,6))

lemma start_inv:
  assumes "hub_inv h" and "map_of (hb_active h) sid = None"
  shows "hub_inv (start_under_lock sid r h)"
proof (rule same_visits_inv [OF assms(1)])
  show "map_of (hb_active (start_under_lock sid r h)) s = Some r'"
    if "(s, ByRun r') \<in> set (hb_open (start_under_lock sid r h))" for s r'
    using that hub_invD(5) [OF assms(1), of s r'] assms(2) by (auto simp: start_under_lock_def)
qed (use hub_invD(6) [OF assms(1)] in \<open>simp_all add: start_under_lock_def\<close>)

lemma detach_inv:
  assumes "hub_inv h" and "map_of (hb_active h) sid = Some r"
  shows "hub_inv (detach_under_lock sid r h)"
proof (rule same_visits_inv [OF assms(1)])
  show "map_of (hb_active (detach_under_lock sid r h)) s = Some r'"
    if "(s, ByRun r') \<in> set (hb_open (detach_under_lock sid r h))" for s r'
    using that hub_invD(5) [OF assms(1), of s r'] assms(2) by (auto simp: detach_under_lock_def)
qed (use hub_invD(6) [OF assms(1)] in \<open>simp_all add: detach_under_lock_def\<close>)

lemma reader_open_inv:
  assumes "hub_inv h" and "in_phase Holding x h"
  shows "hub_inv (open_in_visit (vs_id x) (vs_session x) h)"
proof (rule same_visits_inv [OF assms(1)])
  show "\<exists>y\<in>set (hb_visits h). vs_id y = v \<and> vs_session y = sid \<and> vs_phase y = Holding"
    if "(sid, ByVisit v) \<in> set (hb_open (open_in_visit (vs_id x) (vs_session x) h))" for sid v
    using that hub_invD(6) [OF assms(1), of sid v] assms(2) by (auto simp: open_in_visit_def in_phase_def)
qed (use hub_invD(5) [OF assms(1)] in \<open>simp_all add: open_in_visit_def\<close>)

lemma reader_close_inv:
  assumes "hub_inv h"
  shows "hub_inv (close_in_visit v sid h)"
  by (rule same_visits_inv [OF assms])
    (use hub_invD(5,6) [OF assms] in \<open>auto simp: close_in_visit_def\<close>)

lemma sweep_locks_inv:
  assumes "hub_inv h"
  shows "hub_inv (sweep_locks h)"
proof (rule same_visits_inv [OF assms])
  fix x assume x: "x \<in> set (hb_visits h)"
  then have "visits_of (vs_session x) h \<noteq> []" by (auto simp: visits_of_Nil)
  with hub_invD(2) [OF assms] have "map_of (hb_users h) (vs_session x) \<noteq> None" by simp
  moreover have "map_of (filter (\<lambda>(s, l). P s) xs) k = (if P k then map_of xs k else None)"
    for P k and xs :: "(string \<times> nat) list" by (induction xs) auto
  ultimately show "map_of (hb_locks (sweep_locks h)) (vs_session x) = map_of (hb_locks h) (vs_session x)"
    by (simp add: sweep_locks_def)
qed (use hub_invD(5,6) [OF assms] in \<open>simp_all add: sweep_locks_def\<close>)

lemma leave_lock_simps [simp]:
  "hb_visits (leave_lock v sid h) = filter (\<lambda>x. vs_id x \<noteq> v) (hb_visits h)"
  "hb_open (leave_lock v sid h) = hb_open h" "hb_active (leave_lock v sid h) = hb_active h"
  by (simp_all add: leave_lock_def Let_def)

lemma leave_lock_inv:
  assumes inv: "hub_inv h" and x: "in_phase Leaving x h"
  shows "hub_inv (leave_lock (vs_id x) (vs_session x) h)"
proof -
  let ?sid = "vs_session x" and ?h = "leave_lock (vs_id x) (vs_session x) h"
  from x have xin: "x \<in> set (hb_visits h)" by (simp add: in_phase_def)
  have d: "distinct (map vs_id (hb_visits h))" by (rule hub_invD(1) [OF inv])
  have only: "y = x" if "y \<in> set (hb_visits h)" "vs_id y = vs_id x" for y
    using d that xin by (metis distinct_map inj_onD)
  have vo: "visits_of s ?h = filter (\<lambda>y. y \<noteq> x) (visits_of s h)" for s
    using only by (auto simp: visits_of_def intro!: filter_cong)
  have len: "length (visits_of ?sid ?h) = length (visits_of ?sid h) - 1"
  proof -
    have "distinct (visits_of ?sid h)" using d by (auto simp: visits_of_def distinct_map)
    moreover have "x \<in> set (visits_of ?sid h)" using xin by (simp add: visits_of_def)
    moreover have "length (filter (\<lambda>y. y \<noteq> x) xs) = length xs - 1" if "distinct xs" "x \<in> set xs" for xs
      using that
    proof (induction xs)
      case (Cons a xs)
      have "filter (\<lambda>y. y \<noteq> x) xs = xs" if "x \<notin> set xs" using that by (intro filter_True) auto
      with Cons show ?case by (cases xs) (auto split: if_splits)
    qed simp
    ultimately show ?thesis by (simp add: vo)
  qed
  have other: "visits_of s ?h = visits_of s h" if "s \<noteq> ?sid" for s
    unfolding vo by (rule filter_True) (use that in \<open>auto simp: visits_of_def\<close>)
  have ne: "visits_of ?sid h \<noteq> []" using xin by (auto simp: visits_of_Nil)
  then have us: "map_of (hb_users h) ?sid = Some (int (length (visits_of ?sid h)))"
    using hub_invD(2) [OF inv] by simp
  have users: "map_of (hb_users ?h) s = (if visits_of s ?h = [] then None else Some (int (length (visits_of s ?h))))" for s
  proof (cases "s = ?sid")
    case True
    have "1 \<le> length (visits_of ?sid h)" using ne by (simp add: Suc_le_eq)
    then show ?thesis
      unfolding True using us len
      by (cases "length (visits_of ?sid h) = 1") (auto simp: leave_lock_def Let_def of_nat_diff)
  next
    case False
    then have "map_of (hb_users ?h) s = map_of (hb_users h) s" by (simp add: leave_lock_def Let_def)
    with hub_invD(2) [OF inv, of s] other [OF False] show ?thesis by simp
  qed
  have locks: "map_of (hb_locks ?h) (vs_session y) = Some (vs_lock y)" if y: "y \<in> set (hb_visits ?h)" for y
  proof -
    from y have "y \<in> set (hb_visits h)" by simp
    note l = hub_invD(3) [OF inv this]
    show ?thesis
    proof (cases "vs_session y = ?sid")
      case True
      with y have "visits_of ?sid ?h \<noteq> []" by (auto simp: visits_of_Nil)
      then have "1 < length (visits_of ?sid h)" using len by (cases "visits_of ?sid ?h") auto
      then have "hb_locks ?h = hb_locks h" using us by (simp add: leave_lock_def Let_def)
      with l show ?thesis by simp
    next
      case False
      with l show ?thesis by (simp add: leave_lock_def Let_def)
    qed
  qed
  have kept: "\<exists>y\<in>set (hb_visits ?h). vs_id y = v \<and> vs_session y = s \<and> vs_phase y = Holding"
    if "(s, ByVisit v) \<in> set (hb_open ?h)" for s v
  proof -
    from that obtain y where y: "y \<in> set (hb_visits h)" "vs_id y = v" "vs_session y = s" "vs_phase y = Holding"
      using hub_invD(6) [OF inv, of s v] by auto
    have "vs_id y \<noteq> vs_id x"
    proof
      assume "vs_id y = vs_id x"
      from only [OF y(1) this] y(4) x show False by (simp add: in_phase_def)
    qed
    with y show ?thesis by auto
  qed
  show ?thesis
    by (rule hub_invI)
      (use d users locks kept hub_invD(4,5) [OF inv] in \<open>simp_all add: distinct_map_filter\<close>)
qed

lemma hub_step_inv: "\<lbrakk>hub_step h h'; hub_inv h\<rbrakk> \<Longrightarrow> hub_inv h'"
proof (induction rule: hub_step.induct)
  case (entered v h t sid)
  then show ?case by (intro enter_lock_inv)
next
  case (taken x h)
  have d: "distinct (map vs_id (hb_visits h))" by (rule hub_invD(1) [OF taken.prems])
  have "x' = x" if "x' \<in> set (hb_visits h)" "vs_id x' = vs_id x" for x'
    using d that taken.hyps(1) by (metis distinct_map inj_onD in_phase_def)
  with taken show ?case by (intro set_phase_inv) auto
next
  case (released x h)
  have "(sid, ByVisit (vs_id x)) \<notin> set (hb_open h)" for sid
  proof
    assume "(sid, ByVisit (vs_id x)) \<in> set (hb_open h)"
    from hub_invD(6) [OF released.prems this] obtain y where
      y: "y \<in> set (hb_visits h)" "vs_id y = vs_id x" "vs_session y = sid" by blast
    with hub_invD(1) [OF released.prems] released.hyps(1) have "y = x"
      by (metis distinct_map inj_onD in_phase_def)
    with y \<open>(sid, ByVisit (vs_id x)) \<in> set (hb_open h)\<close> released.hyps(2) show False by simp
  qed
  with released.prems show ?case by (intro set_phase_inv) auto
qed (auto intro: start_inv detach_inv reader_open_inv reader_close_inv leave_lock_inv sweep_locks_inv)

lemma hub_run_inv: "hub_run h \<Longrightarrow> hub_inv h"
proof (induction rule: hub_run.induct)
  case begun
  show ?case by (rule hub_invI) (simp_all add: empty_hub_def visits_of_def)
qed (rule hub_step_inv)

text \<open>
  C34. The handle lock of a session excludes: however threads come and go, and whatever sweeps drop
  in between, all visits that hold the lock of a session belong to one thread, every visit waits
  for the one lock object the registry knows, and a handle of the session that is open is the one
  of its active run or belongs to a visit of that same thread.
\<close>

theorem handle_lock_excludes:
  assumes "hub_run h" and "in_phase Holding x h"
  shows "(in_phase Holding y h \<and> vs_session y = vs_session x \<longrightarrow> vs_thread y = vs_thread x) \<and>
     (y \<in> set (hb_visits h) \<and> vs_session y = vs_session x \<longrightarrow> vs_lock y = vs_lock x) \<and>
     ((vs_session x, k) \<in> set (hb_open h) \<longrightarrow>
        (\<exists>r. k = ByRun r \<and> map_of (hb_active h) (vs_session x) = Some r) \<or>
        (\<exists>z. k = ByVisit (vs_id z) \<and> in_phase Holding z h \<and> vs_thread z = vs_thread x))"
proof -
  note inv = hub_run_inv [OF assms(1)]
  have x: "x \<in> set (hb_visits h)" "vs_phase x = Holding" using assms(2) by (simp_all add: in_phase_def)
  have lock: "vs_lock y = vs_lock x" if "y \<in> set (hb_visits h)" "vs_session y = vs_session x" for y
    using hub_invD(3) [OF inv that(1)] hub_invD(3) [OF inv x(1)] that(2) by simp
  have thread: "vs_thread y = vs_thread x" if "in_phase Holding y h" "vs_session y = vs_session x" for y
    using hub_invD(4) [OF inv _ x(1) _ x(2)] lock that by (simp add: in_phase_def)
  have "(\<exists>r. k = ByRun r \<and> map_of (hb_active h) (vs_session x) = Some r) \<or>
      (\<exists>z. k = ByVisit (vs_id z) \<and> in_phase Holding z h \<and> vs_thread z = vs_thread x)"
    if o: "(vs_session x, k) \<in> set (hb_open h)"
  proof (cases k)
    case (ByRun r)
    with hub_invD(5) [OF inv] o show ?thesis by simp
  next
    case (ByVisit v)
    with hub_invD(6) [OF inv, of "vs_session x" v] o obtain z where
      "z \<in> set (hb_visits h)" "vs_id z = v" "vs_session z = vs_session x" "vs_phase z = Holding" by blast
    with thread [of z] ByVisit show ?thesis by (auto simp: in_phase_def)
  qed
  with lock thread show ?thesis by blast
qed

text \<open>Two threads at one session, the second waits while a sweep passes.\<close>

definition busy_hub :: hub where
  "busy_hub = sweep_locks (enter_lock 3 8 ''s'' (start_under_lock ''s'' ''r1''
     (set_phase 2 Holding (enter_lock 2 7 ''s'' empty_hub))))"

lemma busy_hub_run: "hub_run busy_hub"
proof -
  let ?x = "\<lparr>vs_id = 2, vs_thread = 7, vs_session = ''s'', vs_lock = 0, vs_phase = Arriving\<rparr>"
  have e: "enter_lock 2 7 ''s'' empty_hub = \<lparr>hb_locks = [(''s'', 0)], hb_users = [(''s'', 1)], hb_next_lock = 1,
      hb_active = [], hb_visits = [?x], hb_open = []\<rparr>"
    by (simp add: enter_lock_def empty_hub_def)
  have 1: "hub_run (enter_lock 2 7 ''s'' empty_hub)"
    by (rule stepped [OF begun entered]) (simp add: empty_hub_def)
  have 2: "hub_run (set_phase 2 Holding (enter_lock 2 7 ''s'' empty_hub))"
    using stepped [OF 1 taken [of ?x]] by (simp add: e in_phase_def)
  have 3: "hub_run (start_under_lock ''s'' ''r1'' (set_phase 2 Holding (enter_lock 2 7 ''s'' empty_hub)))"
    using stepped [OF 2 started [of "?x\<lparr>vs_phase := Holding\<rparr>" _ "''r1''"]]
    by (simp add: e in_phase_def set_phase_def)
  show ?thesis unfolding busy_hub_def
    by (rule stepped [OF stepped [OF 3 entered] swept])
      (simp add: e start_under_lock_def set_phase_def)
qed

theorem handle_lock_excludes_witness:
  "\<exists>x y. in_phase Holding x busy_hub \<and> in_phase Arriving y busy_hub \<and> vs_lock y = vs_lock x"
proof -
  let ?x = "\<lparr>vs_id = 2, vs_thread = 7, vs_session = ''s'', vs_lock = 0, vs_phase = Holding\<rparr>"
  let ?y = "\<lparr>vs_id = 3, vs_thread = 8, vs_session = ''s'', vs_lock = 0, vs_phase = Arriving\<rparr>"
  have "hb_visits busy_hub = [?y, ?x]"
    by (simp add: busy_hub_def sweep_locks_def enter_lock_def start_under_lock_def set_phase_def empty_hub_def)
  then have p: "in_phase Holding ?x busy_hub" "in_phase Arriving ?y busy_hub" "?y \<in> set (hb_visits busy_hub)"
    by (simp_all add: in_phase_def)
  from handle_lock_excludes [OF busy_hub_run p(1), of ?y] p(3) have "vs_lock ?y = vs_lock ?x" by simp
  with p show ?thesis by blast
qed

subsection \<open>Input tables between sections\<close>

text \<open>
  \<open>submit_input\<close> fetches the table of its session in one section and adds to it later; \<open>_sweep\<close> drops
  the tables of idle sessions that are empty. Tables have identities here, since a thread keeps the
  one it fetched.
\<close>

record input_desk =
  id_index :: "(string \<times> nat) list"
  id_tables :: "(nat \<times> inbox) list"
  id_next :: nat
  id_active :: "string list"

definition desk_table :: "nat \<Rightarrow> input_desk \<Rightarrow> inbox" where
  "desk_table n d = (case map_of (id_tables d) n of None \<Rightarrow> [] | Some b \<Rightarrow> b)"

definition desk_fetch :: "string \<Rightarrow> input_desk \<Rightarrow> nat \<times> input_desk" where
  "desk_fetch sid d =
     (case map_of (id_index d) sid of
        Some n \<Rightarrow> (n, d)
      | None \<Rightarrow> (id_next d, d\<lparr>id_index := AList.update sid (id_next d) (id_index d),
                              id_tables := AList.update (id_next d) [] (id_tables d),
                              id_next := Suc (id_next d)\<rparr>))"

definition desk_add :: "nat \<Rightarrow> pending_input \<Rightarrow> input_desk \<Rightarrow> input_desk" where
  "desk_add n item d = d\<lparr>id_tables := AList.update n (desk_table n d @ [item]) (id_tables d)\<rparr>"

definition desk_sweep :: "input_desk \<Rightarrow> input_desk" where
  "desk_sweep d = d\<lparr>id_index := filter (\<lambda>(s, n). s \<in> set (id_active d) \<or> \<not> inbox_empty (desk_table n d)) (id_index d)\<rparr>"

definition desk_list :: "string \<Rightarrow> input_desk \<Rightarrow> inbox" where
  "desk_list sid d = (let (n, d') = desk_fetch sid d in desk_table n d')"

text \<open>
  An accepted input can vanish: between the section in which \<open>submit_input\<close> fetches the table
  of an idle session with no pending input and the one in which it adds to it, a sweep drops the
  table from the registry, and the input, acknowledged to the client, is in no list and will be
  taken by no run. Without a sweep in between the input is the last one listed.
\<close>

theorem accepted_input_can_vanish:
  assumes "sid \<notin> set (id_active d)" and "desk_list sid d = []"
    and "distinct (map fst (id_index d))" and "desk_fetch sid d = (n, d1)"
  shows "desk_list sid (desk_add n item (desk_sweep d1)) = [] \<and> desk_list sid (desk_add n item d1) = [item]"
proof -
  have none: "map_of (filter P xs) s = None" if "\<forall>b. \<not> P (s, b)" for P s and xs :: "(string \<times> nat) list"
    using that by (induction xs) auto
  have d1: "map_of (id_index d1) sid = Some n" "desk_table n d1 = []" "id_active d1 = id_active d"
    using assms(2,4) by (auto simp: desk_fetch_def desk_list_def desk_table_def Let_def split: option.splits)
  have dist: "distinct (map fst (id_index d1))"
    using assms(3,4) by (auto simp: desk_fetch_def split: option.splits intro: distinct_update)
  have single: "m = n" if "(sid, m) \<in> set (id_index d1)" for m
    using that d1(1) dist by (metis map_of_is_SomeI option.inject)
  have gone: "map_of (id_index (desk_sweep d1)) sid = None"
  proof -
    have "sid \<notin> fst ` set (id_index (desk_sweep d1))"
      using single d1(2,3) assms(1) by (auto simp: desk_sweep_def inbox_empty_def)
    then show ?thesis by (simp add: map_of_eq_None_iff)
  qed
  have "desk_list sid (desk_add n item (desk_sweep d1)) = []"
    using gone by (simp add: desk_list_def desk_fetch_def desk_add_def desk_table_def)
  moreover have "desk_list sid (desk_add n item d1) = [item]"
    using d1(1,2) by (simp add: desk_list_def desk_fetch_def desk_add_def desk_table_def)
  ultimately show ?thesis ..
qed

definition idle_desk :: input_desk where
  "idle_desk = \<lparr>id_index = [(''t'', 0)], id_tables = [(0, [])], id_next = 1, id_active = []\<rparr>"

theorem accepted_input_can_vanish_witness:
  "\<exists>item n d1. desk_fetch ''s'' idle_desk = (n, d1) \<and> desk_list ''s'' (desk_add n item (desk_sweep d1)) = []"
proof -
  let ?item = "\<lparr>in_id = ''i1'', in_mode = MODE_AFTER, in_content = PStr ''hi'', in_params = [], in_client_id = None,
     in_created_at = 1, in_missed = False\<rparr>"
  obtain n d1 where f: "desk_fetch ''s'' idle_desk = (n, d1)" by fastforce
  have "''s'' \<notin> set (id_active idle_desk)" "desk_list ''s'' idle_desk = []"
    "distinct (map fst (id_index idle_desk))"
    by (simp_all add: idle_desk_def desk_list_def desk_fetch_def desk_table_def)
  from accepted_input_can_vanish [OF this f, of ?item] f show ?thesis by blast
qed

text \<open>
  A steer that arrives after the run shut its gate and before it gave back its slot is neither taken
  nor turned into an input for the next turn.
\<close>

lemma late_steer_is_not_downgraded:
  assumes "session_active rg sid" and "content = Inr c"
    and "py_strip (render_content_text c) \<noteq> []" and "ensure_vision resolve c model"
    and "finish bc save now ty data r (box_of sid rg0) e = (r', b, e')"
    and "rg = put_box sid b rg0" and "in_client = None"
    and "submit_input True MODE_NOW content resolve res run_id input_id now params model effort in_client sid rg
      = (Inr out, rg')"
  shows "out = Queued input_id MODE_NOW \<and>
    (\<exists>i\<in>set (box_of sid (detach_run sid run rg')). in_id i = input_id \<and> in_mode i = MODE_NOW)"
proof -
  have upd [simp]: "box_of sid (put_box sid x r) = x" for x r by (simp add: box_of_def put_box_def)
  have act: "session_active (put_box sid x rg) sid" for x using assms(1) by (simp add: session_active_def put_box_def)
  have "rg' = put_box sid (box_of sid rg @ [\<lparr>in_id = input_id, in_mode = MODE_NOW, in_content = c,
      in_params = params, in_client_id = None, in_created_at = now, in_missed = False\<rparr>])
      (put_box sid (box_of sid rg) rg)" and "out = Queued input_id MODE_NOW"
    using assms(2-4,7,8) act
    by (auto simp: submit_input_def Let_def inbox_add_def MODES_def)
  moreover have "box_of sid (detach_run sid run g) = box_of sid g" for g
    by (simp add: box_of_def detach_run_def)
  ultimately show ?thesis by simp
qed

end
