(* ===== verification/Session_Recorder.thy ===== *)
theory Session_Recorder
  imports Session_Projection
begin

section \<open>Messages to session entries\<close>

text \<open>
  The module \<open>avid/session/recorder.py\<close>: every message a run observes becomes one commit, and the
  per-branch values for usage, plan and compaction are written beside the entries. The recorder
  works on a handle over any storage; as there, \<open>me\<close> is the calling thread, \<open>now\<close> the clock and
  \<open>fresh\<close> the id the generator returns.
\<close>

definition PLAN_ITEMS :: string where "PLAN_ITEMS = ''items''"

definition stored_plan ::
  "'s storage_ops \<Rightarrow> string \<Rightarrow> 's handle \<Rightarrow> session_error + pyval list" where
  "stored_plan ops branch h =
     map_sum id (\<lambda>stored. case stored of
         None \<Rightarrow> []
       | Some sv \<Rightarrow>
           (case (case sv_value sv of PDict d \<Rightarrow> dget d PLAN_ITEMS | _ \<Rightarrow> PNone) of
              PList raw \<Rightarrow> raw
            | _ \<Rightarrow> []))
       (handle_get_value ops (branch_plan branch) h)"

record recorder =
  rc_branch :: string
  rc_entry_ids :: "string list"
  rc_resolved :: "string option"

definition new_recorder :: "string \<Rightarrow> recorder" where
  "new_recorder branch = \<lparr>rc_branch = branch, rc_entry_ids = [], rc_resolved = None\<rparr>"

definition ensure_branch ::
  "'s storage_ops \<Rightarrow> nat \<Rightarrow> int \<Rightarrow> recorder \<Rightarrow> 's handle \<Rightarrow> string outcome \<times> recorder \<times> 's handle"
where
  "ensure_branch ops me now rc h =
     (case rc_resolved rc of
        Some b \<Rightarrow> (Returned b, rc, h)
      | None \<Rightarrow>
          (case handle_branch ops (rc_branch rc) h of
             (Inl e, h') \<Rightarrow> (Raised e, rc, h')
           | (Inr (Some b), h') \<Rightarrow> (Returned b, rc\<lparr>rc_resolved := Some b\<rparr>, h')
           | (Inr None, h') \<Rightarrow>
               (case create_branch ops me now (rc_branch rc) None h' of
                  (Returned b, h'') \<Rightarrow> (Returned b, rc\<lparr>rc_resolved := Some b\<rparr>, h'')
                | (Raised e, h'') \<Rightarrow> (Raised e, rc, h'')
                | (Blocked, h'') \<Rightarrow> (Blocked, rc, h''))))"

definition on_message ::
  "'s storage_ops \<Rightarrow> nat \<Rightarrow> int \<Rightarrow> string \<Rightarrow> pydict \<Rightarrow> string \<Rightarrow> recorder \<Rightarrow> 's handle \<Rightarrow>
   string outcome \<times> recorder \<times> 's handle" where
  "on_message ops me now fresh message entry_type rc h =
     (case ensure_branch ops me now rc h of
        (Raised e, rc', h') \<Rightarrow> (Raised e, rc', h')
      | (Blocked, rc', h') \<Rightarrow> (Blocked, rc', h')
      | (Returned b, rc', h') \<Rightarrow>
          (case append_message ops me now fresh b message entry_type h' of
             (Returned i, h'') \<Rightarrow> (Returned i, rc'\<lparr>rc_entry_ids := rc_entry_ids rc' @ [i]\<rparr>, h'')
           | (Raised e, h'') \<Rightarrow> (Raised e, rc', h'')
           | (Blocked, h'') \<Rightarrow> (Blocked, rc', h'')))"

text \<open>
  \<open>get_entry(tip)\<close> for the value of a tip: an unhashable value raises, one that is no id finds
  nothing.
\<close>

definition tip_entry :: "'s storage_ops \<Rightarrow> pyval \<Rightarrow> 's handle \<Rightarrow> session_error + entry option" where
  "tip_entry ops tip h =
     (case tip of
        PNone \<Rightarrow> Inr None
      | PStr i \<Rightarrow> handle_get_entry ops i h
      | PList _ \<Rightarrow> when_open h (Inl PyTypeError)
      | PDict _ \<Rightarrow> when_open h (Inl PyTypeError)
      | _ \<Rightarrow> when_open h (Inr None))"

definition tip_seq ::
  "'s storage_ops \<Rightarrow> nat \<Rightarrow> int \<Rightarrow> recorder \<Rightarrow> 's handle \<Rightarrow> int option outcome \<times> recorder \<times> 's handle"
where
  "tip_seq ops me now rc h =
     (case ensure_branch ops me now rc h of
        (Raised e, rc', h') \<Rightarrow> (Raised e, rc', h')
      | (Blocked, rc', h') \<Rightarrow> (Blocked, rc', h')
      | (Returned b, rc', h') \<Rightarrow>
          (case get_tip_id ops b h' of
             Inl e \<Rightarrow> (Raised e, rc', h')
           | Inr tip \<Rightarrow>
               (case tip_entry ops tip h' of
                  Inl e \<Rightarrow> (Raised e, rc', h')
                | Inr found \<Rightarrow> (Returned (map_option e_seq found), rc', h'))))"

definition record_usage ::
  "'s storage_ops \<Rightarrow> nat \<Rightarrow> int \<Rightarrow> pydict \<Rightarrow> recorder \<Rightarrow> 's handle \<Rightarrow> commit_result outcome \<times> 's handle"
where
  "record_usage ops me now payload rc h =
     handle_set_value ops me now (branch_usage (rc_branch rc)) (PDict payload) h"

definition record_plan ::
  "'s storage_ops \<Rightarrow> nat \<Rightarrow> int \<Rightarrow> pydict list \<Rightarrow> recorder \<Rightarrow> 's handle \<Rightarrow>
   commit_result outcome \<times> 's handle" where
  "record_plan ops me now items rc h =
     (if items = [] \<or> (\<forall>item\<in>set items. dget item ''status'' = PStr ''completed'')
      then handle_delete_value ops me now (branch_plan (rc_branch rc)) h
      else handle_set_value ops me now (branch_plan (rc_branch rc))
             (PDict [(PLAN_ITEMS, PList (map PDict items))]) h)"

definition compaction_record :: "int \<Rightarrow> pydict \<Rightarrow> int \<Rightarrow> pydict" where
  "compaction_record seq summary keep =
     [(''through_seq'', PInt seq), (''summary'', PDict summary), (''keep'', PInt keep)]"

definition record_compaction ::
  "'s storage_ops \<Rightarrow> nat \<Rightarrow> int \<Rightarrow> pydict \<Rightarrow> int \<Rightarrow> recorder \<Rightarrow> 's handle \<Rightarrow>
   unit outcome \<times> recorder \<times> 's handle" where
  "record_compaction ops me now summary keep rc h =
     (case ensure_branch ops me now rc h of
        (Raised e, rc', h') \<Rightarrow> (Raised e, rc', h')
      | (Blocked, rc', h') \<Rightarrow> (Blocked, rc', h')
      | (Returned b, rc', h') \<Rightarrow>
          (case get_tip_id ops b h' of
             Inl e \<Rightarrow> (Raised e, rc', h')
           | Inr tip \<Rightarrow>
               (case tip_entry ops tip h' of
                  Inl e \<Rightarrow> (Raised e, rc', h')
                | Inr None \<Rightarrow> (Returned (), rc', h')
                | Inr (Some entry) \<Rightarrow>
                    (case handle_set_value ops me now (branch_compaction (rc_branch rc'))
                            (PDict (compaction_record (e_seq entry) summary keep)) h' of
                       (Returned _, h'') \<Rightarrow> (Returned (), rc', h'')
                     | (Raised e, h'') \<Rightarrow> (Raised e, rc', h'')
                     | (Blocked, h'') \<Rightarrow> (Blocked, rc', h'')))))"

subsection \<open>What the values read back as\<close>

context session_storage begin

text \<open>A value that was set is the one that is read, every other value stays.\<close>

lemma set_value_done:
  assumes "handle_set_value ops me now a v h = (Returned r, h')" and "inv (h_storage h)"
  shows "h_state h' = HOpen \<and> is_open (h_storage h') \<and> inv (h_storage h') \<and>
    map_option sv_value (get_value (view h') a) = Some v \<and>
    (\<forall>b. b \<noteq> a \<longrightarrow> get_value (view h') b = get_value (view h) b) \<and>
    st_entries (view h') = st_entries (view h)"
proof -
  obtain m where m: "h_state h' = HOpen" "mutation_commit ops now [set_value a v]
      \<lparr>mu_storage = h_storage h, mu_active = True, mu_committed = False\<rparr> = (Inr r, m)"
      "h_storage h' = mu_storage m"
    using mutate_Returned assms(1) unfolding handle_set_value_def by metis
  then obtain s' where c: "so_commit ops now [set_value a v] (h_storage h) = (Inr r, s')"
      "h_storage h' = s'"
    by (auto simp: mutation_commit_def split: prod.splits)
  from commit_done [OF assms(2) c(1)] obtain p where
      p: "prepare_commit (view h) [set_value a v] now = Inr p"
         "abs s' = apply_writes (pc_writes p) (view h)" "is_open s'" "inv s'" by blast
  then have "abs s' = apply_write (CommittedValueSet (st_next_seq (view h)) (fst a) (snd a) v) (view h)"
    by (auto simp: prepare_commit_Inr set_value_def)
  then show ?thesis using m(1) p c(2) by (auto simp: get_value_def)
qed

lemma delete_value_done:
  assumes "handle_delete_value ops me now a h = (Returned r, h')" and "inv (h_storage h)"
  shows "h_state h' = HOpen \<and> is_open (h_storage h') \<and> inv (h_storage h') \<and>
    get_value (view h') a = None \<and> (\<forall>b. b \<noteq> a \<longrightarrow> get_value (view h') b = get_value (view h) b) \<and>
    st_entries (view h') = st_entries (view h)"
proof -
  obtain m where m: "h_state h' = HOpen" "mutation_commit ops now [delete_value a]
      \<lparr>mu_storage = h_storage h, mu_active = True, mu_committed = False\<rparr> = (Inr r, m)"
      "h_storage h' = mu_storage m"
    using mutate_Returned assms(1) unfolding handle_delete_value_def by metis
  then obtain s' where c: "so_commit ops now [delete_value a] (h_storage h) = (Inr r, s')"
      "h_storage h' = s'"
    by (auto simp: mutation_commit_def split: prod.splits)
  from commit_done [OF assms(2) c(1)] obtain p where
      p: "prepare_commit (view h) [delete_value a] now = Inr p"
         "abs s' = apply_writes (pc_writes p) (view h)" "is_open s'" "inv s'" by blast
  then have "abs s' = apply_write (CommittedValueDelete (st_next_seq (view h)) (fst a) (snd a)) (view h)"
    by (auto simp: prepare_commit_Inr delete_value_def)
  then show ?thesis using m(1) p c(2) by (auto simp: get_value_def)
qed

lemma handle_get_value_open:
  "\<lbrakk>h_state h = HOpen; is_open (h_storage h)\<rbrakk>
    \<Longrightarrow> handle_get_value ops a h = Inr (get_value (view h) a)"
  by (simp add: handle_get_value_def when_open_def assert_open_def read_value)

text \<open>The plan that is read back is the plan that was recorded, unless nothing of it is left to do.\<close>

lemma plan_roundtrip:
  assumes "record_plan ops me now items rc h = (Returned r, h')" and "inv (h_storage h)"
  shows "stored_plan ops (rc_branch rc) h' =
    Inr (if \<forall>item\<in>set items. dget item ''status'' = PStr ''completed'' then [] else map PDict items)"
proof (cases "\<forall>item\<in>set items. dget item ''status'' = PStr ''completed''")
  case True
  then have "handle_delete_value ops me now (branch_plan (rc_branch rc)) h = (Returned r, h')"
    using assms(1) by (simp add: record_plan_def)
  from delete_value_done [OF this assms(2)] True show ?thesis
    by (simp add: stored_plan_def handle_get_value_open)
next
  case False
  then have "\<not> (items = [] \<or> (\<forall>item\<in>set items. dget item ''status'' = PStr ''completed''))"
    by auto
  then have "handle_set_value ops me now (branch_plan (rc_branch rc))
      (PDict [(PLAN_ITEMS, PList (map PDict items))]) h = (Returned r, h')"
    using assms(1) by (simp only: record_plan_def if_False)
  from set_value_done [OF this assms(2)] False show ?thesis
    by (auto simp: stored_plan_def handle_get_value_open)
qed

end

subsection \<open>Compaction\<close>

lemma filter_seq_split:
  assumes "sorted_wrt (<) (map e_seq (es @ later))" and "es \<noteq> []"
  shows "filter (\<lambda>e. e_seq e \<le> e_seq (last es)) (es @ later) = es"
    and "filter (\<lambda>e. e_seq e > e_seq (last es)) (es @ later) = later"
proof -
  obtain init x where es: "es = init @ [x]" using assms(2) by (cases es rule: rev_cases) auto
  have "\<forall>e\<in>set init. e_seq e < e_seq x" "\<forall>e\<in>set later. e_seq x < e_seq e"
    using assms(1) es by (auto simp: sorted_wrt_append)
  then show "filter (\<lambda>e. e_seq e \<le> e_seq (last es)) (es @ later) = es"
    and "filter (\<lambda>e. e_seq e > e_seq (last es)) (es @ later) = later"
    unfolding es by (auto simp: filter_id_conv filter_empty_conv not_le not_less)
qed

text \<open>
  What the cursor does: the entries up to the tip it was recorded at are replaced by the summary
  and the kept tail, those appended later follow as they are.
\<close>

lemma compaction_projects:
  assumes "sorted_wrt (<) (map e_seq (es @ later))" and "es \<noteq> []" and "0 < e_seq (last es)"
  shows "project_with_compaction (compaction_record (e_seq (last es)) summary keep) (es @ later) =
    repair_incomplete_batches ([summary] @ last_n keep (transcript_of es) @ transcript_of later)"
  unfolding project_with_compaction_def compaction_record_def
  using assms filter_seq_split [OF assms(1,2)]
  by (simp add: int_or_zero_def Let_def del: filter_append)

subsection \<open>Properties\<close>

text \<open>
  A compaction cursor recorded at the tip of a branch replaces exactly the history up to that tip
  by the summary and the last \<open>keep\<close> messages of it; everything appended later is projected as it is.
\<close>

theorem compaction_replaces_history:
  assumes "chain st i (rev (es @ later))" and "entries_wf st" and "es \<noteq> []" and "0 < e_seq (last es)"
  shows "project_with_compaction (compaction_record (e_seq (last es)) summary keep) (es @ later) =
    repair_incomplete_batches ([summary] @ last_n keep (transcript_of es) @ transcript_of later)"
proof -
  have "sorted_wrt (\<lambda>a b. e_seq a < e_seq b) (es @ later)"
    using chain_sorted [OF assms(2,1)] by (simp only: sorted_wrt_rev)
  then have "sorted_wrt (<) (map e_seq (es @ later))" by (simp only: sorted_wrt_map)
  then show ?thesis by (rule compaction_projects [OF _ assms(3,4)])
qed

definition sample_log :: "entry list" where
  "sample_log = [entry_of 1 0 (sample_entry ''a'' None), entry_of 2 0 (sample_entry ''b'' (Some ''a''))]"

lemma sample_log_chain: "chain sample_state ''b'' (rev sample_log)"
proof -
  have "st_entries sample_state ''a'' = Some (entry_of 1 0 (sample_entry ''a'' None))"
    "st_entries sample_state ''b'' = Some (entry_of 2 0 (sample_entry ''b'' (Some ''a'')))"
    by code_simp+
  then show ?thesis
    unfolding sample_log_def
    by (auto intro!: chain.intros simp: entry_of_def sample_entry_def)
qed

theorem compaction_replaces_history_witness:
  "project_with_compaction (compaction_record 1 (user_says ''so far'') 0) sample_log =
     repair_incomplete_batches [user_says ''so far'', []]"
proof -
  let ?a = "[entry_of 1 0 (sample_entry ''a'' None)]"
  let ?b = "[entry_of 2 0 (sample_entry ''b'' (Some ''a''))]"
  have c: "chain sample_state ''b'' (rev (?a @ ?b))"
    using sample_log_chain by (simp add: sample_log_def)
  have w: "entries_wf sample_state" using sample_state_wf by (simp add: state_wf_def)
  have n: "?a \<noteq> []" "0 < e_seq (last ?a)" by (simp_all add: entry_of_def)
  have t: "transcript_of ?b = [[]]" by code_simp
  from compaction_replaces_history [OF c w n, of "user_says ''so far''" 0] t show ?thesis
    by (simp add: sample_log_def last_n_def entry_of_def)
qed

text \<open>
  A plan recorded on a session reads back item for item, and a plan of which nothing is
  left to do reads back as no plan.
\<close>

theorem plan_reads_back:
  assumes "record_plan memory_ops me now items rc h = (Returned r, h')"
    and "state_wf (ms_state (h_storage h))"
  shows "stored_plan memory_ops (rc_branch rc) h' =
    Inr (if list_all (\<lambda>item. dget item ''status'' = PStr ''completed'') items then []
         else map PDict items)"
  using mem.plan_roundtrip [OF assms] by (simp add: list_all_iff)

theorem plan_reads_back_witness:
  "stored_plan memory_ops DEFAULT_BRANCH (snd (record_plan memory_ops 1 9
      [[(''status'', PStr ''pending'')]] (new_recorder DEFAULT_BRANCH)
      (open_handle sample_metadata new_mem_storage False))) =
   Inr [PDict [(''status'', PStr ''pending'')]]"
proof -
  let ?r = "record_plan memory_ops 1 9 [[(''status'', PStr ''pending'')]]
    (new_recorder DEFAULT_BRANCH) (open_handle sample_metadata new_mem_storage False)"
  have "(case fst ?r of Returned _ \<Rightarrow> True | _ \<Rightarrow> False)" by code_simp
  then obtain r where "?r = (Returned r, snd ?r)" by (cases "fst ?r"; cases ?r) auto
  from plan_reads_back [OF this] show ?thesis
    by (simp add: open_handle_def new_mem_storage_def new_recorder_def)
qed

end
