(* ===== verification/Session_Jsonl.thy ===== *)
theory Session_Jsonl
  imports Session_Codec Session_Handle
begin

section \<open>The file backend\<close>

text \<open>
  The writes and the class \<open>JsonlStorage\<close> of \<open>avid/session/jsonl.py\<close>. A session file is its
  decoded text, \<open>None\<close> if it does not exist. What the operating system answers is a parameter:
  the storage carries the outcomes of its coming writes (\<open>js_faults\<close>, no fault once the list is
  used up), and the sidecar lock is a \<open>lock_result\<close>. A short write is counted in characters.
\<close>

subsection \<open>Writing\<close>

datatype io_fault =
    NoFault
  | OpenFault
  | WriteFault
  | ShortWrite nat bool
  | FsyncFault
  | ReplaceFault

fun next_fault :: "io_fault list \<Rightarrow> io_fault \<times> io_fault list" where
  "next_fault [] = (NoFault, [])"
| "next_fault (f # fs) = (f, fs)"

text \<open>
  The boolean of a short write is whether the rollback works. An \<open>fsync\<close> that fails leaves the
  written bytes where they are: there is no rollback on that path.
\<close>

definition fsync_write ::
  "io_fault \<Rightarrow> bool \<Rightarrow> string \<Rightarrow> string option \<Rightarrow> session_error option \<times> string option" where
  "fsync_write fault appending data content =
     (let base = (if appending then (case content of None \<Rightarrow> [] | Some c \<Rightarrow> c) else [])
      in case fault of
           OpenFault \<Rightarrow> (Some (SessionStorageError WriteFailed), content)
         | WriteFault \<Rightarrow> (Some (SessionStorageError WriteFailed), Some base)
         | ShortWrite n rolled_back \<Rightarrow>
             (if n < length data
              then (Some (SessionStorageError WriteShort),
                    Some (if rolled_back then base else base @ take n data))
              else (None, Some (base @ data)))
         | FsyncFault \<Rightarrow> (Some (SessionStorageError FsyncFailed), Some (base @ data))
         | _ \<Rightarrow> (None, Some (base @ data)))"

definition publish_atomically ::
  "io_fault \<Rightarrow> string \<Rightarrow> string option \<Rightarrow> session_error option \<times> string option" where
  "publish_atomically fault payload content =
     (case fsync_write fault False payload None of
        (Some e, _) \<Rightarrow> (Some e, content)
      | (None, written) \<Rightarrow>
          (if fault = ReplaceFault then (Some (SessionStorageError PublishFailed), content)
           else (None, written)))"

subsection \<open>The storage\<close>

datatype lock_result = LockTaken | LockHeld | LockBroken

record jsonl_storage =
  js_header :: jsonl_header
  js_state :: session_state
  js_closed :: bool
  js_locked :: bool
  js_file :: "string option"
  js_faults :: "io_fault list"

definition lock_error :: "lock_result \<Rightarrow> string \<Rightarrow> session_error option" where
  "lock_error lock label =
     (case lock of
        LockTaken \<Rightarrow> None
      | LockHeld \<Rightarrow> Some (SessionLockedError label)
      | LockBroken \<Rightarrow> Some (SessionStorageError LockUnavailable))"

text \<open>\<open>create\<close> and \<open>open\<close> return the storage or the error, and what the file holds afterwards.\<close>

definition jsonl_create ::
  "lock_result \<Rightarrow> io_fault list \<Rightarrow> jsonl_header \<Rightarrow> string option \<Rightarrow>
   (session_error + jsonl_storage) \<times> string option" where
  "jsonl_create lock faults header content =
     (case lock_error lock (jh_id header) of
        Some e \<Rightarrow> (Inl e, content)
      | None \<Rightarrow>
          (let (fault, rest) = next_fault faults
           in case publish_atomically fault (encode_header header @ [LF]) content of
                (Some e, c) \<Rightarrow> (Inl e, c)
              | (None, c) \<Rightarrow>
                  (Inr \<lparr>js_header = header, js_state = init_state 1, js_closed = False,
                        js_locked = True, js_file = c, js_faults = rest\<rparr>, c)))"

text \<open>
  The replay loop, over the lines after the header: the state, and whether the last line was
  dropped. \<open>index\<close> is the line number the error of a bad middle line names.
\<close>

fun replay :: "nat \<Rightarrow> string list \<Rightarrow> session_state \<Rightarrow> session_error + session_state \<times> bool" where
  "replay index [] st = Inr (st, False)"
| "replay index (line # lines) st =
     (case (case parse_transaction line of
              Inl _ \<Rightarrow> None
            | Inr ws \<Rightarrow> (if validate_state st ws = None then Some (apply_writes ws st) else None)) of
        Some st' \<Rightarrow> replay (Suc index) lines st'
      | None \<Rightarrow> (if lines = [] then Inr (st, True)
                 else Inl (SessionStorageError (BadLine index))))"

definition jsonl_open ::
  "lock_result \<Rightarrow> string \<Rightarrow> io_fault list \<Rightarrow> string option \<Rightarrow>
   (session_error + jsonl_storage) \<times> string option" where
  "jsonl_open lock name faults content =
     (case lock_error lock name of
        Some e \<Rightarrow> (Inl e, content)
      | None \<Rightarrow>
        (case content of
           None \<Rightarrow> (Inl (SessionStorageError Unreadable), content)
         | Some text \<Rightarrow>
           (let (lines, torn) = split_complete_lines (universal_newlines text)
            in if lines = [] \<or> hd lines = [] then (Inl (SessionStorageError HeaderMissing), content)
               else case parse_header (hd lines) of
                 Inl e \<Rightarrow> (Inl (SessionStorageError e), content)
               | Inr header \<Rightarrow>
                 (case replay 2 (tl lines) (init_state 1) of
                    Inl e \<Rightarrow> (Inl e, content)
                  | Inr (st, dropped) \<Rightarrow>
                    (case (case jh_next_seq header of
                             None \<Rightarrow> Inr st | Some n \<Rightarrow> advance_next_seq n st) of
                       Inl e \<Rightarrow> (Inl e, content)
                     | Inr st' \<Rightarrow>
                       (let kept = (if dropped then butlast lines else lines);
                            (fault, rest) = (if torn \<or> dropped then next_fault faults
                                             else (NoFault, faults));
                            (err, c) = (if torn \<or> dropped
                                        then publish_atomically fault (lines_text kept) content
                                        else (None, content))
                        in case err of
                             Some e \<Rightarrow> (Inl e, c)
                           | None \<Rightarrow>
                               (Inr \<lparr>js_header = header, js_state = st', js_closed = False,
                                     js_locked = True, js_file = c, js_faults = rest\<rparr>, c)))))))"

definition jsonl_commit ::
  "int \<Rightarrow> session_write list \<Rightarrow> jsonl_storage \<Rightarrow>
   (session_error + commit_result) \<times> jsonl_storage" where
  "jsonl_commit now ws s =
     (if js_closed s then (Inl SessionClosedError, s)
      else case prepare_commit (js_state s) ws now of
        Inl e \<Rightarrow> (Inl e, s)
      | Inr p \<Rightarrow>
          (let (fault, rest) = (if pc_writes p = [] then (NoFault, js_faults s)
                                else next_fault (js_faults s));
               (err, c) = (if pc_writes p = [] then (None, js_file s)
                           else fsync_write fault True
                                  (encode_transaction (pc_writes p) @ [LF]) (js_file s));
               s' = s\<lparr>js_file := c, js_faults := rest\<rparr>
           in case err of
                Some e \<Rightarrow> (Inl e, s')
              | None \<Rightarrow>
                  (let st = apply_writes (pc_writes p) (js_state s)
                   in (Inr \<lparr>cr_first_seq = pc_first_seq p, cr_seqs = pc_seqs p,
                            cr_timestamp = pc_timestamp p,
                            cr_message_count = st_message_count st\<rparr>,
                       s'\<lparr>js_state := st\<rparr>))))"

definition jsonl_when_open :: "jsonl_storage \<Rightarrow> 'a \<Rightarrow> session_error + 'a" where
  "jsonl_when_open s x = (if js_closed s then Inl SessionClosedError else Inr x)"

definition jsonl_close :: "jsonl_storage \<Rightarrow> jsonl_storage" where
  "jsonl_close s = s\<lparr>js_closed := True, js_locked := False\<rparr>"

definition jsonl_ops :: "jsonl_storage storage_ops" where
  "jsonl_ops =
     \<lparr>so_commit = jsonl_commit,
      so_get_entries = (\<lambda>ids s. jsonl_when_open s (get_entries (js_state s) ids)),
      so_get_value = (\<lambda>a s. jsonl_when_open s (get_value (js_state s) a)),
      so_scan_values = (\<lambda>ns s. jsonl_when_open s (values_in (js_state s) ns)),
      so_scan_branch = (\<lambda>q s. if js_closed s then Some (Inl SessionClosedError)
                                 else scan_branch (js_state s) q),
      so_scan_entries = (\<lambda>q s. jsonl_when_open s (scan_entries (js_state s) q)),
      so_get_stats = (\<lambda>s. jsonl_when_open s (st_message_count (js_state s))),
      so_close = jsonl_close\<rparr>"

subsection \<open>The contract\<close>

lemma jsonl_commit_cases:
  assumes "jsonl_commit now ws s = (r, s')"
  obtains e where "r = Inl e" "js_state s' = js_state s" "js_closed s' = js_closed s"
  | p where "prepare_commit (js_state s) ws now = Inr p" "\<not> js_closed s" "\<not> js_closed s'"
      "js_state s' = apply_writes (pc_writes p) (js_state s)"
      "r = Inr \<lparr>cr_first_seq = pc_first_seq p, cr_seqs = pc_seqs p, cr_timestamp = now,
                cr_message_count = st_message_count (js_state s')\<rparr>"
proof (cases "js_closed s \<or> (\<exists>e. prepare_commit (js_state s) ws now = Inl e)")
  case True
  then show ?thesis using assms that(1) by (auto simp: jsonl_commit_def split: if_splits)
next
  case False
  then obtain p where p: "prepare_commit (js_state s) ws now = Inr p"
    by (cases "prepare_commit (js_state s) ws now") auto
  obtain f rest where f: "(if pc_writes p = [] then (NoFault, js_faults s)
      else next_fault (js_faults s)) = (f, rest)" by fastforce
  obtain err c where w: "(if pc_writes p = [] then (None, js_file s)
      else fsync_write f True (encode_transaction (pc_writes p) @ [LF]) (js_file s)) = (err, c)"
    by fastforce
  have ts: "pc_timestamp p = now" using p by (auto simp: prepare_commit_Inr)
  show ?thesis
    using assms False p ts that
    by (cases err) (auto simp: jsonl_commit_def f w Let_def)
qed

interpretation jsonl: session_storage jsonl_ops js_state "\<lambda>s. \<not> js_closed s"
  "\<lambda>s. state_wf (js_state s)"
proof unfold_locales
  fix now ws r s s'
  assume wf: "state_wf (js_state s)" and c: "so_commit jsonl_ops now ws s = (Inr r, s')"
  from c have "jsonl_commit now ws s = (Inr r, s')" by (simp add: jsonl_ops_def)
  then show "\<not> js_closed s \<and> \<not> js_closed s' \<and> state_wf (js_state s') \<and>
      (\<exists>p. prepare_commit (js_state s) ws now = Inr p \<and>
         js_state s' = apply_writes (pc_writes p) (js_state s) \<and>
         r = \<lparr>cr_first_seq = pc_first_seq p, cr_seqs = pc_seqs p, cr_timestamp = now,
              cr_message_count = st_message_count (js_state s')\<rparr>)"
  proof (cases rule: jsonl_commit_cases)
    case (2 p)
    then have "state_wf (js_state s')"
      using wf by (auto simp: prepare_commit_Inr intro: state_wf_apply_writes)
    with 2 show ?thesis by auto
  qed simp
next
  fix now ws e s s'
  assume wf: "state_wf (js_state s)" and c: "so_commit jsonl_ops now ws s = (Inl e, s')"
  from c have "jsonl_commit now ws s = (Inl e, s')" by (simp add: jsonl_ops_def)
  then show "js_state s' = js_state s \<and> state_wf (js_state s') \<and> (\<not> js_closed s') = (\<not> js_closed s)"
    by (cases rule: jsonl_commit_cases) (use wf in auto)
qed (auto simp: jsonl_ops_def jsonl_when_open_def jsonl_close_def)

subsection \<open>Properties\<close>

text \<open>
  Appending a message to a branch of a file-backed session adds exactly one entry, with that
  message, at the end of the branch's log, and leaves the log of every other branch as it was.
\<close>

theorem jsonl_append_extends_one_log:
  assumes "append_message jsonl_ops me now fresh b msg ty h = (Returned i, h')"
    and "state_wf (js_state (h_storage h))" and "tips_wf (js_state (h_storage h))"
    and "branch_log (js_state (h_storage h)) b es"
  shows "i = fresh \<and>
    (\<exists>e. branch_log (js_state (h_storage h')) b (es @ [e]) \<and> e_id e = fresh \<and> e_type e = ty \<and>
         e_message e = Some msg \<and> e_timestamp e = now \<and>
         e_seq e = st_next_seq (js_state (h_storage h))) \<and>
    (\<forall>b'\<in>- {b}. \<forall>es'\<in>{es'. branch_log (js_state (h_storage h)) b' es'}.
       branch_log (js_state (h_storage h')) b' es') \<and>
    state_wf (js_state (h_storage h')) \<and> tips_wf (js_state (h_storage h'))"
proof -
  have wf: "jsonl.handle_wf h" using assms(2,3) by (simp add: jsonl.handle_wf_def)
  from jsonl.append_message_log [OF assms(1) wf assms(4)] show ?thesis
    by (auto simp: jsonl.handle_wf_def)
qed

text \<open>
  A call that does not append, because it is refused, fails in the storage or has to wait, leaves
  the entries, values and counters of the session exactly as they were.
\<close>

theorem jsonl_append_failure_changes_nothing:
  assumes "append_message jsonl_ops me now fresh b msg ty h = (r, h')" and "\<forall>i. r \<noteq> Returned i"
    and "state_wf (js_state (h_storage h))" and "tips_wf (js_state (h_storage h))"
  shows "js_state (h_storage h') = js_state (h_storage h)"
  using jsonl.append_message_failed [OF assms(1)] assms(2-4) by (simp add: jsonl.handle_wf_def)

definition fresh_session :: "io_fault list \<Rightarrow> jsonl_storage handle" where
  "fresh_session faults = open_handle sample_metadata
     \<lparr>js_header = \<lparr>jh_id = ''s'', jh_storage_version = 1, jh_created_at = 5, jh_parent = None,
                   jh_next_seq = None, jh_workspace = None\<rparr>,
      js_state = init_state 1, js_closed = False, js_locked = True, js_file = Some [],
      js_faults = faults\<rparr> True"

definition hello :: pydict where
  "hello = [(''role'', PStr ''user''), (''content'', PStr ''hello'')]"

lemma fresh_session_wf:
  "state_wf (js_state (h_storage (fresh_session fs)))" "tips_wf (js_state (h_storage (fresh_session fs)))"
  "branch_log (js_state (h_storage (fresh_session fs))) b []"
  by (simp_all add: fresh_session_def open_handle_def tips_wf_def branch_log_def get_value_def
      init_state_def state_wf_def entries_wf_def values_wf_def)

theorem jsonl_append_extends_one_log_witness:
  "\<exists>e. branch_log (js_state (h_storage (snd (append_message jsonl_ops 1 9 ''i1'' DEFAULT_BRANCH hello
       MESSAGE_ENTRY (fresh_session []))))) DEFAULT_BRANCH [e] \<and> e_message e = Some hello"
proof -
  let ?r = "append_message jsonl_ops 1 9 ''i1'' DEFAULT_BRANCH hello MESSAGE_ENTRY (fresh_session [])"
  have "fst ?r = Returned ''i1''" by code_simp
  then have "?r = (Returned ''i1'', snd ?r)" by (metis prod.collapse)
  from jsonl_append_extends_one_log [OF this fresh_session_wf] show ?thesis by auto
qed

theorem jsonl_append_failure_changes_nothing_witness:
  "js_state (h_storage (snd (append_message jsonl_ops 1 9 ''i1'' DEFAULT_BRANCH hello MESSAGE_ENTRY
     (fresh_session [WriteFault])))) = init_state 1"
proof -
  let ?r = "append_message jsonl_ops 1 9 ''i1'' DEFAULT_BRANCH hello MESSAGE_ENTRY
    (fresh_session [WriteFault])"
  have "fst ?r = Raised (SessionStorageError WriteFailed)" by code_simp
  then have "?r = (Raised (SessionStorageError WriteFailed), snd ?r)" by (metis prod.collapse)
  from jsonl_append_failure_changes_nothing [OF this _ fresh_session_wf(1,2)] show ?thesis
    by (simp add: fresh_session_def open_handle_def)
qed

end
