(* ===== verification/Services_Rewind.thy ===== *)
theory Services_Rewind
  imports Agent_Checkpoints Session_Recorder Session_Jsonl
begin

section \<open>Rewinding a branch\<close>

text \<open>
  The \<open>/rewind\<close> branch of \<open>RunRegistry._run\<close> in \<open>avid/services/runs.py\<close>: the tip of the branch goes
  back before the last user input, the compaction cursor and the plan of the branch go, and the
  files are restored from the checkpoints. The four effects are separate commits in this order. A
  scan that does not return is \<open>Blocked\<close>.
\<close>

definition oldest_first :: branch_scan where
  "oldest_first = default_branch_scan\<lparr>bs_order := OldestFirst\<rparr>"

definition rewind_chain ::
  "'s storage_ops \<Rightarrow> string \<Rightarrow> 's handle \<Rightarrow> entry list outcome \<times> 's handle" where
  "rewind_chain ops b h =
     (case handle_branch ops b h of
        (Inl e, h') \<Rightarrow> (Raised e, h')
      | (Inr None, h') \<Rightarrow> (Returned [], h')
      | (Inr (Some name), h') \<Rightarrow>
          (case branch_find_entries ops name oldest_first h' of
             None \<Rightarrow> (Blocked, h')
           | Some (Inl e) \<Rightarrow> (Raised e, h')
           | Some (Inr es) \<Rightarrow> (Returned es, h')))"

fun and_next :: "'a outcome \<times> 's handle \<Rightarrow> ('s handle \<Rightarrow> 'b outcome \<times> 's handle) \<Rightarrow> 'b outcome \<times> 's handle" where
  "and_next (Returned _, h) f = f h"
| "and_next (Raised e, h) f = (Raised e, h)"
| "and_next (Blocked, h) f = (Blocked, h)"

definition move_tip ::
  "'s storage_ops \<Rightarrow> nat \<Rightarrow> int \<Rightarrow> string \<Rightarrow> string option \<Rightarrow> 's handle \<Rightarrow> commit_result outcome \<times> 's handle" where
  "move_tip ops me now b parent h =
     and_next
       (case parent of
          None \<Rightarrow> handle_delete_value ops me now (branch_tip b) h
        | Some p \<Rightarrow> handle_set_value ops me now (branch_tip b) (PStr p) h)
       (\<lambda>h. and_next (handle_delete_value ops me now (branch_compaction b) h)
         (handle_delete_value ops me now (branch_plan b)))"

datatype rewind_report = NothingToRewind | Rewound nat nat nat

definition rewind_branch ::
  "'s storage_ops \<Rightarrow> nat \<Rightarrow> int \<Rightarrow> (string \<Rightarrow> bool) \<Rightarrow> string \<Rightarrow> 's handle \<Rightarrow> ck_disk \<Rightarrow>
   rewind_report outcome \<times> 's handle \<times> ck_disk" where
  "rewind_branch ops me now fails b h disk =
     (case rewind_chain ops b h of
        (Raised e, h) \<Rightarrow> (Raised e, h, disk)
      | (Blocked, h) \<Rightarrow> (Blocked, h, disk)
      | (Returned es, h) \<Rightarrow>
          (case rewind_target es of
             None \<Rightarrow> (Returned NothingToRewind, h, disk)
           | Some (parent, through) \<Rightarrow>
               (case move_tip ops me now b parent h of
                  (Raised e, h) \<Rightarrow> (Raised e, h, disk)
                | (Blocked, h) \<Rightarrow> (Blocked, h, disk)
                | (Returned _, h) \<Rightarrow>
                    (let (lines, disk') = restore fails (nat through) disk;
                         (restored, deleted) = restore_tally lines
                     in (Returned (Rewound (length (filter (\<lambda>e. through \<le> e_seq e) es)) restored deleted),
                         h, disk')))))"

subsection \<open>The chain and its target\<close>

lemma rewind_target_split:
  assumes "is_user_entry u" and "\<forall>e\<in>set later. \<not> is_user_entry e"
  shows "rewind_target (before @ u # later) = Some (e_parent_id u, e_seq u)"
proof -
  have "filter is_user_entry (rev later) = []" using assms(2) by (simp add: filter_empty_conv)
  with assms(1) show ?thesis by (simp add: rewind_target_def)
qed

lemma chain_suffix:
  assumes "chain st i (rev (before @ u # later))"
  shows "(before = [] \<longrightarrow> e_parent_id u = None) \<and>
    (before \<noteq> [] \<longrightarrow> (\<exists>p. e_parent_id u = Some p \<and> chain st p (rev before)))"
  using assms
proof (induction later arbitrary: i rule: rev_induct)
  case Nil
  then have c: "chain st i (u # rev before)" by simp
  show ?case
  proof (cases "rev before")
    case Nil
    with c have "chain st i [u]" by simp
    then show ?thesis using Nil by (auto elim: chain_Cons_E)
  next
    case (Cons x xs)
    with c have "chain st i (u # x # xs)" by simp
    then obtain p where "e_parent_id u = Some p" "chain st p (x # xs)" by (auto elim: chain_Cons_E)
    with Cons show ?thesis by auto
  qed
next
  case (snoc x xs)
  then have "chain st i (x # rev (before @ u # xs))" by simp
  then obtain p where "chain st p (rev (before @ u # xs))" by (auto elim: chain_Cons_E)
  from snoc.IH [OF this] show ?case .
qed

context session_storage begin

lemma rewind_chain_log:
  assumes "h_state h = HOpen" and "is_open (h_storage h)" and "assert_valid_branch b = None"
    and "branch_log (view h) b es"
  shows "fst (rewind_chain ops b h) = Returned es \<and> h_storage (snd (rewind_chain ops b h)) = h_storage h \<and>
    h_state (snd (rewind_chain ops b h)) = HOpen"
proof (cases "get_value (view h) (branch_tip b) = None \<and> b \<noteq> DEFAULT_BRANCH")
  case True
  with assms show ?thesis
    by (simp add: rewind_chain_def handle_branch_def assert_open_def read_value branch_log_def)
next
  case False
  have q: "branch_page (oldest_first\<lparr>bs_start := Some s\<rparr>) (rev es) = es" for s
    by (simp add: branch_page_def oldest_first_def default_branch_scan_def branch_match_def page_of_def)
  have "branch_find_entries ops b oldest_first (branch_object b h) = Some (Inr es)"
  proof (cases "get_value (view h) (branch_tip b)")
    case None
    with assms show ?thesis
      by (simp add: branch_find_entries_def oldest_first_def default_branch_scan_def get_tip_id_def
          read_value branch_object_def branch_log_def)
  next
    case (Some v)
    with assms(4) consider "sv_value v = PNone" "es = []" | i where "sv_value v = PStr i" "chain (view h) i (rev es)"
      by (cases "sv_value v") (auto simp: branch_log_def)
    then show ?thesis
    proof cases
      case 1
      with assms Some show ?thesis
        by (simp add: branch_find_entries_def oldest_first_def default_branch_scan_def get_tip_id_def
            read_value branch_object_def)
    next
      case 2
      have "scan_branch (view h) (oldest_first\<lparr>bs_start := Some i\<rparr>) = Some (Inr es)"
        using scan_branch_chain [OF 2(2)] q by simp
      moreover have "get_tip_id ops b (branch_object b h) = Inr (PStr i)"
        using assms(2,3) Some 2(1) by (simp add: get_tip_id_def read_value branch_object_def)
      ultimately show ?thesis
        using assms(1,2)
        by (simp add: branch_find_entries_def oldest_first_def default_branch_scan_def
            handle_scan_branch_def assert_open_def when_open_def read_branch branch_object_def)
    qed
  qed
  with False assms show ?thesis
    by (auto simp: rewind_chain_def handle_branch_def assert_open_def read_value branch_object_def)
qed

lemma and_next_Returned:
  "and_next r f = (Returned x, h') \<Longrightarrow> \<exists>y h. r = (Returned y, h) \<and> f h = (Returned x, h')"
  by (cases "(r, f)" rule: and_next.cases) auto

lemma move_tip_done:
  assumes "move_tip ops me now b parent h = (Returned r, h')" and "inv (h_storage h)"
  shows "h_state h' = HOpen \<and> is_open (h_storage h') \<and> inv (h_storage h') \<and>
    st_entries (view h') = st_entries (view h) \<and>
    map_option sv_value (get_value (view h') (branch_tip b)) = map_option PStr parent \<and>
    get_value (view h') (branch_compaction b) = None \<and> get_value (view h') (branch_plan b) = None \<and>
    (\<forall>a. a \<notin> {branch_tip b, branch_compaction b, branch_plan b} \<longrightarrow>
       get_value (view h') a = get_value (view h) a)"
proof -
  obtain r1 h1 r2 h2 where
    1: "(case parent of None \<Rightarrow> handle_delete_value ops me now (branch_tip b) h
         | Some p \<Rightarrow> handle_set_value ops me now (branch_tip b) (PStr p) h) = (Returned r1, h1)"
    and 2: "handle_delete_value ops me now (branch_compaction b) h1 = (Returned r2, h2)"
    and 3: "handle_delete_value ops me now (branch_plan b) h2 = (Returned r, h')"
    using assms(1) unfolding move_tip_def by (blast dest: and_next_Returned)
  have f1: "inv (h_storage h1) \<and> st_entries (view h1) = st_entries (view h) \<and>
    map_option sv_value (get_value (view h1) (branch_tip b)) = map_option PStr parent \<and>
    (\<forall>a. a \<noteq> branch_tip b \<longrightarrow> get_value (view h1) a = get_value (view h) a)"
  proof (cases parent)
    case None
    with 1 delete_value_done [OF _ assms(2), of me now "branch_tip b" r1 h1] show ?thesis by simp
  next
    case (Some p)
    with 1 set_value_done [OF _ assms(2), of me now "branch_tip b" "PStr p" r1 h1] show ?thesis by simp
  qed
  from delete_value_done [OF 2] f1 have f2: "inv (h_storage h2)" "st_entries (view h2) = st_entries (view h1)"
    "get_value (view h2) (branch_compaction b) = None"
    "\<forall>a. a \<noteq> branch_compaction b \<longrightarrow> get_value (view h2) a = get_value (view h1) a" by blast+
  from delete_value_done [OF 3 f2(1)] have f3: "h_state h' = HOpen" "is_open (h_storage h')" "inv (h_storage h')"
    "get_value (view h') (branch_plan b) = None" "st_entries (view h') = st_entries (view h2)"
    and keep3: "\<And>a. a \<noteq> branch_plan b \<Longrightarrow> get_value (view h') a = get_value (view h2) a" by blast+
  from f2(4) have keep2: "\<And>a. a \<noteq> branch_compaction b \<Longrightarrow> get_value (view h2) a = get_value (view h1) a" by blast
  from f1 have keep1: "\<And>a. a \<noteq> branch_tip b \<Longrightarrow> get_value (view h1) a = get_value (view h) a" by blast
  have "get_value (view h') (branch_tip b) = get_value (view h1) (branch_tip b)"
    using keep3 [of "branch_tip b"] keep2 [of "branch_tip b"] by simp
  moreover have "get_value (view h') (branch_compaction b) = None"
    using keep3 [of "branch_compaction b"] f2(3) by simp
  moreover have "get_value (view h') a = get_value (view h) a"
    if "a \<notin> {branch_tip b, branch_compaction b, branch_plan b}" for a
    using that keep1 keep2 keep3 by simp
  ultimately show ?thesis using f1 f2(2) f3 by simp
qed

lemma branch_log_same:
  assumes "branch_log st b es" and "st_entries st' = st_entries st"
    and "get_value st' (branch_tip b) = get_value st (branch_tip b)"
  shows "branch_log st' b es"
  using assms chain_mono [of st _ _ st'] by (auto simp: branch_log_def split: option.splits pyval.splits)

lemma log_sorted:
  assumes "entries_wf st" and "branch_log st b es"
  shows "sorted_wrt (\<lambda>a b. e_seq a < e_seq b) es"
proof (cases "es = []")
  case False
  with assms(2) obtain i where "chain st i (rev es)"
    by (auto simp: branch_log_def split: option.splits pyval.splits)
  from chain_sorted [OF assms(1) this] show ?thesis by (simp only: sorted_wrt_rev)
qed simp

lemma messages_of_log:
  assumes "h_state h = HOpen" and "is_open (h_storage h)" and "assert_valid_branch b = None"
    and "branch_log (view h) b es" and "get_value (view h) (branch_compaction b) = None"
  shows "messages_for_branch ops b h = Some (Inr (entries_to_messages es))"
proof (cases "get_value (view h) (branch_tip b) = None \<and> b \<noteq> DEFAULT_BRANCH")
  case True
  with assms have "es = []" by (simp add: branch_log_def)
  moreover have "entries_to_messages [] = Some []" by code_simp
  ultimately show ?thesis
    using True assms by (simp add: messages_for_branch_def handle_branch_def assert_open_def read_value)
next
  case False
  note l = rewind_chain_log [OF assms(1-4)]
  have hb: "handle_branch ops b h = (Inr (Some b), branch_object b h)"
    using False assms by (auto simp: handle_branch_def assert_open_def read_value)
  with l have "branch_find_entries ops b oldest_first (branch_object b h) = Some (Inr es)"
    by (auto simp: rewind_chain_def split: option.splits sum.splits)
  moreover have "handle_get_value ops (branch_compaction b) (branch_object b h) = Inr None"
    using assms by (simp add: handle_get_value_def when_open_def assert_open_def read_value branch_object_def)
  ultimately show ?thesis
    by (simp add: messages_for_branch_def hb oldest_first_def)
qed

lemma rewind_done:
  assumes rew: "rewind_branch ops me now fails b h disk = (Returned rep, h', disk')"
    and ok: "h_state h = HOpen" "is_open (h_storage h)" "inv (h_storage h)" "assert_valid_branch b = None"
    and log: "branch_log (view h) b (before @ u # later)"
    and u: "is_user_entry u" "\<forall>e\<in>set later. \<not> is_user_entry e"
  shows "branch_log (view h') b before \<and>
    messages_for_branch ops b h' = Some (Inr (entries_to_messages before)) \<and>
    (\<forall>c es. c \<noteq> b \<and> branch_log (view h) c es \<longrightarrow> branch_log (view h') c es) \<and>
    disk' = snd (restore fails (nat (e_seq u)) disk) \<and>
    (\<exists>restored deleted. rep = Rewound (Suc (length later)) restored deleted)"
proof -
  let ?es = "before @ u # later"
  obtain h1 where h1: "rewind_chain ops b h = (Returned ?es, h1)" "h_storage h1 = h_storage h"
    using rewind_chain_log [OF ok(1,2,4) log] by (cases "rewind_chain ops b h") auto
  note target = rewind_target_split [OF u, of before]
  obtain r where mv: "move_tip ops me now b (e_parent_id u) h1 = (Returned r, h')"
    and disk: "disk' = snd (restore fails (nat (e_seq u)) disk)"
    and rep: "\<exists>restored deleted. rep = Rewound (length (filter (\<lambda>e. e_seq u \<le> e_seq e) ?es)) restored deleted"
  proof (cases "fst (move_tip ops me now b (e_parent_id u) h1)")
    case (Returned r)
    with rew have "move_tip ops me now b (e_parent_id u) h1 = (Returned r, h')"
      by (auto simp: rewind_branch_def h1(1) target Let_def split_beta intro: prod_eqI)
    moreover from rew Returned have "disk' = snd (restore fails (nat (e_seq u)) disk)"
      "\<exists>restored deleted. rep = Rewound (length (filter (\<lambda>e. e_seq u \<le> e_seq e) ?es)) restored deleted"
      by (auto simp: rewind_branch_def h1(1) target Let_def split_beta)
    ultimately show ?thesis by (rule that)
  qed (use rew in \<open>auto simp: rewind_branch_def h1(1) target Let_def split_beta\<close>)
  note m = move_tip_done [OF mv, unfolded h1(2), OF ok(3)]
  have wf: "entries_wf (view h)" using inv_wf [OF ok(3)] by (simp add: state_wf_def)
  have "sorted_wrt (\<lambda>a b. e_seq a < e_seq b) ?es" by (rule log_sorted [OF wf log])
  then have "filter (\<lambda>e. e_seq u \<le> e_seq e) ?es = u # later"
    by (auto simp: sorted_wrt_append filter_empty_conv filter_id_conv not_le)
  moreover have before: "branch_log (view h') b before"
  proof -
    obtain i where "chain (view h) i (rev ?es)"
      using log by (auto simp: branch_log_def split: option.splits pyval.splits)
    note c = chain_suffix [OF this]
    show ?thesis
    proof (cases "e_parent_id u")
      case None
      with c have "before = []" by auto
      with None m show ?thesis by (simp add: branch_log_def)
    next
      case (Some p)
      with c have "chain (view h) p (rev before)" by auto
      then have "chain (view h') p (rev before)" using chain_mono m by metis
      with Some m show ?thesis by (auto simp: branch_log_def)
    qed
  qed
  moreover have "branch_log (view h') c es" if "c \<noteq> b" "branch_log (view h) c es" for c es
    using branch_log_same [OF that(2), of "view h'"] m that(1) by auto
  ultimately show ?thesis
    using rep disk messages_of_log [of h' b before] m ok(4) by auto
qed

end


definition no_checkpoints :: ck_disk where
  "no_checkpoints = \<lparr>dk_files = [''/w/a'' \<mapsto> ''one''], dk_dirs = []\<rparr>"

definition one_turn :: "jsonl_storage handle" where
  "one_turn = snd (append_message jsonl_ops 1 9 ''i1'' DEFAULT_BRANCH hello MESSAGE_ENTRY (fresh_session []))"

lemma one_turn_log:
  "\<exists>e. branch_log (js_state (h_storage one_turn)) DEFAULT_BRANCH [e] \<and> is_user_entry e"
  "state_wf (js_state (h_storage one_turn))"
proof -
  let ?r = "append_message jsonl_ops 1 9 ''i1'' DEFAULT_BRANCH hello MESSAGE_ENTRY (fresh_session [])"
  have "fst ?r = Returned ''i1''" by code_simp
  then have r: "?r = (Returned ''i1'', one_turn)" by (metis one_turn_def prod.collapse)
  have wf: "jsonl.handle_wf (fresh_session [])" using fresh_session_wf by (simp add: jsonl.handle_wf_def)
  note a = jsonl.append_message_log [OF r wf fresh_session_wf(3)]
  then obtain e where e: "branch_log (js_state (h_storage one_turn)) DEFAULT_BRANCH ([] @ [e])"
    "e_type e = MESSAGE_ENTRY" "e_message e = Some hello" by blast
  then have "is_user_entry e" by (simp add: is_user_entry_def hello_def)
  with e show "\<exists>e. branch_log (js_state (h_storage one_turn)) DEFAULT_BRANCH [e] \<and> is_user_entry e" by auto
  from a show "state_wf (js_state (h_storage one_turn))" by (simp add: jsonl.handle_wf_def)
qed


text \<open>
  The commits of a rewind are separate: when the second one fails, the tip has moved and the cursor
  of the compaction stays, so the branch is read with a summary of what was taken back.
\<close>

definition compacted_turns :: "jsonl_storage handle" where
  "compacted_turns =
     snd (handle_set_value jsonl_ops 1 11 (branch_compaction DEFAULT_BRANCH)
            (PDict (compaction_record 3 (user_says ''both turns'') 0))
            (snd (append_message jsonl_ops 1 10 ''i2'' DEFAULT_BRANCH hello MESSAGE_ENTRY
              (snd (append_message jsonl_ops 1 9 ''i1'' DEFAULT_BRANCH hello MESSAGE_ENTRY
                (fresh_session [NoFault, NoFault, NoFault, NoFault, WriteFault]))))))"

lemma interrupted_rewind_keeps_summary:
  "fst (rewind_branch jsonl_ops 1 20 (\<lambda>p. False) DEFAULT_BRANCH compacted_turns no_checkpoints) =
     Raised (SessionStorageError WriteFailed) \<and>
   messages_for_branch jsonl_ops DEFAULT_BRANCH
     (fst (snd (rewind_branch jsonl_ops 1 20 (\<lambda>p. False) DEFAULT_BRANCH compacted_turns no_checkpoints))) =
     Some (Inr (Some [user_says ''both turns'']))"
  by code_simp

end
