(* ===== verification/Session_Replay.thy ===== *)
theory Session_Replay
  imports Session_Jsonl
begin

section \<open>What a session file gives back\<close>

text \<open>
  The durability of \<open>avid/session/jsonl.py\<close>: a file is the header line and the transaction lines
  of the commits, and opening it replays them. The lemmas show that the file stays in step with the
  state through every commit, failed writes included, that a crash in the middle of a write leaves
  the state before the commit or the one after it, and where that ends: an \<open>fsync\<close> that fails.
\<close>

fun run_batches :: "committed_write list list \<Rightarrow> session_state \<Rightarrow> session_state option" where
  "run_batches [] st = Some st"
| "run_batches (ws # bs) st =
     (if validate_state st ws = None then run_batches bs (apply_writes ws st) else None)"

definition batch_ok :: "committed_write list \<Rightarrow> bool" where
  "batch_ok ws \<longleftrightarrow> ws \<noteq> [] \<and> (\<forall>w\<in>set ws. write_ok w)"

definition file_text :: "jsonl_header \<Rightarrow> committed_write list list \<Rightarrow> string" where
  "file_text h bs = lines_text (encode_header h # map encode_transaction bs)"

definition in_step :: "jsonl_storage \<Rightarrow> committed_write list list \<Rightarrow> bool" where
  "in_step s bs \<longleftrightarrow>
     header_ok (js_header s) \<and> jh_next_seq (js_header s) = None \<and> 1 \<le> st_next_seq (js_state s) \<and>
     list_all batch_ok bs \<and> run_batches bs (init_state 1) = Some (js_state s) \<and>
     js_file s = Some (file_text (js_header s) bs)"

text \<open>What a caller has to pass for the line to be readable again.\<close>

fun request_ok :: "session_write \<Rightarrow> bool" where
  "request_ok (EntryWrite e) \<longleftrightarrow> ne_id e \<noteq> [] \<and>
     (case ne_message e of None \<Rightarrow> True | Some m \<Rightarrow> json_wf (PDict m))"
| "request_ok (ValueSetWrite ns k v) \<longleftrightarrow> ns \<noteq> [] \<and> json_wf v"
| "request_ok (ValueDeleteWrite ns k) \<longleftrightarrow> ns \<noteq> []"

definition clean_fault :: "io_fault \<Rightarrow> bool" where
  "clean_fault f \<longleftrightarrow> f \<noteq> FsyncFault \<and> (\<forall>n. f \<noteq> ShortWrite n False)"

subsection \<open>Replaying\<close>

lemma run_batches_append:
  "run_batches (bs @ cs) st = (case run_batches bs st of None \<Rightarrow> None | Some st' \<Rightarrow> run_batches cs st')"
  by (induction bs arbitrary: st) auto

lemma replay_batches:
  "\<lbrakk>list_all batch_ok bs; run_batches bs st = Some st'\<rbrakk>
    \<Longrightarrow> replay i (map encode_transaction bs @ ls) st = replay (i + length bs) ls st'"
proof (induction bs arbitrary: i st)
  case (Cons ws bs)
  then have "parse_transaction (encode_transaction ws) = Inr ws"
    by (auto simp: batch_ok_def intro: transaction_roundtrip)
  moreover from Cons.prems have "validate_state st ws = None" "list_all batch_ok bs"
      "run_batches bs (apply_writes ws st) = Some st'" by (auto split: if_splits)
  moreover note Cons.IH [OF this(2,3), of "Suc i"]
  ultimately show ?case by simp
qed simp

lemma assigned_ok:
  "\<lbrakk>\<forall>w\<in>set ws. request_ok w; 1 \<le> seq; 0 \<le> ts\<rbrakk> \<Longrightarrow> \<forall>w\<in>set (assign_seqs seq ts ws). write_ok w"
  by (induction seq ts ws rule: assign_seqs.induct) auto

lemma assign_seqs_Nil [simp]: "assign_seqs seq ts ws = [] \<longleftrightarrow> ws = []"
  by (cases ws rule: list.exhaust; cases "hd ws") auto

lemma file_text_no_cr: "CHR 0x0D \<notin> set (file_text h bs)"
proof -
  have "CHR 0x0D \<notin> set (join_with [LF] (encode_header h # map encode_transaction bs))"
    using set_join_with [of "[LF]" "encode_header h # map encode_transaction bs"] encoded_lines(2,4)
    by auto
  then show ?thesis by (simp add: file_text_def lines_text_def)
qed

lemma file_text_snoc:
  "file_text h (bs @ [ws]) = file_text h bs @ encode_transaction ws @ [LF]"
  using lines_text_snoc [of "encode_header h # map encode_transaction bs"] by (simp add: file_text_def)

lemma split_file_text:
  assumes "LF \<notin> set t" and "CHR 0x0D \<notin> set t"
  shows "split_complete_lines (universal_newlines (file_text h bs @ t)) =
           (encode_header h # map encode_transaction bs, t \<noteq> [])"
proof -
  have id: "universal_newlines (file_text h bs @ t) = file_text h bs @ t"
    by (rule universal_newlines_id) (use assms file_text_no_cr in auto)
  have lf: "\<forall>l\<in>set (encode_header h # map encode_transaction bs). LF \<notin> set l"
    using encoded_lines by auto
  show ?thesis
    unfolding id using split_lines_text [OF _ lf] split_torn_text [OF _ lf _ assms(1)]
    by (cases "t = []") (simp_all add: file_text_def)
qed

text \<open>
  Opening what a storage in step has written, with a torn line of any length after it: the same
  state, and the file cut back to its complete lines.
\<close>

lemma open_in_step:
  assumes s: "in_step s bs" and t: "LF \<notin> set t" "CHR 0x0D \<notin> set t"
  obtains s' where
    "jsonl_open LockTaken nm [] (Some (file_text (js_header s) bs @ t)) = (Inr s', js_file s)"
    "js_state s' = js_state s" "js_header s' = js_header s" "in_step s' bs" "\<not> js_closed s'"
proof -
  let ?h = "js_header s"
  have h: "parse_header (encode_header ?h) = Inr ?h" "jh_next_seq ?h = None"
    using s header_roundtrip by (auto simp: in_step_def)
  have r: "replay 2 (map encode_transaction bs) (init_state 1) = Inr (js_state s, False)"
    using s replay_batches [of bs "init_state 1" "js_state s" 2 "[]"] by (auto simp: in_step_def)
  have pub: "publish_atomically NoFault x c = (None, Some x)" for x c
    by (simp add: publish_atomically_def fsync_write_def)
  let ?s' = "\<lparr>js_header = ?h, js_state = js_state s, js_closed = False, js_locked = True,
              js_file = js_file s, js_faults = []\<rparr>"
  have "jsonl_open LockTaken nm [] (Some (file_text ?h bs @ t)) = (Inr ?s', js_file s)"
    using s split_file_text [OF t, of ?h bs] encoded_lines(5) [of ?h] h r
    by (cases "t = []")
       (simp_all add: jsonl_open_def lock_error_def pub in_step_def file_text_def)
  then show ?thesis using s that [of ?s'] by (simp add: in_step_def)
qed

subsection \<open>Committing\<close>

lemma commit_writes_line:
  assumes "jsonl_commit now ws s = (Inr r, s')" and "ws \<noteq> []" and "js_file s = Some text"
  shows "\<exists>p. prepare_commit (js_state s) ws now = Inr p \<and> pc_writes p \<noteq> [] \<and>
     js_state s' = apply_writes (pc_writes p) (js_state s) \<and> js_header s' = js_header s \<and>
     (fst (next_fault (js_faults s)) \<noteq> FsyncFault \<longrightarrow>
        js_file s' = Some (text @ encode_transaction (pc_writes p) @ [LF]))"
proof -
  obtain p where p: "prepare_commit (js_state s) ws now = Inr p" "pc_writes p \<noteq> []"
    using assms(1,2)
    by (cases "prepare_commit (js_state s) ws now")
       (auto simp: jsonl_commit_def prepare_commit_Inr split: if_splits)
  obtain f rest where f: "next_fault (js_faults s) = (f, rest)" by fastforce
  obtain err c where w: "fsync_write f True (encode_transaction (pc_writes p) @ [LF]) (js_file s)
      = (err, c)" by fastforce
  have "err = None" "js_state s' = apply_writes (pc_writes p) (js_state s)" "js_file s' = c"
      "js_header s' = js_header s"
    using assms(1) p by (auto simp: jsonl_commit_def f w Let_def split: if_splits option.splits)
  moreover have "err = None \<Longrightarrow> c = Some (text @ encode_transaction (pc_writes p) @ [LF])"
    using w assms(3)
    by (cases f) (auto simp: fsync_write_def Let_def simp del: append_assoc split: if_splits)
  ultimately show ?thesis using p by auto
qed

lemma commit_fails_clean:
  assumes "jsonl_commit now ws s = (Inl e, s')" and "clean_fault (fst (next_fault (js_faults s)))"
    and "js_file s \<noteq> None"
  shows "js_file s' = js_file s \<and> js_state s' = js_state s \<and> js_header s' = js_header s"
proof (cases "js_closed s \<or> (\<exists>e. prepare_commit (js_state s) ws now = Inl e)")
  case True
  then show ?thesis using assms(1) by (auto simp: jsonl_commit_def split: if_splits)
next
  case False
  then obtain p where p: "prepare_commit (js_state s) ws now = Inr p"
    by (cases "prepare_commit (js_state s) ws now") auto
  show ?thesis
  proof (cases "pc_writes p = []")
    case True
    then show ?thesis using assms(1) False p by (simp add: jsonl_commit_def Let_def)
  next
    case ne: False
    obtain f rest where f: "next_fault (js_faults s) = (f, rest)" by fastforce
    obtain err c where w: "fsync_write f True (encode_transaction (pc_writes p) @ [LF]) (js_file s)
        = (err, c)" by fastforce
    have "err \<noteq> None" "js_state s' = js_state s" "js_file s' = c" "js_header s' = js_header s"
      using assms(1) False p ne
      by (auto simp: jsonl_commit_def f w Let_def split: option.splits)
    moreover have "err \<noteq> None \<Longrightarrow> c = js_file s"
      using w assms(2,3) f
      by (cases f) (auto simp: fsync_write_def clean_fault_def Let_def split: if_splits)
    ultimately show ?thesis by simp
  qed
qed

lemma next_seq_grows:
  assumes "prepare_commit st ws now = Inr p" and "1 \<le> st_next_seq st"
  shows "1 \<le> st_next_seq (apply_writes (pc_writes p) st)"
  using assms apply_assigned_next_seq [of st now ws]
  by (auto simp: prepare_commit_Inr)

lemma in_step_commit:
  assumes s: "in_step s bs" and c: "jsonl_commit now ws s = (Inr r, s')" and "ws \<noteq> []"
    and ok: "\<forall>w\<in>set ws. request_ok w" "0 \<le> now"
    and f: "clean_fault (fst (next_fault (js_faults s)))"
  shows "\<exists>p. prepare_commit (js_state s) ws now = Inr p \<and> in_step s' (bs @ [pc_writes p]) \<and>
    js_state s' = apply_writes (pc_writes p) (js_state s) \<and> js_header s' = js_header s"
proof -
  have held: "js_file s = Some (file_text (js_header s) bs)" using s by (simp add: in_step_def)
  obtain p where p: "prepare_commit (js_state s) ws now = Inr p" "pc_writes p \<noteq> []"
      "js_state s' = apply_writes (pc_writes p) (js_state s)" "js_header s' = js_header s"
      "js_file s' = Some (file_text (js_header s) (bs @ [pc_writes p]))"
    using commit_writes_line [OF c assms(3) held] f by (auto simp: clean_fault_def file_text_snoc)
  have "batch_ok (pc_writes p)"
    using p(1,2) s assigned_ok [OF ok(1) _ ok(2), of "st_next_seq (js_state s)"]
    by (auto simp: batch_ok_def prepare_commit_Inr in_step_def)
  moreover have "run_batches (bs @ [pc_writes p]) (init_state 1) = Some (js_state s')"
    using s p(1,3) by (auto simp: run_batches_append in_step_def prepare_commit_Inr)
  ultimately have "in_step s' (bs @ [pc_writes p])"
    using s p next_seq_grows [OF p(1)] by (auto simp: in_step_def)
  with p show ?thesis by blast
qed

text \<open>
  A crash while the line of a commit is written: whatever prefix of it reaches the disk, opening
  gives the state before the commit, or, if the whole line is there, the state after it.
\<close>

lemma crash_atomic:
  assumes s: "in_step s bs" and c: "jsonl_commit now ws s = (Inr r, s')" and "ws \<noteq> []"
    and ok: "\<forall>w\<in>set ws. request_ok w" "0 \<le> now"
    and f: "clean_fault (fst (next_fault (js_faults s)))"
  shows "\<exists>text line. js_file s = Some text \<and> js_file s' = Some (text @ line) \<and>
    (\<forall>k. \<exists>s'' c. jsonl_open LockTaken nm [] (Some (text @ take k line)) = (Inr s'', c) \<and>
       js_state s'' = (if k < length line then js_state s else js_state s'))"
proof -
  obtain p :: prepared_commit where p: "in_step s' (bs @ [pc_writes p])" "js_header s' = js_header s"
    using in_step_commit [OF assms] by blast
  let ?text = "file_text (js_header s) bs" and ?l = "encode_transaction (pc_writes p)"
  have "\<exists>s'' c. jsonl_open LockTaken nm [] (Some (?text @ take k (?l @ [LF]))) = (Inr s'', c) \<and>
      js_state s'' = (if k < length (?l @ [LF]) then js_state s else js_state s')" for k
  proof (cases "k < length (?l @ [LF])")
    case True
    then have t: "take k (?l @ [LF]) = take k ?l" by simp
    have "LF \<notin> set (take k ?l)" "CHR 0x0D \<notin> set (take k ?l)"
      using encoded_lines(3,4) set_take_subset by fast+
    from open_in_step [OF s this, of nm] obtain s'' where
        "jsonl_open LockTaken nm [] (Some (?text @ take k ?l)) = (Inr s'', js_file s)"
        "js_state s'' = js_state s" by blast
    with t True show ?thesis by simp
  next
    case False
    have "LF \<notin> set []" "CHR 0x0D \<notin> set []" by simp_all
    from open_in_step [OF p(1) this, of nm] obtain s'' where
        "jsonl_open LockTaken nm [] (Some (file_text (js_header s') (bs @ [pc_writes p]) @ []))
           = (Inr s'', js_file s')"
        "js_state s'' = js_state s'" by blast
    moreover have "take k (?l @ [LF]) = ?l @ [LF]" using False by simp
    ultimately show ?thesis using False p(2) file_text_snoc [of "js_header s" bs "pc_writes p"]
      by simp
  qed
  moreover have "js_file s = Some ?text" "js_file s' = Some (?text @ ?l @ [LF])"
    using s p by (simp_all add: in_step_def file_text_snoc)
  ultimately show ?thesis by (intro exI [of _ ?text] exI [of _ "?l @ [LF]"]) blast
qed

text \<open>
  An \<open>fsync\<close> that fails leaves its line in the file but not in the state, so the next commit takes
  the same sequence numbers. Replay accepts the line of the failed commit and rejects the line of
  the acknowledged one.
\<close>

lemma fsync_fault_loses_next:
  assumes s: "in_step s bs" and faults: "js_faults s = [FsyncFault]" and op: "\<not> js_closed s"
    and p1: "prepare_commit (js_state s) ws1 now1 = Inr p1" "ws1 \<noteq> []"
    and ok: "\<forall>w\<in>set ws1. request_ok w" "0 \<le> now1"
    and c1: "jsonl_commit now1 ws1 s = (r1, s1)"
    and c2: "jsonl_commit now2 ws2 s1 = (Inr r2, s2)" and ne2: "ws2 \<noteq> []"
    and ok2: "\<forall>w\<in>set ws2. request_ok w" "0 \<le> now2"
  shows "r1 = Inl (SessionStorageError FsyncFailed) \<and>
    (\<exists>s3 c. jsonl_open LockTaken nm [] (js_file s2) = (Inr s3, c) \<and>
       js_state s3 = apply_writes (pc_writes p1) (js_state s))"
proof -
  let ?h = "js_header s" and ?t1 = "encode_transaction (pc_writes p1)"
  have held: "js_file s = Some (file_text ?h bs)" using s by (simp add: in_step_def)
  have ne1: "pc_writes p1 \<noteq> []" using p1 by (auto simp: prepare_commit_Inr)
  have s1: "r1 = Inl (SessionStorageError FsyncFailed)" "js_state s1 = js_state s" "js_header s1 = ?h"
      "js_file s1 = Some (file_text ?h (bs @ [pc_writes p1]))" "js_faults s1 = []"
    using c1 p1 ne1 op faults held
    by (auto simp: jsonl_commit_def fsync_write_def Let_def file_text_snoc)
  obtain p2 where p2: "prepare_commit (js_state s) ws2 now2 = Inr p2" "pc_writes p2 \<noteq> []"
      "js_file s2 = Some (file_text ?h (bs @ [pc_writes p1, pc_writes p2]))"
    using commit_writes_line [OF c2 ne2 s1(4)] s1 file_text_snoc [of ?h "bs @ [pc_writes p1]"]
    by auto
  let ?st1 = "apply_writes (pc_writes p1) (js_state s)"
  have run: "run_batches (bs @ [pc_writes p1]) (init_state 1) = Some ?st1"
    using s p1 by (auto simp: run_batches_append in_step_def prepare_commit_Inr)
  have b1: "batch_ok (pc_writes p1)"
    using p1 ne1 s assigned_ok [OF ok(1) _ ok(2), of "st_next_seq (js_state s)"]
    by (auto simp: batch_ok_def prepare_commit_Inr in_step_def)
  have stale: "validate_state ?st1 (pc_writes p2) \<noteq> None"
  proof -
    obtain w rest where w: "pc_writes p2 = w # rest" "cw_seq w = st_next_seq (js_state s)"
      using p2(1,2) ne2 by (cases ws2; cases "hd ws2") (auto simp: prepare_commit_Inr)
    have "st_next_seq (js_state s) < st_next_seq ?st1"
      using p1 apply_assigned_next_seq [of "js_state s" now1 ws1]
      by (auto simp: prepare_commit_Inr)
    then show ?thesis using w by (simp add: validate_state_def)
  qed
  have parse2: "parse_transaction (encode_transaction (pc_writes p2)) = Inr (pc_writes p2)"
    using p2(1,2) s assigned_ok [OF ok2(1) _ ok2(2), of "st_next_seq (js_state s)"]
    by (intro transaction_roundtrip) (auto simp: prepare_commit_Inr in_step_def)
  have r: "replay 2 (map encode_transaction (bs @ [pc_writes p1, pc_writes p2])) (init_state 1)
      = Inr (?st1, True)"
    using replay_batches [of "bs @ [pc_writes p1]" "init_state 1" ?st1 2
        "[encode_transaction (pc_writes p2)]"] run s b1 stale parse2
    by (simp add: in_step_def)
  have pub: "publish_atomically NoFault x c = (None, Some x)" for x c
    by (simp add: publish_atomically_def fsync_write_def)
  have h: "parse_header (encode_header ?h) = Inr ?h" "jh_next_seq ?h = None"
    using s header_roundtrip by (auto simp: in_step_def)
  have "\<exists>s3 c. jsonl_open LockTaken nm [] (js_file s2) = (Inr s3, c) \<and> js_state s3 = ?st1"
    using split_file_text [of "[]" ?h "bs @ [pc_writes p1, pc_writes p2]"] encoded_lines(5) [of ?h] h r
    by (simp add: jsonl_open_def lock_error_def p2(3) pub)
  with s1(1) show ?thesis by blast
qed

subsection \<open>Properties\<close>

definition sample_header :: jsonl_header where
  "sample_header = \<lparr>jh_id = ''s'', jh_storage_version = STORAGE_VERSION, jh_created_at = 5,
     jh_parent = None, jh_next_seq = None, jh_workspace = None\<rparr>"

definition sample_storage :: "io_fault list \<Rightarrow> jsonl_storage" where
  "sample_storage faults =
     \<lparr>js_header = sample_header, js_state = init_state 1, js_closed = False, js_locked = True,
      js_file = Some (file_text sample_header []), js_faults = faults\<rparr>"

lemma sample_in_step: "in_step (sample_storage fs) []"
  by (simp add: in_step_def sample_storage_def sample_header_def header_ok_def STORAGE_VERSION_def
      init_state_def)





text \<open>
  C36. Where that guarantee ends: after a commit that failed in \<open>fsync\<close>, the next commit that the
  storage acknowledges is gone when the file is opened again, and the failed one is there instead.
\<close>

theorem fsync_failure_loses_acknowledged_commit:
  assumes "in_step s bs" and "js_faults s = [FsyncFault]" and "\<not> js_closed s"
    and "prepare_commit (js_state s) ws1 now1 = Inr p1" and "ws1 \<noteq> []"
    and "\<forall>w\<in>set ws1. request_ok w" and "0 \<le> now1"
    and "jsonl_commit now1 ws1 s = (r1, s1)"
    and "jsonl_commit now2 ws2 s1 = (Inr r2, s2)" and "ws2 \<noteq> []"
    and "\<forall>w\<in>set ws2. request_ok w" and "0 \<le> now2"
  shows "r1 = Inl (SessionStorageError FsyncFailed) \<and>
    (\<exists>s3 c. jsonl_open LockTaken nm [] (js_file s2) = (Inr s3, c) \<and>
       js_state s3 = apply_writes (pc_writes p1) (js_state s))"
  by (rule fsync_fault_loses_next [OF assms])

definition name_write :: "string \<Rightarrow> session_write list" where
  "name_write n = [set_value session_name (PStr n)]"

theorem fsync_failure_loses_acknowledged_commit_witness:
  "\<exists>s3 c. jsonl_open LockTaken ''f'' [] (js_file (snd (jsonl_commit 2 (name_write ''new'')
       (snd (jsonl_commit 1 (name_write ''old'') (sample_storage [FsyncFault])))))) = (Inr s3, c) \<and>
     js_state s3 = apply_writes (assign_seqs 1 1 (name_write ''old'')) (init_state 1)"
proof -
  let ?s = "sample_storage [FsyncFault]"
  let ?s1 = "snd (jsonl_commit 1 (name_write ''old'') ?s)"
  have p1: "prepare_commit (js_state ?s) (name_write ''old'') 1 = Inr
      \<lparr>pc_writes = assign_seqs 1 1 (name_write ''old''), pc_first_seq = 1, pc_seqs = [1],
       pc_timestamp = 1\<rparr>" by code_simp
  have "isl (fst (jsonl_commit 2 (name_write ''new'') ?s1)) = False" by code_simp
  then obtain r2 where c2: "jsonl_commit 2 (name_write ''new'') ?s1 =
      (Inr r2, snd (jsonl_commit 2 (name_write ''new'') ?s1))"
    by (metis isl_def prod.collapse sum.exhaust_sel)
  have ok: "name_write n \<noteq> []" "\<forall>w\<in>set (name_write n). request_ok w" for n
    by (simp_all add: name_write_def set_value_def session_name_def SESSION_NAME_NS_def)
  have s: "js_faults ?s = [FsyncFault]" "\<not> js_closed ?s" by (simp_all add: sample_storage_def)
  have t: "(0::int) \<le> 1" "(0::int) \<le> 2" by simp_all
  from fsync_failure_loses_acknowledged_commit
    [OF sample_in_step s p1 ok t(1) prod.collapse [symmetric] c2 ok t(2), of "''f''"]
  show ?thesis by (simp add: sample_storage_def)
qed

end
