(* ===== verification/Session_Summary.thy ===== *)
theory Session_Summary
  imports Session_Replay Agent_Transcript
begin

section \<open>The list summary of a session file\<close>

text \<open>
  The summary half of \<open>avid/session/jsonl.py\<close>: the name, the number of entries and the state of the
  tail, read off the text of the file without replaying it. Positions in the text are natural
  numbers, \<open>None\<close> is Python's \<open>-1\<close>.
\<close>

subsection \<open>Searching from the end\<close>

fun rfind_at :: "string \<Rightarrow> string \<Rightarrow> nat \<Rightarrow> nat option" where
  "rfind_at m s 0 = (if has_prefix m s then Some 0 else None)"
| "rfind_at m s (Suc n) = (if has_prefix m (drop (Suc n) s) then Some (Suc n) else rfind_at m s n)"

text \<open>\<open>s.rfind(m, 0, stop)\<close>, and the line around a position.\<close>

definition rfind :: "string \<Rightarrow> string \<Rightarrow> nat \<Rightarrow> nat option" where
  "rfind m s stop = (if stop < length m then None else rfind_at m s (stop - length m))"

definition line_start :: "string \<Rightarrow> nat \<Rightarrow> nat" where
  "line_start s i = i - length (takeWhile (\<lambda>c. c \<noteq> LF) (rev (take i s)))"

definition line_around :: "string \<Rightarrow> nat \<Rightarrow> string" where
  "line_around s i =
     drop (line_start s i) (take i s) @ takeWhile (\<lambda>c. c \<noteq> LF) (drop i s)"

lemma rfind_at_Some: "rfind_at m s n = Some i \<Longrightarrow> i \<le> n"
  by (induction n) (auto split: if_splits)

lemma rfind_Some: "rfind m s stop = Some i \<Longrightarrow> i + length m \<le> stop"
  by (auto simp: rfind_def dest: rfind_at_Some split: if_splits)

lemma line_start_le: "line_start s i \<le> i"
  by (simp add: line_start_def)

subsection \<open>The summary\<close>

fun value_written :: "string \<Rightarrow> committed_write list \<Rightarrow> pyval option" where
  "value_written ns [] = None"
| "value_written ns (CommittedValueSet q n k v # ws) = (if n = ns then Some v else value_written ns ws)"
| "value_written ns (CommittedValueDelete q n k # ws) = (if n = ns then Some PNone else value_written ns ws)"
| "value_written ns (CommittedEntry q t e # ws) = value_written ns ws"

definition writes_of_line :: "string \<Rightarrow> committed_write list" where
  "writes_of_line line = (case parse_transaction line of Inl _ \<Rightarrow> [] | Inr ws \<Rightarrow> ws)"

definition value_marker :: "string \<Rightarrow> string" where
  "value_marker ns = CHR 0x22 # ns @ [CHR 0x22]"

function last_value_from :: "string \<Rightarrow> string \<Rightarrow> nat \<Rightarrow> pyval" where
  "last_value_from s ns stop =
     (case rfind (value_marker ns) s stop of
        None \<Rightarrow> PNone
      | Some i \<Rightarrow>
          (case value_written ns (rev (writes_of_line (line_around s i))) of
             Some v \<Rightarrow> v
           | None \<Rightarrow> last_value_from s ns (line_start s i)))"
  by pat_completeness auto
termination
proof (relation "measure (\<lambda>(s, ns, stop). stop)", simp)
  fix s ns stop i
  assume "rfind (value_marker ns) s stop = Some i"
  then have "i + length (value_marker ns) \<le> stop" by (rule rfind_Some)
  then show "((s, ns, line_start s i), s, ns, stop) \<in> measure (\<lambda>(s, ns, stop). stop)"
    using line_start_le [of s i] by (simp add: value_marker_def)
qed

declare last_value_from.simps [simp del]

definition last_value :: "string \<Rightarrow> string \<Rightarrow> pyval" where
  "last_value content ns = last_value_from content ns (length content)"

text \<open>\<open>content.count(m)\<close> for a marker that is not empty.\<close>

function count_part :: "string \<Rightarrow> string \<Rightarrow> nat" where
  "count_part m s =
     (if s = [] \<or> m = [] then 0
      else if has_prefix m s then Suc (count_part m (drop (length m) s)) else count_part m (tl s))"
  by pat_completeness auto
termination by (relation "measure (length \<circ> snd)") (auto simp: neq_Nil_conv)

declare count_part.simps [simp del]

definition ENTRY_MARKER :: string where
  "ENTRY_MARKER = [CHR 0x22] @ ''kind'' @ [CHR 0x22] @ '': '' @ [CHR 0x22] @ ''entry'' @ [CHR 0x22]"

definition TAIL_WINDOW_LINES :: nat where "TAIL_WINDOW_LINES = 32"

definition tail_lines :: "string \<Rightarrow> nat \<Rightarrow> string list" where
  "tail_lines content window =
     (let t = (if content \<noteq> [] \<and> last content = LF then butlast content else content);
          ls = split_on LF t
      in drop (length ls - window) ls)"

record tail_facts =
  tf_entries :: "(string \<times> new_entry) list"
  tf_tip_seen :: bool
  tf_tip :: pyval

fun tail_write :: "committed_write \<Rightarrow> tail_facts \<Rightarrow> tail_facts" where
  "tail_write (CommittedEntry q t e) f =
     (if map_of (tf_entries f) (ne_id e) \<noteq> None then f
      else f\<lparr>tf_entries := tf_entries f @ [(ne_id e, e)]\<rparr>)"
| "tail_write (CommittedValueSet q ns k v) f =
     (if ns = BRANCH_TIP_NS \<and> k = DEFAULT_BRANCH \<and> \<not> tf_tip_seen f
      then f\<lparr>tf_tip_seen := True, tf_tip := v\<rparr> else f)"
| "tail_write (CommittedValueDelete q ns k) f =
     (if ns = BRANCH_TIP_NS \<and> k = DEFAULT_BRANCH \<and> \<not> tf_tip_seen f
      then f\<lparr>tf_tip_seen := True, tf_tip := PNone\<rparr> else f)"

definition tail_state :: "string list \<Rightarrow> tail_facts" where
  "tail_state ls =
     fold (\<lambda>line f. if py_strip line = [] then f else fold tail_write (rev (writes_of_line line)) f)
       (rev ls) \<lparr>tf_entries = [], tf_tip_seen = False, tf_tip = PNone\<rparr>"

text \<open>
  The walk back from the tip. The table is finite but a damaged file may hold a cycle, on which the
  program does not return.
\<close>

datatype tail_verdict = Undecided | Verdict bool | TailCrash

partial_function (option) walk_tail ::
  "(string \<times> new_entry) list \<Rightarrow> string list \<Rightarrow> string option \<Rightarrow> tail_verdict option" where
  "walk_tail entries seen cursor =
     (case cursor of
        None \<Rightarrow> Some (Verdict False)
      | Some i \<Rightarrow>
          (case map_of entries i of
             None \<Rightarrow> Some Undecided
           | Some e \<Rightarrow>
               (let m = (case ne_message e of None \<Rightarrow> [] | Some m \<Rightarrow> m)
                in if is_tool m then walk_tail entries (result_id m # seen) (ne_parent_id e)
                   else case call_ids m of
                     None \<Rightarrow> Some TailCrash
                   | Some ids \<Rightarrow> Some (Verdict (list_ex (\<lambda>c. c \<notin> set seen) ids)))))"

declare walk_tail.simps [code]

definition tail_is_truncated :: "tail_facts \<Rightarrow> tail_verdict option" where
  "tail_is_truncated f =
     (if \<not> tf_tip_seen f then Some (Verdict False)
      else case tf_tip f of
        PStr i \<Rightarrow> (if map_of (tf_entries f) i = None then Some Undecided else walk_tail (tf_entries f) [] (Some i))
      | _ \<Rightarrow> Some Undecided)"

record file_summary =
  fs_name :: "string option"
  fs_message_count :: nat
  fs_truncated_tail :: "bool option"

text \<open>The content is what \<open>read_text\<close> returned; \<open>None\<close> is a call that raises or does not return.\<close>

definition summarize_file :: "string \<Rightarrow> file_summary option" where
  "summarize_file content =
     (case tail_is_truncated (tail_state (tail_lines content TAIL_WINDOW_LINES)) of
        None \<Rightarrow> None
      | Some TailCrash \<Rightarrow> None
      | Some v \<Rightarrow>
          Some \<lparr>fs_name = as_str (last_value content SESSION_NAME_NS),
                fs_message_count = count_part ENTRY_MARKER content,
                fs_truncated_tail = (case v of Verdict b \<Rightarrow> Some b | _ \<Rightarrow> None)\<rparr>)"

subsection \<open>Searching line by line\<close>

definition unlines :: "string list \<Rightarrow> string" where
  "unlines ls = concat (map (\<lambda>l. l @ [LF]) ls)"

lemma unlines_snoc [simp]: "unlines (ls @ [l]) = unlines ls @ l @ [LF]"
  by (simp add: unlines_def)

lemma unlines_Nil [simp]: "unlines [] = []"
  by (simp add: unlines_def)

lemma lines_text_unlines: "ls \<noteq> [] \<Longrightarrow> lines_text ls = unlines ls"
proof (induction ls rule: rev_nonempty_induct)
  case (snoc l ls)
  then show ?case by (simp add: lines_text_snoc)
qed (simp add: lines_text_def unlines_def)

lemma takeWhile_line:
  "LF \<notin> set l \<Longrightarrow> takeWhile (\<lambda>c. c \<noteq> LF) (l @ LF # r) = l"
  by (induction l) auto

lemma takeWhile_back:
  "LF \<notin> set l \<Longrightarrow> takeWhile (\<lambda>c. c \<noteq> LF) (rev l @ rev (unlines ls)) = rev l"
proof -
  assume l: "LF \<notin> set l"
  then have "takeWhile (\<lambda>c. c \<noteq> LF) (rev l @ rest) = rev l @ takeWhile (\<lambda>c. c \<noteq> LF) rest" for rest
    by (subst takeWhile_append2) auto
  moreover have "takeWhile (\<lambda>c. c \<noteq> LF) (rev (unlines ls)) = []"
    by (cases ls rule: rev_cases) simp_all
  ultimately show ?thesis by simp
qed

lemma line_at:
  assumes "LF \<notin> set l" "j \<le> length l"
  shows "line_start (unlines ls @ l @ LF # r) (length (unlines ls) + j) = length (unlines ls)"
    "line_around (unlines ls @ l @ LF # r) (length (unlines ls) + j) = l"
proof -
  let ?s = "unlines ls @ l @ LF # r" and ?i = "length (unlines ls) + j"
  have t: "take ?i ?s = unlines ls @ take j l" using assms(2) by simp
  have "LF \<notin> set (take j l)" using assms(1) by (meson in_set_takeD)
  then have "takeWhile (\<lambda>c. c \<noteq> LF) (rev (take ?i ?s)) = rev (take j l)"
    unfolding t rev_append by (rule takeWhile_back)
  then show start: "line_start ?s ?i = length (unlines ls)"
    using assms(2) by (simp add: line_start_def)
  have "takeWhile (\<lambda>c. c \<noteq> LF) (drop ?i ?s) = drop j l"
  proof -
    have "drop ?i ?s = drop j l @ LF # r" using assms(2) by simp
    moreover have "LF \<notin> set (drop j l)" using assms(1) by (meson in_set_dropD)
    ultimately show ?thesis using takeWhile_line by metis
  qed
  then show "line_around ?s ?i = l"
    unfolding line_around_def start t by simp
qed

text \<open>A marker without a line break occurs inside one line.\<close>

lemma rfind_at_hit:
  "\<lbrakk>i \<le> n; has_prefix m (drop i s)\<rbrakk> \<Longrightarrow>
     \<exists>k. rfind_at m s n = Some k \<and> i \<le> k \<and> k \<le> n \<and> has_prefix m (drop k s)"
  by (induction n) (auto simp: le_Suc_eq)

lemma rfind_at_skip:
  "\<lbrakk>k \<le> n; \<And>j. \<lbrakk>k < j; j \<le> n\<rbrakk> \<Longrightarrow> \<not> has_prefix m (drop j s)\<rbrakk> \<Longrightarrow> rfind_at m s n = rfind_at m s k"
  by (induction n) (auto simp: le_Suc_eq)

lemma rfind_at_none: "(\<And>j. j \<le> n \<Longrightarrow> \<not> has_prefix m (drop j s)) \<Longrightarrow> rfind_at m s n = None"
  by (induction n) auto

lemma prefix_nth: "\<lbrakk>has_prefix m (drop i s); p < length m; i + length m \<le> length s\<rbrakk> \<Longrightarrow> s ! (i + p) = m ! p"
  by (metis add_leD1 has_prefix_def nth_drop nth_take)

lemma occurs_in_line:
  assumes m: "LF \<notin> set m" "m \<noteq> []"
    and o: "has_prefix m (drop i (unlines ls @ l @ LF # r))"
    and b: "length (unlines ls) < i + length m" "i + length m \<le> length (unlines ls) + length l + 1"
  shows "\<exists>j. i = length (unlines ls) + j \<and> j + length m \<le> length l \<and> has_prefix m (drop j l)"
proof -
  let ?A = "unlines ls" and ?s = "unlines ls @ l @ LF # r"
  have len: "i + length m \<le> length ?s" using b(2) by simp
  have no: "?s ! (i + p) \<noteq> LF" if "p < length m" for p
    using prefix_nth [OF o that len] m(1) that by (metis nth_mem)
  have ge: "length ?A \<le> i"
  proof (rule ccontr)
    assume "\<not> length ?A \<le> i"
    then have lt: "i < length ?A" by simp
    then obtain ks k where ls: "ls = ks @ [k]" by (cases ls rule: rev_cases) auto
    have "?s ! (length ?A - 1) = LF" using ls by (simp add: nth_append)
    moreover have "length ?A - 1 = i + (length ?A - 1 - i)" "length ?A - 1 - i < length m"
      using lt b(1) by simp_all
    ultimately show False using no by metis
  qed
  then obtain j where j: "i = length ?A + j" using le_Suc_ex by blast
  have fit: "j + length m \<le> length l"
  proof (rule ccontr)
    assume "\<not> j + length m \<le> length l"
    then have e: "j + length m = length l + 1" using b(2) j by simp
    have "?s ! (length ?A + length l) = LF" by (simp add: nth_append)
    moreover have "length ?A + length l = i + (length m - 1)" "length m - 1 < length m"
      using e j m(2) by (simp_all add: neq_Nil_conv length_Cons) (cases m; simp)+
    ultimately show False using no by metis
  qed
  have "drop i ?s = drop j l @ LF # r" using j fit by simp
  then have "has_prefix m (drop j l)" using o fit by (simp add: has_prefix_def)
  then show ?thesis using j fit by blast
qed

lemma rfind_line_hit:
  assumes m: "LF \<notin> set m" "m \<noteq> []" and h: "has_prefix m (drop j l)" "j + length m \<le> length l"
  shows "\<exists>k\<le>length l. rfind m (unlines ls @ l @ LF # r) (length (unlines ls) + length l + 1) =
    Some (length (unlines ls) + k)"
proof -
  let ?s = "unlines ls @ l @ LF # r" and ?n = "length (unlines ls) + length l + 1 - length m"
  have "has_prefix m (drop (length (unlines ls) + j) ?s)" using h by (simp add: has_prefix_def)
  moreover have "length (unlines ls) + j \<le> ?n" using h(2) by simp
  ultimately obtain k where k: "rfind_at m ?s ?n = Some k" "length (unlines ls) + j \<le> k" "k \<le> ?n"
    "has_prefix m (drop k ?s)"
    using rfind_at_hit by blast
  have "rfind m ?s (length (unlines ls) + length l + 1) = Some k"
    using k(1) h(2) by (simp add: rfind_def)
  moreover have "length (unlines ls) < k + length m" using k(2) m(2) by (cases m) auto
  moreover have "k + length m \<le> length (unlines ls) + length l + 1" using k(3) h(2) by linarith
  ultimately obtain i where "k = length (unlines ls) + i" "i + length m \<le> length l"
    "rfind m ?s (length (unlines ls) + length l + 1) = Some k"
    using occurs_in_line [OF m k(4)] by blast
  then show ?thesis by (metis add_leD1)
qed

lemma rfind_line_miss:
  assumes m: "LF \<notin> set m" "m \<noteq> []"
    and h: "\<And>j. j + length m \<le> length l \<Longrightarrow> \<not> has_prefix m (drop j l)"
  shows "rfind m (unlines ls @ l @ LF # r) (length (unlines ls) + length l + 1) =
    rfind m (unlines ls @ l @ LF # r) (length (unlines ls))"
proof -
  let ?s = "unlines ls @ l @ LF # r" and ?a = "length (unlines ls)"
  have miss: "\<not> has_prefix m (drop i ?s)" if "?a < i + length m" "i + length m \<le> ?a + length l + 1" for i
    using occurs_in_line [OF m _ that] h by blast
  show ?thesis
  proof (cases "?a < length m")
    case True
    then show ?thesis
      using miss by (auto simp: rfind_def intro!: rfind_at_none)
  next
    case False
    then have "rfind_at m ?s (?a + length l + 1 - length m) = rfind_at m ?s (?a - length m)"
      by (intro rfind_at_skip) (use miss in auto)
    then show ?thesis using False by (simp add: rfind_def)
  qed
qed

text \<open>So the search goes through the lines from the last one, and parses those with the marker.\<close>

definition line_value :: "string \<Rightarrow> string \<Rightarrow> pyval option" where
  "line_value ns l =
     (if \<exists>j\<le>length l. j + length (value_marker ns) \<le> length l \<and> has_prefix (value_marker ns) (drop j l)
      then value_written ns (rev (writes_of_line l)) else None)"

fun lines_value :: "string \<Rightarrow> string list \<Rightarrow> pyval" where
  "lines_value ns [] = PNone"
| "lines_value ns (l # ls) = (case line_value ns l of Some v \<Rightarrow> v | None \<Rightarrow> lines_value ns ls)"

lemma last_value_lines:
  assumes "LF \<notin> set ns" "\<forall>l\<in>set ls. LF \<notin> set l"
  shows "last_value_from (unlines ls @ r) ns (length (unlines ls)) = lines_value ns (rev ls)"
  using assms(2)
proof (induction ls arbitrary: r rule: rev_induct)
  case Nil
  then show ?case by (subst last_value_from.simps) (simp add: rfind_def value_marker_def)
next
  case (snoc l ls)
  let ?m = "value_marker ns"
  have m: "LF \<notin> set ?m" "?m \<noteq> []" using assms(1) by (auto simp: value_marker_def)
  have l: "LF \<notin> set l" and ls: "\<forall>l\<in>set ls. LF \<notin> set l" using snoc.prems by auto
  note IH = snoc.IH [OF ls, of "l @ LF # r"]
  have s: "unlines (ls @ [l]) @ r = unlines ls @ l @ LF # r" by simp
  have n: "length (unlines (ls @ [l])) = length (unlines ls) + length l + 1" by simp
  show ?case
  proof (cases "\<exists>j\<le>length l. j + length ?m \<le> length l \<and> has_prefix ?m (drop j l)")
    case True
    then obtain k where k: "k \<le> length l"
      "rfind ?m (unlines ls @ l @ LF # r) (length (unlines ls) + length l + 1) = Some (length (unlines ls) + k)"
      using rfind_line_hit [OF m] by blast
    have v: "line_value ns l = value_written ns (rev (writes_of_line l))"
      using True by (auto simp: line_value_def)
    show ?thesis
      unfolding s n last_value_from.simps [of "unlines ls @ l @ LF # r" ns "length (unlines ls) + length l + 1"]
        k(2) option.case line_at [OF l k(1)] IH
      by (simp add: v split: option.split)
  next
    case False
    then have "rfind ?m (unlines ls @ l @ LF # r) (length (unlines ls) + length l + 1) =
        rfind ?m (unlines ls @ l @ LF # r) (length (unlines ls))"
      by (intro rfind_line_miss [OF m]) (auto dest: add_leD1)
    then have "last_value_from (unlines ls @ l @ LF # r) ns (length (unlines ls) + length l + 1) =
        last_value_from (unlines ls @ l @ LF # r) ns (length (unlines ls))"
      by (subst (1 2) last_value_from.simps) simp
    moreover have "line_value ns l = None" using False by (auto simp: line_value_def)
    ultimately show ?thesis unfolding s n using IH by simp
  qed
qed

subsection \<open>The marker is in every line that writes the namespace\<close>

definition plain_name :: "string \<Rightarrow> bool" where
  "plain_name ns \<longleftrightarrow> (\<forall>c\<in>set ns. esc_char c = [c] \<and> c \<noteq> LF)"

definition holds_part :: "string \<Rightarrow> string \<Rightarrow> bool" where
  "holds_part m s \<longleftrightarrow> (\<exists>a b. s = a @ m @ b)"

lemma holds_self [simp]: "holds_part m m"
  unfolding holds_part_def by (metis append.left_neutral append.right_neutral)

lemma holds_append1: "holds_part m a \<Longrightarrow> holds_part m (a @ b)"
  unfolding holds_part_def by (metis append.assoc)

lemma holds_append2: "holds_part m b \<Longrightarrow> holds_part m (a @ b)"
  unfolding holds_part_def by (metis append.assoc)

lemma holds_Cons: "holds_part m b \<Longrightarrow> holds_part m (c # b)"
  using holds_append2 [of m b "[c]"] by simp

lemma holds_join: "\<lbrakk>x \<in> set xs; holds_part m x\<rbrakk> \<Longrightarrow> holds_part m (join_with sep xs)"
  by (induction sep xs rule: join_with.induct) (auto intro: holds_append1 holds_append2)

lemma holds_occurs:
  assumes "holds_part m s"
  shows "\<exists>j\<le>length s. j + length m \<le> length s \<and> has_prefix m (drop j s)"
proof -
  obtain a b where s: "s = a @ m @ b" using assms by (auto simp: holds_part_def)
  then show ?thesis by (intro exI [of _ "length a"]) (simp add: has_prefix_def)
qed

lemma dumps_plain: "plain_name ns \<Longrightarrow> dumps_str ns = value_marker ns"
proof -
  assume "plain_name ns"
  then have "concat (map esc_char ns) = ns"
    by (induction ns) (auto simp: plain_name_def)
  then show ?thesis by (simp add: dumps_str_def value_marker_def)
qed

lemma holds_dict: "\<lbrakk>(k, v) \<in> set d; holds_part m (dumps v)\<rbrakk> \<Longrightarrow> holds_part m (dumps (PDict d))"
proof -
  assume kv: "(k, v) \<in> set d" and h: "holds_part m (dumps v)"
  let ?f = "\<lambda>kv. dumps_str (fst kv) @ '': '' @ dumps (snd kv)"
  have "dumps_str k @ '': '' @ dumps v \<in> set (map ?f d)"
    unfolding set_map by (rule image_eqI [OF _ kv]) simp
  moreover have "holds_part m (dumps_str k @ '': '' @ dumps v)" by (intro holds_append2 h)
  ultimately have "holds_part m (join_with '', '' (map ?f d))" by (rule holds_join)
  then show ?thesis unfolding dumps.simps by (intro holds_append1 holds_append2)
qed

lemma holds_list: "\<lbrakk>v \<in> set vs; holds_part m (dumps v)\<rbrakk> \<Longrightarrow> holds_part m (dumps (PList vs))"
  unfolding dumps.simps by (intro holds_append1 holds_append2 holds_join [of "dumps v"]) auto

lemma written_marker:
  assumes "plain_name ns" "value_written ns (rev ws) \<noteq> None"
  shows "holds_part (value_marker ns) (encode_transaction ws)"
proof -
  have "\<exists>w\<in>set vs. (\<exists>q k v. w = CommittedValueSet q ns k v) \<or> (\<exists>q k. w = CommittedValueDelete q ns k)"
    if "value_written ns vs \<noteq> None" for vs
    using that by (induction ns vs rule: value_written.induct) (auto split: if_splits)
  from this [OF assms(2)] obtain w where w: "w \<in> set ws"
    "(\<exists>q k v. w = CommittedValueSet q ns k v) \<or> (\<exists>q k. w = CommittedValueDelete q ns k)"
    by auto
  then have "(''namespace'', PStr ns) \<in> set (encode_write w)" by auto
  then have d: "holds_part (value_marker ns) (dumps (PDict (encode_write w)))"
    by (rule holds_dict) (simp add: dumps_plain [OF assms(1)])
  have l: "holds_part (value_marker ns) (dumps (PList (map (\<lambda>w. PDict (encode_write w)) ws)))"
    by (rule holds_list [OF _ d]) (use w(1) in simp)
  show ?thesis
  proof (cases "length ws = 1")
    case True
    then have "ws = [w]" using w(1) by (auto simp: length_Suc_conv)
    then show ?thesis using d by (simp add: encode_transaction_def)
  next
    case False
    then have "encode_transaction ws = dumps (PList (map (\<lambda>w. PDict (encode_write w)) ws))"
      by (cases ws rule: list.exhaust; cases "tl ws") (auto simp: encode_transaction_def)
    then show ?thesis using l by simp
  qed
qed

lemma line_value_batch:
  assumes "plain_name ns" "batch_ok ws"
  shows "line_value ns (encode_transaction ws) = value_written ns (rev ws)"
proof -
  have "parse_transaction (encode_transaction ws) = Inr ws"
    using assms(2) by (auto simp: batch_ok_def intro: transaction_roundtrip)
  then have w: "writes_of_line (encode_transaction ws) = ws" by (simp add: writes_of_line_def)
  show ?thesis
    using holds_occurs [OF written_marker [OF assms(1), of ws]]
    by (cases "value_written ns (rev ws)") (auto simp: line_value_def w)
qed

lemma line_value_header: "line_value ns (encode_header h) = None"
proof -
  have "json_wf (PDict (header_dict h))"
    by (auto simp: header_dict_def optional_field_def split: option.splits)
  then have "loads (encode_header h) = Some (PDict (header_dict h))"
    unfolding encode_header_def by (rule json_roundtrip)
  moreover have "decode_write (PDict (header_dict h)) = Inl WriteBadSeq"
    by (auto simp: decode_write_def header_dict_def optional_field_def split: option.splits)
  ultimately have "writes_of_line (encode_header h) = []"
    by (simp add: writes_of_line_def parse_transaction_def)
  then show ?thesis by (simp add: line_value_def)
qed

lemma value_written_append:
  "value_written ns (xs @ ys) = (case value_written ns xs of Some v \<Rightarrow> Some v | None \<Rightarrow> value_written ns ys)"
  by (induction ns xs rule: value_written.induct) auto

lemma lines_value_append:
  "lines_value ns (xs @ ys) =
     (case find (\<lambda>l. line_value ns l \<noteq> None) xs of Some l \<Rightarrow> the (line_value ns l) | None \<Rightarrow> lines_value ns ys)"
  by (induction xs) (auto split: option.splits)

definition or_none :: "pyval option \<Rightarrow> pyval" where
  "or_none v = (case v of None \<Rightarrow> PNone | Some x \<Rightarrow> x)"

lemma lines_value_file:
  assumes "plain_name ns" "list_all batch_ok bs"
  shows "lines_value ns (rev (encode_header h # map encode_transaction bs)) =
    or_none (value_written ns (rev (concat bs)))"
  using assms(2)
proof (induction bs rule: rev_induct)
  case Nil
  then show ?case by (simp add: line_value_header or_none_def)
next
  case (snoc ws bs)
  then show ?case
    by (simp add: line_value_batch [OF assms(1)] value_written_append or_none_def split: option.split)
qed

fun single_key :: "string \<Rightarrow> string \<Rightarrow> committed_write \<Rightarrow> bool" where
  "single_key ns key (CommittedValueSet q n k v) \<longleftrightarrow> n = ns \<longrightarrow> k = key"
| "single_key ns key (CommittedValueDelete q n k) \<longleftrightarrow> n = ns \<longrightarrow> k = key"
| "single_key ns key (CommittedEntry q t e) \<longleftrightarrow> True"

lemma value_written_state:
  assumes "list_all (single_key ns key) ws"
  shows "or_none (map_option sv_value (get_value (apply_writes ws st) (ns, key))) =
    (case value_written ns (rev ws) of
       Some v \<Rightarrow> v | None \<Rightarrow> or_none (map_option sv_value (get_value st (ns, key))))"
  using assms
proof (induction ws rule: rev_induct)
  case (snoc w ws)
  have IH: "or_none (map_option sv_value (get_value (apply_writes ws st) (ns, key))) =
      (case value_written ns (rev ws) of
         Some v \<Rightarrow> v | None \<Rightarrow> or_none (map_option sv_value (get_value st (ns, key))))"
    using snoc by auto
  show ?case
  proof (cases w)
    case (CommittedValueSet q n k v)
    then show ?thesis using IH snoc.prems by (auto simp: or_none_def simp del: apply_write.simps)
  next
    case (CommittedValueDelete q n k)
    then show ?thesis using IH snoc.prems by (auto simp: or_none_def simp del: apply_write.simps)
  qed (use IH in \<open>simp del: apply_write.simps\<close>)
qed simp

lemma run_batches_concat: "run_batches bs st = Some st' \<Longrightarrow> st' = apply_writes (concat bs) st"
  by (induction bs arbitrary: st) (auto split: if_splits)

subsection \<open>The tail of a file\<close>

lemma tail_lines_text:
  assumes "ls \<noteq> []" "\<forall>l\<in>set ls. LF \<notin> set l"
  shows "tail_lines (lines_text ls) w = drop (length ls - w) ls"
  using split_on_join [OF assms] by (simp add: tail_lines_def lines_text_def Let_def)

definition tail_knows :: "pyval \<Rightarrow> new_entry \<Rightarrow> tail_facts \<Rightarrow> bool" where
  "tail_knows v e f \<longleftrightarrow> tf_tip_seen f \<and> tf_tip f = v \<and> map_of (tf_entries f) (ne_id e) = Some e"

lemma tail_knows_write: "tail_knows v e f \<Longrightarrow> tail_knows v e (tail_write w f)"
  by (cases w) (auto simp: tail_knows_def)

lemma tail_knows_writes: "tail_knows v e f \<Longrightarrow> tail_knows v e (fold tail_write ws f)"
  by (induction ws arbitrary: f) (simp_all add: tail_knows_write)

lemma strip_not_blank: "\<lbrakk>s = c # cs; \<not> is_space c\<rbrakk> \<Longrightarrow> py_strip s \<noteq> []"
  by (simp add: py_strip_def)

lemma encoded_not_blank: "py_strip (encode_transaction ws) \<noteq> []"
proof -
  have "\<exists>cs. encode_transaction ws = CHR ''{'' # cs \<or> encode_transaction ws = CHR ''['' # cs"
    unfolding encode_transaction_def by (cases ws rule: list.exhaust; cases "tl ws") simp_all
  moreover have "\<not> is_space (CHR ''{'')" "\<not> is_space (CHR ''['')" by (simp_all add: is_space_def)
  ultimately show ?thesis using strip_not_blank by blast
qed

lemma tail_state_last:
  assumes "ws = [CommittedEntry q t e, CommittedValueSet q' BRANCH_TIP_NS DEFAULT_BRANCH v]" and "batch_ok ws"
  shows "tail_knows v e (tail_state (xs @ [encode_transaction ws]))"
proof -
  let ?step = "\<lambda>line f. if py_strip line = [] then f else fold tail_write (rev (writes_of_line line)) f"
  let ?f0 = "\<lparr>tf_entries = [], tf_tip_seen = False, tf_tip = PNone\<rparr>"
  have w: "writes_of_line (encode_transaction ws) = ws"
    using assms(2) by (auto simp: batch_ok_def writes_of_line_def transaction_roundtrip)
  have "tail_knows v e (?step (encode_transaction ws) ?f0)"
    using w assms(1) encoded_not_blank [of ws] by (simp add: tail_knows_def)
  moreover have "tail_knows v e (fold ?step ls f)" if "tail_knows v e f" for ls f
    using that by (induction ls arbitrary: f) (simp_all add: tail_knows_writes)
  ultimately show ?thesis by (simp add: tail_state_def)
qed

subsection \<open>Properties\<close>

lemma plain_session_name: "plain_name SESSION_NAME_NS"
  by code_simp

text \<open>
  C25. The name a list page reads off the text of a session file, by searching for its last mention
  from the end, is the name that a replay of the whole file would give, as long as the namespace
  holds only that one value.
\<close>

theorem summary_name_is_replayed:
  assumes "in_step s bs" "list_all (single_key SESSION_NAME_NS '''') (concat bs)"
  shows "last_value (file_text (js_header s) bs) SESSION_NAME_NS =
    or_none (map_option sv_value (get_value (js_state s) session_name))"
proof -
  let ?ls = "encode_header (js_header s) # map encode_transaction bs"
  have ok: "list_all batch_ok bs" "run_batches bs (init_state 1) = Some (js_state s)"
    using assms(1) by (simp_all add: in_step_def)
  have lf: "LF \<notin> set SESSION_NAME_NS" "\<forall>l\<in>set ?ls. LF \<notin> set l"
    using plain_session_name encoded_lines by (auto simp: plain_name_def)
  have "file_text (js_header s) bs = unlines ?ls @ []"
    by (simp add: file_text_def lines_text_unlines)
  then have "last_value (file_text (js_header s) bs) SESSION_NAME_NS = lines_value SESSION_NAME_NS (rev ?ls)"
    using last_value_lines [OF lf, of "[]"] by (simp add: last_value_def)
  also have "\<dots> = or_none (value_written SESSION_NAME_NS (rev (concat bs)))"
    by (rule lines_value_file [OF plain_session_name ok(1)])
  also have "\<dots> = or_none (map_option sv_value (get_value (apply_writes (concat bs) (init_state 1)) (SESSION_NAME_NS, '''')))"
    unfolding value_written_state [OF assms(2)]
    by (simp add: or_none_def init_state_def get_value_def split: option.split)
  also have "apply_writes (concat bs) (init_state 1) = js_state s"
    using run_batches_concat [OF ok(2)] by simp
  finally show ?thesis by (simp add: session_name_def)
qed

theorem summary_name_is_replayed_witness:
  "let s = snd (jsonl_commit 2 (name_write ''new'') (sample_storage [])) in
     js_file s \<noteq> None \<and> last_value (the (js_file s)) SESSION_NAME_NS = PStr ''new''"
proof -
  let ?c = "jsonl_commit 2 (name_write ''new'') (sample_storage [])"
  let ?ws = "assign_seqs 1 2 (name_write ''new'')"
  have "isl (fst ?c) = False" by code_simp
  then obtain r where c: "?c = (Inr r, snd ?c)" by (metis isl_def prod.collapse sum.exhaust_sel)
  have p: "prepare_commit (js_state (sample_storage [])) (name_write ''new'') 2 = Inr
      \<lparr>pc_writes = ?ws, pc_first_seq = 1, pc_seqs = [1], pc_timestamp = 2\<rparr>" by code_simp
  have ok: "name_write ''new'' \<noteq> []" "\<forall>w\<in>set (name_write ''new''). request_ok w"
      "clean_fault (fst (next_fault (js_faults (sample_storage []))))"
    by (simp_all add: name_write_def set_value_def session_name_def SESSION_NAME_NS_def
        sample_storage_def clean_fault_def)
  have s: "in_step (snd ?c) [?ws]" "js_state (snd ?c) = apply_writes ?ws (init_state 1)"
    using in_step_commit [OF sample_in_step c ok(1,2) _ ok(3)] p
    by (auto simp: sample_storage_def)
  have one: "list_all (single_key SESSION_NAME_NS '''') (concat [?ws])" by code_simp
  have v: "or_none (map_option sv_value (get_value (apply_writes ?ws (init_state 1)) session_name)) = PStr ''new''"
    by code_simp
  have "js_file (snd ?c) = Some (file_text (js_header (snd ?c)) [?ws])"
    using s(1) by (simp add: in_step_def)
  then show ?thesis
    using summary_name_is_replayed [OF s(1) one] by (simp add: s(2) v Let_def)
qed

end
