(* ===== verification/Services_Sessions.thy ===== *)
theory Services_Sessions
  imports Services_Rewind Session_Summary
begin

section \<open>Read views over sessions\<close>

text \<open>
  \<open>SessionService\<close> of \<open>avid/services/sessions.py\<close> over a handle that \<open>_session\<close> yields (how it is
  obtained is in \<open>Services_Registry\<close>): the views of a session, its branches, the pages of a branch,
  the bytes of an attachment, and the copy made for a scratch conversation. Whether a run is active
  is an argument. \<open>Lost\<close> is a read that raises an exception of another kind or does not return.
\<close>

definition DEFAULT_ENTRY_LIMIT :: int where "DEFAULT_ENTRY_LIMIT = 100"
definition MAX_ENTRY_LIMIT :: int where "MAX_ENTRY_LIMIT = 500"
definition TAIL_SCAN_LIMIT :: int where "TAIL_SCAN_LIMIT = 64"
definition SCRATCH_NS :: string where "SCRATCH_NS = ''avid.session.scratch''"

definition session_scratch :: value_address where "session_scratch = (SCRATCH_NS, '''')"

datatype view_error =
    BadOrder string
  | BranchTaken string
  | NoForkPoint
  | BusySession
  | NoSuchEntry string
  | NotAnImage string int
  | ScratchFailed session_error
  | Escaped session_error

datatype 'a seen = Seen 'a | Refusal view_error | Lost

fun seen_of :: "(session_error + 'a) \<Rightarrow> 'a seen" where
  "seen_of (Inl e) = Refusal (Escaped e)"
| "seen_of (Inr x) = Seen x"

fun and_then_see :: "'a seen \<Rightarrow> ('a \<Rightarrow> 'b seen) \<Rightarrow> 'b seen" where
  "and_then_see (Seen x) f = f x"
| "and_then_see (Refusal e) f = Refusal e"
| "and_then_see Lost f = Lost"

subsection \<open>Reading a branch\<close>

text \<open>\<open>session.branch(name)\<close> and its entries; an unknown branch has none.\<close>

definition branch_entries ::
  "'s storage_ops \<Rightarrow> string \<Rightarrow> branch_scan \<Rightarrow> 's handle \<Rightarrow> entry list seen \<times> 's handle" where
  "branch_entries ops name q h =
     (case handle_branch ops name h of
        (Inl e, h') \<Rightarrow> (Refusal (Escaped e), h')
      | (Inr None, h') \<Rightarrow> (Seen [], h')
      | (Inr (Some b), h') \<Rightarrow>
          ((case branch_find_entries ops b q h' of None \<Rightarrow> Lost | Some r \<Rightarrow> seen_of r), h'))"

fun tail_from :: "string list \<Rightarrow> entry list \<Rightarrow> bool seen" where
  "tail_from results [] = Seen False"
| "tail_from results (e # es) =
     (let m = (case e_message e of None \<Rightarrow> [] | Some m \<Rightarrow> m)
      in if is_tool m then tail_from (result_id m # results) es
         else if e_type e = MESSAGE_ENTRY \<and> dget m ''role'' = PStr ''user'' then Seen True
         else case call_ids m of
           None \<Rightarrow> Lost
         | Some ids \<Rightarrow> Seen (list_ex (\<lambda>c. c \<notin> set results) ids))"

definition truncated_tail :: "'s storage_ops \<Rightarrow> bool \<Rightarrow> 's handle \<Rightarrow> bool seen \<times> 's handle" where
  "truncated_tail ops active h =
     (if active then (Seen False, h)
      else case branch_entries ops DEFAULT_BRANCH
             (default_branch_scan\<lparr>bs_order := NewestFirst, bs_limit := Some TAIL_SCAN_LIMIT\<rparr>) h of
        (r, h') \<Rightarrow> (and_then_see r (tail_from []), h'))"

subsection \<open>Pages of entries\<close>

definition page_size :: "int option \<Rightarrow> int" where
  "page_size limit =
     (case limit of None \<Rightarrow> DEFAULT_ENTRY_LIMIT | Some n \<Rightarrow> max 1 (min n MAX_ENTRY_LIMIT))"

definition entry_view :: "entry \<Rightarrow> entry" where
  "entry_view e = e\<lparr>e_message := map_option strip_message_bytes (e_message e)\<rparr>"

record entries_page =
  ep_limit :: int
  ep_entries :: "entry list"
  ep_has_more :: bool
  ep_next_cursor :: "int option"
  ep_truncated_tail :: bool

definition page_query :: "string \<Rightarrow> int \<Rightarrow> int option \<Rightarrow> branch_scan" where
  "page_query order n cursor =
     default_branch_scan\<lparr>bs_order := (if order = ''asc'' then OldestFirst else NewestFirst),
       bs_limit := Some (n + 1), bs_cursor_seq := cursor\<rparr>"

definition entries_view ::
  "'s storage_ops \<Rightarrow> bool \<Rightarrow> string \<Rightarrow> string \<Rightarrow> int option \<Rightarrow> int option \<Rightarrow> 's handle \<Rightarrow>
   entries_page seen" where
  "entries_view ops active branch order limit cursor h =
     (if order \<notin> {''asc'', ''desc''} then Refusal (BadOrder order)
      else let n = page_size limit in
        case branch_entries ops branch (page_query order n cursor) h of (r, h') \<Rightarrow>
          and_then_see r (\<lambda>found.
            let has_more = int (length found) > n;
                page = take (nat n) found;
                next_cursor = (if has_more \<and> page \<noteq> [] then Some (e_seq (last page)) else None)
            in and_then_see (if cursor = None then fst (truncated_tail ops active h') else Seen False)
                 (\<lambda>tail. Seen \<lparr>ep_limit = n, ep_entries = map entry_view page, ep_has_more = has_more,
                              ep_next_cursor = next_cursor, ep_truncated_tail = tail\<rparr>)))"

subsection \<open>Views of a session\<close>

text \<open>The three facts of a list row, from the cheap summary of the file or by replaying it.\<close>

record list_facts =
  lf_name :: "pyval option"
  lf_count :: nat
  lf_truncated :: bool

definition facts_by_replay :: "'s storage_ops \<Rightarrow> bool \<Rightarrow> 's handle \<Rightarrow> list_facts seen" where
  "facts_by_replay ops active h =
     and_then_see (seen_of (handle_get_name ops h)) (\<lambda>name.
     and_then_see (seen_of (handle_get_stats ops h)) (\<lambda>count.
     and_then_see (fst (truncated_tail ops active h)) (\<lambda>tail.
       Seen \<lparr>lf_name = name, lf_count = count, lf_truncated = tail\<rparr>)))"

definition listed_facts ::
  "'s storage_ops \<Rightarrow> bool \<Rightarrow> string \<Rightarrow> 's handle \<Rightarrow> list_facts seen" where
  "listed_facts ops active content h =
     (case summarize_file content of
        None \<Rightarrow> Lost
      | Some s \<Rightarrow>
          (case fs_truncated_tail s of
             None \<Rightarrow> facts_by_replay ops active h
           | Some tail \<Rightarrow>
               Seen \<lparr>lf_name = map_option PStr (fs_name s), lf_count = fs_message_count s,
                     lf_truncated = tail\<rparr>))"

subsection \<open>Branches\<close>

record branch_row =
  br_name :: string
  br_tip :: pyval
  br_count :: nat
  br_default :: bool
  br_usage :: pyval

definition branch_row_of ::
  "'s storage_ops \<Rightarrow> string \<Rightarrow> pyval \<Rightarrow> 's handle \<Rightarrow> branch_row seen \<times> 's handle" where
  "branch_row_of ops name usage h =
     (case handle_branch ops name h of
        (Inl e, h') \<Rightarrow> (Refusal (Escaped e), h')
      | (Inr None, h') \<Rightarrow>
          (Seen \<lparr>br_name = name, br_tip = PNone, br_count = 0, br_default = (name = DEFAULT_BRANCH),
                 br_usage = usage\<rparr>, h')
      | (Inr (Some b), h') \<Rightarrow>
          (and_then_see (seen_of (get_tip_id ops b h')) (\<lambda>tip.
             case branch_find_entries ops b default_branch_scan h' of
               None \<Rightarrow> Lost
             | Some r \<Rightarrow> and_then_see (seen_of r) (\<lambda>es.
                 Seen \<lparr>br_name = name, br_tip = tip, br_count = length es,
                       br_default = (name = DEFAULT_BRANCH), br_usage = usage\<rparr>)), h'))"

fun branch_rows ::
  "'s storage_ops \<Rightarrow> (string \<times> pyval) list \<Rightarrow> string list \<Rightarrow> 's handle \<Rightarrow> branch_row list seen" where
  "branch_rows ops usages [] h = Seen []"
| "branch_rows ops usages (name # names) h =
     (case branch_row_of ops name (case map_of usages name of None \<Rightarrow> PNone | Some u \<Rightarrow> u) h of
        (r, h') \<Rightarrow> and_then_see r (\<lambda>row.
           and_then_see (branch_rows ops usages names h') (\<lambda>rows. Seen (row # rows))))"

definition list_branches :: "'s storage_ops \<Rightarrow> 's handle \<Rightarrow> branch_row list seen" where
  "list_branches ops h =
     and_then_see (seen_of (handle_scan_values ops USAGE_NS h)) (\<lambda>values.
     and_then_see (seen_of (branch_names ops h)) (\<lambda>names.
       branch_rows ops (rev (map (\<lambda>v. (sv_key v, sv_value v)) values)) names h))"

definition branch_label :: "nat \<Rightarrow> string" where "branch_label i = CHR ''b'' # show_nat i"

lemma inj_branch_label: "inj branch_label"
  by (intro injI) (metis branch_label_def list.inject number_value_show)

text \<open>The search for a free name ends, since the labels differ and only finitely many are taken.\<close>

function free_index :: "string list \<Rightarrow> nat \<Rightarrow> nat" where
  "free_index taken i = (if branch_label i \<in> set taken then free_index taken (Suc i) else i)"
  by pat_completeness auto

termination
proof (relation "measure (\<lambda>(taken, i). card {j. i \<le> j \<and> branch_label j \<in> set taken})")
  fix taken i assume t: "branch_label i \<in> set taken"
  have "finite {j. branch_label j \<in> set taken}"
    using finite_vimageI [OF finite_set inj_branch_label, of taken] by (simp add: vimage_def)
  then have "finite {j. i \<le> j \<and> branch_label j \<in> set taken}" by (rule rev_finite_subset) auto
  moreover have "{j. Suc i \<le> j \<and> branch_label j \<in> set taken} \<subset> {j. i \<le> j \<and> branch_label j \<in> set taken}"
  proof (rule psubsetI)
    have "i \<in> {j. i \<le> j \<and> branch_label j \<in> set taken}" using t by simp
    then show "{j. Suc i \<le> j \<and> branch_label j \<in> set taken} \<noteq> {j. i \<le> j \<and> branch_label j \<in> set taken}"
      by (metis (no_types, lifting) mem_Collect_eq not_less_eq_eq order_refl)
  qed auto
  ultimately show "((taken, Suc i), taken, i) \<in> measure (\<lambda>(taken, i). card {j. i \<le> j \<and> branch_label j \<in> set taken})"
    by (simp add: psubset_card_mono)
qed simp

declare free_index.simps [simp del]

definition next_branch_name :: "'s storage_ops \<Rightarrow> 's handle \<Rightarrow> session_error + string" where
  "next_branch_name ops h =
     map_sum id (\<lambda>names. branch_label (free_index names 2)) (branch_names ops h)"

definition fork_branch ::
  "'s storage_ops \<Rightarrow> nat \<Rightarrow> int \<Rightarrow> bool \<Rightarrow> string option \<Rightarrow> string option \<Rightarrow> 's handle \<Rightarrow>
   branch_row seen \<times> 's handle" where
  "fork_branch ops me now active name at h =
     (if active then (Refusal BusySession, h)
      else case (case name of Some (c # cs) \<Rightarrow> Inr (c # cs) | _ \<Rightarrow> next_branch_name ops h) of
        Inl e \<Rightarrow> (Refusal (Escaped e), h)
      | Inr chosen \<Rightarrow>
          (case create_branch ops me now chosen at h of
             (Blocked, h') \<Rightarrow> (Lost, h')
           | (Raised (SessionBranchExistsError b), h') \<Rightarrow> (Refusal (BranchTaken chosen), h')
           | (Raised (SessionUnknownTargetError t), h') \<Rightarrow> (Refusal NoForkPoint, h')
           | (Raised e, h') \<Rightarrow> (Refusal (Escaped e), h')
           | (Returned _, h') \<Rightarrow> branch_row_of ops chosen PNone h'))"

subsection \<open>Attachments\<close>

definition attachment_bytes ::
  "'s storage_ops \<Rightarrow> string \<Rightarrow> int \<Rightarrow> 's handle \<Rightarrow> (string \<times> string) seen" where
  "attachment_bytes ops entry_id index h =
     and_then_see (seen_of (handle_get_entry ops entry_id h)) (\<lambda>found.
       case Option.bind found e_message of
         None \<Rightarrow> Refusal (NoSuchEntry entry_id)
       | Some message \<Rightarrow>
           (let parts = (case dget message ''content'' of PList ps \<Rightarrow> ps | _ \<Rightarrow> []);
                part = (if 0 \<le> index \<and> index < int (length parts) then parts ! nat index else PNone);
                mime = (case part of PDict d \<Rightarrow> dget d ''mime'' | _ \<Rightarrow> PNone)
            in case image_bytes part of
                 None \<Rightarrow> Refusal (NotAnImage entry_id index)
               | Some raw \<Rightarrow>
                   Seen (raw, if truthy mime then py_str mime else ''application/octet-stream'')))"

subsection \<open>Scratch conversations\<close>

text \<open>
  \<open>create_scratch\<close> from the source's handle and the handle of the session that was just created; the
  second result is the new session, \<open>None\<close> once it is deleted. A deletion that fails is suppressed.
\<close>

fun copy_messages ::
  "'s storage_ops \<Rightarrow> nat \<Rightarrow> int \<Rightarrow> (nat \<Rightarrow> string) \<Rightarrow> nat \<Rightarrow> pydict list \<Rightarrow> recorder \<Rightarrow> 's handle \<Rightarrow>
   unit outcome \<times> 's handle" where
  "copy_messages ops me now fresh i [] rc h = (Returned (), h)"
| "copy_messages ops me now fresh i (m # ms) rc h =
     (case on_message ops me now (fresh i) m MESSAGE_ENTRY rc h of
        (Returned _, rc', h') \<Rightarrow> copy_messages ops me now fresh (Suc i) ms rc' h'
      | (Raised e, _, h') \<Rightarrow> (Raised e, h')
      | (Blocked, _, h') \<Rightarrow> (Blocked, h'))"

definition scratch_copy ::
  "'s storage_ops \<Rightarrow> nat \<Rightarrow> int \<Rightarrow> (nat \<Rightarrow> string) \<Rightarrow> bool \<Rightarrow> string \<Rightarrow> 's handle \<Rightarrow> 's handle \<Rightarrow>
   nat seen \<times> 's handle option" where
  "scratch_copy ops me now fresh deletes source_id source created =
     (case messages_for_branch ops DEFAULT_BRANCH source of
        None \<Rightarrow> (Lost, None)
      | Some (Inl e) \<Rightarrow> (Refusal (Escaped e), None)
      | Some (Inr None) \<Rightarrow> (Lost, None)
      | Some (Inr (Some messages)) \<Rightarrow>
          (case and_next (copy_messages ops me now fresh 0 messages (new_recorder DEFAULT_BRANCH) created)
                  (handle_set_value ops me now session_scratch (PDict [(''source'', PStr source_id)])) of
             (Returned _, h) \<Rightarrow> (Seen (length messages), Some h)
           | (Raised e, h) \<Rightarrow> (Refusal (ScratchFailed e), if deletes then None else Some h)
           | (Blocked, h) \<Rightarrow> (Lost, Some h)))"

subsection \<open>Following the cursors\<close>

text \<open>
  A client that asks for the next page as long as there is a cursor. \<open>sorted_by o\<close> is the order of
  sequence numbers in which a page is served, \<open>served o\<close> the log of a branch in that order.
\<close>

fun follow_pages ::
  "'s storage_ops \<Rightarrow> bool \<Rightarrow> string \<Rightarrow> string \<Rightarrow> int option \<Rightarrow> nat \<Rightarrow> int option \<Rightarrow> 's handle \<Rightarrow>
   entry list list option" where
  "follow_pages ops active b order limit 0 cursor h = None"
| "follow_pages ops active b order limit (Suc n) cursor h =
     (case entries_view ops active b order limit cursor h of
        Seen p \<Rightarrow>
          (case ep_next_cursor p of
             None \<Rightarrow> Some [ep_entries p]
           | Some c \<Rightarrow> map_option ((#) (ep_entries p)) (follow_pages ops active b order limit n (Some c) h))
      | _ \<Rightarrow> None)"

definition precedes :: "string \<Rightarrow> int \<Rightarrow> int \<Rightarrow> bool" where
  "precedes order x y \<longleftrightarrow> (if order = ''asc'' then x < y else y < x)"

definition served :: "string \<Rightarrow> 'a list \<Rightarrow> 'a list" where
  "served order es = (if order = ''asc'' then es else rev es)"

definition readable_calls :: "entry \<Rightarrow> bool" where
  "readable_calls e \<longleftrightarrow> call_ids (case e_message e of None \<Rightarrow> [] | Some m \<Rightarrow> m) \<noteq> None"

lemma page_size_bounds: "1 \<le> page_size limit" "page_size limit \<le> MAX_ENTRY_LIMIT"
  by (auto simp: page_size_def DEFAULT_ENTRY_LIMIT_def MAX_ENTRY_LIMIT_def split: option.split)

lemma served_sorted:
  "sorted_wrt (\<lambda>a b. e_seq a < e_seq b) es \<Longrightarrow> sorted_wrt (\<lambda>a b. precedes order (e_seq a) (e_seq b)) (served order es)"
  by (simp add: served_def precedes_def sorted_wrt_rev)

lemma branch_match_page:
  "branch_match e (page_query order n cursor) \<longleftrightarrow> (case cursor of None \<Rightarrow> True | Some c \<Rightarrow> precedes order c (e_seq e))"
  by (auto simp: branch_match_def page_query_def default_branch_scan_def precedes_def split: option.split)

lemma branch_page_query:
  "1 \<le> n \<Longrightarrow> branch_page (page_query order n cursor\<lparr>bs_start := s\<rparr>) (rev es) =
     take (nat (n + 1)) (filter (\<lambda>e. case cursor of None \<Rightarrow> True | Some c \<Rightarrow> precedes order c (e_seq e)) (served order es))"
proof -
  have m: "branch_match e (page_query order n cursor\<lparr>bs_start := s\<rparr>) = branch_match e (page_query order n cursor)" for e
    by (simp add: branch_match_def page_query_def default_branch_scan_def split: option.split)
  assume "1 \<le> n"
  then show ?thesis
    unfolding branch_page_def m branch_match_page
    by (simp add: page_of_def page_query_def served_def default_branch_scan_def)
qed

lemma tail_from_seen: "list_all readable_calls es \<Longrightarrow> \<exists>t. tail_from rs es = Seen t"
  by (induction rs es rule: tail_from.induct) (auto simp: Let_def readable_calls_def split: option.splits)

lemma rest_after_cursor:
  assumes "sorted_wrt (\<lambda>a b. precedes order (e_seq a) (e_seq b)) (ys @ y # zs)"
  shows "filter (\<lambda>e. precedes order (e_seq y) (e_seq e)) (ys @ y # zs) = zs"
proof -
  have "\<forall>e\<in>set ys. \<not> precedes order (e_seq y) (e_seq e)"
    using assms by (cases "order = ''asc''") (auto simp: sorted_wrt_append precedes_def order.asym)
  moreover have "\<forall>e\<in>set zs. precedes order (e_seq y) (e_seq e)"
    using assms by (simp add: sorted_wrt_append)
  ultimately show ?thesis by (simp add: filter_empty_conv filter_id_conv precedes_def)
qed

context session_storage begin

lemma branch_entries_log:
  assumes "h_state h = HOpen" and "is_open (h_storage h)" and "assert_valid_branch b = None"
    and "branch_log (view h) b es" and "bs_start q = None"
  obtains h' s where "branch_entries ops b q h = (Seen (branch_page (q\<lparr>bs_start := s\<rparr>) (rev es)), h')"
    "h_state h' = HOpen" "h_storage h' = h_storage h"
proof (cases "get_value (view h) (branch_tip b)")
  case None
  have nil: "branch_page q' [] = []" for q' by (simp add: branch_page_def page_of_def split: option.split)
  show ?thesis
    using that [of None "if b = DEFAULT_BRANCH then branch_object b h else h"] assms None nil
    by (cases "b = DEFAULT_BRANCH") (auto simp: branch_entries_def handle_branch_def assert_open_def read_value branch_log_def
        branch_find_entries_def get_tip_id_def branch_object_def)
next
  case (Some v)
  have nil: "branch_page q' [] = []" for q' by (simp add: branch_page_def page_of_def split: option.split)
  let ?h = "branch_object b h"
  have o: "h_state ?h = HOpen" "h_storage ?h = h_storage h" using assms(1) by (auto simp: branch_object_def)
  have hb: "handle_branch ops b h = (Inr (Some b), ?h)"
    using assms(1-3) Some by (simp add: handle_branch_def assert_open_def read_value)
  from assms(4) Some consider "sv_value v = PNone" "es = []" | i where "sv_value v = PStr i" "chain (view h) i (rev es)"
    by (cases "sv_value v") (auto simp: branch_log_def)
  then show ?thesis
  proof cases
    case 1
    then show ?thesis
      using that [of None ?h] hb o assms(2,3,5) Some nil
      by (simp add: branch_entries_def branch_find_entries_def get_tip_id_def read_value)
  next
    case 2
    have "scan_branch (view h) (q\<lparr>bs_start := Some i\<rparr>) = Some (Inr (branch_page (q\<lparr>bs_start := Some i\<rparr>) (rev es)))"
      by (rule scan_branch_chain [OF 2(2)]) simp
    then show ?thesis
      using that [of "Some i" ?h] hb o assms(2,3,5) Some 2
      by (simp add: branch_entries_def branch_find_entries_def get_tip_id_def read_value
          handle_scan_branch_def when_open_def assert_open_def read_branch)
  qed
qed

end

lemma newest_start: "bs_start (default_branch_scan\<lparr>bs_order := NewestFirst, bs_limit := l\<rparr>) = None"
  by (simp add: default_branch_scan_def)

lemma page_start: "bs_start (page_query order n cursor) = None"
  by (simp add: page_query_def default_branch_scan_def)

lemma list_all_page: "list_all P es \<Longrightarrow> list_all P (branch_page q (rev es))"
  by (auto simp: list_all_iff branch_page_def page_of_def dest!: in_set_takeD split: option.splits if_splits)

context session_storage begin

lemma truncated_tail_log:
  assumes "h_state h = HOpen" and "is_open (h_storage h)"
    and "branch_log (view h) DEFAULT_BRANCH es" and "list_all readable_calls es"
  shows "\<exists>t. fst (truncated_tail ops active h) = Seen t"
proof (cases active)
  case False
  have v: "assert_valid_branch DEFAULT_BRANCH = None" by code_simp
  obtain h' s where "branch_entries ops DEFAULT_BRANCH (default_branch_scan\<lparr>bs_order := NewestFirst, bs_limit := Some TAIL_SCAN_LIMIT\<rparr>) h =
      (Seen (branch_page (default_branch_scan\<lparr>bs_order := NewestFirst, bs_limit := Some TAIL_SCAN_LIMIT\<rparr>\<lparr>bs_start := s\<rparr>) (rev es)), h')"
    using branch_entries_log [OF assms(1,2) v assms(3) newest_start] by blast
  then show ?thesis
    using False tail_from_seen [OF list_all_page [OF assms(4)]] by (simp add: truncated_tail_def)
qed (auto simp: truncated_tail_def)

lemma entries_view_rest:
  assumes h: "h_state h = HOpen" "is_open (h_storage h)" "assert_valid_branch b = None"
    and log: "branch_log (view h) b es" "sorted_wrt (\<lambda>x y. e_seq x < e_seq y) es"
    and tip: "branch_log (view h) DEFAULT_BRANCH ds" "list_all readable_calls ds"
    and order: "order \<in> {''asc'', ''desc''}" and zs: "served order es = ys @ zs"
    and cursor: "cursor = (if ys = [] then None else Some (e_seq (last ys)))"
  shows "\<exists>t. entries_view ops active b order limit cursor h =
    Seen \<lparr>ep_limit = page_size limit, ep_entries = map entry_view (take (nat (page_size limit)) zs),
      ep_has_more = int (length zs) > page_size limit,
      ep_next_cursor = (if int (length zs) > page_size limit
        then Some (e_seq (last (take (nat (page_size limit)) zs))) else None),
      ep_truncated_tail = t\<rparr>"
proof -
  let ?n = "page_size limit" and ?q = "page_query order (page_size limit) cursor"
  have n: "1 \<le> ?n" by (rule page_size_bounds)
  obtain h' s where b: "branch_entries ops b ?q h = (Seen (branch_page (?q\<lparr>bs_start := s\<rparr>) (rev es)), h')"
    "h_state h' = HOpen" "h_storage h' = h_storage h"
    using branch_entries_log [OF h log(1) page_start] by blast
  have rest: "filter (\<lambda>e. case cursor of None \<Rightarrow> True | Some c \<Rightarrow> precedes order c (e_seq e)) (served order es) = zs"
  proof (cases ys rule: rev_cases)
    case (snoc ys' y)
    with served_sorted [OF log(2), of order] zs
    have "sorted_wrt (\<lambda>a b. precedes order (e_seq a) (e_seq b)) (ys' @ y # zs)" by simp
    from rest_after_cursor [OF this] show ?thesis using snoc zs cursor by simp
  qed (use zs cursor in simp)
  have page: "branch_page (?q\<lparr>bs_start := s\<rparr>) (rev es) = take (nat (?n + 1)) zs"
    unfolding branch_page_query [OF n] rest ..
  obtain t where t: "fst (truncated_tail ops active h') = Seen t"
    using truncated_tail_log [of h' ds active] b(2,3) h(2) tip by auto
  have more: "int (length (take (nat (?n + 1)) zs)) > ?n \<longleftrightarrow> int (length zs) > ?n"
    using n by (auto simp: min_def)
  have cut: "take (nat ?n) (take (nat (?n + 1)) zs) = take (nat ?n) zs"
    using n by (simp add: min_def)
  have ne: "take (nat ?n) zs \<noteq> []" if "int (length zs) > ?n" using n that by auto
  show ?thesis
    using order b(1) t ne n
    unfolding entries_view_def page more cut Let_def
    by (cases "cursor = None") (auto simp: page more cut Let_def)
qed

lemma follow_pages_log:
  assumes h: "h_state h = HOpen" "is_open (h_storage h)" "assert_valid_branch b = None"
    and log: "branch_log (view h) b es" "sorted_wrt (\<lambda>x y. e_seq x < e_seq y) es"
    and tip: "branch_log (view h) DEFAULT_BRANCH ds" "list_all readable_calls ds"
    and order: "order \<in> {''asc'', ''desc''}" and zs: "served order es = ys @ zs"
    and cursor: "cursor = (if ys = [] then None else Some (e_seq (last ys)))" and "length zs < fuel"
  shows "\<exists>ps. follow_pages ops active b order limit fuel cursor h = Some ps \<and>
    concat ps = map entry_view zs \<and> (\<forall>p\<in>set ps. int (length p) \<le> page_size limit)"
  using zs cursor \<open>length zs < fuel\<close>
proof (induction fuel arbitrary: ys zs cursor)
  case (Suc fuel ys zs cursor)
  let ?n = "nat (page_size limit)" and ?page = "take (nat (page_size limit)) zs"
  have n: "1 \<le> page_size limit" by (rule page_size_bounds)
  obtain t where v: "entries_view ops active b order limit cursor h =
    Seen \<lparr>ep_limit = page_size limit, ep_entries = map entry_view ?page,
      ep_has_more = int (length zs) > page_size limit,
      ep_next_cursor = (if int (length zs) > page_size limit then Some (e_seq (last ?page)) else None),
      ep_truncated_tail = t\<rparr>"
    using entries_view_rest [OF h log tip order Suc.prems(1,2)] by blast
  have len: "int (length (map entry_view ?page)) \<le> page_size limit" using n by simp
  show ?case
  proof (cases "int (length zs) > page_size limit")
    case False
    then show ?thesis using v len by simp
  next
    case True
    then have page: "?page \<noteq> []" using n by auto
    have rest: "served order es = (ys @ ?page) @ drop ?n zs" using Suc.prems(1) by simp
    have c: "Some (e_seq (last ?page)) = (if ys @ ?page = [] then None else Some (e_seq (last (ys @ ?page))))"
      using page by simp
    have "length (drop ?n zs) < fuel" using Suc.prems(3) page n by (cases zs) auto
    from Suc.IH [OF rest c this] obtain ps where
      ps: "follow_pages ops active b order limit fuel (Some (e_seq (last ?page))) h = Some ps"
        "concat ps = map entry_view (drop ?n zs)" "\<forall>p\<in>set ps. int (length p) \<le> page_size limit"
      by blast
    have "map entry_view ?page @ map entry_view (drop ?n zs) = map entry_view zs"
      by (simp flip: map_append)
    then show ?thesis using v True ps len by simp
  qed
qed simp

text \<open>Copying messages appends them to the default branch and changes no other value.\<close>

lemma append_message_values:
  assumes "append_message ops me now fresh b msg ty h = (Returned i, h')" and "inv (h_storage h)"
    and "a \<noteq> branch_tip b"
  shows "get_value (view h') a = get_value (view h) a"
proof -
  obtain x where mut: "mutate me (append_job ops now fresh b msg ty) h = (Returned x, h')"
    using assms(1) by (auto simp: append_message_def split: option.splits prod.splits outcome.splits)
  obtain m where m: "append_job ops now fresh b msg ty
      \<lparr>mu_storage = h_storage h, mu_active = True, mu_committed = False\<rparr> = (Inr x, m)" "h_storage h' = mu_storage m"
    using mutate_Returned [OF mut] by blast
  obtain parent where "abs (mu_storage m) = apply_writes (append_writes (view h) now b
       \<lparr>ne_id = fresh, ne_parent_id = parent, ne_type = ty, ne_message = Some msg\<rparr>) (view h)"
    using append_job_done [OF m(1) assms(2)] by metis
  then show ?thesis using assms(3) m(2) by (simp add: append_writes_state)
qed

end

context session_storage begin

lemma on_message_done:
  assumes "on_message ops me now i m MESSAGE_ENTRY rc h = (Returned x, rc', h')" and "handle_wf h"
    and "rc_branch rc = DEFAULT_BRANCH" and "rc_resolved rc \<in> {None, Some DEFAULT_BRANCH}"
    and "branch_log (view h) DEFAULT_BRANCH es"
  shows "handle_wf h' \<and> rc_branch rc' = DEFAULT_BRANCH \<and> rc_resolved rc' \<in> {None, Some DEFAULT_BRANCH} \<and>
    (\<exists>e. branch_log (view h') DEFAULT_BRANCH (es @ [e]) \<and> e_type e = MESSAGE_ENTRY \<and> e_message e = Some m) \<and>
    (\<forall>a. a \<noteq> branch_tip DEFAULT_BRANCH \<longrightarrow> get_value (view h') a = get_value (view h) a)"
proof -
  from assms(1) obtain b rc1 h1 h2 y where 1: "ensure_branch ops me now rc h = (Returned b, rc1, h1)"
    "append_message ops me now i b m MESSAGE_ENTRY h1 = (Returned y, h2)"
    "rc' = rc1\<lparr>rc_entry_ids := rc_entry_ids rc1 @ [y]\<rparr>" "h' = h2"
    by (auto simp: on_message_def split: prod.splits outcome.splits)
  have "b = DEFAULT_BRANCH \<and> h_storage h1 = h_storage h \<and> rc_branch rc1 = DEFAULT_BRANCH \<and>
      rc_resolved rc1 = Some DEFAULT_BRANCH"
    using 1(1) assms(3,4)
    by (auto simp: ensure_branch_def handle_branch_def branch_object_def
        split: option.splits prod.splits sum.splits if_splits)
  then have e: "b = DEFAULT_BRANCH" "h_storage h1 = h_storage h" "rc_branch rc1 = DEFAULT_BRANCH"
      "rc_resolved rc1 = Some DEFAULT_BRANCH" by simp_all
  have wf: "handle_wf h1" "branch_log (view h1) DEFAULT_BRANCH es"
    using assms(2,5) e(2) by (simp_all add: handle_wf_def)
  have inv: "inv (h_storage h1)" using wf(1) by (simp add: handle_wf_def)
  note a = append_message_log [OF 1(2) [unfolded e(1)] wf]
  have "\<forall>a. a \<noteq> branch_tip DEFAULT_BRANCH \<longrightarrow> get_value (view h2) a = get_value (view h1) a"
    using append_message_values [OF 1(2) [unfolded e(1)] inv] by blast
  then show ?thesis using a e 1(3,4) by auto
qed

lemma copy_messages_done:
  assumes "copy_messages ops me now fresh i ms rc h = (Returned (), h')" and "handle_wf h"
    and "rc_branch rc = DEFAULT_BRANCH" and "rc_resolved rc \<in> {None, Some DEFAULT_BRANCH}"
    and "branch_log (view h) DEFAULT_BRANCH es"
  shows "handle_wf h' \<and>
    (\<exists>new. branch_log (view h') DEFAULT_BRANCH (es @ new) \<and> transcript_of new = ms) \<and>
    (\<forall>a. a \<noteq> branch_tip DEFAULT_BRANCH \<longrightarrow> get_value (view h') a = get_value (view h) a)"
  using assms
proof (induction ms arbitrary: i rc h es)
  case Nil
  then show ?case by (auto intro!: exI [of _ "[]"])
next
  case (Cons m ms i rc h es)
  from Cons.prems(1) obtain x rc1 h1 where 1: "on_message ops me now (fresh i) m MESSAGE_ENTRY rc h = (Returned x, rc1, h1)"
    "copy_messages ops me now fresh (Suc i) ms rc1 h1 = (Returned (), h')"
    by (auto split: prod.splits outcome.splits)
  from on_message_done [OF 1(1) Cons.prems(2-5)] obtain e where
    o: "handle_wf h1" "rc_branch rc1 = DEFAULT_BRANCH" "rc_resolved rc1 \<in> {None, Some DEFAULT_BRANCH}"
      "branch_log (view h1) DEFAULT_BRANCH (es @ [e])" "e_type e = MESSAGE_ENTRY" "e_message e = Some m"
    and keep: "\<forall>a. a \<noteq> branch_tip DEFAULT_BRANCH \<longrightarrow> get_value (view h1) a = get_value (view h) a" by blast
  from Cons.IH [OF 1(2) o(1-4)] obtain new where
    n: "handle_wf h'" "branch_log (view h') DEFAULT_BRANCH ((es @ [e]) @ new)" "transcript_of new = ms"
    and keep': "\<forall>a. a \<noteq> branch_tip DEFAULT_BRANCH \<longrightarrow> get_value (view h') a = get_value (view h1) a" by blast
  have "transcript_of (e # new) = m # ms"
    using o(5,6) n(3) by (simp add: TRANSCRIPT_TYPES_def)
  moreover have "branch_log (view h') DEFAULT_BRANCH (es @ e # new)" using n(2) by simp
  ultimately show ?case using n(1) keep keep' by (intro conjI exI [of _ "e # new"]) simp_all
qed

lemma scratch_copy_done:
  assumes "scratch_copy ops me now fresh deletes i source h = (Seen n, Some h')"
    and "messages_for_branch ops DEFAULT_BRANCH source = Some (Inr (Some ms))"
    and "handle_wf h" and "branch_log (view h) DEFAULT_BRANCH []"
    and "get_value (view h) (branch_compaction DEFAULT_BRANCH) = None"
  shows "messages_for_branch ops DEFAULT_BRANCH h' = Some (Inr (Some ms)) \<and> n = length ms \<and>
    map_option sv_value (get_value (view h') session_scratch) = Some (PDict [(''source'', PStr i)])"
proof -
  from assms(1,2) obtain h1 r where c: "copy_messages ops me now fresh 0 ms (new_recorder DEFAULT_BRANCH) h = (Returned (), h1)"
    "handle_set_value ops me now session_scratch (PDict [(''source'', PStr i)]) h1 = (Returned r, h')"
    and n: "n = length ms"
    by (auto simp: scratch_copy_def split: prod.splits outcome.splits if_splits dest!: and_next_Returned)
  have rc: "rc_branch (new_recorder DEFAULT_BRANCH) = DEFAULT_BRANCH"
    "rc_resolved (new_recorder DEFAULT_BRANCH) \<in> {None, Some DEFAULT_BRANCH}"
    by (simp_all add: new_recorder_def)
  from copy_messages_done [OF c(1) assms(3) rc assms(4)] obtain new where
    d: "handle_wf h1" "branch_log (view h1) DEFAULT_BRANCH new" "transcript_of new = ms"
    and keep: "\<forall>a. a \<noteq> branch_tip DEFAULT_BRANCH \<longrightarrow> get_value (view h1) a = get_value (view h) a" by auto
  have inv: "inv (h_storage h1)" using d(1) by (simp add: handle_wf_def)
  note s = set_value_done [OF c(2) inv]
  have ne: "session_scratch \<noteq> branch_tip b" "branch_compaction b \<noteq> session_scratch" "branch_compaction b \<noteq> branch_tip b" for b
    by (simp_all add: session_scratch_def branch_tip_def branch_compaction_def SCRATCH_NS_def BRANCH_TIP_NS_def COMPACTION_NS_def)
  have log: "branch_log (view h') DEFAULT_BRANCH new"
    using branch_log_same [OF d(2)] s ne by metis
  have none: "get_value (view h') (branch_compaction DEFAULT_BRANCH) = None"
    using s keep assms(5) ne by metis
  have v: "assert_valid_branch DEFAULT_BRANCH = None" by code_simp
  have "well_formed ms" by (rule messages_for_branch_well_formed [OF assms(2)])
  then have "entries_to_messages new = Some ms"
    using repair_identity d(3) by (simp add: entries_to_messages_def)
  then show ?thesis using messages_of_log [OF _ _ v log none] s n by simp
qed

end

subsection \<open>The list and the view\<close>

lemma append_message_commit:
  assumes "append_message ops me now i b m ty h = (Returned x, h')"
  obtains parent r where "so_commit ops now
      [EntryWrite \<lparr>ne_id = i, ne_parent_id = parent, ne_type = ty, ne_message = Some m\<rparr>,
       set_value (branch_tip b) (PStr i)] (h_storage h) = (Inr r, h_storage h')"
    "h_state h' = HOpen"
  using assms
  by (auto simp: append_message_def mutate_def begin_mutation_def mutation_end_def append_job_def
      mutation_get_value_def mutation_commit_def assert_open_def
      split: option.splits prod.splits outcome.splits acquire_result.splits sum.splits if_splits)

lemma drop_window: "0 < w \<Longrightarrow> drop (length (xs @ [l]) - w) (xs @ [l]) = drop (length (xs @ [l]) - w) xs @ [l]"
  by simp

lemma unanswered_tail:
  assumes "tail_knows (PStr (ne_id e)) e f" and "ne_message e = Some m"
    and "dget m ''role'' = PStr ''user''" and "call_ids m = Some []"
  shows "tail_is_truncated f = Some (Verdict False)"
  using assms
  by (auto simp: tail_knows_def tail_is_truncated_def walk_tail.simps [of _ _ "Some (ne_id e)"] is_tool_def)

context session_storage begin

lemma truncated_after_user:
  assumes "h_state h = HOpen" and "is_open (h_storage h)"
    and "branch_log (view h) DEFAULT_BRANCH (es @ [e])" and "e_type e = MESSAGE_ENTRY"
    and "e_message e = Some m" and "dget m ''role'' = PStr ''user''"
  shows "fst (truncated_tail ops False h) = Seen True"
proof -
  let ?q = "default_branch_scan\<lparr>bs_order := NewestFirst, bs_limit := Some TAIL_SCAN_LIMIT\<rparr>"
  have v: "assert_valid_branch DEFAULT_BRANCH = None" by code_simp
  obtain h' s where b: "branch_entries ops DEFAULT_BRANCH ?q h =
      (Seen (branch_page (?q\<lparr>bs_start := s\<rparr>) (rev (es @ [e]))), h')"
    using branch_entries_log [OF assms(1,2) v assms(3) newest_start] by blast
  have "branch_page (?q\<lparr>bs_start := s\<rparr>) (rev (es @ [e])) = e # take 63 (rev es)"
    by (simp add: branch_page_def branch_match_def default_branch_scan_def page_of_def TAIL_SCAN_LIMIT_def)
  with b assms(4-6) show ?thesis by (simp add: truncated_tail_def is_tool_def)
qed

end

subsection \<open>Properties\<close>

text \<open>
  C17. A client that follows the cursors reads a branch completely: for either order and any limit it
  asks for, the pages end, together they are the entries of the branch in that order, each once, with
  the images replaced by references, and no page is longer than the limit the server allows.
\<close>

theorem pages_cover_the_branch:
  assumes "h_state h = HOpen" and "\<not> js_closed (h_storage h)" and "state_wf (js_state (h_storage h))"
    and "assert_valid_branch b = None" and "branch_log (js_state (h_storage h)) b es"
    and "branch_log (js_state (h_storage h)) DEFAULT_BRANCH ds" and "list_all readable_calls ds"
    and "order \<in> {''asc'', ''desc''}" and "length es < fuel"
  shows "\<exists>pages. follow_pages jsonl_ops active b order limit fuel None h = Some pages \<and>
    concat pages = map entry_view (if order = ''asc'' then es else rev es) \<and>
    list_all (\<lambda>p. int (length p) \<le> page_size limit) pages \<and> page_size limit \<le> MAX_ENTRY_LIMIT"
proof -
  have sorted: "sorted_wrt (\<lambda>a b. e_seq a < e_seq b) es"
    using jsonl.log_sorted [OF _ assms(5)] assms(3) by (simp add: state_wf_def)
  have all: "served order es = [] @ served order es" "None = (if ([] :: entry list) = [] then None else Some (e_seq (last [])))"
    "length (served order es) < fuel"
    using assms(9) by (simp_all add: served_def)
  from jsonl.follow_pages_log [OF assms(1,2,4,5) sorted assms(6-8) all] page_size_bounds(2)
  show ?thesis by (auto simp: served_def list_all_iff)
qed

theorem pages_cover_the_branch_witness:
  "\<exists>pages e. follow_pages jsonl_ops False DEFAULT_BRANCH ''desc'' (Some 0) 2 None one_turn = Some pages \<and>
     concat pages = [entry_view e] \<and> is_user_entry e"
proof -
  obtain e where e: "branch_log (js_state (h_storage one_turn)) DEFAULT_BRANCH [e]" "is_user_entry e"
    using one_turn_log(1) by blast
  have o: "h_state one_turn = HOpen" "\<not> js_closed (h_storage one_turn)" "assert_valid_branch DEFAULT_BRANCH = None"
    by code_simp+
  have "st_entries (js_state (h_storage one_turn)) ''i1'' = Some e"
  proof -
    have "get_value (js_state (h_storage one_turn)) (branch_tip DEFAULT_BRANCH) \<noteq> None \<and>
        map_option sv_value (get_value (js_state (h_storage one_turn)) (branch_tip DEFAULT_BRANCH)) = Some (PStr ''i1'')"
      by code_simp
    then show ?thesis using e(1) by (auto simp: branch_log_def elim: chain_Cons_E)
  qed
  moreover have "Option.bind (st_entries (js_state (h_storage one_turn)) ''i1'') e_message = Some hello" by code_simp
  ultimately have "list_all readable_calls [e]"
    by (simp add: readable_calls_def hello_def call_ids_def calls_of_def)
  from pages_cover_the_branch [OF o(1,2) one_turn_log(2) o(3) e(1) e(1) this, of "''desc''" 2 False "Some 0"] e(2)
  show ?thesis by auto
qed

text \<open>
  C18. A scratch conversation starts from exactly the history of its source: when creating it succeeds,
  the messages the next model call reads from the new session are those projected from the source's
  branch, a compacted prefix as its summary, and the session carries the mark with the source's id.
\<close>

theorem scratch_copies_history:
  assumes "scratch_copy jsonl_ops me now fresh deletes i source h = (Seen n, Some h')"
    and "messages_for_branch jsonl_ops DEFAULT_BRANCH source = Some (Inr (Some ms))"
    and "state_wf (js_state (h_storage h))" and "tips_wf (js_state (h_storage h))"
    and "branch_log (js_state (h_storage h)) DEFAULT_BRANCH []"
    and "get_value (js_state (h_storage h)) (branch_compaction DEFAULT_BRANCH) = None"
  shows "messages_for_branch jsonl_ops DEFAULT_BRANCH h' = Some (Inr (Some ms)) \<and> n = length ms \<and>
    map_option sv_value (get_value (js_state (h_storage h')) session_scratch) = Some (PDict [(''source'', PStr i)])"
  by (rule jsonl.scratch_copy_done [OF assms(1,2) _ assms(5,6)]) (use assms(3,4) in \<open>simp add: jsonl.handle_wf_def\<close>)

theorem scratch_copies_history_witness:
  "messages_for_branch jsonl_ops DEFAULT_BRANCH
     (the (snd (scratch_copy jsonl_ops 1 20 (\<lambda>k. ''n1'') True ''s'' one_turn (fresh_session [])))) =
   Some (Inr (Some [hello]))"
proof -
  let ?r = "scratch_copy jsonl_ops 1 20 (\<lambda>k. ''n1'') True ''s'' one_turn (fresh_session [])"
  have "case ?r of (Seen n, Some h) \<Rightarrow> n = 1 | _ \<Rightarrow> False" by code_simp
  then have r: "?r = (Seen 1, Some (the (snd ?r)))"
    by (cases ?r) (auto split: seen.splits option.splits)
  have m: "messages_for_branch jsonl_ops DEFAULT_BRANCH one_turn = Some (Inr (Some [hello]))" by code_simp
  have "get_value (js_state (h_storage (fresh_session []))) (branch_compaction DEFAULT_BRANCH) = None" by code_simp
  from scratch_copies_history [OF r m fresh_session_wf this] show ?thesis by simp
qed

text \<open>
  C37. The list page and the view of the same idle session disagree about its tail: right after the
  message of a user was stored, with no answer to it, the view says that the session was interrupted
  there, and the list, which reads the facts off the file, says that it was not.
\<close>

theorem list_misses_unanswered_message:
  assumes "append_message jsonl_ops me now i DEFAULT_BRANCH m MESSAGE_ENTRY h = (Returned x, h')"
    and "in_step (h_storage h) bs" and "state_wf (js_state (h_storage h))"
    and "tips_wf (js_state (h_storage h))"
    and "dget m ''role'' = PStr ''user''" and "call_ids m = Some []"
    and "json_wf (PDict m)" and "i \<noteq> []" and "0 \<le> now"
    and "clean_fault (fst (next_fault (js_faults (h_storage h))))"
  shows "fst (truncated_tail jsonl_ops False h') = Seen True \<and>
    (\<exists>content name count. js_file (h_storage h') = Some content \<and>
       listed_facts jsonl_ops False content h' =
         Seen \<lparr>lf_name = name, lf_count = count, lf_truncated = False\<rparr>)"
proof -
  let ?s = "h_storage h" and ?s' = "h_storage h'"
  obtain parent r where c: "jsonl_commit now
      [EntryWrite \<lparr>ne_id = i, ne_parent_id = parent, ne_type = MESSAGE_ENTRY, ne_message = Some m\<rparr>,
       set_value (branch_tip DEFAULT_BRANCH) (PStr i)] ?s = (Inr r, ?s')" and o: "h_state h' = HOpen"
    using append_message_commit [OF assms(1)] by (auto simp: jsonl_ops_def)
  let ?e = "\<lparr>ne_id = i, ne_parent_id = parent, ne_type = MESSAGE_ENTRY, ne_message = Some m\<rparr>"
  let ?n = "st_next_seq (js_state ?s)"
  let ?ws = "[CommittedEntry ?n now ?e, CommittedValueSet (?n + 1) BRANCH_TIP_NS DEFAULT_BRANCH (PStr i)]"
  have ok: "[EntryWrite ?e, set_value (branch_tip DEFAULT_BRANCH) (PStr i)] \<noteq> []"
    "\<forall>w\<in>set [EntryWrite ?e, set_value (branch_tip DEFAULT_BRANCH) (PStr i)]. request_ok w"
    using assms(7,8) by (simp_all add: set_value_def branch_tip_def BRANCH_TIP_NS_def)
  from in_step_commit [OF assms(2) c ok assms(9,10)] obtain p where
    p: "prepare_commit (js_state ?s) [EntryWrite ?e, set_value (branch_tip DEFAULT_BRANCH) (PStr i)] now = Inr p"
      "in_step ?s' (bs @ [pc_writes p])" by blast
  have ws: "pc_writes p = ?ws"
    using p(1) by (simp add: prepare_commit_Inr set_value_def branch_tip_def)
  have b: "batch_ok ?ws" and f: "js_file ?s' = Some (file_text (js_header ?s') (bs @ [?ws]))"
    using p(2) ws by (simp_all add: in_step_def)
  let ?ls = "encode_header (js_header ?s') # map encode_transaction (bs @ [?ws])"
  have "tail_lines (file_text (js_header ?s') (bs @ [?ws])) TAIL_WINDOW_LINES =
      drop (length ?ls - TAIL_WINDOW_LINES) ?ls"
    unfolding file_text_def by (rule tail_lines_text) (use encoded_lines in auto)
  also have "\<dots> = drop (length ?ls - TAIL_WINDOW_LINES) (encode_header (js_header ?s') # map encode_transaction bs) @ [encode_transaction ?ws]"
    using drop_window [of 32 "encode_header (js_header ?s') # map encode_transaction bs" "encode_transaction ?ws"]
    by (simp add: TAIL_WINDOW_LINES_def)
  finally have t: "tail_is_truncated (tail_state (tail_lines (file_text (js_header ?s') (bs @ [?ws])) TAIL_WINDOW_LINES)) =
      Some (Verdict False)"
    using unanswered_tail [OF tail_state_last [of ?ws _ _ ?e, OF _ b]] assms(5,6) by simp
  obtain es where log: "branch_log (js_state ?s) DEFAULT_BRANCH es"
    using branch_log_exists [OF assms(3,4)] by blast
  have wf: "jsonl.handle_wf h" using assms(3,4) by (simp add: jsonl.handle_wf_def)
  obtain e where e: "branch_log (js_state ?s') DEFAULT_BRANCH (es @ [e])" "e_type e = MESSAGE_ENTRY" "e_message e = Some m"
    using jsonl.append_message_log [OF assms(1) wf log] by blast
  have open': "\<not> js_closed ?s'"
    using jsonl.commit_done [OF assms(3)] c by (auto simp: jsonl_ops_def)
  show ?thesis
    using jsonl.truncated_after_user [OF o open' e assms(5)] f t
    by (simp add: listed_facts_def summarize_file_def)
qed

theorem list_misses_unanswered_message_witness:
  "fst (truncated_tail jsonl_ops False
     (snd (append_message jsonl_ops 1 9 ''i1'' DEFAULT_BRANCH hello MESSAGE_ENTRY
        (open_handle sample_metadata (sample_storage []) True)))) = Seen True"
proof -
  let ?h = "open_handle sample_metadata (sample_storage []) True"
  let ?r = "append_message jsonl_ops 1 9 ''i1'' DEFAULT_BRANCH hello MESSAGE_ENTRY ?h"
  have "fst ?r = Returned ''i1''" by code_simp
  then have r: "?r = (Returned ''i1'', snd ?r)" by (metis prod.collapse)
  have h: "in_step (h_storage ?h) []" "state_wf (js_state (h_storage ?h))" "tips_wf (js_state (h_storage ?h))"
    "clean_fault (fst (next_fault (js_faults (h_storage ?h))))"
    using sample_in_step fresh_session_wf(1,2) [of "[]"]
    by (simp_all add: open_handle_def sample_storage_def fresh_session_def clean_fault_def)
  have m: "dget hello ''role'' = PStr ''user''" "call_ids hello = Some []" "json_wf (PDict hello)"
    by (simp_all add: hello_def call_ids_def calls_of_def)
  from list_misses_unanswered_message [OF r h(1-3) m _ _ h(4)] show ?thesis by simp
qed

text \<open>An entry of the transcript that is no message counts in the list only.\<close>

definition failed_turn :: "jsonl_storage handle" where
  "failed_turn = snd (append_message jsonl_ops 1 10 ''i2'' DEFAULT_BRANCH
     [(''role'', PStr ''assistant''), (''content'', PStr ''x'')] ERROR_ENTRY (fresh_session []))"

lemma list_counts_error_entries:
  "map_option (count_part ENTRY_MARKER) (js_file (h_storage failed_turn)) = Some 1 \<and>
   handle_get_stats jsonl_ops failed_turn = Inr 0"
  by code_simp

end
