(* ===== verification/Session_Refinement.thy ===== *)
theory Session_Refinement
  imports Session_Memory Session_Jsonl
begin

section \<open>The file backend refines the in-process backend\<close>

text \<open>
  The protocol \<open>Storage\<close> of \<open>avid/session/types.py\<close> has two implementations. Here a client is a list of
  calls, and what it observes is the list of answers. The abstraction forgets the file, its lock and the
  faults to come; a call that fails in the file system has no counterpart in the in-process backend.
\<close>

subsection \<open>Clients\<close>

datatype storage_call =
    CallCommit int "session_write list"
  | CallEntries "string list"
  | CallValue value_address
  | CallValues string
  | CallBranch branch_scan
  | CallScan entry_query
  | CallStats
  | CallClose

datatype storage_answer =
    AnsCommit "session_error + commit_result"
  | AnsEntries "session_error + (string \<times> entry) list"
  | AnsValue "session_error + stored_value option"
  | AnsValues "session_error + stored_value list"
  | AnsBranch "(session_error + entry list) option"
  | AnsScan "session_error + entry list"
  | AnsStats "session_error + nat"
  | AnsClose

fun storage_step :: "'s storage_ops \<Rightarrow> storage_call \<Rightarrow> 's \<Rightarrow> storage_answer \<times> 's" where
  "storage_step ops (CallCommit now ws) s = (let (r, s') = so_commit ops now ws s in (AnsCommit r, s'))"
| "storage_step ops (CallEntries ids) s = (AnsEntries (so_get_entries ops ids s), s)"
| "storage_step ops (CallValue a) s = (AnsValue (so_get_value ops a s), s)"
| "storage_step ops (CallValues ns) s = (AnsValues (so_scan_values ops ns s), s)"
| "storage_step ops (CallBranch q) s = (AnsBranch (so_scan_branch ops q s), s)"
| "storage_step ops (CallScan q) s = (AnsScan (so_scan_entries ops q s), s)"
| "storage_step ops CallStats s = (AnsStats (so_get_stats ops s), s)"
| "storage_step ops CallClose s = (AnsClose, so_close ops s)"

fun storage_run :: "'s storage_ops \<Rightarrow> storage_call list \<Rightarrow> 's \<Rightarrow> storage_answer list \<times> 's" where
  "storage_run ops [] s = ([], s)"
| "storage_run ops (c # cs) s =
     (let (a, s1) = storage_step ops c s; (as, s2) = storage_run ops cs s1 in (a # as, s2))"

definition in_storage :: "session_error + 'a \<Rightarrow> bool" where
  "in_storage r \<longleftrightarrow> (case r of Inl (SessionStorageError _) \<Rightarrow> True | _ \<Rightarrow> False)"

definition storage_failed :: "storage_answer \<Rightarrow> bool" where
  "storage_failed a \<longleftrightarrow> (case a of AnsCommit r \<Rightarrow> in_storage r | _ \<Rightarrow> False)"

subsection \<open>Simulation\<close>

locale storage_simulation =
  fixes cops :: "'c storage_ops" and aops :: "'a storage_ops" and abs :: "'c \<Rightarrow> 'a"
  assumes sim_commit: "\<lbrakk>so_commit cops now ws s = (r, s'); \<not> in_storage r\<rbrakk> \<Longrightarrow>
            so_commit aops now ws (abs s) = (r, abs s')"
    and sim_failed: "\<lbrakk>so_commit cops now ws s = (r, s'); in_storage r\<rbrakk> \<Longrightarrow> abs s' = abs s"
    and sim_entries: "so_get_entries cops ids s = so_get_entries aops ids (abs s)"
    and sim_value: "so_get_value cops a s = so_get_value aops a (abs s)"
    and sim_values: "so_scan_values cops ns s = so_scan_values aops ns (abs s)"
    and sim_branch: "so_scan_branch cops q s = so_scan_branch aops q (abs s)"
    and sim_scan: "so_scan_entries cops eq s = so_scan_entries aops eq (abs s)"
    and sim_stats: "so_get_stats cops s = so_get_stats aops (abs s)"
    and sim_close: "abs (so_close cops s) = so_close aops (abs s)"

begin

lemmas sim_reads = sim_entries sim_value sim_values sim_branch sim_scan sim_stats sim_close

lemma step_refines:
  assumes "storage_step cops c s = (a, s')"
  shows "if storage_failed a then abs s' = abs s else storage_step aops c (abs s) = (a, abs s')"
proof (cases c)
  case (CallCommit now ws)
  obtain r s1 where r: "so_commit cops now ws s = (r, s1)" by fastforce
  then show ?thesis
    using assms CallCommit sim_commit [OF r] sim_failed [OF r] by (auto simp: storage_failed_def)
qed (use assms in \<open>auto simp: storage_failed_def sim_reads\<close>)

text \<open>What a client sees is what the other backend shows it, up to the calls that failed in the file.\<close>

lemma run_refines:
  assumes "storage_run cops cs s = (as, s')"
  shows "storage_run aops (map fst (filter (\<lambda>(c, a). \<not> storage_failed a) (zip cs as))) (abs s) =
    (filter (\<lambda>a. \<not> storage_failed a) as, abs s') \<and> length as = length cs"
  using assms
proof (induction cs arbitrary: s as)
  case (Cons c cs)
  obtain a s1 where a: "storage_step cops c s = (a, s1)" by fastforce
  obtain as' where as: "storage_run cops cs s1 = (as', s')" "as = a # as'"
    using Cons.prems a by (auto simp: Let_def split: prod.splits)
  show ?case
  proof (cases "storage_failed a")
    case True
    then show ?thesis using step_refines [OF a] Cons.IH [OF as(1)] as(2) by simp
  next
    case False
    then show ?thesis using step_refines [OF a] Cons.IH [OF as(1)] as(2) by (simp add: Let_def)
  qed
qed simp

end

definition in_memory :: "jsonl_storage \<Rightarrow> mem_storage" where
  "in_memory s = \<lparr>ms_state = js_state s, ms_closed = js_closed s\<rparr>"

lemma fsync_write_error: "fst (fsync_write fault b data c) = Some e \<Longrightarrow> \<exists>x. e = SessionStorageError x"
  by (auto simp: fsync_write_def Let_def split: io_fault.splits if_splits)


lemma commit_refines:
  assumes "jsonl_commit now ws s = (r, s')"
  shows "if in_storage r then in_memory s' = in_memory s else mem_commit now ws (in_memory s) = (r, in_memory s')"
proof (cases "js_closed s \<or> (\<exists>e. prepare_commit (js_state s) ws now = Inl e)")
  case True
  then have "s' = s \<and> mem_commit now ws (in_memory s) = (r, in_memory s)"
    using assms by (auto simp: jsonl_commit_def mem_commit_def in_memory_def split: if_splits)
  then show ?thesis by simp
next
  case False
  then obtain p where p: "prepare_commit (js_state s) ws now = Inr p"
    by (cases "prepare_commit (js_state s) ws now") auto
  obtain f rest where f: "(if pc_writes p = [] then (NoFault, js_faults s) else next_fault (js_faults s)) = (f, rest)"
    by fastforce
  obtain err c where w: "(if pc_writes p = [] then (None, js_file s)
      else fsync_write f True (encode_transaction (pc_writes p) @ [LF]) (js_file s)) = (err, c)"
    by fastforce
  show ?thesis
  proof (cases err)
    case None
    then show ?thesis using assms False p f w
      by (auto simp: jsonl_commit_def mem_commit_def in_memory_def in_storage_def Let_def)
  next
    case (Some e)
    have "\<exists>x. e = SessionStorageError x"
      using w Some fsync_write_error [of f True "encode_transaction (pc_writes p) @ [LF]" "js_file s" e]
      by (auto split: if_splits)
    moreover have "r = Inl e \<and> in_memory s' = in_memory s"
      using assms False p f w Some by (auto simp: jsonl_commit_def in_memory_def Let_def)
    ultimately show ?thesis by (auto simp: in_storage_def)
  qed
qed

interpretation file_refines: storage_simulation jsonl_ops memory_ops in_memory
proof unfold_locales
  fix now ws s r s'
  assume "so_commit jsonl_ops now ws s = (r, s')"
  then have c: "jsonl_commit now ws s = (r, s')" by (simp add: jsonl_ops_def)
  show "so_commit memory_ops now ws (in_memory s) = (r, in_memory s')" if "\<not> in_storage r"
    using commit_refines [OF c] that by (simp add: memory_ops_def)
  show "in_memory s' = in_memory s" if "in_storage r"
    using commit_refines [OF c] that by simp
qed (simp_all add: jsonl_ops_def memory_ops_def jsonl_when_open_def mem_when_open_def jsonl_close_def in_memory_def)

subsection \<open>Properties\<close>

text \<open>
  C2. The file backend refines the in-process backend: whatever sequence of commits, reads and closing a
  client makes, and whatever faults the file system has, it gets from a session file exactly the answers the
  in-process backend would give to the same calls without those that failed in storage, and both end in the
  same state.
\<close>

theorem file_backend_refines_memory:
  assumes "storage_run jsonl_ops cs s = (as, s')"
  shows "storage_run memory_ops (map fst (filter (\<lambda>(c, a). \<not> storage_failed a) (zip cs as))) (in_memory s) =
    (filter (\<lambda>a. \<not> storage_failed a) as, in_memory s') \<and> length as = length cs"
  by (rule file_refines.run_refines [OF assms])

definition name_commit :: "string \<Rightarrow> storage_call" where
  "name_commit s = CallCommit 9 [ValueSetWrite SESSION_NAME_NS ''name'' (PStr s)]"

theorem file_backend_refines_memory_witness:
  "storage_run memory_ops [name_commit ''b'', CallStats] (in_memory (h_storage (fresh_session [WriteFault]))) =
   (drop 1 (fst (storage_run jsonl_ops [name_commit ''a'', name_commit ''b'', CallStats]
      (h_storage (fresh_session [WriteFault])))),
    in_memory (snd (storage_run jsonl_ops [name_commit ''a'', name_commit ''b'', CallStats]
      (h_storage (fresh_session [WriteFault])))))"
proof -
  let ?run = "storage_run jsonl_ops [name_commit ''a'', name_commit ''b'', CallStats] (h_storage (fresh_session [WriteFault]))"
  have f: "map storage_failed (fst ?run) = [True, False, False]" by code_simp
  then obtain a b c where abc: "fst ?run = [a, b, c]" "storage_failed a" "\<not> storage_failed b" "\<not> storage_failed c"
    by (auto simp: map_eq_Cons_conv)
  have "?run = ([a, b, c], snd ?run)" using abc(1) by (metis prod.collapse)
  from file_backend_refines_memory [OF this] abc show ?thesis by simp
qed

end
