(* ===== verification/Spec2Isabelle.thy ===== *)
theory Spec2Isabelle
  imports Agent_Files Agent_Run Providers_Client Security_Commands Services_Approvals Services_Registry Services_Sessions Session_Refinement
begin

text \<open>
  A verification development of the session and agent kernel of Avid (\<open>src/avid\<close>).
\<close>

end
